(* ===== verification/Prelude.thy ===== *)
theory Prelude
  imports Main "HOL-Library.Word" "HOL-Library.Monad_Syntax" "HOL-Library.Multiset"
begin

text \<open>
  Shared vocabulary of the development: the machine types of the 32-bit Pintos kernel, the
  result type of code that can panic, and generic lemmas on options, lists and words.

  Kernel code that may fail an \<open>ASSERT\<close> or call \<open>PANIC\<close> (src/proj-pregame/src/lib/debug.h)
  returns an option: \<^term>\<open>None\<close> is the halted kernel, \<^term>\<open>Some\<close> the normal return. Error
  codes and null pointers that the code returns to its caller are ordinary values.
\<close>

unbundle bit_operations_syntax

named_theorems panic_simps \<open>how a panicking computation can return\<close>
named_theorems rep_simps \<open>representation predicates unfolded\<close>

type_synonym u8 = "8 word"
type_synonym u16 = "16 word"
type_synonym u32 = "32 word"
type_synonym u64 = "64 word"
type_synonym addr = "32 word"

subsection \<open>Assertions\<close>

definition ASSERT :: "bool \<Rightarrow> unit option" where
  "ASSERT b = (if b then Some () else None)"

lemma ASSERT_True [simp]: "ASSERT True = Some ()"
  by (simp add: ASSERT_def)

lemma ASSERT_False [simp]: "ASSERT False = None"
  by (simp add: ASSERT_def)

lemma ASSERT_eq_Some [simp]: "ASSERT b = Some u \<longleftrightarrow> b"
  by (simp add: ASSERT_def)

lemma ASSERT_eq_None [simp]: "ASSERT b = None \<longleftrightarrow> \<not> b"
  by (simp add: ASSERT_def)

lemma ASSERT_bind [panic_simps]: "(ASSERT b \<bind> f) = (if b then f () else None)"
  by (simp add: ASSERT_def)

lemma bind_Some_iff [panic_simps]: "(m \<bind> f) = Some y \<longleftrightarrow> (\<exists>x. m = Some x \<and> f x = Some y)"
  by (cases m) auto

subsection \<open>Words\<close>

lemma distinct_word_length:
  fixes xs :: "'a::len word list"
  assumes "distinct xs"
  shows "length xs \<le> 2 ^ LENGTH('a)"
proof -
  have "length xs = card (set xs)"
    using assms by (simp add: distinct_card)
  also have "\<dots> \<le> card (UNIV :: 'a word set)"
    by (rule card_mono) auto
  finally show ?thesis by (simp add: card_word)
qed

lemma unat_of_nat_id:
  "n < 2 ^ LENGTH('a) \<Longrightarrow> unat (of_nat n :: 'a::len word) = n"
  by (simp add: unat_of_nat take_bit_nat_eq_self)

lemma unat_plus_le:
  assumes "unat (a :: 'a::len word) + unat b \<le> unat (c :: 'a word)"
  shows "unat (a + b) = unat a + unat b"
proof -
  have "unat a + unat b < 2 ^ LENGTH('a)" using assms unsigned_less by (rule le_less_trans)
  then show ?thesis by (simp add: unat_plus_if')
qed

lemma unat_ucast_mod: "unat (ucast (w :: 'a::len word) :: 'b::len word) = unat w mod 2 ^ LENGTH('b)"
  by (simp add: unsigned_ucast_eq take_bit_eq_mod)

lemma unat_ucast_up:
  "LENGTH('a) \<le> LENGTH('b) \<Longrightarrow> unat (ucast (w :: 'a::len word) :: 'b::len word) = unat w"
proof -
  assume "LENGTH('a) \<le> LENGTH('b)"
  then have "(2 :: nat) ^ LENGTH('a) \<le> 2 ^ LENGTH('b)" by (intro power_increasing) auto
  then have "unat w < 2 ^ LENGTH('b)" using unsigned_less [of w, where 'a = nat] by linarith
  then show ?thesis by (simp add: unat_ucast_mod)
qed

lemma ucast_of_nat: "(ucast (w :: 'a::len word) :: 'b::len word) = of_nat (unat w)"
  by simp

lemma unat_drop_bit: "unat (drop_bit k (w :: 'a::len word)) = unat w div 2 ^ k"
  by (subst unsigned_drop_bit_eq) (simp add: drop_bit_eq_div take_bit_nat_eq_self)

lemma word_diff_0_eq: "0 = unat c - unat i \<Longrightarrow> (i :: 'a::len word) \<le> c \<Longrightarrow> i = c"
  by (simp add: word_le_nat_alt word_unat_eq_iff)

lemma unat_inc:
  assumes "i < (c :: 'a::len word)"
  shows "unat (i + 1) = Suc (unat i)"
  using unat_plus_le [of i 1 c] assms by (simp add: word_less_nat_alt Suc_le_eq)

subsection \<open>Searching a list\<close>

lemma find_SomeD: "List.find P xs = Some x \<Longrightarrow> x \<in> set xs \<and> P x"
  by (induction xs) (auto split: if_splits)

lemma find_eq_None: "List.find P xs = None \<longleftrightarrow> (\<forall>x \<in> set xs. \<not> P x)"
  by (induction xs) auto

text \<open>Two lists with the same unique candidate give the same search result.\<close>

lemma find_unique:
  assumes u: "\<And>a b. a \<in> set xs \<Longrightarrow> P a \<Longrightarrow> b \<in> set xs \<Longrightarrow> P b \<Longrightarrow> a = b"
    and s: "set ys \<subseteq> set xs" and c: "\<And>a. a \<in> set xs \<Longrightarrow> P a \<Longrightarrow> a \<in> set ys"
  shows "List.find P ys = List.find P xs"
proof (cases "List.find P xs")
  case None
  then have "List.find P ys = None" using s by (auto simp: find_eq_None)
  then show ?thesis using None by simp
next
  case (Some x)
  then have x: "x \<in> set xs" "P x" by (auto dest: find_SomeD)
  have "List.find P ys \<noteq> None" using c [OF x] x(2) unfolding find_eq_None by blast
  then obtain y where y: "List.find P ys = Some y" by blast
  then have "y \<in> set xs" "P y" using s by (auto dest: find_SomeD)
  then have "y = x" using u [OF _ _ x] by blast
  then show ?thesis using y Some by simp
qed

subsection \<open>Refinement of a data type by another\<close>

text \<open>
  Runs of operations. \<open>step s op\<close> returns the result of an operation and the new state, or
  \<^term>\<open>None\<close> when the operation panics.
\<close>

fun run_ops :: "('s \<Rightarrow> 'o \<Rightarrow> ('r \<times> 's) option) \<Rightarrow> 's \<Rightarrow> 'o list \<Rightarrow> ('r list \<times> 's) option" where
  "run_ops step s [] = Some ([], s)"
| "run_ops step s (op # ops) =
     step s op \<bind> (\<lambda>(r, s'). run_ops step s' ops \<bind> (\<lambda>(rs, s''). Some (r # rs, s'')))"

fun ops_pre :: "('s \<Rightarrow> 'o \<Rightarrow> ('r \<times> 's) option) \<Rightarrow> ('s \<Rightarrow> 'o \<Rightarrow> bool) \<Rightarrow> 's \<Rightarrow> 'o list \<Rightarrow> bool" where
  "ops_pre step pre s [] = True"
| "ops_pre step pre s (op # ops) =
     (pre s op \<and> (case step s op of None \<Rightarrow> True | Some (r, s') \<Rightarrow> ops_pre step pre s' ops))"

locale op_refinement =
  fixes rep :: "'c \<Rightarrow> 'a \<Rightarrow> bool"
    and cstep :: "'c \<Rightarrow> 'o \<Rightarrow> ('r \<times> 'c) option"
    and astep :: "'a \<Rightarrow> 'o \<Rightarrow> ('r \<times> 'a) option"
    and pre :: "'a \<Rightarrow> 'o \<Rightarrow> bool"
  assumes step_refines: "rep c a \<Longrightarrow> pre a op \<Longrightarrow>
    (case astep a op of
       None \<Rightarrow> cstep c op = None
     | Some (r, a') \<Rightarrow> \<exists>c'. cstep c op = Some (r, c') \<and> rep c' a')"
begin

lemma run_refines:
  "rep c a \<Longrightarrow> ops_pre astep pre a ops \<Longrightarrow>
   (case run_ops astep a ops of
      None \<Rightarrow> run_ops cstep c ops = None
    | Some (rs, a') \<Rightarrow> \<exists>c'. run_ops cstep c ops = Some (rs, c') \<and> rep c' a')"
proof (induction ops arbitrary: c a)
  case (Cons op ops)
  show ?case
  proof (cases "astep a op")
    case None
    then show ?thesis using step_refines [of c a op] Cons.prems by simp
  next
    case (Some ra)
    obtain r a' where ra: "ra = (r, a')" by force
    then obtain c' where c': "cstep c op = Some (r, c')" "rep c' a'"
      using step_refines [of c a op] Cons.prems Some by auto
    then show ?thesis
      using Cons.IH [OF c'(2)] Cons.prems Some ra by (auto split: option.splits)
  qed
qed simp

end

end
