(* ===== verification/Kernel_List.thy ===== *)
theory Kernel_List
  imports Prelude
begin

text \<open>
  The doubly linked lists of src/proj-pregame/src/lib/kernel/list.c (the same file is compiled
  into src/hw-memory/pintos). A \<open>struct list_elem\<close> is an address; the heap maps an address to
  the \<open>next\<close> and \<open>prev\<close> pointers stored there, and 0 is the null pointer. A
  \<open>struct list\<close> is the address of its first member \<open>head\<close>; the second member \<open>tail\<close> lies
  \<open>sizeof (struct list_elem)\<close> = 8 bytes further. Every operation reads and writes the heap in
  the order of the C statements, so that aliasing between its arguments is visible.

  Loops are \<^theory_text>\<open>partial_function (option)\<close>: on a heap that is not a proper list they may
  panic or run for ever (both \<^term>\<open>None\<close>); the lemmas show that on proper lists they return.
  The predicate \<open>list_rep h l xs\<close> says that the heap holds at \<open>l\<close> a list with the interior
  elements \<open>xs\<close>; each operation is shown to refine the corresponding operation on \<open>xs\<close> and to
  leave all memory outside the list untouched.
\<close>

subsection \<open>Heap and elements\<close>

record heap =
  nxt :: "addr \<Rightarrow> addr"
  prv :: "addr \<Rightarrow> addr"

abbreviation NULL :: addr where "NULL \<equiv> 0"

definition set_nxt :: "heap \<Rightarrow> addr \<Rightarrow> addr \<Rightarrow> heap" where
  "set_nxt h a v = h\<lparr>nxt := (nxt h)(a := v)\<rparr>"

definition set_prv :: "heap \<Rightarrow> addr \<Rightarrow> addr \<Rightarrow> heap" where
  "set_prv h a v = h\<lparr>prv := (prv h)(a := v)\<rparr>"

definition lhead :: "addr \<Rightarrow> addr" where
  "lhead l = l"

definition ltail :: "addr \<Rightarrow> addr" where
  "ltail l = l + 8"

definition is_head :: "heap \<Rightarrow> addr \<Rightarrow> bool" where
  "is_head h e \<longleftrightarrow> e \<noteq> NULL \<and> prv h e = NULL \<and> nxt h e \<noteq> NULL"

definition is_interior :: "heap \<Rightarrow> addr \<Rightarrow> bool" where
  "is_interior h e \<longleftrightarrow> e \<noteq> NULL \<and> prv h e \<noteq> NULL \<and> nxt h e \<noteq> NULL"

definition is_tail :: "heap \<Rightarrow> addr \<Rightarrow> bool" where
  "is_tail h e \<longleftrightarrow> e \<noteq> NULL \<and> prv h e \<noteq> NULL \<and> nxt h e = NULL"

subsection \<open>Basic operations\<close>

definition list_init :: "heap \<Rightarrow> addr \<Rightarrow> heap option" where
  "list_init h l = do {
     ASSERT (l \<noteq> NULL);
     let h1 = set_prv h (lhead l) NULL;
     let h2 = set_nxt h1 (lhead l) (ltail l);
     let h3 = set_prv h2 (ltail l) (lhead l);
     Some (set_nxt h3 (ltail l) NULL)
   }"

definition list_begin :: "heap \<Rightarrow> addr \<Rightarrow> addr option" where
  "list_begin h l = do { ASSERT (l \<noteq> NULL); Some (nxt h (lhead l)) }"

definition list_next :: "heap \<Rightarrow> addr \<Rightarrow> addr option" where
  "list_next h e = do { ASSERT (is_head h e \<or> is_interior h e); Some (nxt h e) }"

definition list_end :: "heap \<Rightarrow> addr \<Rightarrow> addr option" where
  "list_end h l = do { ASSERT (l \<noteq> NULL); Some (ltail l) }"

definition list_rbegin :: "heap \<Rightarrow> addr \<Rightarrow> addr option" where
  "list_rbegin h l = do { ASSERT (l \<noteq> NULL); Some (prv h (ltail l)) }"

definition list_prev :: "heap \<Rightarrow> addr \<Rightarrow> addr option" where
  "list_prev h e = do { ASSERT (is_interior h e \<or> is_tail h e); Some (prv h e) }"

definition list_rend :: "heap \<Rightarrow> addr \<Rightarrow> addr option" where
  "list_rend h l = do { ASSERT (l \<noteq> NULL); Some (lhead l) }"

definition list_head :: "heap \<Rightarrow> addr \<Rightarrow> addr option" where
  "list_head h l = do { ASSERT (l \<noteq> NULL); Some (lhead l) }"

definition list_tail :: "heap \<Rightarrow> addr \<Rightarrow> addr option" where
  "list_tail h l = do { ASSERT (l \<noteq> NULL); Some (ltail l) }"

definition list_insert :: "heap \<Rightarrow> addr \<Rightarrow> addr \<Rightarrow> heap option" where
  "list_insert h before e = do {
     ASSERT (is_interior h before \<or> is_tail h before);
     ASSERT (e \<noteq> NULL);
     let h1 = set_prv h e (prv h before);
     let h2 = set_nxt h1 e before;
     let h3 = set_nxt h2 (prv h2 before) e;
     Some (set_prv h3 before e)
   }"

definition list_splice :: "heap \<Rightarrow> addr \<Rightarrow> addr \<Rightarrow> addr \<Rightarrow> heap option" where
  "list_splice h before first last0 = do {
     ASSERT (is_interior h before \<or> is_tail h before);
     if first = last0 then Some h
     else do {
       lst \<leftarrow> list_prev h last0;
       ASSERT (is_interior h first);
       ASSERT (is_interior h lst);
       let h1 = set_nxt h (prv h first) (nxt h lst);
       let h2 = set_prv h1 (nxt h1 lst) (prv h1 first);
       let h3 = set_prv h2 first (prv h2 before);
       let h4 = set_nxt h3 lst before;
       let h5 = set_nxt h4 (prv h4 before) first;
       Some (set_prv h5 before lst)
     }
   }"

definition list_push_front :: "heap \<Rightarrow> addr \<Rightarrow> addr \<Rightarrow> heap option" where
  "list_push_front h l e = do { b \<leftarrow> list_begin h l; list_insert h b e }"

definition list_push_back :: "heap \<Rightarrow> addr \<Rightarrow> addr \<Rightarrow> heap option" where
  "list_push_back h l e = do { b \<leftarrow> list_end h l; list_insert h b e }"

definition list_remove :: "heap \<Rightarrow> addr \<Rightarrow> (addr \<times> heap) option" where
  "list_remove h e = do {
     ASSERT (is_interior h e);
     let h1 = set_nxt h (prv h e) (nxt h e);
     let h2 = set_prv h1 (nxt h1 e) (prv h1 e);
     Some (nxt h2 e, h2)
   }"

definition list_empty :: "heap \<Rightarrow> addr \<Rightarrow> bool option" where
  "list_empty h l = do { b \<leftarrow> list_begin h l; e \<leftarrow> list_end h l; Some (b = e) }"

definition list_front :: "heap \<Rightarrow> addr \<Rightarrow> addr option" where
  "list_front h l = do { b \<leftarrow> list_empty h l; ASSERT (\<not> b); Some (nxt h (lhead l)) }"

definition list_back :: "heap \<Rightarrow> addr \<Rightarrow> addr option" where
  "list_back h l = do { b \<leftarrow> list_empty h l; ASSERT (\<not> b); Some (prv h (ltail l)) }"

definition list_pop_front :: "heap \<Rightarrow> addr \<Rightarrow> (addr \<times> heap) option" where
  "list_pop_front h l = do {
     front \<leftarrow> list_front h l;
     r \<leftarrow> list_remove h front;
     Some (front, snd r)
   }"

definition list_pop_back :: "heap \<Rightarrow> addr \<Rightarrow> (addr \<times> heap) option" where
  "list_pop_back h l = do {
     back \<leftarrow> list_back h l;
     r \<leftarrow> list_remove h back;
     Some (back, snd r)
   }"

partial_function (option) list_size_loop :: "heap \<Rightarrow> addr \<Rightarrow> addr \<Rightarrow> u32 \<Rightarrow> u32 option" where
  [code]: "list_size_loop h l e cnt = do {
     t \<leftarrow> list_end h l;
     if e = t then Some cnt
     else do { e' \<leftarrow> list_next h e; list_size_loop h l e' (cnt + 1) }
   }"

definition list_size :: "heap \<Rightarrow> addr \<Rightarrow> u32 option" where
  "list_size h l = do { b \<leftarrow> list_begin h l; list_size_loop h l b 0 }"

definition swap_links :: "heap \<Rightarrow> addr \<Rightarrow> heap" where
  "swap_links h e = (let p = prv h e; n = nxt h e in set_nxt (set_prv h e n) e p)"

partial_function (option) list_reverse_loop :: "heap \<Rightarrow> addr \<Rightarrow> addr \<Rightarrow> heap option" where
  [code]: "list_reverse_loop h l e = do {
     t \<leftarrow> list_end h l;
     if e = t then Some h
     else do {
       ASSERT (e \<noteq> NULL);
       let h1 = swap_links h e;
       list_reverse_loop h1 l (prv h1 e)
     }
   }"

definition list_reverse :: "heap \<Rightarrow> addr \<Rightarrow> heap option" where
  "list_reverse h l = do {
     em \<leftarrow> list_empty h l;
     if em then Some h
     else do {
       b \<leftarrow> list_begin h l;
       h1 \<leftarrow> list_reverse_loop h l b;
       let hn = nxt h1 (lhead l);
       let tp = prv h1 (ltail l);
       let h2 = set_prv (set_nxt h1 (lhead l) tp) (ltail l) hn;
       ASSERT (nxt h2 (lhead l) \<noteq> NULL \<and> prv h2 (ltail l) \<noteq> NULL);
       let fp = prv h2 (nxt h2 (lhead l));
       let ln = nxt h2 (prv h2 (ltail l));
       let h3 = set_prv h2 (nxt h2 (lhead l)) ln;
       Some (set_nxt h3 (prv h2 (ltail l)) fp)
     }
   }"

subsection \<open>Chains of nodes\<close>

lemma set_nxt_simps [simp]:
  "nxt (set_nxt h a v) = (nxt h)(a := v)" "prv (set_nxt h a v) = prv h"
  by (simp_all add: set_nxt_def)

lemma set_prv_simps [simp]:
  "prv (set_prv h a v) = (prv h)(a := v)" "nxt (set_prv h a v) = nxt h"
  by (simp_all add: set_prv_def)

fun chain :: "heap \<Rightarrow> addr list \<Rightarrow> bool" where
  "chain h (a # b # ys) = (nxt h a = b \<and> prv h b = a \<and> chain h (b # ys))"
| "chain h _ = True"

lemma chain_Cons: "chain h (a # ys) \<longleftrightarrow> (ys = [] \<or> nxt h a = hd ys \<and> prv h (hd ys) = a \<and> chain h ys)"
  by (cases ys) auto

lemma chain_append:
  "chain h (xs @ y # ys) \<longleftrightarrow> chain h (xs @ [y]) \<and> chain h (y # ys)"
  by (induction xs) (simp_all add: chain_Cons hd_append)

lemma chain_link:
  "chain h (xs @ p # b # ys) \<longleftrightarrow>
     chain h (xs @ [p]) \<and> nxt h p = b \<and> prv h b = p \<and> chain h (b # ys)"
  by (subst chain_append) simp

lemma chain_cong:
  "chain h xs \<Longrightarrow> \<forall>a \<in> set (butlast xs). nxt h' a = nxt h a \<Longrightarrow>
   \<forall>a \<in> set (tl xs). prv h' a = prv h a \<Longrightarrow> chain h' xs"
  by (induction h xs rule: chain.induct) (auto split: if_splits)

lemma chain_set_nxt: "a \<notin> set (butlast xs) \<Longrightarrow> chain (set_nxt h a v) xs = chain h xs"
  by (auto elim!: chain_cong)

lemma chain_set_prv: "a \<notin> set (tl xs) \<Longrightarrow> chain (set_prv h a v) xs = chain h xs"
  by (auto elim!: chain_cong)

lemma in_set_tl: "a \<in> set (tl xs) \<Longrightarrow> a \<in> set xs"
  by (cases xs) auto

lemma chain_set_notin:
  "a \<notin> set xs \<Longrightarrow> chain (set_nxt h a v) xs = chain h xs"
  "a \<notin> set xs \<Longrightarrow> chain (set_prv h a v) xs = chain h xs"
  by (auto intro!: chain_set_nxt chain_set_prv dest: in_set_butlastD in_set_tl)

lemma hd_append_Cons: "hd (as @ p # b # xs) = hd (as @ [p])"
  by (cases as) auto

lemma hd_snoc_neq: "a \<notin> set as \<Longrightarrow> a \<noteq> p \<Longrightarrow> hd (as @ [p]) \<noteq> a"
  by (cases as) auto

lemma last_neq: "a \<notin> set bs \<Longrightarrow> a \<noteq> b \<Longrightarrow> last (b # bs) \<noteq> a"
  by (metis last_in_set list.distinct(1) set_ConsD)

lemmas node_ends = hd_append_Cons hd_snoc_neq last_neq
lemmas chain_frame = chain_set_notin chain_set_nxt chain_set_prv

text \<open>The node sequence of a proper list: head, interior elements, tail.\<close>

definition dll :: "heap \<Rightarrow> addr list \<Rightarrow> bool" where
  "dll h ns \<longleftrightarrow> distinct ns \<and> NULL \<notin> set ns \<and>
     prv h (hd ns) = NULL \<and> nxt h (last ns) = NULL \<and> chain h ns"

definition nodes :: "addr \<Rightarrow> addr list \<Rightarrow> addr list" where
  "nodes l xs = lhead l # xs @ [ltail l]"

definition list_rep :: "heap \<Rightarrow> addr \<Rightarrow> addr list \<Rightarrow> bool" where
  "list_rep h l xs \<longleftrightarrow> dll h (nodes l xs)"

definition agree_off :: "addr set \<Rightarrow> heap \<Rightarrow> heap \<Rightarrow> bool" where
  "agree_off A h h' \<longleftrightarrow> (\<forall>a. a \<notin> A \<longrightarrow> nxt h' a = nxt h a \<and> prv h' a = prv h a)"

lemma agree_off_refl [simp]: "agree_off A h h"
  by (simp add: agree_off_def)

lemma agree_off_trans: "agree_off A h h' \<Longrightarrow> agree_off A h' h'' \<Longrightarrow> agree_off A h h''"
  by (simp add: agree_off_def)

lemma agree_off_mono: "agree_off A h h' \<Longrightarrow> A \<subseteq> B \<Longrightarrow> agree_off B h h'"
  by (auto simp: agree_off_def)

lemma dll_frame:
  assumes d: "dll h ns" and a: "agree_off A h h'" and dis: "A \<inter> set ns = {}" and ne: "ns \<noteq> []"
  shows "dll h' ns"
proof -
  have eq: "nxt h' a = nxt h a \<and> prv h' a = prv h a" if "a \<in> set ns" for a
    using that a dis by (auto simp: agree_off_def)
  have "chain h' ns"
    using d eq by (auto simp: dll_def intro: chain_cong dest: in_set_butlastD in_set_tl)
  then show ?thesis
    using d ne eq [of "hd ns"] eq [of "last ns"] by (simp add: dll_def)
qed

lemma list_rep_frame:
  "list_rep h l xs \<Longrightarrow> agree_off A h h' \<Longrightarrow> A \<inter> set (nodes l xs) = {} \<Longrightarrow> list_rep h' l xs"
  unfolding list_rep_def by (erule dll_frame) (auto simp: nodes_def)

lemma dll_at:
  assumes "dll h (as @ p # b # bs)"
  shows "nxt h p = b" "prv h b = p" "p \<noteq> NULL" "b \<noteq> NULL"
  using assms by (auto simp: dll_def chain_link)

lemma dll_interior: "dll h (as @ p # e # b # bs) \<Longrightarrow> is_interior h e"
  by (auto simp: dll_def chain_link is_interior_def)

lemma dll_last_is_tail: "dll h (as @ [p, t]) \<Longrightarrow> is_tail h t"
  using chain_link [of h as p t "[]"] by (auto simp: dll_def is_tail_def)

lemma dll_first_is_head: "dll h (a # b # bs) \<Longrightarrow> is_head h a"
  by (auto simp: dll_def is_head_def)

lemma dll_after: "dll h (as @ p # b # bs) \<Longrightarrow> is_interior h b \<or> is_tail h b"
  using dll_interior [of h as p b] dll_last_is_tail [of h as p b] by (cases bs) auto

lemma dll_before: "dll h (as @ p # b # bs) \<Longrightarrow> is_head h p \<or> is_interior h p"
proof (cases as rule: rev_cases)
  case Nil
  then show "dll h (as @ p # b # bs) \<Longrightarrow> ?thesis" by (auto dest: dll_first_is_head)
next
  case (snoc as' q)
  then show "dll h (as @ p # b # bs) \<Longrightarrow> ?thesis"
    using dll_interior [of h as' q p b bs] by simp
qed

lemma list_next_dll [simp]: "dll h (as @ p # b # bs) \<Longrightarrow> list_next h p = Some b"
  by (simp add: list_next_def panic_simps dll_before dll_at)

lemma list_prev_dll [simp]: "dll h (as @ p # b # bs) \<Longrightarrow> list_prev h b = Some p"
  by (simp add: list_prev_def panic_simps dll_after dll_at)

subsection \<open>Insertion, removal and splicing on node sequences\<close>

lemma dll_insert:
  assumes d: "dll h (as @ p # b # bs)" and e: "e \<notin> set (as @ p # b # bs)" "e \<noteq> NULL"
  shows "\<exists>h'. list_insert h b e = Some h' \<and> dll h' (as @ p # e # b # bs) \<and> agree_off {p, e, b} h h'"
proof -
  let ?h = "set_prv (set_nxt (set_nxt (set_prv h e p) e b) p e) b e"
  have "list_insert h b e = Some ?h"
    using d e dll_after [OF d] dll_at [OF d] by (auto simp: list_insert_def panic_simps Let_def)
  moreover have "dll ?h (as @ p # e # b # bs)"
    using d e by (auto simp: dll_def chain_link chain_frame node_ends)
  moreover have "agree_off {p, e, b} h ?h"
    by (auto simp: agree_off_def)
  ultimately show ?thesis by blast
qed

lemma dll_remove:
  assumes d: "dll h (as @ p # e # b # bs)"
  shows "\<exists>h'. list_remove h e = Some (b, h') \<and> dll h' (as @ p # b # bs) \<and> agree_off {p, b} h h'"
proof -
  let ?h = "set_prv (set_nxt h p b) b p"
  have d': "dll h ((as @ [p]) @ e # b # bs)"
    using d by simp
  have "e \<noteq> p" "b \<noteq> e"
    using d by (auto simp: dll_def)
  then have "list_remove h e = Some (b, ?h)"
    using dll_at [OF d] dll_at [OF d'] dll_interior [OF d]
    by (simp add: list_remove_def panic_simps Let_def)
  moreover have "dll ?h (as @ p # b # bs)"
    using d by (auto simp: dll_def chain_link chain_frame node_ends)
  moreover have "agree_off {p, b} h ?h"
    by (auto simp: agree_off_def)
  ultimately show ?thesis by blast
qed

text \<open>
  Moving the nonempty segment \<open>f # ms @ [g]\<close> or \<open>[f]\<close> that ends just before \<open>q\<close> back to a place
  before \<open>s\<close> in the same list, as \<open>inplace_merge\<close> does.
\<close>

lemma dll_splice_one:
  assumes d: "dll h (as @ r # s # cs @ f # q # bs)"
  shows "\<exists>h'. list_splice h s f q = Some h' \<and> dll h' (as @ r # f # s # cs @ q # bs) \<and>
     agree_off (set (r # s # cs @ [f, q])) h h'"
proof -
  obtain w ws where w: "s # cs = ws @ [w]"
    by (metis list.distinct(1) rev_exhaust)
  let ?h = "set_prv (set_nxt (set_nxt (set_prv (set_prv (set_nxt h w q) q w) f r) f s) r f) s f"
  have d1: "dll h ((as @ r # ws) @ w # f # q # bs)"
    using d w by (metis append.assoc append_Cons append_Nil)
  then have d2: "dll h ((as @ r # ws @ [w]) @ f # q # bs)"
    by simp
  have neq: "f \<noteq> q" "r \<noteq> f" "q \<noteq> s" "r \<noteq> w" "r \<noteq> q" "f \<noteq> s" "w \<noteq> f" "w \<noteq> q" "r \<noteq> s" "w \<in> set (s # cs)"
    using d d1 w by (auto simp: dll_def)
  have "list_splice h s f q = Some ?h"
    using neq dll_at [OF d] dll_at [OF d1] dll_at [OF d2] dll_after [OF d] dll_interior [OF d1]
    by (simp add: list_splice_def panic_simps Let_def list_prev_dll [OF d2])
  moreover have "chain ?h (s # cs @ q # bs)"
  proof -
    have "chain h ((s # cs) @ f # q # bs)"
      using d by (simp add: dll_def chain_link)
    then have "chain h (ws @ w # f # q # bs)"
      by (simp add: w)
    then have "chain h (ws @ [w])" "chain h (q # bs)"
      by (simp_all add: chain_link)
    moreover have "distinct (as @ r # ws @ w # f # q # bs)"
      using d1 by (simp add: dll_def)
    moreover have "s \<notin> set (tl (ws @ [w]))" "s \<notin> set bs"
      using d by (simp_all add: dll_def flip: w)
    ultimately have "chain ?h (ws @ w # q # bs)"
      using neq by (auto simp: chain_link chain_frame)
    then show ?thesis by (metis append.assoc append_Cons append_Nil w)
  qed
  then have "dll ?h (as @ r # f # s # cs @ q # bs)"
  proof -
    assume c: "chain ?h (s # cs @ q # bs)"
    have dis: "distinct (as @ r # s # cs @ f # q # bs)" and r: "chain h (as @ [r])"
      using d by (simp_all add: dll_def chain_link)
    have "w \<notin> set as" "w \<notin> set bs"
      using d1 by (simp_all add: dll_def)
    then have "chain ?h (as @ [r])"
      using r dis neq by (simp add: chain_frame)
    then have "chain ?h (as @ r # f # s # cs @ q # bs)"
      unfolding chain_link [of _ as r f] using c dis by auto
    moreover have "prv ?h (hd (as @ [r])) = NULL"
      using d neq dis by (simp add: dll_def node_ends)
    moreover have "nxt ?h (last (q # bs)) = NULL"
    proof -
      have "last (q # bs) \<in> set (q # bs)" by (rule last_in_set) simp
      then have "last (q # bs) \<notin> {w, f, r}"
        using dis neq \<open>w \<notin> set bs\<close> by auto
      moreover have "nxt h (last (q # bs)) = NULL"
        using d by (simp add: dll_def)
      ultimately show ?thesis by (simp del: last.simps)
    qed
    ultimately show ?thesis
      using d neq by (auto simp: dll_def node_ends)
  qed
  moreover have "agree_off (set (r # s # cs @ [f, q])) h ?h"
    using neq by (auto simp: agree_off_def)
  ultimately show ?thesis by blast
qed

subsection \<open>Refinement of the list operations\<close>

lemma nodes_split:
  obtains as p bs where
    "nodes l (xs @ ys) = as @ p # hd (ys @ [ltail l]) # bs"
    "\<forall>e. nodes l (xs @ e # ys) = as @ p # e # hd (ys @ [ltail l]) # bs"
proof -
  obtain as p where "lhead l # xs = as @ [p]"
    by (metis list.distinct(1) rev_exhaust)
  moreover obtain bs where "ys @ [ltail l] = hd (ys @ [ltail l]) # bs"
    by (metis append_is_Nil_conv list.exhaust_sel list.distinct(1))
  moreover have "nodes l (xs @ zs) = (lhead l # xs) @ zs @ [ltail l]" for zs
    by (simp add: nodes_def)
  ultimately show thesis
    using that [of as p bs] by simp
qed

lemma list_rep_NULL: "list_rep h l xs \<Longrightarrow> l \<noteq> NULL"
  by (auto simp: list_rep_def dll_def nodes_def lhead_def)

lemma list_rep_distinct: "list_rep h l xs \<Longrightarrow> distinct xs"
  by (auto simp: list_rep_def dll_def nodes_def)

lemma list_rep_length: "list_rep h l xs \<Longrightarrow> length xs < 2 ^ 32"
  using distinct_word_length [of "nodes l xs"] by (simp add: list_rep_def dll_def nodes_def)

lemma list_rep_empty_iff: "list_rep h l xs \<Longrightarrow> nxt h (lhead l) = ltail l \<longleftrightarrow> xs = []"
  by (cases xs) (auto simp: list_rep_def dll_def nodes_def)

lemma list_init_rep:
  assumes "l \<noteq> NULL" "l + 8 \<noteq> NULL"
  shows "\<exists>h'. list_init h l = Some h' \<and> list_rep h' l [] \<and> agree_off (set (nodes l [])) h h'"
  using assms
  by (auto simp: list_init_def panic_simps list_rep_def dll_def nodes_def lhead_def ltail_def agree_off_def Let_def)

lemma list_begin_rep: "list_rep h l xs \<Longrightarrow> list_begin h l = Some (hd (xs @ [ltail l]))"
  by (cases xs) (auto simp: list_begin_def panic_simps list_rep_def dll_def nodes_def lhead_def)

lemma list_end_rep: "list_rep h l xs \<Longrightarrow> list_end h l = Some (ltail l)"
  by (simp add: list_end_def panic_simps list_rep_NULL)

lemma list_empty_rep: "list_rep h l xs \<Longrightarrow> list_empty h l = Some (xs = [])"
  by (cases xs; simp add: list_empty_def list_begin_rep list_end_rep) (auto simp: list_rep_def dll_def nodes_def)

lemma list_insert_rep:
  assumes r: "list_rep h l (xs @ ys)" and e: "e \<notin> set (nodes l (xs @ ys))" "e \<noteq> NULL"
  shows "\<exists>h'. list_insert h (hd (ys @ [ltail l])) e = Some h' \<and> list_rep h' l (xs @ e # ys) \<and>
    agree_off (set (nodes l (xs @ e # ys))) h h'"
proof -
  let ?b = "hd (ys @ [ltail l])"
  obtain as p bs where n: "nodes l (xs @ ys) = as @ p # ?b # bs"
    and n': "\<forall>e. nodes l (xs @ e # ys) = as @ p # e # ?b # bs" by (rule nodes_split [of l xs ys])
  from dll_insert [OF r [unfolded list_rep_def n] e [unfolded n]] obtain h'
    where "list_insert h ?b e = Some h'" "agree_off {p, e, ?b} h h'" "dll h' (nodes l (xs @ e # ys))"
    unfolding n' [rule_format] by blast
  moreover have "{p, e, ?b} \<subseteq> set (nodes l (xs @ e # ys))"
    unfolding n' [rule_format] by auto
  ultimately show ?thesis unfolding list_rep_def using agree_off_mono by blast
qed

lemma list_push_front_rep:
  assumes "list_rep h l xs" "e \<notin> set (nodes l xs)" "e \<noteq> NULL"
  shows "\<exists>h'. list_push_front h l e = Some h' \<and> list_rep h' l (e # xs) \<and>
    agree_off (set (nodes l (e # xs))) h h'"
  using list_insert_rep [of h l "[]" xs e] assms by (simp add: list_push_front_def list_begin_rep)

lemma list_push_back_rep:
  assumes "list_rep h l xs" "e \<notin> set (nodes l xs)" "e \<noteq> NULL"
  shows "\<exists>h'. list_push_back h l e = Some h' \<and> list_rep h' l (xs @ [e]) \<and>
    agree_off (set (nodes l (xs @ [e]))) h h'"
  using list_insert_rep [of h l xs "[]" e] assms by (simp add: list_push_back_def list_end_rep)

lemma list_remove_rep:
  assumes r: "list_rep h l (xs @ e # ys)"
  shows "\<exists>h'. list_remove h e = Some (hd (ys @ [ltail l]), h') \<and> list_rep h' l (xs @ ys) \<and>
    agree_off (set (nodes l (xs @ ys))) h h'"
proof -
  let ?b = "hd (ys @ [ltail l])"
  obtain as p bs where n: "nodes l (xs @ ys) = as @ p # ?b # bs"
    and n': "\<forall>e. nodes l (xs @ e # ys) = as @ p # e # ?b # bs" by (rule nodes_split [of l xs ys])
  from dll_remove [OF r [unfolded list_rep_def n' [rule_format]]] obtain h'
    where "list_remove h e = Some (?b, h')" "agree_off {p, ?b} h h'" "dll h' (nodes l (xs @ ys))"
    unfolding n by blast
  moreover have "{p, ?b} \<subseteq> set (nodes l (xs @ ys))"
    unfolding n by auto
  ultimately show ?thesis unfolding list_rep_def using agree_off_mono by blast
qed

lemma list_front_rep: "list_rep h l (x # xs) \<Longrightarrow> list_front h l = Some x"
  by (simp add: list_front_def list_empty_rep panic_simps) (simp add: list_rep_def dll_def nodes_def)

lemma list_back_rep: "list_rep h l (xs @ [x]) \<Longrightarrow> list_back h l = Some x"
  using dll_at(2) [of h "lhead l # xs" x "ltail l" "[]"]
  by (simp add: list_back_def list_empty_rep panic_simps) (simp add: list_rep_def nodes_def)

lemma list_pop_front_rep:
  assumes "list_rep h l (x # xs)"
  shows "\<exists>h'. list_pop_front h l = Some (x, h') \<and> list_rep h' l xs \<and> agree_off (set (nodes l xs)) h h'"
  using list_remove_rep [of h l "[]" x xs] assms by (auto simp: list_pop_front_def list_front_rep)

lemma list_pop_back_rep:
  assumes "list_rep h l (xs @ [x])"
  shows "\<exists>h'. list_pop_back h l = Some (x, h') \<and> list_rep h' l xs \<and> agree_off (set (nodes l xs)) h h'"
  using list_remove_rep [of h l xs x "[]"] assms by (auto simp: list_pop_back_def list_back_rep)

text \<open>Popping, or asking for an end of, an empty list is an assertion failure.\<close>

lemma list_empty_panics:
  assumes "list_rep h l []"
  shows "list_front h l = None" "list_back h l = None" "list_pop_front h l = None" "list_pop_back h l = None"
  using assms by (simp_all add: list_front_def list_back_def list_pop_front_def list_pop_back_def list_empty_rep)

subsection \<open>Traversals\<close>

lemma list_rep_next:
  "list_rep h l (xs @ y # ys) \<Longrightarrow> list_next h y = Some (hd (ys @ [ltail l]))"
  by (cases ys) (auto simp: list_rep_def nodes_def intro: list_next_dll [of h "lhead l # xs"])

lemma list_rep_in_neq: "list_rep h l (xs @ y # ys) \<Longrightarrow> y \<noteq> ltail l"
  by (auto simp: list_rep_def dll_def nodes_def)

lemma list_size_loop_rep:
  "list_rep h l (xs @ ys) \<Longrightarrow>
   list_size_loop h l (hd (ys @ [ltail l])) c = Some (c + of_nat (length ys))"
proof (induction ys arbitrary: xs c)
  case Nil
  then show ?case by (subst list_size_loop.simps) (simp add: list_end_rep)
next
  case (Cons y ys)
  then show ?case
    using Cons.IH [of "xs @ [y]" "c + 1"]
    by (subst list_size_loop.simps) (simp add: list_end_rep list_rep_next list_rep_in_neq)
qed

lemma list_size_rep: "list_rep h l xs \<Longrightarrow> list_size h l = Some (of_nat (length xs))"
  using list_size_loop_rep [of h l "[]" xs 0] by (simp add: list_size_def list_begin_rep)

subsection \<open>Reversal\<close>

definition swapped :: "addr set \<Rightarrow> heap \<Rightarrow> heap" where
  "swapped A h = h\<lparr>nxt := (\<lambda>a. if a \<in> A then prv h a else nxt h a),
                  prv := (\<lambda>a. if a \<in> A then nxt h a else prv h a)\<rparr>"

lemma swapped_simps [simp]:
  "nxt (swapped A h) a = (if a \<in> A then prv h a else nxt h a)"
  "prv (swapped A h) a = (if a \<in> A then nxt h a else prv h a)"
  by (simp_all add: swapped_def)

lemma swap_links_swapped: "e \<notin> A \<Longrightarrow> swap_links (swapped A h) e = swapped (insert e A) h"
  by (auto simp: swap_links_def swapped_def set_nxt_def set_prv_def Let_def fun_eq_iff)

lemma list_rep_nxt: "list_rep h l (xs @ y # ys) \<Longrightarrow> nxt h y = hd (ys @ [ltail l])"
  using list_rep_next [of h l xs y ys] by (simp add: list_next_def panic_simps split: if_splits)

lemma list_reverse_loop_rep:
  "list_rep h l (xs @ ys) \<Longrightarrow>
   list_reverse_loop (swapped (set xs) h) l (hd (ys @ [ltail l])) = Some (swapped (set (xs @ ys)) h)"
proof (induction ys arbitrary: xs)
  case Nil
  then show ?case
    by (subst list_reverse_loop.simps) (simp add: list_end_def panic_simps list_rep_NULL)
next
  case (Cons y ys)
  have "y \<notin> set xs" "y \<noteq> NULL" "y \<noteq> ltail l"
    using Cons.prems by (auto simp: list_rep_def dll_def nodes_def)
  then show ?case
    using Cons.prems Cons.IH [of "xs @ [y]"]
    by (subst list_reverse_loop.simps)
      (simp add: list_end_def panic_simps list_rep_NULL swap_links_swapped list_rep_nxt Let_def)
qed

lemma chain_flip: "chain h xs \<Longrightarrow> \<forall>a \<in> set (tl xs). nxt h' a = prv h a \<Longrightarrow>
   \<forall>a \<in> set (butlast xs). prv h' a = nxt h a \<Longrightarrow> chain h' (rev xs)"
proof (induction h xs rule: chain.induct)
  case (1 h a b ys)
  then have "chain h' (rev (b # ys))" and "nxt h' b = a" "prv h' a = b"
    by (auto split: if_splits)
  then show ?case
    using chain_link [of h' "rev ys" b a "[]"] by simp
qed auto

lemma list_reverse_rep:
  assumes r: "list_rep h l xs"
  shows "\<exists>h'. list_reverse h l = Some h' \<and> list_rep h' l (rev xs) \<and> agree_off (set (nodes l xs)) h h'"
proof (cases xs)
  case Nil
  then show ?thesis using r by (auto simp: list_reverse_def list_empty_rep)
next
  case (Cons f zs)
  then obtain g ws where g: "xs = ws @ [g]" by (metis list.distinct(1) rev_exhaust)
  let ?S = "swapped (set xs) h"
  let ?h = "set_nxt (set_prv (set_prv (set_nxt ?S (lhead l) g) (ltail l) f) g (lhead l)) f (ltail l)"
  have d: "distinct (lhead l # xs @ [ltail l])" "NULL \<notin> set (lhead l # xs @ [ltail l])" "chain h (lhead l # xs @ [ltail l])"
    and ends: "prv h (lhead l) = NULL" "nxt h (ltail l) = NULL"
    using r by (simp_all add: list_rep_def dll_def nodes_def)
  have f: "nxt h (lhead l) = f" "prv h f = lhead l"
    using d Cons by auto
  have gg: "nxt h g = ltail l" "prv h (ltail l) = g"
    using d(3) chain_link [of h "lhead l # ws" g "ltail l" "[]"] by (simp_all add: g)
  have fg: "f \<in> set xs" using Cons by simp
  moreover have fg': "g \<in> set xs" using g by simp
  ultimately have neq: "lhead l \<noteq> ltail l" "f \<noteq> lhead l" "f \<noteq> ltail l" "g \<noteq> lhead l" "g \<noteq> ltail l"
    "lhead l \<notin> set xs" "ltail l \<notin> set xs" "f \<noteq> NULL" "g \<noteq> NULL"
    using d(1,2) by auto
  have xs: "xs \<noteq> []" "hd (xs @ [ltail l]) = f"
    using Cons by simp_all
  have "list_reverse_loop h l f = Some ?S"
    using list_reverse_loop_rep [of h l "[]" xs] r xs by (simp add: swapped_def)
  then have res: "list_reverse h l = Some ?h"
    using r f gg neq fg fg' xs
    by (simp add: list_reverse_def list_empty_rep list_begin_rep panic_simps Let_def)
  have dx: "distinct xs" using d(1) by simp
  have tl: "set (tl xs) \<subseteq> set xs - {f}"
    using dx Cons by auto
  have bl: "set (butlast xs) \<subseteq> set xs - {g}"
    using dx g by auto
  have "chain h (xs @ [ltail l])"
    using d(3) xs by (simp add: chain_Cons [of h "lhead l"])
  then have "chain h xs"
    by (simp add: g chain_link)
  then have c: "chain ?h (rev xs)"
    using tl bl neq by (intro chain_flip) auto
  have "rev xs @ [ltail l] = rev zs @ f # ltail l # []"
    by (simp add: Cons)
  then have "chain ?h (rev xs @ [ltail l])"
    using c neq unfolding Cons by (simp add: chain_link)
  moreover have "hd (rev xs @ [ltail l]) = g"
    by (simp add: g)
  ultimately have "chain ?h (lhead l # rev xs @ [ltail l])"
    using neq by (simp add: chain_Cons [of _ "lhead l"])
  then have "dll ?h (nodes l (rev xs))"
    using d ends neq by (auto simp: dll_def nodes_def)
  then show ?thesis using res fg fg' by (auto simp: list_rep_def agree_off_def nodes_def)
qed

end
