(* ===== verification/Kernel_List_Sort.thy ===== *)
theory Kernel_List_Sort
  imports Kernel_List
begin

text \<open>
  The ordered operations of src/proj-pregame/src/lib/kernel/list.c: the natural merge sort
  \<open>list_sort\<close> with its helpers, \<open>list_insert_ordered\<close>, \<open>list_unique\<close>, \<open>list_max\<close> and
  \<open>list_min\<close>. The comparison \<open>list_less_func\<close> with its auxiliary data is the argument
  \<open>lt\<close>. Each pointer loop is related to a function on HOL lists, about which sortedness,
  permutation, stability and the decrease of the number of runs are then proved.
\<close>

type_synonym less_func = "addr \<Rightarrow> addr \<Rightarrow> bool"

subsection \<open>The C functions\<close>

partial_function (option) is_sorted_loop :: "heap \<Rightarrow> addr \<Rightarrow> addr \<Rightarrow> less_func \<Rightarrow> bool option" where
  [code]: "is_sorted_loop h a b lt = do {
     a' \<leftarrow> list_next h a;
     if a' = b then Some True
     else do {
       p \<leftarrow> list_prev h a';
       if lt a' p then Some False else is_sorted_loop h a' b lt
     }
   }"

definition is_sorted :: "heap \<Rightarrow> addr \<Rightarrow> addr \<Rightarrow> less_func \<Rightarrow> bool option" where
  "is_sorted h a b lt = (if a \<noteq> b then is_sorted_loop h a b lt else Some True)"

partial_function (option) find_end_of_run_loop :: "heap \<Rightarrow> addr \<Rightarrow> addr \<Rightarrow> less_func \<Rightarrow> addr option" where
  [code]: "find_end_of_run_loop h a b lt = do {
     a' \<leftarrow> list_next h a;
     if a' = b then Some a'
     else do {
       p \<leftarrow> list_prev h a';
       if \<not> lt a' p then find_end_of_run_loop h a' b lt else Some a'
     }
   }"

definition find_end_of_run :: "heap \<Rightarrow> addr \<Rightarrow> addr \<Rightarrow> less_func \<Rightarrow> addr option" where
  "find_end_of_run h a b lt = do {
     ASSERT (a \<noteq> NULL);
     ASSERT (b \<noteq> NULL);
     ASSERT (a \<noteq> b);
     find_end_of_run_loop h a b lt
   }"

partial_function (option) inplace_merge_loop :: "heap \<Rightarrow> addr \<Rightarrow> addr \<Rightarrow> addr \<Rightarrow> less_func \<Rightarrow> heap option" where
  [code]: "inplace_merge_loop h a0 a1b0 b1 lt =
     (if a0 \<noteq> a1b0 \<and> a1b0 \<noteq> b1 then
        if \<not> lt a1b0 a0 then do {
          a0' \<leftarrow> list_next h a0;
          inplace_merge_loop h a0' a1b0 b1 lt
        } else do {
          a1b0' \<leftarrow> list_next h a1b0;
          p \<leftarrow> list_prev h a1b0';
          h' \<leftarrow> list_splice h a0 p a1b0';
          inplace_merge_loop h' a0 a1b0' b1 lt
        }
      else Some h)"

definition inplace_merge :: "heap \<Rightarrow> addr \<Rightarrow> addr \<Rightarrow> addr \<Rightarrow> less_func \<Rightarrow> heap option" where
  "inplace_merge h a0 a1b0 b1 lt = do {
     ASSERT (a0 \<noteq> NULL);
     ASSERT (a1b0 \<noteq> NULL);
     ASSERT (b1 \<noteq> NULL);
     s1 \<leftarrow> is_sorted h a0 a1b0 lt;
     ASSERT s1;
     s2 \<leftarrow> is_sorted h a1b0 b1 lt;
     ASSERT s2;
     inplace_merge_loop h a0 a1b0 b1 lt
   }"

text \<open>One pass of the \<open>for\<close> loop of \<open>list_sort\<close>, from \<open>a0\<close> on; it returns \<open>output_run_cnt\<close>.\<close>

partial_function (option) list_sort_pass :: "heap \<Rightarrow> addr \<Rightarrow> less_func \<Rightarrow> addr \<Rightarrow> u32 \<Rightarrow> (heap \<times> u32) option" where
  [code]: "list_sort_pass h l lt a0 cnt = do {
     t \<leftarrow> list_end h l;
     if a0 = t then Some (h, cnt)
     else do {
       a1b0 \<leftarrow> find_end_of_run h a0 t lt;
       if a1b0 = t then Some (h, cnt + 1)
       else do {
         b1 \<leftarrow> find_end_of_run h a1b0 t lt;
         h' \<leftarrow> inplace_merge h a0 a1b0 b1 lt;
         list_sort_pass h' l lt b1 (cnt + 1)
       }
     }
   }"

partial_function (option) list_sort_loop :: "heap \<Rightarrow> addr \<Rightarrow> less_func \<Rightarrow> heap option" where
  [code]: "list_sort_loop h l lt = do {
     b \<leftarrow> list_begin h l;
     r \<leftarrow> list_sort_pass h l lt b 0;
     if snd r > 1 then list_sort_loop (fst r) l lt else Some (fst r)
   }"

definition list_sort :: "heap \<Rightarrow> addr \<Rightarrow> less_func \<Rightarrow> heap option" where
  "list_sort h l lt = do {
     ASSERT (l \<noteq> NULL);
     h' \<leftarrow> list_sort_loop h l lt;
     b \<leftarrow> list_begin h' l;
     t \<leftarrow> list_end h' l;
     s \<leftarrow> is_sorted h' b t lt;
     ASSERT s;
     Some h'
   }"

partial_function (option) insert_ordered_pos :: "heap \<Rightarrow> addr \<Rightarrow> addr \<Rightarrow> less_func \<Rightarrow> addr \<Rightarrow> addr option" where
  [code]: "insert_ordered_pos h l elem lt e = do {
     t \<leftarrow> list_end h l;
     if e = t then Some e
     else if lt elem e then Some e
     else do { e' \<leftarrow> list_next h e; insert_ordered_pos h l elem lt e' }
   }"

definition list_insert_ordered :: "heap \<Rightarrow> addr \<Rightarrow> addr \<Rightarrow> less_func \<Rightarrow> heap option" where
  "list_insert_ordered h l elem lt = do {
     ASSERT (l \<noteq> NULL);
     ASSERT (elem \<noteq> NULL);
     b \<leftarrow> list_begin h l;
     e \<leftarrow> insert_ordered_pos h l elem lt b;
     list_insert h e elem
   }"

partial_function (option) list_unique_loop :: "heap \<Rightarrow> addr \<Rightarrow> addr \<Rightarrow> less_func \<Rightarrow> addr \<Rightarrow> heap option" where
  [code]: "list_unique_loop h l duplicates lt elem = do {
     nx \<leftarrow> list_next h elem;
     t \<leftarrow> list_end h l;
     if nx = t then Some h
     else if \<not> lt elem nx \<and> \<not> lt nx elem then do {
       r \<leftarrow> list_remove h nx;
       h' \<leftarrow> (if duplicates \<noteq> NULL then list_push_back (snd r) duplicates nx else Some (snd r));
       list_unique_loop h' l duplicates lt elem
     }
     else list_unique_loop h l duplicates lt nx
   }"

definition list_unique :: "heap \<Rightarrow> addr \<Rightarrow> addr \<Rightarrow> less_func \<Rightarrow> heap option" where
  "list_unique h l duplicates lt = do {
     ASSERT (l \<noteq> NULL);
     em \<leftarrow> list_empty h l;
     if em then Some h
     else do { b \<leftarrow> list_begin h l; list_unique_loop h l duplicates lt b }
   }"

partial_function (option) list_max_loop :: "heap \<Rightarrow> addr \<Rightarrow> less_func \<Rightarrow> addr \<Rightarrow> addr \<Rightarrow> addr option" where
  [code]: "list_max_loop h l lt mx e = do {
     t \<leftarrow> list_end h l;
     if e = t then Some mx
     else do { e' \<leftarrow> list_next h e; list_max_loop h l lt (if lt mx e then e else mx) e' }
   }"

definition list_max :: "heap \<Rightarrow> addr \<Rightarrow> less_func \<Rightarrow> addr option" where
  "list_max h l lt = do {
     mx \<leftarrow> list_begin h l;
     t \<leftarrow> list_end h l;
     if mx = t then Some mx
     else do { e \<leftarrow> list_next h mx; list_max_loop h l lt mx e }
   }"

partial_function (option) list_min_loop :: "heap \<Rightarrow> addr \<Rightarrow> less_func \<Rightarrow> addr \<Rightarrow> addr \<Rightarrow> addr option" where
  [code]: "list_min_loop h l lt mn e = do {
     t \<leftarrow> list_end h l;
     if e = t then Some mn
     else do { e' \<leftarrow> list_next h e; list_min_loop h l lt (if lt e mn then e else mn) e' }
   }"

definition list_min :: "heap \<Rightarrow> addr \<Rightarrow> less_func \<Rightarrow> addr option" where
  "list_min h l lt = do {
     mn \<leftarrow> list_begin h l;
     t \<leftarrow> list_end h l;
     if mn = t then Some mn
     else do { e \<leftarrow> list_next h mn; list_min_loop h l lt mn e }
   }"

subsection \<open>The same algorithms on HOL lists\<close>

text \<open>
  What \<open>list_less_func\<close> promises: a strict weak order. Two elements neither of which is less
  than the other are equivalent.
\<close>

definition weak_order :: "less_func \<Rightarrow> bool" where
  "weak_order lt \<longleftrightarrow> (\<forall>a b. lt a b \<longrightarrow> \<not> lt b a) \<and>
     (\<forall>a b c. \<not> lt b a \<longrightarrow> \<not> lt c b \<longrightarrow> \<not> lt c a)"

definition ordered :: "less_func \<Rightarrow> addr list \<Rightarrow> bool" where
  "ordered lt xs \<longleftrightarrow> sorted_wrt (\<lambda>a b. \<not> lt b a) xs"

definition same_key :: "less_func \<Rightarrow> addr \<Rightarrow> addr \<Rightarrow> bool" where
  "same_key lt a b \<longleftrightarrow> \<not> lt a b \<and> \<not> lt b a"

fun span_run :: "less_func \<Rightarrow> addr \<Rightarrow> addr list \<Rightarrow> addr list \<times> addr list" where
  "span_run lt x [] = ([], [])"
| "span_run lt x (y # ys) =
     (if lt y x then ([], y # ys) else (case span_run lt y ys of (r, s) \<Rightarrow> (y # r, s)))"

fun merge_runs :: "less_func \<Rightarrow> addr list \<Rightarrow> addr list \<Rightarrow> addr list" where
  "merge_runs lt [] ys = ys"
| "merge_runs lt xs [] = xs"
| "merge_runs lt (x # xs) (y # ys) =
     (if \<not> lt y x then x # merge_runs lt xs (y # ys) else y # merge_runs lt (x # xs) ys)"

lemma span_run_append: "span_run lt x ys = (r, s) \<Longrightarrow> ys = r @ s"
  by (induction ys arbitrary: x r) (auto split: if_splits prod.splits)

function sort_pass :: "less_func \<Rightarrow> addr list \<Rightarrow> addr list \<times> nat" where
  "sort_pass lt [] = ([], 0)"
| "sort_pass lt (x # xs) =
     (case span_run lt x xs of
        (r, []) \<Rightarrow> (x # r, 1)
      | (r, y # ys) \<Rightarrow>
          (case span_run lt y ys of
             (r2, rest) \<Rightarrow>
               (case sort_pass lt rest of
                  (out, c) \<Rightarrow> (merge_runs lt (x # r) (y # r2) @ out, Suc c))))"
  by pat_completeness auto
termination
  by (relation "measure (\<lambda>(lt, xs). length xs)")
    (auto dest!: span_run_append [OF sym])

fun nruns :: "less_func \<Rightarrow> addr list \<Rightarrow> nat" where
  "nruns lt [] = 0"
| "nruns lt [x] = 1"
| "nruns lt (x # y # zs) = (if lt y x then 1 else 0) + nruns lt (y # zs)"


abbreviation (input) le :: "less_func \<Rightarrow> addr \<Rightarrow> addr \<Rightarrow> bool" where
  "le lt a b \<equiv> \<not> lt b a"

lemma weak_order_asym: "weak_order lt \<Longrightarrow> lt a b \<Longrightarrow> le lt a b"
  unfolding weak_order_def by blast

lemma weak_order_trans: "weak_order lt \<Longrightarrow> le lt a b \<Longrightarrow> le lt b c \<Longrightarrow> le lt a c"
  unfolding weak_order_def by blast

lemma weak_order_less_le: "weak_order lt \<Longrightarrow> lt y x \<Longrightarrow> le lt x z \<Longrightarrow> lt y z"
  using weak_order_trans [where lt = lt and a = x and b = z and c = y] by blast

lemma weak_order_transp: "weak_order lt \<Longrightarrow> transp (le lt)"
  by (rule transpI) (rule weak_order_trans)

lemma successively_ordered: "weak_order lt \<Longrightarrow> successively (le lt) xs \<longleftrightarrow> ordered lt xs"
  by (simp add: ordered_def weak_order_transp successively_conv_sorted_wrt)

subsection \<open>Runs and merges on lists\<close>

lemma span_run_sorted: "span_run lt x ys = (r, s) \<Longrightarrow> successively (le lt) (x # r)"
  by (induction ys arbitrary: x r) (auto split: if_splits prod.splits)

lemma span_run_nruns: "span_run lt x ys = (r, s) \<Longrightarrow> nruns lt (x # ys) = Suc (nruns lt s)"
  by (induction ys arbitrary: x r) (auto split: if_splits prod.splits)

lemma merge_runs_mset [simp]: "mset (merge_runs lt xs ys) = mset xs + mset ys"
  by (induction lt xs ys rule: merge_runs.induct) auto

lemma merge_runs_set: "set (merge_runs lt xs ys) = set xs \<union> set ys"
  by (metis merge_runs_mset set_mset_mset set_mset_union)

lemma ordered_less_all:
  assumes "weak_order lt" "ordered lt (x # xs)" "lt y x" "z \<in> set (x # xs)"
  shows "lt y z"
proof (cases "z = x")
  case False
  then have "le lt x z" using assms by (simp add: ordered_def)
  then show ?thesis using weak_order_less_le [OF assms(1,3)] by blast
qed (use assms in simp)

lemma ordered_le_all:
  assumes "weak_order lt" "ordered lt (x # xs)" "le lt y x" "z \<in> set (x # xs)"
  shows "le lt y z"
proof (cases "z = x")
  case False
  then have "le lt x z" using assms by (simp add: ordered_def)
  then show ?thesis using weak_order_trans [OF assms(1,3)] by blast
qed (use assms in simp)

lemma merge_runs_ordered:
  "weak_order lt \<Longrightarrow> ordered lt xs \<Longrightarrow> ordered lt ys \<Longrightarrow> ordered lt (merge_runs lt xs ys)"
proof (induction lt xs ys rule: merge_runs.induct)
  case (3 lt x xs y ys)
  show ?case
  proof (cases "lt y x")
    case True
    then have "\<forall>z \<in> set (x # xs). le lt y z"
      using ordered_less_all [OF "3.prems"(1,2)] weak_order_asym [OF "3.prems"(1)] by blast
    then show ?thesis using True 3 by (auto simp: ordered_def merge_runs_set)
  next
    case False
    then have "\<forall>z \<in> set (y # ys). le lt x z"
      using ordered_le_all [OF "3.prems"(1,3)] by blast
    then show ?thesis using False 3 by (auto simp: ordered_def merge_runs_set)
  qed
qed auto

lemma same_key_trans:
  "weak_order lt \<Longrightarrow> same_key lt k a \<Longrightarrow> same_key lt k b \<Longrightarrow> same_key lt a b"
  unfolding same_key_def by (auto dest: weak_order_trans)

lemma merge_runs_stable:
  assumes w: "weak_order lt"
  shows "ordered lt xs \<Longrightarrow>
    filter (same_key lt k) (merge_runs lt xs ys) = filter (same_key lt k) xs @ filter (same_key lt k) ys"
  using w
proof (induction lt xs ys rule: merge_runs.induct)
  case (3 lt x xs y ys)
  have "filter (same_key lt k) (x # xs) = []" if "lt y x" "same_key lt k y"
  proof -
    have "lt y z" if "z \<in> set (x # xs)" for z
      using ordered_less_all [OF "3.prems"(2,1) \<open>lt y x\<close>] that .
    then show ?thesis
      using \<open>same_key lt k y\<close> same_key_trans [OF "3.prems"(2), of k y]
      by (auto simp: filter_empty_conv same_key_def [of lt y])
  qed
  then show ?case
    using 3 by (auto simp: ordered_def)
qed auto

lemma nruns_append_le: "nruns lt (xs @ ys) \<le> nruns lt xs + nruns lt ys"
proof (induction lt xs rule: nruns.induct)
  case (2 lt x)
  then show ?case by (cases ys) auto
qed auto

lemma nruns_le_1_iff: "nruns lt xs \<le> 1 \<longleftrightarrow> successively (le lt) xs"
proof (induction lt xs rule: nruns.induct)
  case (3 lt x y zs)
  have "nruns lt (y # zs) \<noteq> 0" by (induction zs arbitrary: y) auto
  then show ?case using 3 by auto
qed auto

lemma nruns_le_length: "nruns lt xs \<le> length xs"
  by (induction lt xs rule: nruns.induct) auto

text \<open>
  A pass is analysed by cases on the first two runs: none, one, or two runs followed by the rest.
\<close>

lemma sort_pass_one:
  "span_run lt x xs = (r, []) \<Longrightarrow> sort_pass lt (x # xs) = (x # r, 1)"
  by simp

lemma sort_pass_two:
  "span_run lt x xs = (r, y # ys) \<Longrightarrow> span_run lt y ys = (r2, rest) \<Longrightarrow>
   sort_pass lt (x # xs) =
     (merge_runs lt (x # r) (y # r2) @ fst (sort_pass lt rest), Suc (snd (sort_pass lt rest)))"
  by (simp split: prod.splits)

declare sort_pass.simps(2) [simp del] merge_runs.simps(3) [simp del]

lemma sort_pass_induct [case_names Nil One Two]:
  assumes nil: "P []"
    and one: "\<And>x r. span_run lt x r = (r, []) \<Longrightarrow> sort_pass lt (x # r) = (x # r, 1) \<Longrightarrow> P (x # r)"
    and two: "\<And>x r y r2 rest. span_run lt x (r @ y # r2 @ rest) = (r, y # r2 @ rest) \<Longrightarrow>
      span_run lt y (r2 @ rest) = (r2, rest) \<Longrightarrow>
      sort_pass lt (x # r @ y # r2 @ rest) =
        (merge_runs lt (x # r) (y # r2) @ fst (sort_pass lt rest), Suc (snd (sort_pass lt rest))) \<Longrightarrow>
      P rest \<Longrightarrow> P (x # r @ y # r2 @ rest)"
  shows "P xs"
proof (induction xs rule: length_induct)
  case (1 xs)
  show ?case
  proof (cases xs)
    case Nil
    then show ?thesis using nil by simp
  next
    case xs: (Cons x ys)
    obtain r s where rs: "span_run lt x ys = (r, s)" by force
    note ys = span_run_append [OF rs]
    show ?thesis
    proof (cases s)
      case Nil
      then show ?thesis using one [of x r] rs ys xs sort_pass_one [of lt x ys r] by simp
    next
      case (Cons y zs)
      obtain r2 rest where rr: "span_run lt y zs = (r2, rest)" by force
      note zs = span_run_append [OF rr]
      have "P rest" using 1 xs ys zs Cons by auto
      then show ?thesis
        using two [of x r y r2 rest] rs rr ys zs xs Cons sort_pass_two [of lt x ys r y zs r2 rest] by simp
    qed
  qed
qed

lemma sort_pass_mset [simp]: "mset (fst (sort_pass lt xs)) = mset xs"
  by (induction xs rule: sort_pass_induct [of _ lt]) auto

lemma sort_pass_count: "snd (sort_pass lt xs) = (nruns lt xs + 1) div 2"
  by (induction xs rule: sort_pass_induct [of _ lt]) (auto dest!: span_run_nruns)

lemma merge_spans_ordered:
  assumes "weak_order lt" "span_run lt x xs = (r, s)" "span_run lt y ys = (r2, s2)"
  shows "ordered lt (merge_runs lt (x # r) (y # r2))"
  using assms span_run_sorted [of lt x xs r s] span_run_sorted [of lt y ys r2 s2]
  by (simp add: merge_runs_ordered successively_ordered del: successively.simps)

lemma sort_pass_nruns:
  assumes w: "weak_order lt"
  shows "nruns lt (fst (sort_pass lt xs)) \<le> snd (sort_pass lt xs)"
proof (induction xs rule: sort_pass_induct [of _ lt])
  case (One x r)
  then show ?case using span_run_sorted [of lt x r r "[]"] nruns_le_1_iff [of lt "x # r"] by simp
next
  case (Two x r y r2 rest)
  have "nruns lt (merge_runs lt (x # r) (y # r2)) \<le> 1"
    using merge_spans_ordered [OF w Two(1,2)] w by (simp only: nruns_le_1_iff successively_ordered)
  then show ?case
    using Two nruns_append_le [of lt "merge_runs lt (x # r) (y # r2)" "fst (sort_pass lt rest)"] by simp
qed simp

lemma sort_pass_stable:
  assumes w: "weak_order lt"
  shows "filter (same_key lt k) (fst (sort_pass lt xs)) = filter (same_key lt k) xs"
proof (induction xs rule: sort_pass_induct [of _ lt])
  case (Two x r y r2 rest)
  have "ordered lt (x # r)"
    using w span_run_sorted [OF Two(1)] by (simp add: successively_ordered del: successively.simps)
  then show ?case
    using Two merge_runs_stable [OF w, of "x # r" k "y # r2"] by auto
qed auto

subsection \<open>The pointer loops compute the list functions\<close>

lemma dll_neq: "dll h (as @ x # ys @ b # bs) \<Longrightarrow> z \<in> set (x # ys) \<Longrightarrow> z \<noteq> b"
  by (auto simp: dll_def)

lemma dll_hd_next:
  "dll h (as @ x # ys @ b # bs) \<Longrightarrow> list_next h x = Some (hd (ys @ [b]))"
  by (cases ys) auto

lemma dll_hd_prev:
  "dll h (as @ x # ys @ b # bs) \<Longrightarrow> list_prev h (hd (ys @ [b])) = Some x"
  by (cases ys) auto

lemma is_sorted_loop_dll:
  "dll h (as @ x # ys @ b # bs) \<Longrightarrow> is_sorted_loop h x b lt = Some (successively (le lt) (x # ys))"
proof (induction ys arbitrary: as x)
  case Nil
  then show ?case using dll_hd_next [of h as x "[]"] by (subst is_sorted_loop.simps) simp
next
  case (Cons y ys)
  then show ?case
    using Cons.IH [of "as @ [x]" y] dll_hd_next [OF Cons.prems] dll_hd_prev [OF Cons.prems]
      dll_neq [OF Cons.prems, of y]
    by (subst is_sorted_loop.simps) simp
qed

lemma is_sorted_dll:
  "dll h (as @ xs @ b # bs) \<Longrightarrow> is_sorted h (hd (xs @ [b])) b lt = Some (successively (le lt) xs)"
proof (cases xs)
  case (Cons x ys)
  then show "dll h (as @ xs @ b # bs) \<Longrightarrow> ?thesis"
    using is_sorted_loop_dll [of h as x ys b bs] dll_neq [of h as x ys b bs x]
    by (simp add: is_sorted_def del: successively.simps)
qed (simp add: is_sorted_def)

lemma find_end_of_run_loop_dll:
  "dll h (as @ x # ys @ b # bs) \<Longrightarrow> span_run lt x ys = (r, s) \<Longrightarrow>
   find_end_of_run_loop h x b lt = Some (hd (s @ [b]))"
proof (induction ys arbitrary: as x r)
  case Nil
  then show ?case using dll_hd_next [of h as x "[]"] by (subst find_end_of_run_loop.simps) simp
next
  case (Cons y ys)
  then show ?case
    using Cons.IH [of "as @ [x]" y] dll_hd_next [OF Cons.prems(1)] dll_hd_prev [OF Cons.prems(1)]
      dll_neq [OF Cons.prems(1), of y]
    by (subst find_end_of_run_loop.simps) (auto split: prod.splits if_splits)
qed

lemma find_end_of_run_dll:
  assumes "dll h (as @ x # ys @ b # bs)" "span_run lt x ys = (r, s)"
  shows "find_end_of_run h x b lt = Some (hd (s @ [b]))"
proof -
  have "x \<noteq> NULL" "b \<noteq> NULL" "x \<noteq> b" using assms(1) by (auto simp: dll_def)
  then show ?thesis using find_end_of_run_loop_dll [OF assms] by (simp add: find_end_of_run_def)
qed

lemma hd_snoc_ne: "hd (xs @ [b]) \<noteq> b \<Longrightarrow> xs \<noteq> []"
  by auto

lemma inplace_merge_loop_dll:
  "dll h (as @ r # xs @ ys @ b # bs) \<Longrightarrow>
   \<exists>h'. inplace_merge_loop h (hd (xs @ ys @ [b])) (hd (ys @ [b])) b lt = Some h' \<and>
     dll h' (as @ r # merge_runs lt xs ys @ b # bs) \<and> agree_off (set (r # xs @ ys @ [b])) h h'"
proof (induction lt xs ys arbitrary: as r h rule: merge_runs.induct)
  case (1 lt ys)
  then show ?case by (subst inplace_merge_loop.simps) auto
next
  case (2 lt x xs)
  then show ?case by (subst inplace_merge_loop.simps) auto
next
  case (3 lt x xs y ys)
  let ?q = "hd (ys @ [b])"
  obtain qs where qs: "ys @ b # bs = ?q # qs" by (cases ys) auto
  have neq: "x \<noteq> y" "y \<noteq> b" using "3.prems" by (auto simp: dll_def)
  show ?case
  proof (cases "lt y x")
    case False
    have "list_next h x = Some (hd (xs @ y # ys @ [b]))"
      using dll_hd_next [of h "as @ [r]" x "xs @ y # ys" b bs] "3.prems" by simp
    with "3.IH"(1) [of h "as @ [r]" x] "3.prems" False neq show ?thesis
      by (subst inplace_merge_loop.simps) (auto simp: merge_runs.simps elim: agree_off_mono)
  next
    case True
    have d: "dll h (as @ r # x # xs @ y # ?q # qs)"
      using "3.prems" qs by simp
    then have "dll h ((as @ r # x # xs) @ y # ?q # qs)"
      by simp
    note nx = list_next_dll [OF this] list_prev_dll [OF this]
    from dll_splice_one [OF d] obtain h' where h': "list_splice h x y ?q = Some h'"
      "dll h' (as @ r # y # x # xs @ ?q # qs)" "agree_off (set (r # x # xs @ [y, ?q])) h h'" by blast
    have "agree_off (set (r # (x # xs) @ (y # ys) @ [b])) h h'"
      using h'(3) by (rule agree_off_mono) (cases ys; auto)
    moreover obtain h'' where "inplace_merge_loop h' x ?q b lt = Some h''"
      "dll h'' (as @ r # y # merge_runs lt (x # xs) ys @ b # bs)" "agree_off (set (y # (x # xs) @ ys @ [b])) h' h''"
      using "3.IH"(2) [of h' "as @ [r]" y] True h'(2) qs by auto
    moreover from this(3) have "agree_off (set (r # (x # xs) @ (y # ys) @ [b])) h' h''"
      by (rule agree_off_mono) auto
    ultimately show ?thesis
      using True neq nx h' by (subst inplace_merge_loop.simps) (auto simp: merge_runs.simps intro: agree_off_trans)
  qed
qed

lemma inplace_merge_dll:
  assumes d: "dll h (as @ r # xs @ ys @ b # bs)"
    and s: "successively (le lt) xs" "successively (le lt) ys"
  shows "\<exists>h'. inplace_merge h (hd (xs @ ys @ [b])) (hd (ys @ [b])) b lt = Some h' \<and>
     dll h' (as @ r # merge_runs lt xs ys @ b # bs) \<and> agree_off (set (r # xs @ ys @ [b])) h h'"
proof -
  obtain q qs where q: "ys @ b # bs = q # qs" "hd (ys @ [b]) = q" by (cases ys) auto
  have a: "hd (xs @ ys @ [b]) = hd (xs @ [q])"
    using q by (cases xs) auto
  have "is_sorted h (hd (xs @ [q])) q lt = Some True"
    using is_sorted_dll [of h "as @ [r]" xs q qs lt] d s q by simp
  moreover have "is_sorted h q b lt = Some True"
    using is_sorted_dll [of h "as @ r # xs" ys b bs lt] d s q by simp
  moreover have "hd (xs @ [q]) \<noteq> NULL" "q \<noteq> NULL" "b \<noteq> NULL"
    using d q by (cases xs; cases ys; auto simp: dll_def)+
  ultimately show ?thesis
    using inplace_merge_loop_dll [OF d, of lt] q a by (simp add: inplace_merge_def)
qed

subsection \<open>Sorting a list\<close>

lemma list_sort_pass_dll:
  assumes "ltail l = t" "l \<noteq> NULL"
  shows "dll h (as @ r # xs @ [t]) \<Longrightarrow>
   \<exists>h'. list_sort_pass h l lt (hd (xs @ [t])) c = Some (h', c + of_nat (snd (sort_pass lt xs))) \<and>
     dll h' (as @ r # fst (sort_pass lt xs) @ [t]) \<and> agree_off (set (r # xs @ [t])) h h'"
proof (induction xs arbitrary: h as r c rule: sort_pass_induct [of _ lt])
  case Nil
  then show ?case using assms by (subst list_sort_pass.simps) (simp add: list_end_def)
next
  case (One x xs)
  have "x \<noteq> t" using One.prems by (auto simp: dll_def)
  then show ?case
    using find_end_of_run_dll [of h "as @ [r]" x xs t "[]", OF _ One(1)] One assms
    by (subst list_sort_pass.simps) (simp add: list_end_def)
next
  case (Two x xs y ys rest)
  let ?b = "hd (rest @ [t])" and ?m = "merge_runs lt (x # xs) (y # ys)"
  have neq: "x \<noteq> t" "y \<noteq> t" using Two.prems by (auto simp: dll_def)
  have e1: "find_end_of_run h x t lt = Some y"
    using find_end_of_run_dll [of h "as @ [r]" x _ t "[]", OF _ Two(1)] Two.prems by simp
  have e2: "find_end_of_run h y t lt = Some ?b"
    using find_end_of_run_dll [of h "as @ r # x # xs" y _ t "[]", OF _ Two(2)] Two.prems by simp
  obtain bs where bs: "rest @ [t] = ?b # bs" by (cases rest) auto
  obtain h1 where h1: "inplace_merge h x y ?b lt = Some h1"
    "dll h1 (as @ r # ?m @ ?b # bs)" "agree_off (set (r # (x # xs) @ (y # ys) @ [?b])) h h1"
    using inplace_merge_dll [of h as r "x # xs" "y # ys" ?b bs lt] Two.prems bs
      span_run_sorted [OF Two(1)] span_run_sorted [OF Two(2)] by auto
  obtain zs z where z: "r # ?m = zs @ [z]" by (metis list.distinct(1) rev_exhaust)
  then have "dll h1 ((as @ zs) @ z # rest @ [t])"
    using h1(2) bs by (metis append.assoc append_Cons append_Nil)
  from Two.IH [OF this, of "c + 1"] obtain h2 where h2:
    "list_sort_pass h1 l lt ?b (c + 1) = Some (h2, c + 1 + of_nat (snd (sort_pass lt rest)))"
    "dll h2 ((as @ zs) @ z # fst (sort_pass lt rest) @ [t])" "agree_off (set (z # rest @ [t])) h1 h2"
    by blast
  have "set (r # ?m) = set (zs @ [z])" by (simp only: z)
  then have "z \<in> set (r # (x # xs) @ y # ys)" by (auto simp: merge_runs_set)
  moreover have "?b \<in> set (rest @ [t])" using bs by (metis list.set_intros(1))
  ultimately have "agree_off (set (r # (x # xs @ y # ys @ rest) @ [t])) h h2"
    by (intro agree_off_trans [OF agree_off_mono [OF h1(3)] agree_off_mono [OF h2(3)]]) auto
  moreover have "dll h2 (as @ r # (?m @ fst (sort_pass lt rest)) @ [t])"
    using h2(2) z by (metis append.assoc append_Cons append_Nil)
  ultimately show ?case
    using assms neq e1 e2 h1(1) h2(1) Two(3) by (subst list_sort_pass.simps) (simp add: list_end_def add.assoc)
qed

lemma list_sort_pass_rep:
  assumes "list_rep h l xs"
  shows "\<exists>h'. list_sort_pass h l lt (hd (xs @ [ltail l])) 0 = Some (h', of_nat (snd (sort_pass lt xs))) \<and>
    list_rep h' l (fst (sort_pass lt xs)) \<and> agree_off (set (nodes l xs)) h h'"
  using list_sort_pass_dll [OF refl list_rep_NULL [OF assms], of h "[]" "lhead l" xs lt 0] assms
  by (simp add: list_rep_def nodes_def)

definition sorted_version :: "less_func \<Rightarrow> addr list \<Rightarrow> addr list \<Rightarrow> bool" where
  "sorted_version lt xs ys \<longleftrightarrow> mset ys = mset xs \<and> ordered lt ys \<and>
     (\<forall>k. filter (same_key lt k) ys = filter (same_key lt k) xs)"

lemma nodes_mset: "mset xs = mset ys \<Longrightarrow> set (nodes l xs) = set (nodes l ys)"
  by (drule mset_eq_setD) (simp add: nodes_def)

lemma list_sort_loop_rep:
  assumes w: "weak_order lt"
  shows "list_rep h l xs \<Longrightarrow>
   \<exists>h' ys. list_sort_loop h l lt = Some h' \<and> list_rep h' l ys \<and> sorted_version lt xs ys \<and>
     agree_off (set (nodes l xs)) h h'"
proof (induction "nruns lt xs" arbitrary: h xs rule: less_induct)
  case less
  let ?n = "snd (sort_pass lt xs)" and ?ys = "fst (sort_pass lt xs)"
  obtain h1 where h1: "list_sort_pass h l lt (hd (xs @ [ltail l])) 0 = Some (h1, of_nat ?n)"
    "list_rep h1 l ?ys" "agree_off (set (nodes l xs)) h h1"
    using list_sort_pass_rep [OF less.prems] by blast
  have "?n \<le> length xs"
    using sort_pass_count [of lt xs] nruns_le_length [of lt xs] by linarith
  then have "?n < 2 ^ 32" using list_rep_length [OF less.prems] by linarith
  then have cmp: "(1 :: u32) < of_nat ?n \<longleftrightarrow> 1 < ?n"
    using unat_of_nat_id [where 'a = 32, of ?n] by (simp add: word_less_nat_alt)
  note step = list_begin_rep [OF less.prems] h1(1) cmp
  show ?case
  proof (cases "1 < ?n")
    case False
    have "ordered lt ?ys"
      using sort_pass_nruns [OF w, of xs] False w nruns_le_1_iff [of lt ?ys]
      by (simp add: successively_ordered)
    then have "sorted_version lt xs ?ys"
      using w by (simp add: sorted_version_def sort_pass_stable)
    then show ?thesis
      using step False h1 by (subst list_sort_loop.simps) auto
  next
    case True
    then have "nruns lt ?ys < nruns lt xs"
      using sort_pass_nruns [OF w, of xs] sort_pass_count [of lt xs] by linarith
    from less.hyps [OF this h1(2)] obtain h2 ys where h2: "list_sort_loop h1 l lt = Some h2"
      "list_rep h2 l ys" "sorted_version lt ?ys ys" "agree_off (set (nodes l ?ys)) h1 h2" by blast
    moreover have "set (nodes l ?ys) = set (nodes l xs)" by (rule nodes_mset) simp
    moreover have "sorted_version lt xs ys"
      using h2(3) w by (simp add: sorted_version_def sort_pass_stable)
    ultimately show ?thesis
      using step True agree_off_trans [OF h1(3), of h2]
      by (intro exI [of _ h2] exI [of _ ys]) (subst list_sort_loop.simps, simp)
  qed
qed

lemma list_sort_rep:
  assumes "weak_order lt" "list_rep h l xs"
  shows "\<exists>h' ys. list_sort h l lt = Some h' \<and> list_rep h' l ys \<and> sorted_version lt xs ys \<and>
     agree_off (set (nodes l xs)) h h'"
proof -
  from list_sort_loop_rep [OF assms] obtain h' ys where h': "list_sort_loop h l lt = Some h'"
    "list_rep h' l ys" "sorted_version lt xs ys" "agree_off (set (nodes l xs)) h h'" by blast
  have "is_sorted h' (hd (ys @ [ltail l])) (ltail l) lt = Some True"
    using is_sorted_dll [of h' "[lhead l]" ys "ltail l" "[]" lt] h'(2,3) assms(1)
    by (simp add: list_rep_def nodes_def sorted_version_def successively_ordered)
  then have "list_sort h l lt = Some h'"
    using h'(1) list_rep_NULL [OF assms(2)] list_begin_rep [OF h'(2)] list_end_rep [OF h'(2)]
    by (simp add: list_sort_def)
  with h' show ?thesis by blast
qed

subsection \<open>Ordered insertion\<close>

lemma insert_ordered_pos_rep:
  "list_rep h l (as @ ys) \<Longrightarrow>
   insert_ordered_pos h l e lt (hd (ys @ [ltail l])) = Some (hd (dropWhile (\<lambda>x. \<not> lt e x) ys @ [ltail l]))"
proof (induction ys arbitrary: as)
  case Nil
  then show ?case by (subst insert_ordered_pos.simps) (simp add: list_end_rep)
next
  case (Cons y ys)
  then show ?case
    using Cons.IH [of "as @ [y]"] list_rep_next [OF Cons.prems] list_rep_in_neq [OF Cons.prems]
    by (subst insert_ordered_pos.simps) (simp add: list_end_rep)
qed

text \<open>The element goes before the first element it is less than, hence after its equals.\<close>

lemma list_insert_ordered_rep:
  assumes r: "list_rep h l xs" and e: "e \<notin> set (nodes l xs)" "e \<noteq> NULL"
  shows "\<exists>h'. list_insert_ordered h l e lt = Some h' \<and>
    list_rep h' l (takeWhile (\<lambda>x. \<not> lt e x) xs @ e # dropWhile (\<lambda>x. \<not> lt e x) xs) \<and>
    agree_off (set (nodes l (e # xs))) h h'"
proof -
  let ?P = "\<lambda>x. \<not> lt e x"
  have p: "insert_ordered_pos h l e lt (hd (xs @ [ltail l])) = Some (hd (dropWhile ?P xs @ [ltail l]))"
    using insert_ordered_pos_rep [of h l "[]" xs] r by simp
  have "set (nodes l (takeWhile ?P xs @ e # dropWhile ?P xs)) = set (nodes l (e # xs))"
  proof -
    have "set xs = set (takeWhile ?P xs) \<union> set (dropWhile ?P xs)"
      by (metis set_append takeWhile_dropWhile_id)
    then show ?thesis by (auto simp: nodes_def)
  qed
  then show ?thesis
    using list_insert_rep [of h l "takeWhile ?P xs" "dropWhile ?P xs" e] r e p
    by (simp add: list_insert_ordered_def list_begin_rep list_rep_NULL)
qed

lemma ordered_insert_between:
  "ordered lt (ts @ ys) \<Longrightarrow> \<forall>z \<in> set ys. le lt e z \<Longrightarrow> \<forall>x \<in> set ts. le lt x e \<Longrightarrow>
   ordered lt (ts @ e # ys)"
  by (auto simp: ordered_def sorted_wrt_append)

lemma ordered_insert:
  assumes w: "weak_order lt" and o: "ordered lt xs"
  shows "ordered lt (takeWhile (\<lambda>x. \<not> lt e x) xs @ e # dropWhile (\<lambda>x. \<not> lt e x) xs)"
proof (cases "dropWhile (\<lambda>x. \<not> lt e x) xs")
  case Nil
  then have "\<forall>x \<in> set xs. \<not> lt e x" by (simp add: dropWhile_eq_Nil_conv)
  then show ?thesis
    using o takeWhile_eq_all_conv [of "\<lambda>x. \<not> lt e x" xs] unfolding Nil
    by (auto simp: ordered_def sorted_wrt_append dest: set_takeWhileD)
next
  case (Cons y ys)
  let ?t = "takeWhile (\<lambda>x. \<not> lt e x) xs"
  have ty: "ordered lt (?t @ y # ys)" using o Cons by (metis takeWhile_dropWhile_id)
  then have "ordered lt (y # ys)" by (simp add: ordered_def sorted_wrt_append)
  moreover have "lt e y" using Cons by (metis dropWhile_eq_Cons_conv)
  ultimately have "\<forall>z \<in> set (y # ys). le lt e z"
    using ordered_less_all [OF w, of y ys e] weak_order_asym [OF w, of e] by blast
  moreover have "\<forall>x \<in> set ?t. le lt x e" by (auto dest: set_takeWhileD)
  ultimately show ?thesis unfolding Cons by (rule ordered_insert_between [OF ty])
qed

subsection \<open>Minimum and maximum\<close>

lemma list_max_loop_rep:
  "list_rep h l (as @ ys) \<Longrightarrow>
   list_max_loop h l lt m (hd (ys @ [ltail l])) = Some (foldl (\<lambda>m e. if lt m e then e else m) m ys)"
proof (induction ys arbitrary: as m)
  case Nil
  then show ?case by (subst list_max_loop.simps) (simp add: list_end_rep)
next
  case (Cons y ys)
  then show ?case
    using Cons.IH [of "as @ [y]"] list_rep_next [OF Cons.prems] list_rep_in_neq [OF Cons.prems]
    by (subst list_max_loop.simps) (simp add: list_end_rep)
qed

lemma list_min_loop_rep:
  "list_rep h l (as @ ys) \<Longrightarrow>
   list_min_loop h l lt m (hd (ys @ [ltail l])) = Some (foldl (\<lambda>m e. if lt e m then e else m) m ys)"
proof (induction ys arbitrary: as m)
  case Nil
  then show ?case by (subst list_min_loop.simps) (simp add: list_end_rep)
next
  case (Cons y ys)
  then show ?case
    using Cons.IH [of "as @ [y]"] list_rep_next [OF Cons.prems] list_rep_in_neq [OF Cons.prems]
    by (subst list_min_loop.simps) (simp add: list_end_rep)
qed

definition earliest_best :: "(addr \<Rightarrow> addr \<Rightarrow> bool) \<Rightarrow> addr list \<Rightarrow> addr \<Rightarrow> bool" where
  "earliest_best better xs m \<longleftrightarrow>
     (\<exists>as bs. xs = as @ m # bs \<and> (\<forall>a \<in> set as. better m a) \<and> (\<forall>b \<in> set bs. \<not> better b m))"

lemma foldl_earliest_best:
  assumes t: "\<And>a b c. better a b \<Longrightarrow> \<not> better c b \<Longrightarrow> better a c"
    and t': "\<And>a b c. better a b \<Longrightarrow> better b c \<Longrightarrow> better a c"
  shows "earliest_best better xs m \<Longrightarrow>
    earliest_best better (xs @ ys) (foldl (\<lambda>m e. if better e m then e else m) m ys)"
proof (induction ys arbitrary: xs m)
  case (Cons y ys)
  from Cons.prems obtain as bs where x: "xs = as @ m # bs" "\<forall>a \<in> set as. better m a" "\<forall>b \<in> set bs. \<not> better b m"
    by (auto simp: earliest_best_def)
  have "earliest_best better (xs @ [y]) (if better y m then y else m)"
  proof (cases "better y m")
    case True
    then have "\<forall>a \<in> set xs. better y a" using x t [OF True] t' [OF True] by auto
    then show ?thesis using True by (auto simp: earliest_best_def intro: exI [of _ xs])
  next
    case False
    have "xs @ [y] = as @ m # (bs @ [y])" using x by simp
    then show ?thesis using x False unfolding earliest_best_def
      by (intro exI [of _ as] exI [of _ "bs @ [y]"]) auto
  qed
  then show ?case using Cons.IH [of "xs @ [y]"] by simp
qed simp

lemma earliest_best_single: "earliest_best better [x] x"
  by (auto simp: earliest_best_def intro: exI [of _ "[]"])

lemma list_max_rep:
  assumes w: "weak_order lt" and r: "list_rep h l (x # xs)"
  shows "\<exists>m. list_max h l lt = Some m \<and> earliest_best (\<lambda>a b. lt b a) (x # xs) m"
proof -
  have "list_max h l lt = Some (foldl (\<lambda>m e. if lt m e then e else m) x xs)"
    using r list_max_loop_rep [of h l "[x]" xs] list_rep_next [of h l "[]" x xs] list_rep_in_neq [of h l "[]" x xs]
    by (simp add: list_max_def list_begin_rep list_end_rep)
  moreover have "earliest_best (\<lambda>a b. lt b a) ([x] @ xs) (foldl (\<lambda>m e. if lt m e then e else m) x xs)"
    by (rule foldl_earliest_best [of "\<lambda>a b. lt b a", OF _ _ earliest_best_single])
      (metis weak_order_trans weak_order_asym w)+
  ultimately show ?thesis by simp
qed

lemma list_min_rep:
  assumes w: "weak_order lt" and r: "list_rep h l (x # xs)"
  shows "\<exists>m. list_min h l lt = Some m \<and> earliest_best lt (x # xs) m"
proof -
  have "list_min h l lt = Some (foldl (\<lambda>m e. if lt e m then e else m) x xs)"
    using r list_min_loop_rep [of h l "[x]" xs] list_rep_next [of h l "[]" x xs] list_rep_in_neq [of h l "[]" x xs]
    by (simp add: list_min_def list_begin_rep list_end_rep)
  moreover have "earliest_best lt ([x] @ xs) (foldl (\<lambda>m e. if lt e m then e else m) x xs)"
    by (rule foldl_earliest_best [OF _ _ earliest_best_single])
      (metis weak_order_trans weak_order_asym w)+
  ultimately show ?thesis by simp
qed

lemma list_max_min_empty:
  "list_rep h l [] \<Longrightarrow> list_max h l lt = Some (ltail l) \<and> list_min h l lt = Some (ltail l)"
  by (simp add: list_max_def list_min_def list_begin_rep list_end_rep)

subsection \<open>Removing adjacent duplicates\<close>

text \<open>
  \<open>unique_split lt x ys\<close> keeps, of the list \<open>x # ys\<close>, the first element of every group of
  adjacent equivalent elements; the second component lists the others in order.
\<close>

fun unique_split :: "less_func \<Rightarrow> addr \<Rightarrow> addr list \<Rightarrow> addr list \<times> addr list" where
  "unique_split lt x [] = ([x], [])"
| "unique_split lt x (y # ys) =
     (if same_key lt x y then (fst (unique_split lt x ys), y # snd (unique_split lt x ys))
      else (x # fst (unique_split lt y ys), snd (unique_split lt y ys)))"

lemma unique_split_mset: "mset (fst (unique_split lt x ys)) + mset (snd (unique_split lt x ys)) = mset (x # ys)"
  by (induction lt x ys rule: unique_split.induct) auto

lemma unique_split_hd: "\<exists>zs. fst (unique_split lt x ys) = x # zs"
  by (induction lt x ys rule: unique_split.induct) auto

lemma unique_split_distinct:
  "successively (\<lambda>a b. \<not> same_key lt a b) (fst (unique_split lt x ys))"
proof (induction lt x ys rule: unique_split.induct)
  case (2 lt x y ys)
  then show ?case using unique_split_hd [of lt y ys] by auto
qed simp

lemma agree_off_Un: "agree_off A h h' \<Longrightarrow> agree_off B h' h'' \<Longrightarrow> agree_off (A \<union> B) h h''"
  by (simp add: agree_off_def)

lemma list_unique_loop_rep:
  "list_rep h l (as @ x # ys) \<Longrightarrow> list_rep h d ds \<Longrightarrow>
   set (nodes l (as @ x # ys)) \<inter> set (nodes d ds) = {} \<Longrightarrow>
   \<exists>h'. list_unique_loop h l d lt x = Some h' \<and>
     list_rep h' l (as @ fst (unique_split lt x ys)) \<and> list_rep h' d (ds @ snd (unique_split lt x ys)) \<and>
     agree_off (set (nodes l (as @ x # ys)) \<union> set (nodes d ds)) h h'"
proof (induction lt x ys arbitrary: h as ds rule: unique_split.induct)
  case (1 lt x)
  then show ?case
    using list_rep_next [OF "1.prems"(1)] list_end_rep [OF "1.prems"(1)]
    by (subst list_unique_loop.simps) simp
next
  case (2 lt x y ys)
  note r = "2.prems"(1)
  have yt: "y \<noteq> ltail l" using list_rep_in_neq [of h l "as @ [x]" y ys] r by simp
  note step = list_rep_next [OF r] list_end_rep [OF r] yt
  show ?case
  proof (cases "same_key lt x y")
    case False
    then obtain h' where "list_unique_loop h l d lt y = Some h'"
     "list_rep h' l ((as @ [x]) @ fst (unique_split lt y ys))" "list_rep h' d (ds @ snd (unique_split lt y ys))"
     "agree_off (set (nodes l ((as @ [x]) @ y # ys)) \<union> set (nodes d ds)) h h'"
      using "2.IH"(3) [OF False, of h "as @ [x]" ds] "2.prems" by (simp only: append.assoc append.simps) blast
    then show ?thesis
      using step False by (subst list_unique_loop.simps) (auto simp: same_key_def)
  next
    case True
    have dn: "d \<noteq> NULL" by (rule list_rep_NULL [OF "2.prems"(2)])
    obtain h1 where h1: "list_remove h y = Some (hd (ys @ [ltail l]), h1)"
      "list_rep h1 l (as @ x # ys)" "agree_off (set (nodes l (as @ x # ys))) h h1"
      using list_remove_rep [of h l "as @ [x]" y ys] r by auto
    have sub: "set (nodes l (as @ x # y # ys)) = insert y (set (nodes l (as @ x # ys)))"
      by (auto simp: nodes_def)
    have dis: "set (nodes l (as @ x # ys)) \<inter> set (nodes d ds) = {}" "y \<notin> set (nodes d ds)"
      "y \<notin> set (nodes l (as @ x # ys))" "y \<noteq> NULL"
      using "2.prems"(3) r unfolding sub by (auto simp: list_rep_def dll_def nodes_def)
    have "list_rep h1 d ds"
      using list_rep_frame [OF "2.prems"(2) h1(3) dis(1)] .
    from list_push_back_rep [OF this dis(2,4)] obtain h2 where h2: "list_push_back h1 d y = Some h2"
      "list_rep h2 d (ds @ [y])" "agree_off (set (nodes d (ds @ [y]))) h1 h2" by blast
    have dsub: "set (nodes d (ds @ [y])) = insert y (set (nodes d ds))" by (auto simp: nodes_def)
    have "set (nodes d (ds @ [y])) \<inter> set (nodes l (as @ x # ys)) = {}"
      using dis dsub by auto
    note this [unfolded Int_commute [of _ "set (nodes l _)"]]
    moreover have "list_rep h2 l (as @ x # ys)"
      using list_rep_frame [OF h1(2) h2(3)] \<open>set (nodes d (ds @ [y])) \<inter> set (nodes l (as @ x # ys)) = {}\<close> .
    ultimately obtain h3 where h3: "list_unique_loop h2 l d lt x = Some h3"
      "list_rep h3 l (as @ fst (unique_split lt x ys))" "list_rep h3 d ((ds @ [y]) @ snd (unique_split lt x ys))"
      "agree_off (set (nodes l (as @ x # ys)) \<union> set (nodes d (ds @ [y]))) h2 h3"
      using "2.IH"(1) [OF True, of h2 as "ds @ [y]"] h2(2) by blast
    have "agree_off (set (nodes l (as @ x # y # ys)) \<union> set (nodes d ds)) h h3"
      using agree_off_Un [OF agree_off_Un [OF h1(3) h2(3)] h3(4)]
      by (rule agree_off_mono) (auto simp: sub dsub)
    then show ?thesis
      using step True h1(1) h2(1) h3 dn
      by (subst list_unique_loop.simps) (simp add: same_key_def)
  qed
qed

lemma list_unique_rep:
  assumes "list_rep h l (x # ys)" "list_rep h d ds" "set (nodes l (x # ys)) \<inter> set (nodes d ds) = {}"
  shows "\<exists>h'. list_unique h l d lt = Some h' \<and>
     list_rep h' l (fst (unique_split lt x ys)) \<and> list_rep h' d (ds @ snd (unique_split lt x ys)) \<and>
     agree_off (set (nodes l (x # ys)) \<union> set (nodes d ds)) h h'"
  using list_unique_loop_rep [of h l "[]" x ys d ds] assms
  by (simp add: list_unique_def list_empty_rep list_begin_rep list_rep_NULL)

end
