(* ===== verification/Kernel_List_Interface.thy ===== *)
theory Kernel_List_Interface
  imports Kernel_List_Sort
begin

text \<open>
  The interface through which the other kernel components use \<open>struct list\<close>. An abstract list
  operation is one of \<open>list_op\<close>; \<open>spec_op\<close> gives its meaning on a HOL list and \<open>exec_op\<close> runs the
  heap code of \<open>Kernel_List\<close>. The locale of refinements from the prelude is interpreted on the
  two, so that any sequence of operations on a kernel list computes what the same sequence does
  on the HOL list. The locale \<open>fifo\<close> is the part of the contract that wait queues and the ready
  queue depend on.
\<close>

datatype list_op =
    Push_Back addr
  | Push_Front addr
  | Pop_Front
  | Pop_Back
  | Remove addr
  | Reverse
  | Size
  | Is_Empty

datatype list_res = Done | Elem addr | Count u32 | Truth bool

fun spec_op :: "addr list \<Rightarrow> list_op \<Rightarrow> (list_res \<times> addr list) option" where
  "spec_op xs (Push_Back e) = Some (Done, xs @ [e])"
| "spec_op xs (Push_Front e) = Some (Done, e # xs)"
| "spec_op xs Pop_Front = (case xs of [] \<Rightarrow> None | x # ys \<Rightarrow> Some (Elem x, ys))"
| "spec_op xs Pop_Back = (if xs = [] then None else Some (Elem (last xs), butlast xs))"
| "spec_op xs (Remove e) = Some (Done, remove1 e xs)"
| "spec_op xs Reverse = Some (Done, rev xs)"
| "spec_op xs Size = Some (Count (of_nat (length xs)), xs)"
| "spec_op xs Is_Empty = Some (Truth (xs = []), xs)"

fun exec_op :: "addr \<Rightarrow> heap \<Rightarrow> list_op \<Rightarrow> (list_res \<times> heap) option" where
  "exec_op l h (Push_Back e) = map_option (Pair Done) (list_push_back h l e)"
| "exec_op l h (Push_Front e) = map_option (Pair Done) (list_push_front h l e)"
| "exec_op l h Pop_Front = map_option (\<lambda>(e, h'). (Elem e, h')) (list_pop_front h l)"
| "exec_op l h Pop_Back = map_option (\<lambda>(e, h'). (Elem e, h')) (list_pop_back h l)"
| "exec_op l h (Remove e) = map_option (\<lambda>(_, h'). (Done, h')) (list_remove h e)"
| "exec_op l h Reverse = map_option (Pair Done) (list_reverse h l)"
| "exec_op l h Size = map_option (\<lambda>n. (Count n, h)) (list_size h l)"
| "exec_op l h Is_Empty = map_option (\<lambda>b. (Truth b, h)) (list_empty h l)"

text \<open>What a client must guarantee: elements it adds are new to the list, those it removes are in it.\<close>

fun op_pre :: "addr \<Rightarrow> addr list \<Rightarrow> list_op \<Rightarrow> bool" where
  "op_pre l xs (Push_Back e) \<longleftrightarrow> e \<noteq> NULL \<and> e \<notin> set (nodes l xs)"
| "op_pre l xs (Push_Front e) \<longleftrightarrow> e \<noteq> NULL \<and> e \<notin> set (nodes l xs)"
| "op_pre l xs (Remove e) \<longleftrightarrow> e \<in> set xs"
| "op_pre l xs _ \<longleftrightarrow> True"

lemma exec_remove:
  assumes "list_rep h l xs" "e \<in> set xs"
  shows "\<exists>h'. exec_op l h (Remove e) = Some (Done, h') \<and> list_rep h' l (remove1 e xs)"
proof -
  obtain as bs where "xs = as @ e # bs" "e \<notin> set as" by (metis assms(2) split_list_first)
  then show ?thesis
    using list_remove_rep [of h l as e bs] assms(1) by (auto simp: remove1_append)
qed

lemma exec_pop_back:
  assumes "list_rep h l xs" "xs \<noteq> []"
  shows "\<exists>h'. exec_op l h Pop_Back = Some (Elem (last xs), h') \<and> list_rep h' l (butlast xs)"
  using list_pop_back_rep [of h l "butlast xs" "last xs"] assms by auto

lemma exec_op_spec:
  assumes r: "list_rep h l xs" and p: "op_pre l xs op"
  shows "case spec_op xs op of
     None \<Rightarrow> exec_op l h op = None
   | Some (v, ys) \<Rightarrow> \<exists>h'. exec_op l h op = Some (v, h') \<and> list_rep h' l ys"
proof (cases op)
  case (Push_Back e)
  then show ?thesis using list_push_back_rep [OF r] p by auto
next
  case (Push_Front e)
  then show ?thesis using list_push_front_rep [OF r] p by auto
next
  case Pop_Front
  then show ?thesis
    using r list_pop_front_rep [of h l] list_empty_panics [of h l] by (cases xs) auto
next
  case Pop_Back
  then show ?thesis
    using r exec_pop_back [OF r] list_empty_panics [of h l] by auto
next
  case (Remove e)
  then show ?thesis using exec_remove [OF r] p by auto
next
  case Reverse
  then show ?thesis using list_reverse_rep [OF r] by auto
qed (use list_size_rep [OF r] list_empty_rep [OF r] r in auto)

interpretation kl: op_refinement "\<lambda>h xs. list_rep h l xs" "exec_op l" spec_op "op_pre l" for l
  by unfold_locales (rule exec_op_spec)

locale fifo =
  fixes rep :: "'h \<Rightarrow> 'a list \<Rightarrow> bool"
    and fresh :: "'a list \<Rightarrow> 'a \<Rightarrow> bool"
    and enq :: "'h \<Rightarrow> 'a \<Rightarrow> 'h option"
    and deq :: "'h \<Rightarrow> ('a \<times> 'h) option"
  assumes enq: "rep h xs \<Longrightarrow> fresh xs e \<Longrightarrow> \<exists>h'. enq h e = Some h' \<and> rep h' (xs @ [e])"
    and deq: "rep h (x # xs) \<Longrightarrow> \<exists>h'. deq h = Some (x, h') \<and> rep h' xs"
begin

fun enqs :: "'h \<Rightarrow> 'a list \<Rightarrow> 'h option" where
  "enqs h [] = Some h"
| "enqs h (e # es) = enq h e \<bind> (\<lambda>h'. enqs h' es)"

fun deqs :: "'h \<Rightarrow> nat \<Rightarrow> ('a list \<times> 'h) option" where
  "deqs h 0 = Some ([], h)"
| "deqs h (Suc n) = deq h \<bind> (\<lambda>(x, h'). deqs h' n \<bind> (\<lambda>(xs, h''). Some (x # xs, h'')))"

lemma enqs_rep:
  "rep h xs \<Longrightarrow> \<forall>i < length es. fresh (xs @ take i es) (es ! i) \<Longrightarrow>
   \<exists>h'. enqs h es = Some h' \<and> rep h' (xs @ es)"
proof (induction es arbitrary: h xs)
  case (Cons e es)
  obtain h' where h': "enq h e = Some h'" "rep h' (xs @ [e])"
    using enq [of h xs e] Cons.prems by (metis append_Nil2 length_greater_0_conv list.distinct(1) nth_Cons_0 take0)
  have "\<forall>i < length es. fresh ((xs @ [e]) @ take i es) (es ! i)"
    using Cons.prems(2) by (metis Suc_less_eq append.assoc append_Cons append_Nil length_Cons nth_Cons_Suc take_Suc_Cons)
  then show ?case using Cons.IH [OF h'(2)] h'(1) by auto
qed simp

lemma deqs_rep: "rep h (xs @ ys) \<Longrightarrow> \<exists>h'. deqs h (length xs) = Some (xs, h') \<and> rep h' ys"
proof (induction xs arbitrary: h)
  case (Cons x xs)
  then obtain h' where "deq h = Some (x, h')" "rep h' (xs @ ys)" using deq [of h x] by auto
  then show ?case using Cons.IH [of h'] by auto
qed simp

lemma fifo_order:
  assumes "rep h xs" "\<forall>i < length es. fresh (xs @ take i es) (es ! i)"
  shows "\<exists>h' h''. enqs h es = Some h' \<and> deqs h' (length (xs @ es)) = Some (xs @ es, h'') \<and> rep h'' []"
  using enqs_rep [OF assms] deqs_rep [of _ "xs @ es" "[]"] by force

end

interpretation kq: fifo
  "\<lambda>h xs. list_rep h l xs" "\<lambda>xs e. e \<noteq> NULL \<and> e \<notin> set (nodes l xs)"
  "\<lambda>h e. list_push_back h l e" "\<lambda>h. list_pop_front h l" for l
  using list_push_back_rep list_pop_front_rep by unfold_locales blast+

subsection \<open>Properties\<close>

text \<open>A concrete heap with the list at 256 holding 16, 32 and 48, and an empty list at 512.\<close>

definition demo_heap :: heap where
  "demo_heap = \<lparr>
     nxt = (\<lambda>_. 0)(256 := 16, 16 := 32, 32 := 48, 48 := 264, 512 := 520),
     prv = (\<lambda>_. 0)(16 := 256, 32 := 16, 48 := 32, 264 := 48, 520 := 512)\<rparr>"

lemma demo_heap_rep: "list_rep demo_heap 256 [16, 32, 48]" "list_rep demo_heap 512 []"
  by (simp_all add: list_rep_def dll_def nodes_def lhead_def ltail_def demo_heap_def)

definition demo_less :: less_func where
  "demo_less a b \<longleftrightarrow> b < a"

lemma demo_less_weak_order: "weak_order demo_less"
  by (auto simp: weak_order_def demo_less_def)

text \<open>
  C12. \<open>list_sort\<close> terminates without panicking on every proper kernel list when \<open>less\<close> is a
  strict weak order. Afterwards the list holds a permutation of its elements in ascending order,
  elements that compare equal keep their relative order, and no memory outside the list changed.
\<close>

theorem list_sort_correct:
  assumes "weak_order lt" "list_rep h l xs"
  shows "\<exists>h' ys. list_sort h l lt = Some h' \<and> list_rep h' l ys \<and>
    mset ys = mset xs \<and> sorted_wrt (\<lambda>a b. \<not> lt b a) ys \<and>
    (\<forall>k. filter (same_key lt k) ys = filter (same_key lt k) xs) \<and>
    agree_off (set (nodes l xs)) h h'"
  using list_sort_rep [OF assms] by (auto simp: sorted_version_def ordered_def)

theorem list_sort_correct_witness:
  "\<exists>h' ys. list_sort demo_heap 256 demo_less = Some h' \<and> list_rep h' 256 ys \<and>
    mset ys = mset [16, 32, 48] \<and> sorted_wrt (\<lambda>a b. \<not> demo_less b a) ys"
  using list_sort_correct [OF demo_less_weak_order demo_heap_rep(1)] by blast

text \<open>
  C13. A sequence of pushes, pops, removals, reversals, size and emptiness queries on a kernel list
  returns the results, and leaves the elements, that the same sequence gives on a HOL list; it
  panics exactly when the sequence pops from an empty list. The client's duty is that added
  elements are not yet in the list and removed ones are.
\<close>

theorem list_ops_refine:
  assumes "list_rep h l xs" "ops_pre spec_op (op_pre l) xs ops"
  shows "case run_ops spec_op xs ops of
      None \<Rightarrow> run_ops (exec_op l) h ops = None
    | Some (rs, ys) \<Rightarrow> \<exists>h'. run_ops (exec_op l) h ops = Some (rs, h') \<and> list_rep h' l ys"
  using kl.run_refines [of h l xs ops] assms by blast

theorem list_ops_refine_witness:
  "\<exists>h'. run_ops (exec_op 256) demo_heap [Push_Back 64, Remove 32, Reverse, Pop_Front, Size] =
     Some ([Done, Done, Done, Elem 64, Count 2], h') \<and> list_rep h' 256 [48, 16]"
  using list_ops_refine [OF demo_heap_rep(1), of "[Push_Back 64, Remove 32, Reverse, Pop_Front, Size]"]
  by (simp add: nodes_def lhead_def ltail_def)

text \<open>
  \<open>list_insert_ordered\<close> puts a new element behind every element it is not less than; an
  ordered list stays ordered, and only the list's own memory changes.
\<close>

lemma list_insert_ordered_correct:
  assumes "weak_order lt" "list_rep h l xs" "sorted_wrt (\<lambda>a b. \<not> lt b a) xs"
    "e \<notin> set (nodes l xs)" "e \<noteq> NULL"
  shows "\<exists>h' ys. list_insert_ordered h l e lt = Some h' \<and> list_rep h' l ys \<and>
    ys = takeWhile (\<lambda>x. \<not> lt e x) xs @ e # dropWhile (\<lambda>x. \<not> lt e x) xs \<and>
    sorted_wrt (\<lambda>a b. \<not> lt b a) ys \<and> agree_off (set (nodes l (e # xs))) h h'"
  using list_insert_ordered_rep [OF assms(2,4,5), of lt] ordered_insert [OF assms(1), of xs e] assms(3)
  by (auto simp: ordered_def)

text \<open>
  \<open>list_unique\<close> keeps the first element of every group of adjacent equal elements, so that no
  two adjacent elements compare equal any more, and appends the removed ones, in order, to
  \<open>duplicates\<close>; no element is lost.
\<close>

lemma list_unique_correct:
  assumes "list_rep h l xs" "list_rep h d ds" "set (nodes l xs) \<inter> set (nodes d ds) = {}"
  shows "\<exists>h' ks es. list_unique h l d lt = Some h' \<and> list_rep h' l ks \<and> list_rep h' d (ds @ es) \<and>
    mset ks + mset es = mset xs \<and> successively (\<lambda>a b. \<not> same_key lt a b) ks \<and>
    agree_off (set (nodes l xs) \<union> set (nodes d ds)) h h'"
proof (cases xs)
  case Nil
  then have "list_unique h l d lt = Some h"
    using assms list_rep_NULL [OF assms(1)] by (simp add: list_unique_def list_empty_rep)
  then show ?thesis using Nil assms by (intro exI [of _ h] exI [of _ "[]"]) simp
next
  case (Cons x ys)
  then show ?thesis
    using list_unique_rep [of h l x ys d ds lt] assms unique_split_mset [of lt x ys]
      unique_split_distinct [of lt x ys] by blast
qed

text \<open>
  On a nonempty list \<open>list_max\<close> returns the first of the greatest elements and \<open>list_min\<close> the
  first of the least ones; on an empty list both return its tail.
\<close>

lemma list_extremum_correct:
  assumes "weak_order lt" "list_rep h l xs"
  shows "if xs = [] then list_max h l lt = Some (ltail l) \<and> list_min h l lt = Some (ltail l)
    else \<exists>M m. list_max h l lt = Some M \<and> list_min h l lt = Some m \<and>
      (\<exists>as bs. xs = as @ M # bs \<and> (\<forall>a \<in> set as. lt a M) \<and> (\<forall>b \<in> set bs. \<not> lt M b)) \<and>
      (\<exists>as bs. xs = as @ m # bs \<and> (\<forall>a \<in> set as. lt m a) \<and> (\<forall>b \<in> set bs. \<not> lt b m))"
proof (cases xs)
  case Nil
  then show ?thesis using list_max_min_empty [of h l lt] assms(2) by simp
next
  case (Cons x ys)
  have "\<exists>M. list_max h l lt = Some M \<and> earliest_best (\<lambda>a b. lt b a) xs M"
    "\<exists>m. list_min h l lt = Some m \<and> earliest_best lt xs m"
    using list_max_rep [OF assms(1)] list_min_rep [OF assms(1)] assms(2) unfolding Cons by blast+
  then show ?thesis using Cons unfolding earliest_best_def by (simp del: ex_simps) blast
qed

end
