(* ===== verification/Region_Alloc.thy ===== *)
theory Region_Alloc
  imports Prelude
begin

text \<open>
  The contract shared by the allocators of the kernel that hand out runs of consecutive units: the
  bitmap itself, the page allocator (pages) and the free map (sectors). A unit is in use or
  free. An allocation returns a run of free units and marks exactly that run as used, a failed one
  changes nothing, a release frees exactly the run it is given. What a client concludes from the
  contract is proved here once: whatever sequence of allocations and releases it makes, the runs
  it holds never overlap, nothing it holds is lost and nothing leaks.
\<close>

definition run_of :: "u32 \<times> u32 \<Rightarrow> nat set" where
  "run_of r = {unat (fst r) ..< unat (fst r) + unat (snd r)}"

text \<open>A client's script: allocate a run of \<open>n\<close> units, or release the \<open>k\<close>th run it holds.\<close>

datatype alloc_op = Alloc u32 | Free nat

locale region_alloc =
  fixes inv :: "'s \<Rightarrow> bool"
    and used :: "'s \<Rightarrow> nat set"
    and alloc :: "'s \<Rightarrow> u32 \<Rightarrow> (u32 option \<times> 's) option"
    and release :: "'s \<Rightarrow> u32 \<Rightarrow> u32 \<Rightarrow> 's option"
    and legal :: "u32 \<times> u32 \<Rightarrow> 's \<Rightarrow> bool"
  assumes alloc_total: "inv s \<Longrightarrow> c \<noteq> 0 \<Longrightarrow> \<exists>r s'. alloc s c = Some (r, s')"
    and alloc_fail: "inv s \<Longrightarrow> c \<noteq> 0 \<Longrightarrow> alloc s c = Some (None, s') \<Longrightarrow> s' = s"
    and alloc_free: "inv s \<Longrightarrow> c \<noteq> 0 \<Longrightarrow> alloc s c = Some (Some i, s') \<Longrightarrow> run_of (i, c) \<inter> used s = {}"
    and alloc_used: "inv s \<Longrightarrow> c \<noteq> 0 \<Longrightarrow> alloc s c = Some (Some i, s') \<Longrightarrow> used s' = used s \<union> run_of (i, c)"
    and alloc_inv: "inv s \<Longrightarrow> c \<noteq> 0 \<Longrightarrow> alloc s c = Some (Some i, s') \<Longrightarrow> inv s' \<and> legal (i, c) s'"
    and alloc_legal: "inv s \<Longrightarrow> c \<noteq> 0 \<Longrightarrow> alloc s c = Some (Some i, s') \<Longrightarrow> legal r s \<Longrightarrow> legal r s'"
    and release_used: "inv s \<Longrightarrow> legal (i, c) s \<Longrightarrow> run_of (i, c) \<subseteq> used s \<Longrightarrow>
      \<exists>s'. release s i c = Some s' \<and> inv s' \<and> used s' = used s - run_of (i, c) \<and> (\<forall>r. legal r s \<longrightarrow> legal r s')"
begin

text \<open>The client's own book: the runs it holds, the newest first.\<close>

fun client :: "'s \<times> (u32 \<times> u32) list \<Rightarrow> alloc_op \<Rightarrow> ('s \<times> (u32 \<times> u32) list) option" where
  "client (s, held) (Alloc c) = alloc s c \<bind> (\<lambda>(r, s').
     Some (case r of None \<Rightarrow> (s', held) | Some i \<Rightarrow> (s', (i, c) # held)))"
| "client (s, held) (Free k) = release s (fst (held ! k)) (snd (held ! k)) \<bind> (\<lambda>s'.
     Some (s', take k held @ drop (Suc k) held))"

fun clients :: "'s \<times> (u32 \<times> u32) list \<Rightarrow> alloc_op list \<Rightarrow> ('s \<times> (u32 \<times> u32) list) option" where
  "clients st [] = Some st"
| "clients st (op # ops) = client st op \<bind> (\<lambda>st'. clients st' ops)"

fun proper :: "'s \<times> (u32 \<times> u32) list \<Rightarrow> alloc_op list \<Rightarrow> bool" where
  "proper st [] = True"
| "proper st (op # ops) =
     ((case op of Alloc c \<Rightarrow> c \<noteq> 0 | Free k \<Rightarrow> k < length (snd st)) \<and>
      (case client st op of None \<Rightarrow> True | Some st' \<Rightarrow> proper st' ops))"

definition book :: "nat set \<Rightarrow> 's \<times> (u32 \<times> u32) list \<Rightarrow> bool" where
  "book base st \<longleftrightarrow> inv (fst st) \<and> (\<forall>r \<in> set (snd st). legal r (fst st)) \<and>
     used (fst st) = base \<union> \<Union> (set (map run_of (snd st))) \<and>
     (\<forall>r \<in> set (snd st). base \<inter> run_of r = {}) \<and>
     sorted_wrt (\<lambda>q r. run_of q \<inter> run_of r = {}) (snd st)"

lemma book_alloc:
  assumes b: "book base (s, held)" and c: "c \<noteq> 0"
  shows "\<exists>st'. client (s, held) (Alloc c) = Some st' \<and> book base st'"
proof -
  have i: "inv s" using b by (simp add: book_def)
  obtain r s' where r: "alloc s c = Some (r, s')" using alloc_total [OF i c] by blast
  show ?thesis
  proof (cases r)
    case None
    then show ?thesis using alloc_fail [OF i c] r b by auto
  next
    case (Some j)
    note a = alloc_free [OF i c] alloc_used [OF i c] alloc_inv [OF i c] alloc_legal [OF i c]
    have "book base (s', (j, c) # held)"
      using b a [OF r [unfolded Some]] unfolding book_def by fastforce
    then show ?thesis using r Some by simp
  qed
qed

lemma book_free:
  assumes b: "book base (s, held)" and k: "k < length held"
  shows "\<exists>st'. client (s, held) (Free k) = Some st' \<and> book base st'"
proof -
  obtain i c where r: "held ! k = (i, c)" by force
  have h: "held = take k held @ (i, c) # drop (Suc k) held"
    using k r by (metis id_take_nth_drop)
  let ?rest = "take k held @ drop (Suc k) held"
  have sw: "sorted_wrt (\<lambda>q r. run_of q \<inter> run_of r = {}) (take k held @ (i, c) # drop (Suc k) held)"
    and u: "used s = base \<union> \<Union> (set (map run_of (take k held @ (i, c) # drop (Suc k) held)))"
    and o: "inv s" "\<forall>r \<in> set (take k held @ (i, c) # drop (Suc k) held). legal r s \<and> base \<inter> run_of r = {}"
    using b h by (simp_all only: book_def fst_conv snd_conv) auto
  have "run_of (i, c) \<subseteq> used s" "legal (i, c) s" unfolding u using o(2) by auto
  from release_used [OF o(1) this(2,1)] obtain s' where s': "release s i c = Some s'" "inv s'"
    "used s' = used s - run_of (i, c)" "\<forall>r. legal r s \<longrightarrow> legal r s'"
    by blast
  have dis: "\<forall>r \<in> set ?rest. run_of r \<inter> run_of (i, c) = {}"
    using sw by (auto simp: sorted_wrt_append)
  have "used s' = base \<union> \<Union> (set (map run_of ?rest))"
    using s'(3) u o(2) dis by auto
  moreover have "sorted_wrt (\<lambda>q r. run_of q \<inter> run_of r = {}) ?rest"
    using sw by (simp add: sorted_wrt_append)
  ultimately have "book base (s', ?rest)"
    using s' o(2) unfolding book_def fst_conv snd_conv by (metis Un_iff insert_iff list.set(2) set_append)
  then show ?thesis using s'(1) r by simp
qed

lemma clients_book:
  "book base st \<Longrightarrow> proper st ops \<Longrightarrow> \<exists>st'. clients st ops = Some st' \<and> book base st'"
proof (induction ops arbitrary: st)
  case (Cons op ops)
  obtain s held where st: "st = (s, held)" by force
  have "\<exists>st'. client st op = Some st' \<and> book base st'"
    using Cons.prems book_alloc book_free unfolding st by (cases op) auto
  then show ?case using Cons by auto
qed simp

lemma runs_disjoint:
  assumes "inv s" "proper (s, []) ops"
  shows "\<exists>s' held. clients (s, []) ops = Some (s', held) \<and>
    (\<forall>i < length held. \<forall>j < i. run_of (held ! i) \<inter> run_of (held ! j) = {}) \<and>
    used s' = used s \<union> (\<Union>r \<in> set held. run_of r) \<and> (\<forall>r \<in> set held. used s \<inter> run_of r = {})"
proof -
  have "book (used s) (s, [])" using assms(1) by (simp add: book_def)
  from clients_book [OF this assms(2)] obtain s' held where
    "clients (s, []) ops = Some (s', held)" "book (used s) (s', held)" by force
  moreover from this(2) have "\<forall>i < length held. \<forall>j < i. run_of (held ! i) \<inter> run_of (held ! j) = {}"
    unfolding book_def sorted_wrt_iff_nth_less snd_conv by (metis Int_commute)
  ultimately show ?thesis by (simp add: book_def)
qed

end

end
