(* ===== verification/Bitmap.thy ===== *)
theory Bitmap
  imports Region_Alloc
begin

text \<open>
  The bitmaps of src/proj-pregame/src/lib/kernel/bitmap.c: an array of 32-bit elements that
  simulates an array of bits. Sizes and indices are 32-bit words and wrap around as in C; an
  access outside the element array, which the code does not check, is a fault (\<^term>\<open>None\<close>). The
  abstraction \<open>bm_bits\<close> reads the bitmap as a list of booleans; every operation refines the one
  on lists.
\<close>

subsection \<open>The C functions\<close>

record bitmap =
  bit_cnt :: u32
  bits :: "u32 list"

definition ELEM_BITS :: u32 where "ELEM_BITS = 32"

definition BITMAP_ERROR :: u32 where "BITMAP_ERROR = 4294967295"

definition DIV_ROUND_UP :: "u32 \<Rightarrow> u32 \<Rightarrow> u32" where
  "DIV_ROUND_UP x step = (x + step - 1) div step"

definition ROUND_UP :: "u32 \<Rightarrow> u32 \<Rightarrow> u32" where
  "ROUND_UP x step = (x + step - 1) div step * step"

definition elem_idx :: "u32 \<Rightarrow> u32" where
  "elem_idx bit_idx = bit_idx div ELEM_BITS"

definition bit_mask :: "u32 \<Rightarrow> u32" where
  "bit_mask bit_idx = push_bit (unat (bit_idx mod ELEM_BITS)) 1"

definition elem_cnt :: "u32 \<Rightarrow> u32" where
  "elem_cnt n = DIV_ROUND_UP n ELEM_BITS"

definition byte_cnt :: "u32 \<Rightarrow> u32" where
  "byte_cnt n = 4 * elem_cnt n"

definition last_mask :: "bitmap \<Rightarrow> u32" where
  "last_mask b = (let last_bits = bit_cnt b mod ELEM_BITS in
     if last_bits \<noteq> 0 then push_bit (unat last_bits) 1 - 1 else - 1)"

definition bitmap_size :: "bitmap \<Rightarrow> u32" where
  "bitmap_size b = bit_cnt b"

text \<open>Reading and writing \<open>b->bits[idx]\<close>.\<close>

definition elem_get :: "bitmap \<Rightarrow> u32 \<Rightarrow> u32 option" where
  "elem_get b idx = (if unat idx < length (bits b) then Some (bits b ! unat idx) else None)"

definition elem_set :: "bitmap \<Rightarrow> u32 \<Rightarrow> u32 \<Rightarrow> bitmap option" where
  "elem_set b idx v =
     (if unat idx < length (bits b) then Some (b\<lparr>bits := (bits b)[unat idx := v]\<rparr>) else None)"

definition bitmap_mark :: "bitmap \<Rightarrow> u32 \<Rightarrow> bitmap option" where
  "bitmap_mark b bit_idx = do {
     let idx = elem_idx bit_idx; let mask = bit_mask bit_idx;
     v \<leftarrow> elem_get b idx;
     elem_set b idx (v OR mask)
   }"

definition bitmap_reset :: "bitmap \<Rightarrow> u32 \<Rightarrow> bitmap option" where
  "bitmap_reset b bit_idx = do {
     let idx = elem_idx bit_idx; let mask = bit_mask bit_idx;
     v \<leftarrow> elem_get b idx;
     elem_set b idx (v AND NOT mask)
   }"

definition bitmap_flip :: "bitmap \<Rightarrow> u32 \<Rightarrow> bitmap option" where
  "bitmap_flip b bit_idx = do {
     let idx = elem_idx bit_idx; let mask = bit_mask bit_idx;
     v \<leftarrow> elem_get b idx;
     elem_set b idx (v XOR mask)
   }"

definition bitmap_set :: "bitmap \<Rightarrow> u32 \<Rightarrow> bool \<Rightarrow> bitmap option" where
  "bitmap_set b idx v = do {
     ASSERT (idx < bit_cnt b);
     if v then bitmap_mark b idx else bitmap_reset b idx
   }"

definition bitmap_test :: "bitmap \<Rightarrow> u32 \<Rightarrow> bool option" where
  "bitmap_test b idx = do {
     ASSERT (idx < bit_cnt b);
     v \<leftarrow> elem_get b (elem_idx idx);
     Some (v AND bit_mask idx \<noteq> 0)
   }"

partial_function (option) bitmap_set_multiple_loop ::
  "bitmap \<Rightarrow> u32 \<Rightarrow> u32 \<Rightarrow> bool \<Rightarrow> u32 \<Rightarrow> bitmap option" where
  [code]: "bitmap_set_multiple_loop b start cnt v i =
     (if i < cnt then do {
        b' \<leftarrow> bitmap_set b (start + i) v;
        bitmap_set_multiple_loop b' start cnt v (i + 1)
      } else Some b)"

definition bitmap_set_multiple :: "bitmap \<Rightarrow> u32 \<Rightarrow> u32 \<Rightarrow> bool \<Rightarrow> bitmap option" where
  "bitmap_set_multiple b start cnt v = do {
     ASSERT (start \<le> bit_cnt b);
     ASSERT (start + cnt \<le> bit_cnt b);
     bitmap_set_multiple_loop b start cnt v 0
   }"

definition bitmap_set_all :: "bitmap \<Rightarrow> bool \<Rightarrow> bitmap option" where
  "bitmap_set_all b v = bitmap_set_multiple b 0 (bitmap_size b) v"

partial_function (option) bitmap_count_loop ::
  "bitmap \<Rightarrow> u32 \<Rightarrow> u32 \<Rightarrow> bool \<Rightarrow> u32 \<Rightarrow> u32 \<Rightarrow> u32 option" where
  [code]: "bitmap_count_loop b start cnt v i n =
     (if i < cnt then do {
        t \<leftarrow> bitmap_test b (start + i);
        bitmap_count_loop b start cnt v (i + 1) (if t = v then n + 1 else n)
      } else Some n)"

definition bitmap_count :: "bitmap \<Rightarrow> u32 \<Rightarrow> u32 \<Rightarrow> bool \<Rightarrow> u32 option" where
  "bitmap_count b start cnt v = do {
     ASSERT (start \<le> bit_cnt b);
     ASSERT (start + cnt \<le> bit_cnt b);
     bitmap_count_loop b start cnt v 0 0
   }"

partial_function (option) bitmap_contains_loop ::
  "bitmap \<Rightarrow> u32 \<Rightarrow> u32 \<Rightarrow> bool \<Rightarrow> u32 \<Rightarrow> bool option" where
  [code]: "bitmap_contains_loop b start cnt v i =
     (if i < cnt then do {
        t \<leftarrow> bitmap_test b (start + i);
        if t = v then Some True else bitmap_contains_loop b start cnt v (i + 1)
      } else Some False)"

definition bitmap_contains :: "bitmap \<Rightarrow> u32 \<Rightarrow> u32 \<Rightarrow> bool \<Rightarrow> bool option" where
  "bitmap_contains b start cnt v = do {
     ASSERT (start \<le> bit_cnt b);
     ASSERT (start + cnt \<le> bit_cnt b);
     bitmap_contains_loop b start cnt v 0
   }"

definition bitmap_any :: "bitmap \<Rightarrow> u32 \<Rightarrow> u32 \<Rightarrow> bool option" where
  "bitmap_any b start cnt = bitmap_contains b start cnt True"

definition bitmap_none :: "bitmap \<Rightarrow> u32 \<Rightarrow> u32 \<Rightarrow> bool option" where
  "bitmap_none b start cnt = map_option Not (bitmap_contains b start cnt True)"

definition bitmap_all :: "bitmap \<Rightarrow> u32 \<Rightarrow> u32 \<Rightarrow> bool option" where
  "bitmap_all b start cnt = map_option Not (bitmap_contains b start cnt False)"

partial_function (option) bitmap_scan_loop ::
  "bitmap \<Rightarrow> u32 \<Rightarrow> bool \<Rightarrow> u32 \<Rightarrow> u32 \<Rightarrow> u32 option" where
  [code]: "bitmap_scan_loop b cnt v lst i =
     (if i \<le> lst then do {
        c \<leftarrow> bitmap_contains b i cnt (\<not> v);
        if \<not> c then Some i else bitmap_scan_loop b cnt v lst (i + 1)
      } else Some BITMAP_ERROR)"

definition bitmap_scan :: "bitmap \<Rightarrow> u32 \<Rightarrow> u32 \<Rightarrow> bool \<Rightarrow> u32 option" where
  "bitmap_scan b start cnt v = do {
     ASSERT (start \<le> bit_cnt b);
     if cnt \<le> bit_cnt b then bitmap_scan_loop b cnt v (bit_cnt b - cnt) start
     else Some BITMAP_ERROR
   }"

definition bitmap_scan_and_flip :: "bitmap \<Rightarrow> u32 \<Rightarrow> u32 \<Rightarrow> bool \<Rightarrow> (u32 \<times> bitmap) option" where
  "bitmap_scan_and_flip b start cnt v = do {
     idx \<leftarrow> bitmap_scan b start cnt v;
     if idx \<noteq> BITMAP_ERROR then do {
       b' \<leftarrow> bitmap_set_multiple b idx cnt (\<not> v);
       Some (idx, b')
     } else Some (idx, b)
   }"

text \<open>
  The storage of a new bitmap is uninitialised: \<open>junk\<close> is what the two allocations returned,
  \<^term>\<open>None\<close> for a null pointer. \<open>bitmap_create\<close> returns \<open>Some None\<close> for a null pointer.
\<close>

definition bitmap_create :: "bool \<Rightarrow> u32 list option \<Rightarrow> u32 \<Rightarrow> bitmap option option" where
  "bitmap_create hdr_ok junk n =
     (if hdr_ok then
        (case junk of
           Some js \<Rightarrow> map_option Some (bitmap_set_all \<lparr>bit_cnt = n, bits = js\<rparr> False)
         | None \<Rightarrow> if n = 0 then map_option Some (bitmap_set_all \<lparr>bit_cnt = n, bits = []\<rparr> False)
                   else Some None)
      else Some None)"

definition bitmap_buf_size :: "u32 \<Rightarrow> u32" where
  "bitmap_buf_size n = 8 + byte_cnt n"

definition bitmap_create_in_buf :: "u32 \<Rightarrow> u32 list \<Rightarrow> u32 \<Rightarrow> bitmap option" where
  "bitmap_create_in_buf n junk block_size = do {
     ASSERT (block_size \<ge> bitmap_buf_size n);
     bitmap_set_all \<lparr>bit_cnt = n, bits = junk\<rparr> False
   }"

subsection \<open>Abstraction\<close>

definition bm_wf :: "bitmap \<Rightarrow> bool" where
  "bm_wf b \<longleftrightarrow> unat (bit_cnt b) \<le> 32 * length (bits b)"

definition bm_bit :: "bitmap \<Rightarrow> nat \<Rightarrow> bool" where
  "bm_bit b i = bit (bits b ! (i div 32)) (i mod 32)"

definition bm_bits :: "bitmap \<Rightarrow> bool list" where
  "bm_bits b = map (bm_bit b) [0..<unat (bit_cnt b)]"

lemma length_bm_bits [simp]: "length (bm_bits b) = unat (bit_cnt b)"
  by (simp add: bm_bits_def)

lemma nth_bm_bits [simp]: "i < unat (bit_cnt b) \<Longrightarrow> bm_bits b ! i = bm_bit b i"
  by (simp add: bm_bits_def)

lemma unat_elem_idx: "unat (elem_idx i) = unat i div 32"
  by (simp add: elem_idx_def ELEM_BITS_def unat_div)

lemma bit_mask_bit: "bit (bit_mask i) j \<longleftrightarrow> j = unat i mod 32"
proof -
  have "unat (i mod 32) = unat i mod 32" by (simp add: unat_mod)
  then show ?thesis
    by (auto simp: bit_mask_def ELEM_BITS_def bit_simps)
qed

lemma idx_in_range: "bm_wf b \<Longrightarrow> i < bit_cnt b \<Longrightarrow> unat i div 32 < length (bits b)"
  by (simp add: bm_wf_def word_less_nat_alt less_mult_imp_div_less mult.commute)

lemma div_mod_eq_iff: "(i :: nat) div 32 = j div 32 \<and> i mod 32 = j mod 32 \<longleftrightarrow> i = j"
  by (metis div_mult_mod_eq)

text \<open>The three read-modify-write operations, over the operation they apply to the bit.\<close>

lemma bm_update:
  assumes wf: "bm_wf b" and i: "i < bit_cnt b"
    and f: "\<And>j. bit (f (bits b ! (unat i div 32)) :: u32) j =
      (if j = unat i mod 32 then v else bit (bits b ! (unat i div 32)) j)"
  shows "\<exists>b'. (elem_get b (elem_idx i) \<bind> (\<lambda>w. elem_set b (elem_idx i) (f w))) = Some b' \<and> bm_wf b' \<and>
    bit_cnt b' = bit_cnt b \<and> bm_bits b' = (bm_bits b)[unat i := v]"
proof -
  let ?k = "unat i div 32"
  let ?b = "b\<lparr>bits := (bits b)[?k := f (bits b ! ?k)]\<rparr>"
  have k: "?k < length (bits b)" using idx_in_range [OF wf i] .
  then have res: "(elem_get b (elem_idx i) \<bind> (\<lambda>w. elem_set b (elem_idx i) (f w))) = Some ?b"
    by (simp add: elem_get_def elem_set_def unat_elem_idx)
  have "bm_bit ?b j = (if j = unat i then v else bm_bit b j)" for j
    using k f div_mod_eq_iff [of j "unat i"] by (auto simp: bm_bit_def nth_list_update)
  then have "bm_bits ?b = (bm_bits b)[unat i := v]"
    using i by (intro nth_equalityI) (auto simp: nth_list_update word_less_nat_alt)
  with res wf show ?thesis by (auto simp: bm_wf_def)
qed

lemma bitmap_mark_bits:
  assumes "bm_wf b" "i < bit_cnt b"
  shows "\<exists>b'. bitmap_mark b i = Some b' \<and> bm_wf b' \<and> bit_cnt b' = bit_cnt b \<and>
    bm_bits b' = (bm_bits b)[unat i := True]"
  unfolding bitmap_mark_def Let_def by (rule bm_update [OF assms]) (auto simp: bit_simps bit_mask_bit)

lemma bitmap_reset_bits:
  assumes "bm_wf b" "i < bit_cnt b"
  shows "\<exists>b'. bitmap_reset b i = Some b' \<and> bm_wf b' \<and> bit_cnt b' = bit_cnt b \<and>
    bm_bits b' = (bm_bits b)[unat i := False]"
  unfolding bitmap_reset_def Let_def
  by (rule bm_update [OF assms]) (auto simp: bit_simps bit_mask_bit dest: bit_imp_le_length)

lemma bitmap_flip_bits:
  assumes "bm_wf b" "i < bit_cnt b"
  shows "\<exists>b'. bitmap_flip b i = Some b' \<and> bm_wf b' \<and> bit_cnt b' = bit_cnt b \<and>
    bm_bits b' = (bm_bits b)[unat i := \<not> bm_bits b ! unat i]"
  unfolding bitmap_flip_def Let_def using assms(2)
  by (intro bm_update [OF assms]) (auto simp: bit_simps bit_mask_bit bm_bit_def word_less_nat_alt)

lemma bitmap_set_bits:
  assumes "bm_wf b" "i < bit_cnt b"
  shows "\<exists>b'. bitmap_set b i v = Some b' \<and> bm_wf b' \<and> bit_cnt b' = bit_cnt b \<and>
    bm_bits b' = (bm_bits b)[unat i := v]"
  using bitmap_mark_bits [OF assms] bitmap_reset_bits [OF assms] assms(2)
  by (cases v) (simp_all add: bitmap_set_def)

lemma and_mask_nonzero: "w AND bit_mask i \<noteq> 0 \<longleftrightarrow> bit w (unat i mod 32)"
proof -
  have "w AND bit_mask i = 0 \<longleftrightarrow> (\<forall>n. \<not> (bit w n \<and> n = unat i mod 32))"
    unfolding bit_eq_iff [of _ "0 :: u32"] bit_and_iff bit_mask_bit
    using bit_imp_le_length [of w] by fastforce
  then show ?thesis by auto
qed

lemma bitmap_test_bits:
  assumes "bm_wf b" "i < bit_cnt b"
  shows "bitmap_test b i = Some (bm_bits b ! unat i)"
  using assms idx_in_range [OF assms]
  by (simp add: bitmap_test_def elem_get_def unat_elem_idx and_mask_nonzero bm_bit_def word_less_nat_alt)

lemma bitmap_test_panics: "bit_cnt b \<le> i \<Longrightarrow> bitmap_test b i = None"
  by (simp add: bitmap_test_def ASSERT_bind not_less [symmetric])

subsection \<open>Ranges of bits\<close>

definition set_range :: "nat \<Rightarrow> nat \<Rightarrow> bool \<Rightarrow> bool list \<Rightarrow> bool list" where
  "set_range s c v xs = map (\<lambda>j. if s \<le> j \<and> j < s + c then v else xs ! j) [0..<length xs]"

definition range_all :: "nat \<Rightarrow> nat \<Rightarrow> bool \<Rightarrow> bool list \<Rightarrow> bool" where
  "range_all s c v xs \<longleftrightarrow> s + c \<le> length xs \<and> (\<forall>j < c. xs ! (s + j) = v)"

lemma length_set_range [simp]: "length (set_range s c v xs) = length xs"
  by (simp add: set_range_def)

lemma nth_set_range [simp]:
  "j < length xs \<Longrightarrow> set_range s c v xs ! j = (if s \<le> j \<and> j < s + c then v else xs ! j)"
  by (simp add: set_range_def)

lemma set_range_0 [simp]: "set_range s 0 v xs = xs"
  by (intro nth_equalityI) auto

lemma set_range_Suc:
  "s < length xs \<Longrightarrow> set_range s (Suc c) v xs = set_range (Suc s) c v (xs[s := v])"
  by (intro nth_equalityI) (auto simp: nth_list_update)

lemma set_range_all: "set_range 0 (length xs) v xs = replicate (length xs) v"
  by (intro nth_equalityI) auto

lemma range_allD: "range_all s c v xs \<Longrightarrow> s \<le> j \<Longrightarrow> j < s + c \<Longrightarrow> xs ! j = v"
  unfolding range_all_def by (metis le_add_diff_inverse nat_add_left_cancel_less)

lemma set_range_idem:
  "range_all s c v xs \<Longrightarrow> set_range s c v (set_range s c w xs) = xs"
  by (intro nth_equalityI) (auto simp: range_allD)

lemma range_step:
  assumes "unat start + unat cnt \<le> unat (n :: u32)" "i < (cnt :: u32)"
  shows "start + i < n" "unat (start + i) = unat start + unat i" "unat (i + 1) = Suc (unat i)" "i + 1 \<le> cnt"
    "unat (start + (i + 1)) = unat start + Suc (unat i)"
proof -
  have i: "unat i < unat cnt" using assms(2) by (simp add: word_less_nat_alt)
  show u: "unat (i + 1) = Suc (unat i)" using assms(2) by (rule unat_inc)
  show s: "unat (start + i) = unat start + unat i"
    using assms(1) i by (intro unat_plus_le [of _ _ n]) simp
  show "unat (start + (i + 1)) = unat start + Suc (unat i)"
    using assms(1) i u by (subst unat_plus_le [of _ _ n]) simp_all
  show "start + i < n" using assms(1) i by (simp add: word_less_nat_alt s)
  show "i + 1 \<le> cnt" using i u by (simp add: word_le_nat_alt)
qed

lemma bitmap_set_multiple_loop_bits:
  assumes "bm_wf b" "unat start + unat cnt \<le> unat (bit_cnt b)" "i \<le> cnt"
  shows "\<exists>b'. bitmap_set_multiple_loop b start cnt v i = Some b' \<and> bm_wf b' \<and> bit_cnt b' = bit_cnt b \<and>
    bm_bits b' = set_range (unat start + unat i) (unat cnt - unat i) v (bm_bits b)"
  using assms
proof (induction "unat cnt - unat i" arbitrary: b i)
  case 0
  then have "i = cnt" by (intro word_diff_0_eq) simp_all
  then show ?case using "0.prems" by (subst bitmap_set_multiple_loop.simps) simp
next
  case (Suc k)
  then have i: "i < cnt" by (simp add: word_less_nat_alt)
  note st = range_step [OF Suc.prems(2) i]
  obtain b1 where b1: "bitmap_set b (start + i) v = Some b1" "bm_wf b1" "bit_cnt b1 = bit_cnt b"
    "bm_bits b1 = (bm_bits b)[unat start + unat i := v]"
    using bitmap_set_bits [OF Suc.prems(1) st(1), of v] st(2) by auto
  have k: "k = unat cnt - unat (i + 1)" using Suc.hyps(2) st(3) by simp
  obtain b2 where "bitmap_set_multiple_loop b1 start cnt v (i + 1) = Some b2" "bm_wf b2"
    "bit_cnt b2 = bit_cnt b" "bm_bits b2 = set_range (unat start + unat (i + 1)) k v (bm_bits b1)"
    using Suc.hyps(1) [OF k b1(2) _ st(4)] Suc.prems(2) b1(3) k by auto
  moreover have "unat start + unat i < length (bm_bits b)"
    using st(1,2) by (simp add: word_less_nat_alt)
  note set_range_Suc [OF this, of k v]
  ultimately show ?case
    using i b1 st(3) Suc.hyps(2) by (subst bitmap_set_multiple_loop.simps) simp
qed

lemma bitmap_set_multiple_bits:
  assumes "bm_wf b" "unat start + unat cnt \<le> unat (bit_cnt b)"
  shows "\<exists>b'. bitmap_set_multiple b start cnt v = Some b' \<and> bm_wf b' \<and> bit_cnt b' = bit_cnt b \<and>
    bm_bits b' = set_range (unat start) (unat cnt) v (bm_bits b)"
  using bitmap_set_multiple_loop_bits [OF assms, of 0 v] assms(2) unat_plus_le [OF assms(2)]
  by (simp add: bitmap_set_multiple_def word_le_nat_alt)

lemma bitmap_set_all_bits:
  assumes "bm_wf b"
  shows "\<exists>b'. bitmap_set_all b v = Some b' \<and> bm_wf b' \<and> bit_cnt b' = bit_cnt b \<and>
    bm_bits b' = replicate (unat (bit_cnt b)) v"
  using bitmap_set_multiple_bits [OF assms, of 0 "bit_cnt b" v] set_range_all [of "bm_bits b" v]
  by (simp add: bitmap_set_all_def bitmap_size_def)

lemma bitmap_contains_loop_bits:
  assumes "bm_wf b" "unat start + unat cnt \<le> unat (bit_cnt b)" "i \<le> cnt"
  shows "bitmap_contains_loop b start cnt v i =
    Some (\<exists>j. unat i \<le> j \<and> j < unat cnt \<and> bm_bits b ! (unat start + j) = v)"
  using assms
proof (induction "unat cnt - unat i" arbitrary: i)
  case 0
  then have "i = cnt" by (intro word_diff_0_eq) simp_all
  then show ?case by (subst bitmap_contains_loop.simps) simp
next
  case (Suc k)
  then have i: "i < cnt" by (simp add: word_less_nat_alt)
  note st = range_step [OF Suc.prems(2) i]
  have t: "bitmap_test b (start + i) = Some (bm_bits b ! (unat start + unat i))"
    using bitmap_test_bits [OF Suc.prems(1) st(1)] st(2) by simp
  have "bitmap_contains_loop b start cnt v (i + 1) =
      Some (\<exists>j. Suc (unat i) \<le> j \<and> j < unat cnt \<and> bm_bits b ! (unat start + j) = v)"
    using Suc.hyps(1) [OF _ Suc.prems(1,2) st(4)] Suc.hyps(2) st(3) by simp
  moreover have "(\<exists>j. unat i \<le> j \<and> j < unat cnt \<and> P j) \<longleftrightarrow>
      P (unat i) \<or> (\<exists>j. Suc (unat i) \<le> j \<and> j < unat cnt \<and> P j)" for P
    using i by (metis Suc_leD le_eq_less_or_eq less_eq_Suc_le word_less_nat_alt)
  note this [of "\<lambda>j. bm_bits b ! (unat start + j) = v"]
  ultimately show ?case using i t by (subst bitmap_contains_loop.simps) simp
qed

lemma bitmap_contains_bits:
  assumes "bm_wf b" "unat start + unat cnt \<le> unat (bit_cnt b)"
  shows "bitmap_contains b start cnt v = Some (\<not> range_all (unat start) (unat cnt) (\<not> v) (bm_bits b))"
  using bitmap_contains_loop_bits [OF assms, of 0 v] assms(2) unat_plus_le [OF assms(2)]
  by (auto simp: bitmap_contains_def word_le_nat_alt range_all_def)

lemma bitmap_none_bits:
  "bm_wf b \<Longrightarrow> unat start + unat cnt \<le> unat (bit_cnt b) \<Longrightarrow>
   bitmap_none b start cnt = Some (range_all (unat start) (unat cnt) False (bm_bits b))"
  by (simp add: bitmap_none_def bitmap_contains_bits)

lemma bitmap_all_bits:
  "bm_wf b \<Longrightarrow> unat start + unat cnt \<le> unat (bit_cnt b) \<Longrightarrow>
   bitmap_all b start cnt = Some (range_all (unat start) (unat cnt) True (bm_bits b))"
  by (simp add: bitmap_all_def bitmap_contains_bits)

lemma bitmap_count_loop_bits:
  assumes "bm_wf b" "unat start + unat cnt \<le> unat (bit_cnt b)" "i \<le> cnt"
  shows "bitmap_count_loop b start cnt v i n =
    Some (n + of_nat (card {j. unat i \<le> j \<and> j < unat cnt \<and> bm_bits b ! (unat start + j) = v}))"
  using assms
proof (induction "unat cnt - unat i" arbitrary: i n)
  case 0
  then have "i = cnt" by (intro word_diff_0_eq) simp_all
  moreover have "{j. unat cnt \<le> j \<and> j < unat cnt \<and> bm_bits b ! (unat start + j) = v} = {}" by auto
  ultimately show ?case by (subst bitmap_count_loop.simps) (simp del: Collect_empty_eq)
next
  case (Suc k)
  then have i: "i < cnt" by (simp add: word_less_nat_alt)
  note st = range_step [OF Suc.prems(2) i]
  let ?S = "\<lambda>m. {j. m \<le> j \<and> j < unat cnt \<and> bm_bits b ! (unat start + j) = v}"
  have t: "bitmap_test b (start + i) = Some (bm_bits b ! (unat start + unat i))"
    using bitmap_test_bits [OF Suc.prems(1) st(1)] st(2) by simp
  have "bitmap_count_loop b start cnt v (i + 1) n' = Some (n' + of_nat (card (?S (Suc (unat i)))))" for n'
    using Suc.hyps(1) [OF _ Suc.prems(1,2) st(4)] Suc.hyps(2) st(3) by simp
  moreover have "?S (unat i) = (if bm_bits b ! (unat start + unat i) = v
      then insert (unat i) (?S (Suc (unat i))) else ?S (Suc (unat i)))"
    using i by (auto simp: word_less_nat_alt le_eq_less_or_eq Suc_le_eq)
  moreover have "finite (?S (Suc (unat i)))" by simp
  ultimately show ?case using i t by (subst bitmap_count_loop.simps) (simp add: add.assoc)
qed

lemma bitmap_count_bits:
  assumes "bm_wf b" "unat start + unat cnt \<le> unat (bit_cnt b)"
  shows "bitmap_count b start cnt v =
    Some (of_nat (card {j. j < unat cnt \<and> bm_bits b ! (unat start + j) = v}))"
  using bitmap_count_loop_bits [OF assms, of 0 v 0] assms(2) unat_plus_le [OF assms(2)]
  by (simp add: bitmap_count_def word_le_nat_alt)

subsection \<open>Scanning\<close>

definition find_range :: "nat \<Rightarrow> nat \<Rightarrow> bool \<Rightarrow> bool list \<Rightarrow> nat option" where
  "find_range s c v xs = find (\<lambda>i. range_all i c v xs) [s..<Suc (length xs)]"

lemma find_range_eq_None: "find_range s c v xs = None \<longleftrightarrow> (\<forall>i \<ge> s. \<not> range_all i c v xs)"
  by (auto simp: find_range_def find_None_iff range_all_def)

lemma find_range_eq_Some:
  "find_range s c v xs = Some i \<longleftrightarrow> s \<le> i \<and> range_all i c v xs \<and> (\<forall>j. s \<le> j \<longrightarrow> j < i \<longrightarrow> \<not> range_all j c v xs)"
proof
  assume "find_range s c v xs = Some i"
  then obtain k where "k < length [s..<Suc (length xs)]" "range_all ([s..<Suc (length xs)] ! k) c v xs"
    "i = [s..<Suc (length xs)] ! k" "\<forall>j < k. \<not> range_all ([s..<Suc (length xs)] ! j) c v xs"
    unfolding find_range_def find_Some_iff by blast
  then have k: "i = s + k" "range_all i c v xs" "\<forall>j < k. \<not> range_all (s + j) c v xs"
    by (auto simp del: upt_Suc)
  then show "s \<le> i \<and> range_all i c v xs \<and> (\<forall>j. s \<le> j \<longrightarrow> j < i \<longrightarrow> \<not> range_all j c v xs)"
    by (metis le_add1 le_iff_add nat_add_left_cancel_less)
next
  assume a: "s \<le> i \<and> range_all i c v xs \<and> (\<forall>j. s \<le> j \<longrightarrow> j < i \<longrightarrow> \<not> range_all j c v xs)"
  then have "i < Suc (length xs)" by (simp add: range_all_def)
  with a show "find_range s c v xs = Some i"
    unfolding find_range_def find_Some_iff by (intro exI [of _ "i - s"]) (auto simp del: upt_Suc)
qed

lemma find_range_step:
  "find_range s c v xs =
     (if range_all s c v xs then Some s else if s + c \<le> length xs then find_range (Suc s) c v xs else None)"
proof (cases "range_all s c v xs")
  case False
  then have "(\<forall>i \<ge> s. \<not> range_all i c v xs)" if "\<not> s + c \<le> length xs"
    using that by (auto simp: range_all_def)
  moreover have "find_range s c v xs = find_range (Suc s) c v xs" if "s + c \<le> length xs"
    using that False by (simp add: find_range_def upt_conv_Cons del: upt_Suc)
  ultimately show ?thesis using False by (simp add: find_range_eq_None)
qed (auto simp: find_range_eq_Some)

fun idx_word :: "nat option \<Rightarrow> u32" where
  "idx_word (Some i) = of_nat i"
| "idx_word None = BITMAP_ERROR"

lemma bitmap_scan_loop_bits:
  assumes wf: "bm_wf b" and cnt: "cnt \<le> bit_cnt b"
  shows "bitmap_scan_loop b cnt v (bit_cnt b - cnt) i = Some (idx_word (find_range (unat i) (unat cnt) v (bm_bits b)))"
proof (induction "unat (bit_cnt b) - unat i" arbitrary: i rule: less_induct)
  case less
  let ?l = "bit_cnt b - cnt" and ?P = "\<lambda>i. range_all i (unat cnt) v (bm_bits b)"
  have l: "unat ?l + unat cnt = unat (bit_cnt b)"
    using cnt by (simp add: unat_sub word_le_nat_alt)
  show ?case
  proof (cases "i \<le> ?l")
    case False
    then have "\<not> unat i + unat cnt \<le> unat (bit_cnt b)" using l by (simp add: word_le_nat_alt)
    then show ?thesis
      using False by (subst bitmap_scan_loop.simps) (simp add: find_range_step [of "unat i"] range_all_def)
  next
    case True
    then have r: "unat i + unat cnt \<le> unat (bit_cnt b)" using l by (simp add: word_le_nat_alt)
    have c: "bitmap_contains b i cnt (\<not> v) = Some (\<not> ?P (unat i))"
      using bitmap_contains_bits [OF wf r] by simp
    show ?thesis
    proof (cases "?P (unat i)")
      case P: True
      then show ?thesis using True c by (subst bitmap_scan_loop.simps) (simp add: find_range_step [of "unat i"])
    next
      case P: False
      then have "unat cnt \<noteq> 0" by (auto simp: range_all_def intro: r)
      then have lt: "i < bit_cnt b" using r by (simp add: word_less_nat_alt)
      note inc = unat_inc [OF lt]
      have "unat (bit_cnt b) - unat (i + 1) < unat (bit_cnt b) - unat i"
        using inc lt by (simp add: word_less_nat_alt)
      from less [OF this] show ?thesis
        using True c P r inc by (subst bitmap_scan_loop.simps) (simp add: find_range_step [of "unat i"])
    qed
  qed
qed

lemma bitmap_scan_bits:
  assumes wf: "bm_wf b" and s: "start \<le> bit_cnt b"
  shows "bitmap_scan b start cnt v = Some (idx_word (find_range (unat start) (unat cnt) v (bm_bits b)))"
proof (cases "cnt \<le> bit_cnt b")
  case True
  then show ?thesis using bitmap_scan_loop_bits [OF wf True] s by (simp add: bitmap_scan_def)
next
  case False
  then have "find_range (unat start) (unat cnt) v (bm_bits b) = None"
    by (auto simp: find_range_eq_None range_all_def word_le_nat_alt)
  then show ?thesis using False s by (simp add: bitmap_scan_def)
qed

text \<open>
  With a positive count the index of a group can not be the error value, so that the result of
  \<open>bitmap_scan_and_flip\<close> tells the two cases apart.
\<close>

lemma find_range_bound: "find_range s c v xs = Some i \<Longrightarrow> i + c \<le> length xs"
  by (simp add: find_range_eq_Some range_all_def)

lemma bitmap_scan_and_flip_bits:
  assumes wf: "bm_wf b" and s: "start \<le> bit_cnt b" and c: "cnt \<noteq> 0"
  shows "case find_range (unat start) (unat cnt) v (bm_bits b) of
     None \<Rightarrow> bitmap_scan_and_flip b start cnt v = Some (BITMAP_ERROR, b)
   | Some i \<Rightarrow> \<exists>b'. bitmap_scan_and_flip b start cnt v = Some (of_nat i, b') \<and> of_nat i \<noteq> BITMAP_ERROR \<and>
       unat (of_nat i :: u32) = i \<and> bm_wf b' \<and> bit_cnt b' = bit_cnt b \<and>
       bm_bits b' = set_range i (unat cnt) (\<not> v) (bm_bits b)"
proof (cases "find_range (unat start) (unat cnt) v (bm_bits b)")
  case None
  then show ?thesis using bitmap_scan_bits [OF wf s, of cnt v] by (simp add: bitmap_scan_and_flip_def)
next
  case (Some i)
  have le: "i + unat cnt \<le> unat (bit_cnt b)" using find_range_bound [OF Some] by simp
  moreover have "0 < unat cnt" using c by (simp add: unat_gt_0)
  moreover have "unat (bit_cnt b) \<le> 2 ^ 32 - 1"
    using unsigned_less [of "bit_cnt b", where 'a = nat] by simp
  ultimately have i: "i < 2 ^ 32 - 1" by linarith
  then have u: "unat (of_nat i :: u32) = i" by (intro unat_of_nat_id) simp
  have "unat BITMAP_ERROR = 2 ^ 32 - 1" by (simp add: BITMAP_ERROR_def)
  then have e: "of_nat i \<noteq> BITMAP_ERROR" using i u by auto
  obtain b' where "bitmap_set_multiple b (of_nat i) cnt (\<not> v) = Some b'" "bm_wf b'" "bit_cnt b' = bit_cnt b"
    "bm_bits b' = set_range i (unat cnt) (\<not> v) (bm_bits b)"
    using bitmap_set_multiple_bits [OF wf, of "of_nat i" cnt "\<not> v"] le u by auto
  then show ?thesis
    using Some bitmap_scan_bits [OF wf s, of cnt v] e u by (simp add: bitmap_scan_and_flip_def)
qed

text \<open>The storage of a bitmap keeps its size.\<close>

lemma elem_set_length: "elem_set b i v = Some b' \<Longrightarrow> length (bits b') = length (bits b)"
  by (auto simp: elem_set_def split: if_splits)

lemma bitmap_set_length: "bitmap_set b i v = Some b' \<Longrightarrow> length (bits b') = length (bits b)"
  by (auto simp: bitmap_set_def bitmap_mark_def bitmap_reset_def panic_simps Let_def split: if_splits dest!: elem_set_length)

lemma bitmap_set_multiple_loop_length:
  "bitmap_set_multiple_loop b start cnt v i = Some b' \<Longrightarrow> length (bits b') = length (bits b)"
proof (erule bitmap_set_multiple_loop.raw_induct [where P = "\<lambda>b start cnt v i b'. length (bits b') = length (bits b)", rotated])
  fix self b start cnt v i b'
  assume ih: "\<And>b start cnt v i b'. self b start cnt v i = Some b' \<Longrightarrow> length (bits b') = length (bits b)"
    and "(if i < cnt then bitmap_set b (start + i) v \<bind> (\<lambda>b'. self b' start cnt v (i + 1)) else Some b) = Some b'"
  then show "length (bits b') = length (bits b)"
    by (auto simp: panic_simps split: if_splits dest!: ih bitmap_set_length)
qed

lemma bitmap_set_multiple_length: "bitmap_set_multiple b start cnt v = Some b' \<Longrightarrow> length (bits b') = length (bits b)"
  by (auto simp: bitmap_set_multiple_def panic_simps split: if_splits dest: bitmap_set_multiple_loop_length)

lemma bitmap_scan_and_flip_length: "bitmap_scan_and_flip b start cnt v = Some (i, b') \<Longrightarrow> length (bits b') = length (bits b)"
  by (auto simp: bitmap_scan_and_flip_def panic_simps split: if_splits dest: bitmap_set_multiple_length)

subsection \<open>A bitmap as an allocator\<close>

definition bm_used :: "bitmap \<Rightarrow> nat set" where
  "bm_used b = {i. i < unat (bit_cnt b) \<and> bm_bits b ! i}"

definition bm_alloc :: "bitmap \<Rightarrow> u32 \<Rightarrow> (u32 option \<times> bitmap) option" where
  "bm_alloc b cnt = do {
     r \<leftarrow> bitmap_scan_and_flip b 0 cnt False;
     Some (if fst r = BITMAP_ERROR then None else Some (fst r), snd r)
   }"

definition bm_release :: "bitmap \<Rightarrow> u32 \<Rightarrow> u32 \<Rightarrow> bitmap option" where
  "bm_release b start cnt = do {
     ok \<leftarrow> bitmap_all b start cnt;
     ASSERT ok;
     bitmap_set_multiple b start cnt False
   }"

definition bm_legal :: "u32 \<times> u32 \<Rightarrow> bitmap \<Rightarrow> bool" where
  "bm_legal r b \<longleftrightarrow> unat (fst r) + unat (snd r) \<le> unat (bit_cnt b)"

lemma bm_alloc_cases:
  assumes "bm_wf b" "c \<noteq> 0"
  obtains "bm_alloc b c = Some (None, b)" "\<forall>i. \<not> range_all i (unat c) False (bm_bits b)"
  | i b' where "bm_alloc b c = Some (Some i, b')" "bm_wf b'" "bit_cnt b' = bit_cnt b"
      "range_all (unat i) (unat c) False (bm_bits b)"
      "bm_bits b' = set_range (unat i) (unat c) True (bm_bits b)"
proof (cases "find_range 0 (unat c) False (bm_bits b)")
  case None
  then show thesis
    using that(1) bitmap_scan_and_flip_bits [OF assms(1) _ assms(2), of 0 False]
    by (simp add: bm_alloc_def flip: find_range_eq_None [of 0, simplified])
next
  case (Some i)
  then have "range_all i (unat c) False (bm_bits b)" by (simp add: find_range_eq_Some)
  with Some show thesis
    using that(2) [of "of_nat i"] bitmap_scan_and_flip_bits [OF assms(1) _ assms(2), of 0 False]
    by (auto simp: bm_alloc_def)
qed

lemma bm_used_set_range:
  "bit_cnt b' = bit_cnt b \<Longrightarrow> bm_bits b' = set_range s c v (bm_bits b) \<Longrightarrow> s + c \<le> unat (bit_cnt b) \<Longrightarrow>
   bm_used b' = (if v then bm_used b \<union> {s ..< s + c} else bm_used b - {s ..< s + c})"
  by (auto simp: bm_used_def simp del: nth_bm_bits split: if_splits)

lemma range_all_used:
  "range_all s c v (bm_bits b) \<longleftrightarrow>
     s + c \<le> unat (bit_cnt b) \<and> (if v then {s ..< s + c} \<subseteq> bm_used b else {s ..< s + c} \<inter> bm_used b = {})"
proof -
  have "(\<forall>j < c. bm_bits b ! (s + j) = v) \<longleftrightarrow> (\<forall>j. s \<le> j \<longrightarrow> j < s + c \<longrightarrow> bm_bits b ! j = v)"
    by (metis le_add1 le_add_diff_inverse nat_add_left_cancel_less)
  then show ?thesis by (auto simp: range_all_def bm_used_def simp del: nth_bm_bits)
qed

lemma bm_release_used:
  assumes "bm_wf b" "bm_legal (s, c) b" "run_of (s, c) \<subseteq> bm_used b"
  shows "\<exists>b'. bm_release b s c = Some b' \<and> bm_wf b' \<and> bit_cnt b' = bit_cnt b \<and> bm_used b' = bm_used b - run_of (s, c)"
  using assms bitmap_all_bits [of b s c] bitmap_set_multiple_bits [of b s c False] bm_used_set_range
  by (auto simp: bm_release_def bm_legal_def range_all_used run_of_def)

interpretation bm: region_alloc bm_wf bm_used bm_alloc bm_release bm_legal
proof
  fix b b' and c i :: u32 and r :: "u32 \<times> u32"
  assume wf: "bm_wf b"
  show "\<exists>b'. bm_release b i c = Some b' \<and> bm_wf b' \<and> bm_used b' = bm_used b - run_of (i, c) \<and>
      (\<forall>r. bm_legal r b \<longrightarrow> bm_legal r b')" if "bm_legal (i, c) b" "run_of (i, c) \<subseteq> bm_used b"
    using bm_release_used [OF wf that] by (auto simp: bm_legal_def)
  assume c: "c \<noteq> 0"
  show "\<exists>r s'. bm_alloc b c = Some (r, s')" using wf c by (cases rule: bm_alloc_cases) auto
  show "b' = b" if "bm_alloc b c = Some (None, b')" using wf c that by (cases rule: bm_alloc_cases) auto
  assume s: "bm_alloc b c = Some (Some i, b')"
  have *: "bm_wf b'" "bit_cnt b' = bit_cnt b" "range_all (unat i) (unat c) False (bm_bits b)"
    "bm_bits b' = set_range (unat i) (unat c) True (bm_bits b)"
    using wf c s by (cases rule: bm_alloc_cases; simp)+
  then have r: "run_of (i, c) \<inter> bm_used b = {}" "bm_legal (i, c) b"
    by (auto simp: range_all_used run_of_def bm_legal_def)
  then show "run_of (i, c) \<inter> bm_used b = {}" by simp
  show "bm_used b' = bm_used b \<union> run_of (i, c)"
    using bm_used_set_range [OF *(2,4)] r(2) by (simp add: run_of_def bm_legal_def)
  show "bm_wf b' \<and> bm_legal (i, c) b'" using * r by (simp add: bm_legal_def)
  show "bm_legal r b \<Longrightarrow> bm_legal r b'" using * by (simp add: bm_legal_def)
qed

subsection \<open>Properties\<close>

lemma elem_cnt_enough:
  assumes "unat n \<le> 2 ^ 32 - 32"
  shows "unat n \<le> 32 * unat (elem_cnt n)"
proof -
  have "unat (n + 31) = unat n + 31"
    using assms unat_plus_le [of n 31 4294967295] by simp
  then have "unat (elem_cnt n) = (unat n + 31) div 32"
    by (simp add: elem_cnt_def DIV_ROUND_UP_def ELEM_BITS_def unat_div add_diff_eq [symmetric])
  then show ?thesis by simp
qed

text \<open>The two bits of a demonstration bitmap of ten bits that are set are 0 and 3.\<close>

definition demo_bm :: bitmap where
  "demo_bm = \<lparr>bit_cnt = 10, bits = [9]\<rparr>"

lemma demo_bm_wf: "bm_wf demo_bm"
  by (simp add: bm_wf_def demo_bm_def)

lemma demo_bm_bits: "bm_bits demo_bm = [True, False, False, True, False, False, False, False, False, False]"
  by (simp add: bm_bits_def bm_bit_def demo_bm_def upt_rec)

text \<open>
  C15. \<open>bitmap_scan_and_flip\<close> with a positive count returns the index of the first group of
  \<open>cnt\<close> consecutive bits at or after \<open>start\<close> that all have the value, and sets exactly these bits
  to the opposite value; when there is no such group it returns \<open>BITMAP_ERROR\<close> and changes nothing.
  It never panics for a \<open>start\<close> within the bitmap.
\<close>

theorem bitmap_scan_and_flip_correct:
  assumes "bm_wf b" "start \<le> bit_cnt b" "cnt \<noteq> 0"
  shows "(\<exists>idx b'. bitmap_scan_and_flip b start cnt v = Some (idx, b') \<and> idx \<noteq> BITMAP_ERROR \<and>
      start \<le> idx \<and> unat idx + unat cnt \<le> unat (bit_cnt b) \<and>
      (\<forall>j < unat cnt. bm_bits b ! (unat idx + j) = v) \<and>
      (\<forall>k. unat start \<le> k \<longrightarrow> k < unat idx \<longrightarrow> (\<exists>j < unat cnt. bm_bits b ! (k + j) \<noteq> v)) \<and>
      bit_cnt b' = bit_cnt b \<and> bm_wf b' \<and>
      (\<forall>j < unat (bit_cnt b). bm_bits b' ! j =
         (if unat idx \<le> j \<and> j < unat idx + unat cnt then \<not> v else bm_bits b ! j)))
    \<or> (bitmap_scan_and_flip b start cnt v = Some (BITMAP_ERROR, b) \<and>
       (\<forall>k. unat start \<le> k \<longrightarrow> k + unat cnt \<le> unat (bit_cnt b) \<longrightarrow> (\<exists>j < unat cnt. bm_bits b ! (k + j) \<noteq> v)))"
proof (cases "find_range (unat start) (unat cnt) v (bm_bits b)")
  case None
  then show ?thesis
    using bitmap_scan_and_flip_bits [OF assms, of v] find_range_eq_None [of "unat start" "unat cnt" v "bm_bits b"]
    by (simp add: range_all_def del: nth_bm_bits)
next
  case (Some i)
  then have i: "unat start \<le> i" "range_all i (unat cnt) v (bm_bits b)"
    "\<forall>k. unat start \<le> k \<longrightarrow> k < i \<longrightarrow> \<not> range_all k (unat cnt) v (bm_bits b)"
    by (simp_all add: find_range_eq_Some)
  obtain b' where b': "bitmap_scan_and_flip b start cnt v = Some (of_nat i, b')" "of_nat i \<noteq> BITMAP_ERROR"
    "unat (of_nat i :: u32) = i" "bm_wf b'" "bit_cnt b' = bit_cnt b" "bm_bits b' = set_range i (unat cnt) (\<not> v) (bm_bits b)"
    using bitmap_scan_and_flip_bits [OF assms, of v] Some by auto
  have "\<forall>j < unat (bit_cnt b). bm_bits b' ! j = (if i \<le> j \<and> j < i + unat cnt then \<not> v else bm_bits b ! j)"
    using b'(6) by (simp del: nth_bm_bits)
  then show ?thesis
    using b' i by (intro disjI1 exI [of _ "of_nat i"] exI [of _ b'])
      (auto simp: word_le_nat_alt range_all_def simp del: nth_bm_bits)
qed

theorem bitmap_scan_and_flip_correct_witness:
  "\<exists>idx b'. bitmap_scan_and_flip demo_bm 0 3 False = Some (idx, b') \<and> idx \<noteq> BITMAP_ERROR \<and> bit_cnt b' = 10"
proof -
  have "\<not> (\<forall>k. k + 3 \<le> 10 \<longrightarrow> (\<exists>j < 3. bm_bits demo_bm ! (k + j)))"
  proof -
    have "\<forall>j < 3. \<not> bm_bits demo_bm ! (4 + j)"
      by (simp add: demo_bm_bits numeral_3_eq_3 less_Suc_eq all_conj_distrib)
    then show ?thesis by (auto intro!: exI [of _ 4])
  qed
  then show ?thesis
    using bitmap_scan_and_flip_correct [OF demo_bm_wf, of 0 3 False] by (auto simp: demo_bm_def)
qed



text \<open>A count of zero: the code returns \<open>start\<close>, whereas its comment announces 0.\<close>

lemma bitmap_scan_and_flip_zero:
  assumes "bm_wf b" "start < bit_cnt b"
  shows "\<exists>b'. bitmap_scan_and_flip b start 0 v = Some (start, b')"
proof -
  have "find_range (unat start) 0 v (bm_bits b) = Some (unat start)"
    using assms(2) by (simp add: find_range_eq_Some range_all_def word_less_nat_alt)
  then have "bitmap_scan b start 0 v = Some start"
    using bitmap_scan_bits [OF assms(1), of start 0 v] assms(2) by simp
  moreover have "\<exists>b'. bitmap_set_multiple b start 0 (\<not> v) = Some b'"
    using bitmap_set_multiple_bits [OF assms(1), of start 0 "\<not> v"] assms(2) by (auto simp: word_less_nat_alt)
  ultimately show ?thesis by (auto simp: bitmap_scan_and_flip_def)
qed

text \<open>A freshly created bitmap is well formed and empty, whatever the storage held.\<close>

lemma bitmap_create_bits:
  assumes "unat n \<le> 2 ^ 32 - 32" "length junk = unat (elem_cnt n)"
  shows "\<exists>b. bitmap_create True (Some junk) n = Some (Some b) \<and> bm_wf b \<and> bit_cnt b = n \<and>
    bm_bits b = replicate (unat n) False"
  using bitmap_set_all_bits [of "\<lparr>bit_cnt = n, bits = junk\<rparr>" False] elem_cnt_enough [OF assms(1)] assms(2)
  by (auto simp: bitmap_create_def bm_wf_def)

end
