(* ===== verification/Dictionary.thy ===== *)
theory Dictionary
  imports Prelude
begin

text \<open>
  The contract of a container that finds, adds and removes entries by key, up to an equivalence
  \<open>same\<close> of keys. The hash table provides it. Adding fails when the key is
  present, and may fail for lack of room; a failed operation changes no lookup. What clients rely
  on follows here: a run of operations acts on the lookups like updates of a finite map.
\<close>

datatype ('k, 'v) dict_op = Add 'k 'v | Del 'k

locale dictionary =
  fixes inv :: "'s \<Rightarrow> bool"
    and same :: "'k \<Rightarrow> 'k \<Rightarrow> bool"
    and entry_ok :: "'k \<Rightarrow> 'v \<Rightarrow> bool"
    and lookup :: "'s \<Rightarrow> 'k \<Rightarrow> 'v option"
    and add :: "'s \<Rightarrow> 'k \<Rightarrow> 'v \<Rightarrow> (bool \<times> 's) option"
    and del :: "'s \<Rightarrow> 'k \<Rightarrow> (bool \<times> 's) option"
  assumes add_total: "inv s \<Longrightarrow> entry_ok k v \<Longrightarrow> \<exists>r. add s k v = Some r"
    and add_inv: "inv s \<Longrightarrow> entry_ok k v \<Longrightarrow> add s k v = Some (ok, s') \<Longrightarrow> inv s'"
    and add_present: "inv s \<Longrightarrow> entry_ok k v \<Longrightarrow> add s k v = Some (True, s') \<Longrightarrow> lookup s k = None"
    and add_lookup: "inv s \<Longrightarrow> entry_ok k v \<Longrightarrow> add s k v = Some (ok, s') \<Longrightarrow>
      lookup s' j = (if ok \<and> same j k then Some v else lookup s j)"
    and del_total: "inv s \<Longrightarrow> \<exists>r. del s k = Some r"
    and del_inv: "inv s \<Longrightarrow> del s k = Some (ok, s') \<Longrightarrow> inv s'"
    and del_lookup: "inv s \<Longrightarrow> del s k = Some (ok, s') \<Longrightarrow>
      lookup s' j = (if ok \<and> same j k then None else lookup s j)"
begin

fun dict_step :: "'s \<Rightarrow> ('k, 'v) dict_op \<Rightarrow> (bool \<times> 's) option" where
  "dict_step s (Add k v) = add s k v"
| "dict_step s (Del k) = del s k"

fun ops_ok :: "('k, 'v) dict_op list \<Rightarrow> bool" where
  "ops_ok [] = True"
| "ops_ok (Add k v # ops) = (entry_ok k v \<and> ops_ok ops)"
| "ops_ok (Del k # ops) = ops_ok ops"

text \<open>The lookups a list of operations and their success flags lead to.\<close>

fun updates :: "('k \<Rightarrow> 'v option) \<Rightarrow> ('k, 'v) dict_op list \<Rightarrow> bool list \<Rightarrow> 'k \<Rightarrow> 'v option" where
  "updates m (op # ops) (ok # oks) =
     updates (case op of
        Add k v \<Rightarrow> (\<lambda>j. if ok \<and> same j k then Some v else m j)
      | Del k \<Rightarrow> (\<lambda>j. if ok \<and> same j k then None else m j)) ops oks"
| "updates m _ _ = m"

lemma run_updates:
  "inv s \<Longrightarrow> ops_ok ops \<Longrightarrow>
   \<exists>oks s'. run_ops dict_step s ops = Some (oks, s') \<and> inv s' \<and> length oks = length ops \<and>
     lookup s' = updates (lookup s) ops oks"
proof (induction ops arbitrary: s)
  case (Cons op ops)
  show ?case
  proof (cases op)
    case (Add k v)
    have e: "entry_ok k v" "ops_ok ops" using Cons.prems Add by auto
    obtain ok s1 where s1: "add s k v = Some (ok, s1)" using add_total [OF Cons.prems(1) e(1)] by force
    have "lookup s1 = (\<lambda>j. if ok \<and> same j k then Some v else lookup s j)"
      using add_lookup [OF Cons.prems(1) e(1) s1] by blast
    then show ?thesis
      using Cons.IH [OF add_inv [OF Cons.prems(1) e(1) s1] e(2)] Add s1 by (auto simp: Let_def)
  next
    case (Del k)
    obtain ok s1 where s1: "del s k = Some (ok, s1)" using del_total [OF Cons.prems(1)] by force
    have "lookup s1 = (\<lambda>j. if ok \<and> same j k then None else lookup s j)"
      using del_lookup [OF Cons.prems(1) s1] by blast
    then show ?thesis
      using Cons.IH [OF del_inv [OF Cons.prems(1) s1]] Cons.prems Del s1 by (auto simp: Let_def)
  qed
qed simp

end

end
