(* ===== verification/Bytes.thy ===== *)
theory Bytes
  imports Prelude
begin

text \<open>
  Bytes in memory and on disk: little-endian words as lists of bytes, arrays of words, and the
  effect of copying a list of bytes into the middle of a buffer.
\<close>

subsection \<open>Little-endian words\<close>

definition le_bytes :: "u32 \<Rightarrow> u8 list" where
  "le_bytes w = [ucast w, ucast (drop_bit 8 w), ucast (drop_bit 16 w), ucast (drop_bit 24 w)]"

definition word_of_bytes :: "u8 list \<Rightarrow> u32" where
  "word_of_bytes bs = horner_sum (\<lambda>b. ucast b) 256 bs"

definition le_words :: "u32 list \<Rightarrow> u8 list" where
  "le_words ws = concat (map le_bytes ws)"

fun words_of_bytes :: "u8 list \<Rightarrow> u32 list" where
  "words_of_bytes (a # b # c # d # bs) = word_of_bytes [a, b, c, d] # words_of_bytes bs"
| "words_of_bytes bs = []"

lemma length_le_bytes [simp]: "length (le_bytes w) = 4"
  by (simp add: le_bytes_def)

lemma length_le_words [simp]: "length (le_words ws) = 4 * length ws"
  by (induction ws) (simp_all add: le_words_def)

lemma unat_word_of_bytes:
  "unat (word_of_bytes [a, b, c, d]) = unat a + 256 * (unat b + 256 * (unat c + 256 * unat d))"
proof -
  have l: "unat x < 256" for x :: u8 using unsigned_less [of x, where 'a = nat] by simp
  have "word_of_bytes [a, b, c, d] = of_nat (unat a + 256 * (unat b + 256 * (unat c + 256 * unat d)))"
    by (simp add: word_of_bytes_def)
  moreover have "unat a + 256 * (unat b + 256 * (unat c + 256 * unat d)) < 2 ^ LENGTH(32)"
    using l [of a] l [of b] l [of c] l [of d] by simp
  ultimately show ?thesis by (simp only: unat_of_nat_id)
qed

lemma word_of_le_bytes [simp]: "word_of_bytes (le_bytes w) = w"
proof (rule word_unat_eq_iff [THEN iffD2])
  define x where "x = unat w"
  have "x mod 256 + 256 * (x div 256 mod 256 + 256 * (x div 256 div 256 mod 256 + 256 * (x div 256 div 256 div 256))) = x"
    using mult_div_mod_eq [of 256 x] mult_div_mod_eq [of 256 "x div 256"] mult_div_mod_eq [of 256 "x div 256 div 256"] by simp
  moreover have "x div 16777216 < 256"
    using unsigned_less [of w, where 'a = nat] by (simp add: x_def div_less_iff_less_mult)
  ultimately show "unat (word_of_bytes (le_bytes w)) = unat w"
    by (simp add: le_bytes_def unat_word_of_bytes unat_ucast_mod unat_drop_bit x_def div_mult2_eq [symmetric])
qed

lemma le_word_of_bytes [simp]: "le_bytes (word_of_bytes [a, b, c, d]) = [a, b, c, d]"
proof -
  have l: "unat x < 256" for x :: u8 using unsigned_less [of x, where 'a = nat] by simp
  note la = l [of a] and lb = l [of b] and lc = l [of c] and ld = l [of d]
  have "unat (ucast (drop_bit k (word_of_bytes [a, b, c, d])) :: u8) =
      (unat a + 256 * (unat b + 256 * (unat c + 256 * unat d))) div 2 ^ k mod 256" for k
    by (simp add: unat_ucast_mod unat_drop_bit unat_word_of_bytes)
  note u = this this [of 0]
  have low: "(p + 256 * q) mod 256 = p" if "p < 256" for p q :: nat using that by simp
  have "ucast (word_of_bytes [a, b, c, d]) = a"
    using u(2) low [OF la] by (simp only: word_unat_eq_iff power_0 div_by_1 drop_bit_0 id_apply)
  moreover have "ucast (drop_bit 8 (word_of_bytes [a, b, c, d])) = b"
  proof -
    have "(unat a + 256 * (unat b + 256 * (unat c + 256 * unat d))) div 2 ^ 8 = unat b + 256 * (unat c + 256 * unat d)"
      using la by simp
    then show ?thesis using u(1) [of 8] low [OF lb] by (simp only: word_unat_eq_iff)
  qed
  moreover have "ucast (drop_bit 16 (word_of_bytes [a, b, c, d])) = c"
  proof -
    have "(unat a + 256 * (unat b + 256 * (unat c + 256 * unat d))) div 256 div 256 = unat c + 256 * unat d"
      using la lb by simp
    then have "(unat a + 256 * (unat b + 256 * (unat c + 256 * unat d))) div 2 ^ 16 = unat c + 256 * unat d"
      by (simp only: div_mult2_eq [symmetric]) simp
    then show ?thesis using u(1) [of 16] low [OF lc] by (simp only: word_unat_eq_iff)
  qed
  moreover have "ucast (drop_bit 24 (word_of_bytes [a, b, c, d])) = d"
  proof -
    have "(unat a + 256 * (unat b + 256 * (unat c + 256 * unat d))) div 256 div 256 div 256 = unat d"
      using la lb lc by simp
    then have "(unat a + 256 * (unat b + 256 * (unat c + 256 * unat d))) div 2 ^ 24 = unat d"
      by (simp only: div_mult2_eq [symmetric]) simp
    then show ?thesis using u(1) [of 24] low [OF ld, of 0] by (simp only: word_unat_eq_iff mult_0_right add_0_right)
  qed
  ultimately show ?thesis by (simp add: le_bytes_def)
qed

lemma words_of_le_words [simp]: "words_of_bytes (le_words ws) = ws"
proof (induction ws)
  case (Cons w ws)
  obtain a b c d where e: "le_bytes w = [a, b, c, d]" by (simp add: le_bytes_def)
  then have "word_of_bytes [a, b, c, d] = w" using word_of_le_bytes [of w] by simp
  then show ?case using Cons e by (simp add: le_words_def)
qed (simp add: le_words_def)

subsection \<open>Copying into a buffer\<close>

definition splice_at :: "'a list \<Rightarrow> nat \<Rightarrow> 'a list \<Rightarrow> 'a list" where
  "splice_at xs k ys = take k xs @ ys @ drop (k + length ys) xs"

lemma length_splice_at [simp]: "k + length ys \<le> length xs \<Longrightarrow> length (splice_at xs k ys) = length xs"
  by (simp add: splice_at_def)

lemma nth_splice_at:
  "k + length ys \<le> length xs \<Longrightarrow> i < length xs \<Longrightarrow>
   splice_at xs k ys ! i = (if k \<le> i \<and> i < k + length ys then ys ! (i - k) else xs ! i)"
  by (auto simp: splice_at_def nth_append)

lemma splice_at_Nil [simp]: "splice_at xs k [] = xs"
  by (simp add: splice_at_def)

lemma splice_at_append:
  "k + length ys + length zs \<le> length xs \<Longrightarrow>
   splice_at (splice_at xs k ys) (k + length ys) zs = splice_at xs k (ys @ zs)"
  by (rule nth_equalityI) (auto simp: nth_splice_at nth_append)

lemma splice_at_read:
  "k + length ys \<le> length xs \<Longrightarrow> take (length ys) (drop k (splice_at xs k ys)) = ys"
  by (simp add: splice_at_def)

lemma splice_at_outside:
  "k + length ys \<le> length xs \<Longrightarrow> j + n \<le> k \<or> k + length ys \<le> j \<Longrightarrow> j + n \<le> length xs \<Longrightarrow>
   take n (drop j (splice_at xs k ys)) = take n (drop j xs)"
  by (rule nth_equalityI) (auto simp: nth_splice_at)

end
