(* ===== verification/Hash.thy ===== *)
theory Hash
  imports Dictionary Bytes
begin

text \<open>
  The chained hash table of src/proj-pregame/src/lib/kernel/hash.c. The buckets are kernel lists,
  here HOL lists of elements (\<open>Kernel_List_Interface\<close> shows that the pointer lists implement
  them); a bucket pointer is its index in \<open>buckets\<close>. The auxiliary data is part of the functions
  \<open>hash\<close> and \<open>less\<close> stored in the table. Whether \<open>malloc\<close> finds memory for a new bucket
  array in \<open>rehash\<close> is the argument \<open>mem\<close>; all results hold for both answers.
\<close>

subsection \<open>The C functions\<close>

record 'e hash_table =
  h_elem_cnt :: u32
  bucket_cnt :: u32
  buckets :: "'e list list"
  hash_fn :: "'e \<Rightarrow> u32"
  less_fn :: "'e \<Rightarrow> 'e \<Rightarrow> bool"

definition get_bucket :: "'e hash_table \<Rightarrow> u32 \<Rightarrow> 'e list option" where
  "get_bucket h i = (if unat i < length (buckets h) then Some (buckets h ! unat i) else None)"

definition put_bucket :: "'e hash_table \<Rightarrow> u32 \<Rightarrow> 'e list \<Rightarrow> 'e hash_table" where
  "put_bucket h i b = h\<lparr>buckets := (buckets h)[unat i := b]\<rparr>"

definition find_bucket :: "'e hash_table \<Rightarrow> 'e \<Rightarrow> u32" where
  "find_bucket h e = hash_fn h e AND (bucket_cnt h - 1)"

fun find_elem :: "'e hash_table \<Rightarrow> 'e list \<Rightarrow> 'e \<Rightarrow> 'e option" where
  "find_elem h [] e = None"
| "find_elem h (hi # b) e = (if \<not> less_fn h hi e \<and> \<not> less_fn h e hi then Some hi else find_elem h b e)"

definition turn_off_least_1bit :: "u32 \<Rightarrow> u32" where
  "turn_off_least_1bit x = x AND (x - 1)"

definition is_power_of_2 :: "u32 \<Rightarrow> bool" where
  "is_power_of_2 x \<longleftrightarrow> x \<noteq> 0 \<and> turn_off_least_1bit x = 0"

partial_function (option) round_to_pow2 :: "u32 \<Rightarrow> u32 option" where
  [code]: "round_to_pow2 n = (if \<not> is_power_of_2 n then round_to_pow2 (turn_off_least_1bit n) else Some n)"

definition move_elem :: "'e hash_table \<Rightarrow> 'e \<Rightarrow> 'e hash_table option" where
  "move_elem h e = do {
     let i = find_bucket h e;
     b \<leftarrow> get_bucket h i;
     Some (put_bucket h i (e # b))
   }"

fun move_elems :: "'e hash_table \<Rightarrow> 'e list \<Rightarrow> 'e hash_table option" where
  "move_elems h [] = Some h"
| "move_elems h (e # es) = move_elem h e \<bind> (\<lambda>h'. move_elems h' es)"

definition rehash :: "bool \<Rightarrow> 'e hash_table \<Rightarrow> 'e hash_table option" where
  "rehash mem h = do {
     let old_buckets = buckets h;
     let n = h_elem_cnt h div 2;
     let n = (if n < 4 then 4 else n);
     new_bucket_cnt \<leftarrow> round_to_pow2 n;
     if new_bucket_cnt = bucket_cnt h then Some h
     else if \<not> mem then Some h
     else move_elems (h\<lparr>buckets := replicate (unat new_bucket_cnt) [], bucket_cnt := new_bucket_cnt\<rparr>)
            (concat old_buckets)
   }"

definition insert_elem :: "'e hash_table \<Rightarrow> u32 \<Rightarrow> 'e \<Rightarrow> 'e hash_table option" where
  "insert_elem h i e = do {
     let h1 = h\<lparr>h_elem_cnt := h_elem_cnt h + 1\<rparr>;
     b \<leftarrow> get_bucket h1 i;
     Some (put_bucket h1 i (e # b))
   }"

text \<open>\<open>list_remove\<close> unlinks the element from whatever bucket holds it.\<close>

definition remove_elem :: "'e hash_table \<Rightarrow> 'e \<Rightarrow> 'e hash_table" where
  "remove_elem h e =
     h\<lparr>h_elem_cnt := h_elem_cnt h - 1, buckets := map (remove1 e) (buckets h)\<rparr>"

definition hash_insert :: "bool \<Rightarrow> 'e hash_table \<Rightarrow> 'e \<Rightarrow> ('e option \<times> 'e hash_table) option" where
  "hash_insert mem h new = do {
     let bucket = find_bucket h new;
     b \<leftarrow> get_bucket h bucket;
     let old = find_elem h b new;
     h1 \<leftarrow> (if old = None then insert_elem h bucket new else Some h);
     h2 \<leftarrow> rehash mem h1;
     Some (old, h2)
   }"

definition hash_replace :: "bool \<Rightarrow> 'e hash_table \<Rightarrow> 'e \<Rightarrow> ('e option \<times> 'e hash_table) option" where
  "hash_replace mem h new = do {
     let bucket = find_bucket h new;
     b \<leftarrow> get_bucket h bucket;
     let old = find_elem h b new;
     let h1 = (case old of Some o1 \<Rightarrow> remove_elem h o1 | None \<Rightarrow> h);
     h2 \<leftarrow> insert_elem h1 bucket new;
     h3 \<leftarrow> rehash mem h2;
     Some (old, h3)
   }"

definition hash_find :: "'e hash_table \<Rightarrow> 'e \<Rightarrow> 'e option option" where
  "hash_find h e = do {
     b \<leftarrow> get_bucket h (find_bucket h e);
     Some (find_elem h b e)
   }"

definition hash_delete :: "bool \<Rightarrow> 'e hash_table \<Rightarrow> 'e \<Rightarrow> ('e option \<times> 'e hash_table) option" where
  "hash_delete mem h e = do {
     b \<leftarrow> get_bucket h (find_bucket h e);
     case find_elem h b e of
       None \<Rightarrow> Some (None, h)
     | Some found \<Rightarrow> do {
         h1 \<leftarrow> rehash mem (remove_elem h found);
         Some (Some found, h1)
       }
   }"

text \<open>A destructor or action acts on the state \<open>'s\<close> of its caller.\<close>

fun hash_clear_loop :: "('e \<Rightarrow> 's \<Rightarrow> 's) option \<Rightarrow> 'e list list \<Rightarrow> 's \<Rightarrow> 'e list list \<times> 's" where
  "hash_clear_loop d [] s = ([], s)"
| "hash_clear_loop d (b # bs) s =
     (let s' = (case d of Some f \<Rightarrow> fold f b s | None \<Rightarrow> s);
          r = hash_clear_loop d bs s' in ([] # fst r, snd r))"

definition hash_clear :: "('e \<Rightarrow> 's \<Rightarrow> 's) option \<Rightarrow> 'e hash_table \<Rightarrow> 's \<Rightarrow> 'e hash_table \<times> 's" where
  "hash_clear d h s = (let r = hash_clear_loop d (buckets h) s in
     (h\<lparr>buckets := fst r, h_elem_cnt := 0\<rparr>, snd r))"

definition hash_init :: "bool \<Rightarrow> ('e \<Rightarrow> u32) \<Rightarrow> ('e \<Rightarrow> 'e \<Rightarrow> bool) \<Rightarrow> 'e hash_table option" where
  "hash_init mem hs ls =
     (if mem then Some (fst (hash_clear None
        \<lparr>h_elem_cnt = 0, bucket_cnt = 4, buckets = replicate 4 [], hash_fn = hs, less_fn = ls\<rparr> ()))
      else None)"

definition hash_apply :: "('e \<Rightarrow> 's \<Rightarrow> 's) \<Rightarrow> 'e hash_table \<Rightarrow> 's \<Rightarrow> 's" where
  "hash_apply action h s = fold (\<lambda>bucket. fold action bucket) (buckets h) s"

definition hash_size :: "'e hash_table \<Rightarrow> u32" where
  "hash_size h = h_elem_cnt h"

definition hash_empty :: "'e hash_table \<Rightarrow> bool" where
  "hash_empty h \<longleftrightarrow> h_elem_cnt h = 0"

text \<open>
  An iterator: the current bucket, how many links its element is away from the bucket's list head,
  and whether it ran off the table (a null \<open>elem\<close>).
\<close>

record hash_iterator =
  it_bucket :: nat
  it_pos :: nat
  it_null :: bool

definition hash_first :: "'e hash_table \<Rightarrow> hash_iterator" where
  "hash_first h = \<lparr>it_bucket = 0, it_pos = 0, it_null = False\<rparr>"

definition hash_cur :: "'e hash_table \<Rightarrow> hash_iterator \<Rightarrow> 'e option" where
  "hash_cur h i = (if it_null i then None else Some ((buckets h ! it_bucket i) ! (it_pos i - 1)))"

function hash_next_skip :: "'e hash_table \<Rightarrow> hash_iterator \<Rightarrow> hash_iterator" where
  "hash_next_skip h i =
     (if it_pos i > length (buckets h ! it_bucket i) then
        if it_bucket i + 1 \<ge> length (buckets h) then i\<lparr>it_bucket := it_bucket i + 1, it_null := True\<rparr>
        else hash_next_skip h (i\<lparr>it_bucket := it_bucket i + 1, it_pos := 1\<rparr>)
      else i)"
  by pat_completeness auto
termination
  by (relation "measure (\<lambda>(h, i). length (buckets h) - it_bucket i)") auto

definition hash_next :: "'e hash_table \<Rightarrow> hash_iterator \<Rightarrow> ('e option \<times> hash_iterator) option" where
  "hash_next h i = do {
     ASSERT (\<not> it_null i);
     let i1 = hash_next_skip h (i\<lparr>it_pos := it_pos i + 1\<rparr>);
     Some (hash_cur h i1, i1)
   }"

text \<open>The iteration idiom the comment of \<open>hash_first\<close> prescribes, collecting the elements.\<close>

partial_function (option) hash_iterate :: "'e hash_table \<Rightarrow> hash_iterator \<Rightarrow> 'e list \<Rightarrow> 'e list option" where
  [code]: "hash_iterate h i acc = do {
     r \<leftarrow> hash_next h i;
     case fst r of
       None \<Rightarrow> Some acc
     | Some e \<Rightarrow> hash_iterate h (snd r) (acc @ [e])
   }"

definition FNV_32_PRIME :: u32 where "FNV_32_PRIME = 16777619"
definition FNV_32_BASIS :: u32 where "FNV_32_BASIS = 2166136261"

fun hash_bytes_loop :: "u32 \<Rightarrow> u8 list \<Rightarrow> u32" where
  "hash_bytes_loop hv [] = hv"
| "hash_bytes_loop hv (b # bs) = hash_bytes_loop ((hv * FNV_32_PRIME) XOR ucast b) bs"

definition hash_bytes :: "u8 list \<Rightarrow> u32" where
  "hash_bytes buf = hash_bytes_loop FNV_32_BASIS buf"

fun hash_string_loop :: "u32 \<Rightarrow> u8 list \<Rightarrow> u32" where
  "hash_string_loop hv [] = hv"
| "hash_string_loop hv (b # bs) =
     (if b \<noteq> 0 then hash_string_loop ((hv * FNV_32_PRIME) XOR ucast b) bs else hv)"

definition hash_string :: "u8 list \<Rightarrow> u32" where
  "hash_string s = hash_string_loop FNV_32_BASIS s"

definition hash_int :: "u32 \<Rightarrow> u32" where
  "hash_int i = hash_bytes (le_bytes i)"

subsection \<open>Invariant\<close>

text \<open>What \<open>hash_hash_func\<close> and \<open>hash_less_func\<close> promise: equal elements have equal hash values.\<close>

definition same_elem :: "('e \<Rightarrow> 'e \<Rightarrow> bool) \<Rightarrow> 'e \<Rightarrow> 'e \<Rightarrow> bool" where
  "same_elem ls a b \<longleftrightarrow> \<not> ls a b \<and> \<not> ls b a"

definition hash_contract :: "('e \<Rightarrow> u32) \<Rightarrow> ('e \<Rightarrow> 'e \<Rightarrow> bool) \<Rightarrow> bool" where
  "hash_contract hs ls \<longleftrightarrow> (\<forall>a. \<not> ls a a) \<and>
     (\<forall>a b c. same_elem ls a b \<longrightarrow> same_elem ls b c \<longrightarrow> same_elem ls a c) \<and>
     (\<forall>a b. same_elem ls a b \<longrightarrow> hs a = hs b)"

abbreviation elems :: "'e hash_table \<Rightarrow> 'e list" where
  "elems h \<equiv> concat (buckets h)"

abbreviation same_in :: "'e hash_table \<Rightarrow> 'e \<Rightarrow> 'e \<Rightarrow> bool" where
  "same_in h \<equiv> same_elem (less_fn h)"

definition hwf :: "'e hash_table \<Rightarrow> bool" where
  "hwf h \<longleftrightarrow> bucket_cnt h \<noteq> 0 \<and> length (buckets h) = unat (bucket_cnt h) \<and>
     (\<forall>i < length (buckets h). \<forall>e \<in> set (buckets h ! i). unat (find_bucket h e) = i)"

definition keys_unique :: "'e hash_table \<Rightarrow> bool" where
  "keys_unique h \<longleftrightarrow> distinct (elems h) \<and> (\<forall>a \<in> set (elems h). \<forall>b \<in> set (elems h). same_in h a b \<longrightarrow> a = b)"

definition hash_inv :: "'e hash_table \<Rightarrow> bool" where
  "hash_inv h \<longleftrightarrow> hash_contract (hash_fn h) (less_fn h) \<and> hwf h \<and> keys_unique h \<and>
     h_elem_cnt h = of_nat (length (elems h))"

lemma find_bucket_less: "bucket_cnt h \<noteq> 0 \<Longrightarrow> unat (find_bucket h e) < unat (bucket_cnt h)"
  using word_and_le1 [of "hash_fn h e" "bucket_cnt h - 1"]
  by (metis find_bucket_def and.commute le_less_trans measure_unat word_and_le1 word_and_le2 word_le_nat_alt)

lemma get_bucket_hwf:
  "hwf h \<Longrightarrow> get_bucket h (find_bucket h e) = Some (buckets h ! unat (find_bucket h e))"
  using find_bucket_less [of h e] by (simp add: get_bucket_def hwf_def)

lemma find_elem_find: "find_elem h b e = List.find (\<lambda>x. same_in h x e) b"
  by (induction b) (auto simp: same_elem_def)

lemma same_elem_sym: "same_elem ls a b \<longleftrightarrow> same_elem ls b a"
  by (auto simp: same_elem_def)

lemma contract_refl: "hash_contract hs ls \<Longrightarrow> same_elem ls a a"
  by (simp add: hash_contract_def same_elem_def)

lemma contract_trans: "hash_contract hs ls \<Longrightarrow> same_elem ls a b \<Longrightarrow> same_elem ls b c \<Longrightarrow> same_elem ls a c"
  by (simp add: hash_contract_def)

lemma contract_bucket:
  "hash_contract (hash_fn h) (less_fn h) \<Longrightarrow> same_in h a b \<Longrightarrow> find_bucket h a = find_bucket h b"
  by (simp add: hash_contract_def find_bucket_def)

lemma elem_in_own_bucket:
  "hwf h \<Longrightarrow> x \<in> set (elems h) \<Longrightarrow> x \<in> set (buckets h ! unat (find_bucket h x))"
  unfolding hwf_def set_concat by (metis (no_types, lifting) UN_E in_set_conv_nth)

lemma bucket_in_elems: "hwf h \<Longrightarrow> x \<in> set (buckets h ! unat (find_bucket h e)) \<Longrightarrow> x \<in> set (elems h)"
  using find_bucket_less [of h e] by (auto simp: hwf_def)

text \<open>What \<open>hash_find\<close> finds, in terms of the set of elements.\<close>

definition lookup :: "'e hash_table \<Rightarrow> 'e \<Rightarrow> 'e option" where
  "lookup h e = List.find (\<lambda>x. same_in h x e) (elems h)"

lemma keys_unique_same:
  assumes "hash_contract (hash_fn h) (less_fn h)" "keys_unique h"
    "a \<in> set (elems h)" "same_in h a e" "b \<in> set (elems h)" "same_in h b e"
  shows "a = b"
  using assms contract_trans [OF assms(1), of a e b] same_elem_sym [of _ b e]
  unfolding keys_unique_def by blast

lemma find_elem_lookup:
  assumes "hash_inv h"
  shows "find_elem h (buckets h ! unat (find_bucket h e)) e = lookup h e"
proof -
  have c: "hash_contract (hash_fn h) (less_fn h)" and w: "hwf h" and k: "keys_unique h"
    using assms by (simp_all add: hash_inv_def)
  show ?thesis
    unfolding find_elem_find lookup_def
  proof (rule find_unique)
    show "a = b" if "a \<in> set (elems h)" "same_in h a e" "b \<in> set (elems h)" "same_in h b e" for a b
      using keys_unique_same [OF c k that] .
    show "set (buckets h ! unat (find_bucket h e)) \<subseteq> set (elems h)"
      using bucket_in_elems [OF w] by blast
    show "a \<in> set (buckets h ! unat (find_bucket h e))" if "a \<in> set (elems h)" "same_in h a e" for a
      using elem_in_own_bucket [OF w that(1)] contract_bucket [OF c that(2)] by simp
  qed
qed

lemma lookup_Some: "lookup h e = Some x \<Longrightarrow> x \<in> set (elems h) \<and> same_in h x e"
  unfolding lookup_def by (rule find_SomeD)

lemma lookup_None: "lookup h e = None \<longleftrightarrow> (\<forall>x \<in> set (elems h). \<not> same_in h x e)"
  unfolding lookup_def by (rule find_eq_None)

lemma lookup_eq_Some:
  assumes "hash_contract (hash_fn h) (less_fn h)" "keys_unique h"
  shows "lookup h e = Some x \<longleftrightarrow> x \<in> set (elems h) \<and> same_in h x e"
proof
  assume r: "x \<in> set (elems h) \<and> same_in h x e"
  then obtain y where y: "lookup h e = Some y"
    using lookup_None [of h e] by fastforce
  then show "lookup h e = Some x"
    using keys_unique_same [OF assms, of x e y] r lookup_Some [OF y] by simp
qed (rule lookup_Some)

lemma hash_find_lookup: "hash_inv h \<Longrightarrow> hash_find h e = Some (lookup h e)"
  by (simp add: hash_find_def get_bucket_hwf find_elem_lookup hash_inv_def [THEN iffD1])

subsection \<open>Rounding down to a power of two\<close>

lemma top_bit_range: "2 ^ k \<le> n \<Longrightarrow> n < 2 ^ Suc k \<Longrightarrow> bit (n :: nat) k"
proof -
  assume a: "2 ^ k \<le> n" "n < 2 ^ Suc k"
  then have "n div 2 ^ k = 1" by (intro div_nat_eqI) auto
  then show ?thesis by (simp add: bit_iff_odd)
qed

lemma turn_off_unat: "x \<noteq> 0 \<Longrightarrow> unat (turn_off_least_1bit x) = unat x AND (unat x - 1)"
  by (simp add: turn_off_least_1bit_def unsigned_and_eq unat_minus_one)

lemma turn_off_keeps_top:
  assumes x: "x \<noteq> 0" and np: "\<not> is_power_of_2 x" and k: "2 ^ k \<le> unat x" "unat x < 2 ^ Suc k"
  shows "2 ^ k \<le> unat (turn_off_least_1bit x)" "unat (turn_off_least_1bit x) < unat x"
proof -
  let ?n = "unat x"
  have "?n \<noteq> 2 ^ k"
  proof
    assume "?n = 2 ^ k"
    then have "?n AND (?n - 1) = 2 ^ k AND mask k" by (simp add: mask_eq_exp_minus_1)
    also have "\<dots> = 0" by (simp add: flip: take_bit_eq_mask)
    finally show False using np x turn_off_unat [OF x] by (simp add: is_power_of_2_def flip: unat_eq_zero)
  qed
  with k have "bit (?n - 1) k" by (intro top_bit_range) auto
  moreover have "bit ?n k" using k by (rule top_bit_range)
  ultimately have "bit (?n AND (?n - 1)) k" by (simp add: bit_and_iff)
  then show "2 ^ k \<le> unat (turn_off_least_1bit x)"
    unfolding turn_off_unat [OF x] by (metis bit_iff_odd div_less even_zero not_le)
  have "turn_off_least_1bit x \<le> x - 1" unfolding turn_off_least_1bit_def by (rule word_and_le1)
  moreover have "?n \<noteq> 0" using x by (simp add: unat_eq_zero)
  ultimately show "unat (turn_off_least_1bit x) < ?n"
    using x by (simp add: word_le_nat_alt unat_minus_one)
qed

lemma round_to_pow2_terminates:
  "4 \<le> unat n \<Longrightarrow> \<exists>p. round_to_pow2 n = Some p \<and> is_power_of_2 p \<and> 4 \<le> p"
proof (induction "unat n" arbitrary: n rule: less_induct)
  case less
  show ?case
  proof (cases "is_power_of_2 n")
    case True
    then show ?thesis using less.prems by (subst round_to_pow2.simps) (simp add: word_le_nat_alt)
  next
    case False
    obtain k where k: "2 ^ k \<le> unat n" "unat n < 2 ^ Suc k"
      using less.prems ex_power_ivl1 [of 2 "unat n"] by auto
    have "2 \<le> k"
    proof (rule ccontr)
      assume "\<not> 2 \<le> k"
      then have "(2 :: nat) ^ Suc k \<le> 2 ^ 2" by (intro power_increasing) auto
      then show False using k less.prems by simp
    qed
    then have "(2 :: nat) ^ 2 \<le> 2 ^ k" by (intro power_increasing) auto
    moreover have "n \<noteq> 0" using less.prems by auto
    note turn_off_keeps_top [OF this False k]
    ultimately show ?thesis
      using less.hyps [of "turn_off_least_1bit n"] False by (subst round_to_pow2.simps) simp
  qed
qed

subsection \<open>Rehashing\<close>

lemma mset_concat_push: "i < length bs \<Longrightarrow> mset (concat (bs[i := e # bs ! i])) = add_mset e (mset (concat bs))"
  by (induction bs arbitrary: i) (auto split: nat.splits)

lemma move_elems_mset:
  "hwf h \<Longrightarrow> \<exists>h'. move_elems h es = Some h' \<and> hwf h' \<and> mset (elems h') = mset es + mset (elems h) \<and>
     hash_fn h' = hash_fn h \<and> less_fn h' = less_fn h \<and> h_elem_cnt h' = h_elem_cnt h"
proof (induction es arbitrary: h)
  case (Cons e es)
  let ?i = "unat (find_bucket h e)"
  let ?h = "put_bucket h (find_bucket h e) (e # buckets h ! ?i)"
  have i: "?i < length (buckets h)" using Cons.prems find_bucket_less [of h e] by (simp add: hwf_def)
  have "find_bucket ?h x = find_bucket h x" for x by (simp add: find_bucket_def put_bucket_def)
  then have "hwf ?h" using Cons.prems i by (auto simp: hwf_def put_bucket_def nth_list_update)
  moreover have "move_elem h e = Some ?h"
    using Cons.prems by (simp add: move_elem_def get_bucket_hwf Let_def)
  moreover have "mset (elems ?h) = add_mset e (mset (elems h))"
    using mset_concat_push [OF i] by (simp add: put_bucket_def)
  ultimately show ?case using Cons.IH [of ?h] by (simp add: put_bucket_def)
qed simp

lemma concat_replicate_Nil [simp]: "concat (replicate n []) = []"
  by (induction n) auto

lemma rehash_mset:
  assumes "hwf h"
  shows "\<exists>h'. rehash mem h = Some h' \<and> hwf h' \<and> mset (elems h') = mset (elems h) \<and>
     hash_fn h' = hash_fn h \<and> less_fn h' = less_fn h \<and> h_elem_cnt h' = h_elem_cnt h"
proof -
  let ?n = "if h_elem_cnt h div 2 < 4 then 4 else h_elem_cnt h div 2"
  have "4 \<le> unat ?n" by (auto simp: word_less_nat_alt)
  from round_to_pow2_terminates [OF this] obtain p where p: "round_to_pow2 ?n = Some p" "4 \<le> p" by blast
  let ?h = "h\<lparr>buckets := replicate (unat p) [], bucket_cnt := p\<rparr>"
  have "p \<noteq> 0" using p(2) by auto
  then have "hwf ?h" by (simp add: hwf_def)
  from move_elems_mset [OF this, of "elems h"] show ?thesis
    using assms p(1) by (auto simp: rehash_def Let_def simp del: word_less_no)
qed

lemma hash_inv_mset:
  assumes "mset (elems h') = mset (elems h)" "hash_fn h' = hash_fn h" "less_fn h' = less_fn h" "h_elem_cnt h' = h_elem_cnt h"
    and "hwf h'" "hash_contract (hash_fn h) (less_fn h)" "keys_unique h" "h_elem_cnt h = of_nat (length (elems h))"
  shows "hash_inv h'"
  using assms mset_eq_setD [OF assms(1)] mset_eq_length [OF assms(1)] mset_eq_imp_distinct_iff [OF assms(1)]
  unfolding hash_inv_def keys_unique_def by simp

subsection \<open>Insertion, replacement and deletion\<close>

lemma insert_elem_inv:
  assumes "hash_inv h" "lookup h e = None"
  shows "\<exists>h'. insert_elem h (find_bucket h e) e = Some h' \<and> hwf h' \<and> keys_unique h' \<and>
    h_elem_cnt h' = of_nat (length (elems h')) \<and> mset (elems h') = add_mset e (mset (elems h)) \<and>
    hash_fn h' = hash_fn h \<and> less_fn h' = less_fn h"
proof -
  have c: "hash_contract (hash_fn h) (less_fn h)" and w: "hwf h" and k: "keys_unique h"
    and n: "h_elem_cnt h = of_nat (length (elems h))"
    using assms by (simp_all add: hash_inv_def)
  let ?i = "unat (find_bucket h e)"
  let ?h = "put_bucket (h\<lparr>h_elem_cnt := h_elem_cnt h + 1\<rparr>) (find_bucket h e) (e # buckets h ! ?i)"
  have i: "?i < length (buckets h)" using w find_bucket_less [of h e] by (simp add: hwf_def)
  have "insert_elem h (find_bucket h e) e = Some ?h"
    using i by (simp add: insert_elem_def get_bucket_def Let_def)
  moreover have "find_bucket ?h x = find_bucket h x" for x by (simp add: find_bucket_def put_bucket_def)
  then have "hwf ?h" using w i by (auto simp: hwf_def put_bucket_def nth_list_update)
  moreover have m: "mset (elems ?h) = add_mset e (mset (elems h))"
    using mset_concat_push [OF i] by (simp add: put_bucket_def)
  moreover have "h_elem_cnt ?h = of_nat (length (elems ?h))"
    using mset_eq_length [of "elems ?h" "e # elems h"] m n by (simp add: put_bucket_def)
  moreover have "distinct (elems ?h) \<and> set (elems ?h) = insert e (set (elems h))"
  proof -
    have "e \<notin> set (elems h)" using assms(2) contract_refl [OF c, of e] by (auto simp: lookup_None)
    moreover have "mset (elems ?h) = mset (e # elems h)" using m by simp
    ultimately show ?thesis
      using mset_eq_imp_distinct_iff [of "elems ?h" "e # elems h"] mset_eq_setD [of "elems ?h" "e # elems h"] k
      by (simp add: keys_unique_def)
  qed
  then have "keys_unique ?h"
    using k assms(2) same_elem_sym [of "less_fn h"] unfolding keys_unique_def lookup_None
    by (auto simp: put_bucket_def)
  ultimately show ?thesis by (intro exI [of _ ?h]) (simp add: put_bucket_def)
qed

lemma mset_concat_remove1:
  "distinct (concat bs) \<Longrightarrow> mset (concat (map (remove1 e) bs)) = mset (concat bs) - {#e#}"
proof (induction bs)
  case (Cons b bs)
  show ?case
  proof (cases "e \<in> set b")
    case True
    then have "e \<notin> set (concat bs)" using Cons.prems by auto
    then have "map (remove1 e) bs = bs" by (auto intro: map_idI remove1_idem)
    then show ?thesis using True by simp
  next
    case False
    then have "mset b + (mset (concat bs) - {#e#}) = mset b + mset (concat bs) - {#e#}"
      by (metis diff_union_swap2 insert_DiffM2 add_mset_diff_bothsides diff_single_trivial in_multiset_in_set
          union_iff multi_drop_mem_not_eq diff_union_single_conv)
    then show ?thesis using False Cons by (simp add: remove1_idem)
  qed
qed simp

lemma remove_elem_inv:
  assumes "hash_inv h" "e \<in> set (elems h)"
  shows "hwf (remove_elem h e)" "keys_unique (remove_elem h e)"
    "h_elem_cnt (remove_elem h e) = of_nat (length (elems (remove_elem h e)))"
    "set (elems (remove_elem h e)) = set (elems h) - {e}"
proof -
  let ?h = "remove_elem h e"
  have w: "hwf h" and k: "keys_unique h" and n: "h_elem_cnt h = of_nat (length (elems h))"
    using assms by (simp_all add: hash_inv_def)
  have m: "mset (elems ?h) = mset (remove1 e (elems h))"
    using k mset_concat_remove1 [of "buckets h" e] by (simp add: keys_unique_def remove_elem_def)
  have d: "distinct (elems h)" using k by (simp add: keys_unique_def)
  show s: "set (elems ?h) = set (elems h) - {e}"
    using mset_eq_setD [OF m] set_remove1_eq [OF d] by simp
  have "distinct (elems ?h)" using mset_eq_imp_distinct_iff [OF m] d by (simp add: distinct_remove1)
  then show "keys_unique ?h" using k s by (auto simp: keys_unique_def remove_elem_def)
  have "find_bucket ?h x = find_bucket h x" for x by (simp add: find_bucket_def remove_elem_def)
  then show "hwf ?h" using w by (auto simp: hwf_def remove_elem_def dest!: subsetD [OF set_remove1_subset])
  have "length (elems ?h) = length (elems h) - 1"
    using mset_eq_length [OF m] assms(2) by (simp only: length_remove1 if_True)
  moreover have "length (elems h) \<noteq> 0" using assms(2) by (metis length_0_conv list.set(1) empty_iff)
  ultimately have "length (elems h) = Suc (length (elems ?h))" by linarith
  then show "h_elem_cnt ?h = of_nat (length (elems ?h))"
    using n by (simp add: remove_elem_def del: length_concat)
qed

lemma remove_elem_fields [simp]:
  "hash_fn (remove_elem h e) = hash_fn h" "less_fn (remove_elem h e) = less_fn h"
  "bucket_cnt (remove_elem h e) = bucket_cnt h" "find_bucket (remove_elem h e) x = find_bucket h x"
  by (simp_all add: remove_elem_def find_bucket_def)

lemma rehash_inv:
  assumes "hash_contract (hash_fn h) (less_fn h)" "hwf h" "keys_unique h" "h_elem_cnt h = of_nat (length (elems h))"
  shows "\<exists>h'. rehash mem h = Some h' \<and> hash_inv h' \<and> set (elems h') = set (elems h) \<and>
    hash_fn h' = hash_fn h \<and> less_fn h' = less_fn h"
  using rehash_mset [OF assms(2), of mem] hash_inv_mset [of _ h] assms mset_eq_setD by blast

lemma hash_insert_set:
  assumes "hash_inv h"
  shows "\<exists>h'. hash_insert mem h e = Some (lookup h e, h') \<and> hash_inv h' \<and>
    set (elems h') = (if lookup h e = None then insert e (set (elems h)) else set (elems h)) \<and>
    hash_fn h' = hash_fn h \<and> less_fn h' = less_fn h"
proof -
  have c: "hash_contract (hash_fn h) (less_fn h)" and w: "hwf h" and k: "keys_unique h"
    and n: "h_elem_cnt h = of_nat (length (elems h))"
    using assms by (simp_all add: hash_inv_def)
  note st = get_bucket_hwf [OF w] find_elem_lookup [OF assms]
  show ?thesis
  proof (cases "lookup h e")
    case None
    obtain h1 where h1: "insert_elem h (find_bucket h e) e = Some h1" "hwf h1" "keys_unique h1"
      "h_elem_cnt h1 = of_nat (length (elems h1))" "mset (elems h1) = mset (e # elems h)"
      "hash_fn h1 = hash_fn h" "less_fn h1 = less_fn h"
      using insert_elem_inv [OF assms None] by auto
    then show ?thesis
      using rehash_inv [of h1 mem] c None mset_eq_setD [OF h1(5)] by (auto simp: hash_insert_def st Let_def)
  next
    case (Some old)
    then show ?thesis using rehash_inv [OF c w k n, of mem] by (auto simp: hash_insert_def st Let_def)
  qed
qed

lemma hash_delete_set:
  assumes "hash_inv h"
  shows "\<exists>h'. hash_delete mem h e = Some (lookup h e, h') \<and> hash_inv h' \<and>
    set (elems h') = (case lookup h e of None \<Rightarrow> set (elems h) | Some x \<Rightarrow> set (elems h) - {x}) \<and>
    hash_fn h' = hash_fn h \<and> less_fn h' = less_fn h"
proof -
  have c: "hash_contract (hash_fn h) (less_fn h)" and w: "hwf h" using assms by (simp_all add: hash_inv_def)
  note st = get_bucket_hwf [OF w] find_elem_lookup [OF assms]
  show ?thesis
  proof (cases "lookup h e")
    case None
    then show ?thesis using assms by (simp add: hash_delete_def st)
  next
    case (Some x)
    then have "x \<in> set (elems h)" by (auto dest: lookup_Some)
    from remove_elem_inv [OF assms this] show ?thesis
      using rehash_inv [of "remove_elem h x" mem] c Some by (auto simp: hash_delete_def st)
  qed
qed

lemma hash_replace_set:
  assumes "hash_inv h"
  shows "\<exists>h'. hash_replace mem h e = Some (lookup h e, h') \<and> hash_inv h' \<and>
    set (elems h') = insert e (case lookup h e of None \<Rightarrow> set (elems h) | Some x \<Rightarrow> set (elems h) - {x}) \<and>
    hash_fn h' = hash_fn h \<and> less_fn h' = less_fn h"
proof -
  have c: "hash_contract (hash_fn h) (less_fn h)" and w: "hwf h" and k: "keys_unique h"
    using assms by (simp_all add: hash_inv_def)
  let ?h = "case lookup h e of None \<Rightarrow> h | Some x \<Rightarrow> remove_elem h x"
  have f: "hash_fn ?h = hash_fn h" "less_fn ?h = less_fn h" "find_bucket ?h e = find_bucket h e"
    by (simp_all split: option.split)
  have s: "hash_inv ?h \<and> set (elems ?h) = (case lookup h e of None \<Rightarrow> set (elems h) | Some x \<Rightarrow> set (elems h) - {x})"
  proof (cases "lookup h e")
    case (Some x)
    then have "x \<in> set (elems h)" by (auto dest: lookup_Some)
    from remove_elem_inv [OF assms this] show ?thesis using c Some by (simp add: hash_inv_def)
  qed (use assms in simp)
  have "lookup ?h e = None"
  proof (cases "lookup h e")
    case (Some x)
    then have "\<forall>y \<in> set (elems h) - {x}. \<not> same_in h y e"
      using keys_unique_same [OF c k, of _ e x] lookup_Some [OF Some] by blast
    then show ?thesis unfolding lookup_None s [THEN conjunct2] f(2) using Some by simp
  qed simp
  from insert_elem_inv [OF s [THEN conjunct1] this] obtain h1 where h1: "insert_elem ?h (find_bucket h e) e = Some h1" "hwf h1"
    "keys_unique h1" "h_elem_cnt h1 = of_nat (length (elems h1))" "mset (elems h1) = mset (e # elems ?h)"
    "hash_fn h1 = hash_fn h" "less_fn h1 = less_fn h"
    unfolding f by auto
  then show ?thesis
    using rehash_inv [of h1 mem] c s mset_eq_setD [OF h1(5)]
    by (auto simp: hash_replace_def get_bucket_hwf [OF w] find_elem_lookup [OF assms] Let_def
        cong: option.case_cong)
qed

lemma hash_clear_loop_buckets: "fst (hash_clear_loop d bs s) = replicate (length bs) []"
  by (induction bs arbitrary: s) (auto simp: Let_def)

lemma hash_clear_loop_state: "snd (hash_clear_loop (Some f) bs s) = fold f (concat bs) s"
  by (induction bs arbitrary: s) (auto simp: Let_def)

lemma hash_clear_inv:
  assumes "hash_inv h"
  shows "hash_inv (fst (hash_clear d h s))" "elems (fst (hash_clear d h s)) = []"
  using assms by (auto simp: hash_clear_def hash_inv_def hwf_def keys_unique_def Let_def hash_clear_loop_buckets)

lemma hash_clear_calls: "snd (hash_clear (Some f) h s) = fold f (elems h) s"
  by (simp add: hash_clear_def Let_def hash_clear_loop_state)

lemma hash_apply_calls: "hash_apply f h s = fold f (elems h) s"
proof -
  have "fold (\<lambda>bucket. fold f bucket) bs s = fold f (concat bs) s" for bs
    by (induction bs arbitrary: s) auto
  then show ?thesis by (simp add: hash_apply_def)
qed

lemma hash_init_inv:
  assumes "hash_contract hs ls"
  shows "\<exists>h. hash_init True hs ls = Some h \<and> hash_inv h \<and> elems h = [] \<and> hash_fn h = hs \<and> less_fn h = ls"
  using assms
  by (simp add: hash_init_def hash_clear_def hash_inv_def hwf_def keys_unique_def Let_def hash_clear_loop_buckets)

subsection \<open>Iteration\<close>

text \<open>The elements an iterator has still to return.\<close>

definition it_rest :: "'e hash_table \<Rightarrow> hash_iterator \<Rightarrow> 'e list" where
  "it_rest h i = drop (it_pos i) (buckets h ! it_bucket i) @ concat (drop (Suc (it_bucket i)) (buckets h))"

declare hash_next_skip.simps [simp del]

lemma hash_next_skip_rest:
  assumes "it_bucket i < length (buckets h)" "\<not> it_null i" "it_pos i \<ge> 1"
    "L = drop (it_pos i - 1) (buckets h ! it_bucket i) @ concat (drop (Suc (it_bucket i)) (buckets h))"
  shows "(L = [] \<longrightarrow> it_null (hash_next_skip h i)) \<and>
    (L \<noteq> [] \<longrightarrow> \<not> it_null (hash_next_skip h i) \<and> hash_cur h (hash_next_skip h i) = Some (hd L) \<and>
      it_rest h (hash_next_skip h i) = tl L \<and> it_bucket (hash_next_skip h i) < length (buckets h))"
  using assms
proof (induction h i rule: hash_next_skip.induct)
  case (1 h i)
  let ?b = "buckets h ! it_bucket i"
  show ?case
  proof (cases "it_pos i > length ?b")
    case False
    then have "drop (it_pos i - 1) ?b = ?b ! (it_pos i - 1) # drop (it_pos i) ?b"
      using "1.prems"(3) Cons_nth_drop_Suc [of "it_pos i - 1" ?b] by simp
    then show ?thesis
      using False "1.prems" by (simp add: hash_next_skip.simps hash_cur_def it_rest_def)
  next
    case True
    show ?thesis
    proof (cases "it_bucket i + 1 \<ge> length (buckets h)")
      case last: True
      then show ?thesis using True "1.prems" by (simp add: hash_next_skip.simps)
    next
      case more: False
      let ?i = "i\<lparr>it_bucket := it_bucket i + 1, it_pos := 1\<rparr>"
      have "drop (Suc (it_bucket i)) (buckets h) =
          buckets h ! Suc (it_bucket i) # drop (Suc (Suc (it_bucket i))) (buckets h)"
        using more Cons_nth_drop_Suc [of "Suc (it_bucket i)" "buckets h"] by simp
      moreover have "hash_next_skip h i = hash_next_skip h ?i"
        using True more by (subst hash_next_skip.simps) simp
      moreover have "L = drop (it_pos ?i - 1) (buckets h ! it_bucket ?i) @ concat (drop (Suc (it_bucket ?i)) (buckets h))"
        using calculation(1) "1.prems"(4) True by simp
      ultimately show ?thesis using "1.IH" [OF True more] "1.prems"(2) more by simp
    qed
  qed
qed

lemma hash_iterate_rest:
  "it_bucket i < length (buckets h) \<Longrightarrow> \<not> it_null i \<Longrightarrow> hash_iterate h i acc = Some (acc @ it_rest h i)"
proof (induction "it_rest h i" arbitrary: i acc)
  case Nil
  then show ?case
    using hash_next_skip_rest [of "i\<lparr>it_pos := it_pos i + 1\<rparr>" h "[]"]
    by (subst hash_iterate.simps) (simp add: hash_next_def it_rest_def hash_cur_def Let_def)
next
  case (Cons x xs)
  let ?i = "hash_next_skip h (i\<lparr>it_pos := it_pos i + 1\<rparr>)"
  have "\<not> it_null ?i \<and> hash_cur h ?i = Some x \<and> it_rest h ?i = xs \<and> it_bucket ?i < length (buckets h)"
    using hash_next_skip_rest [of "i\<lparr>it_pos := it_pos i + 1\<rparr>" h "x # xs"] Cons.prems
      Cons.hyps(2) [unfolded it_rest_def, symmetric]
    by simp
  then show ?case
    using Cons.hyps(1) [of ?i "acc @ [x]"] Cons.prems Cons.hyps(2)
    by (subst hash_iterate.simps) (simp add: hash_next_def Let_def)
qed

subsection \<open>The table as a dictionary\<close>

text \<open>
  For the interpretation a table with the functions \<open>hs\<close> and \<open>ls\<close>; \<open>mem\<close> decides, depending on the
  table, whether the next allocation succeeds.
\<close>

definition ht_inv :: "('e \<Rightarrow> u32) \<Rightarrow> ('e \<Rightarrow> 'e \<Rightarrow> bool) \<Rightarrow> 'e hash_table \<Rightarrow> bool" where
  "ht_inv hs ls h \<longleftrightarrow> hash_inv h \<and> hash_fn h = hs \<and> less_fn h = ls"

definition ht_add :: "('e hash_table \<Rightarrow> bool) \<Rightarrow> 'e hash_table \<Rightarrow> 'e \<Rightarrow> 'e \<Rightarrow> (bool \<times> 'e hash_table) option" where
  "ht_add mem h k v = hash_insert (mem h) h v \<bind> (\<lambda>(old, h'). Some (old = None, h'))"

definition ht_del :: "('e hash_table \<Rightarrow> bool) \<Rightarrow> 'e hash_table \<Rightarrow> 'e \<Rightarrow> (bool \<times> 'e hash_table) option" where
  "ht_del mem h k = hash_delete (mem h) h k \<bind> (\<lambda>(old, h'). Some (old \<noteq> None, h'))"

lemma lookup_insert:
  assumes "hash_inv h" "hash_inv h'" "less_fn h' = less_fn h" "lookup h e = None"
    "set (elems h') = insert e (set (elems h))"
  shows "lookup h' j = (if same_in h j e then Some e else lookup h j)"
proof -
  have c: "hash_contract (hash_fn h) (less_fn h)" "hash_contract (hash_fn h') (less_fn h')"
    and k: "keys_unique h" "keys_unique h'" using assms(1,2) by (simp_all add: hash_inv_def)
  show ?thesis
  proof (cases "same_in h j e")
    case True
    then show ?thesis
      using assms(3,5) same_elem_sym [of _ j e] by (simp add: lookup_eq_Some [OF c(2) k(2)] del: set_concat)
  next
    case False
    then have "lookup h' j = Some x \<longleftrightarrow> lookup h j = Some x" for x
      using assms(3,5) same_elem_sym [of "less_fn h" e j]
      by (auto simp: lookup_eq_Some [OF c(2) k(2)] lookup_eq_Some [OF c(1) k(1)] simp del: set_concat)
    then show ?thesis using False by (metis option.exhaust)
  qed
qed

lemma lookup_delete:
  assumes "hash_inv h" "hash_inv h'" "less_fn h' = less_fn h" "lookup h e = Some x"
    "set (elems h') = set (elems h) - {x}"
  shows "lookup h' j = (if same_in h j e then None else lookup h j)"
proof -
  have c: "hash_contract (hash_fn h) (less_fn h)" "hash_contract (hash_fn h') (less_fn h')"
    and k: "keys_unique h" "keys_unique h'" using assms(1,2) by (simp_all add: hash_inv_def)
  note x = lookup_Some [OF assms(4)]
  note le = lookup_eq_Some [OF c(2) k(2)] lookup_eq_Some [OF c(1) k(1)]
  show ?thesis
  proof (cases "same_in h j e")
    case True
    have "same_in h y e" if "same_in h y j" for y using contract_trans [OF c(1) that True] .
    then have "lookup h' j = None"
      unfolding lookup_None assms(3,5) using keys_unique_same [OF c(1) k(1), of _ e x] x by blast
    then show ?thesis using True by simp
  next
    case False
    have "\<not> same_in h x j"
      using False contract_trans [OF c(1), of j x e] x same_elem_sym [of _ x j] by blast
    then have "lookup h' j = Some y \<longleftrightarrow> lookup h j = Some y" for y
      using assms(3,5) by (auto simp: le simp del: set_concat)
    then show ?thesis using False by (metis option.exhaust)
  qed
qed

lemma lookup_cong_set:
  assumes "hash_inv h" "hash_inv h'" "less_fn h' = less_fn h" "set (elems h') = set (elems h)"
  shows "lookup h' j = lookup h j"
proof -
  have "lookup h' j = Some y \<longleftrightarrow> lookup h j = Some y" for y
    using assms by (simp add: lookup_eq_Some hash_inv_def del: set_concat)
  then show ?thesis by (metis option.exhaust)
qed

interpretation ht: dictionary "ht_inv hs ls" "same_elem ls" "(=)" lookup "ht_add mem" "ht_del mem" for hs ls mem
proof
  fix h :: "'a hash_table" and k v j ok h'
  assume i: "ht_inv hs ls h"
  then have h: "hash_inv h" "less_fn h = ls" by (simp_all add: ht_inv_def)
  note ins = hash_insert_set [OF h(1), of "mem h" v] and del = hash_delete_set [OF h(1), of "mem h" k]
  show "\<exists>r. ht_del mem h k = Some r" using del by (auto simp: ht_del_def)
  show "ht_inv hs ls h'" if "ht_del mem h k = Some (ok, h')"
    using that del i by (auto simp: ht_del_def ht_inv_def)
  show "lookup h' j = (if ok \<and> same_elem ls j k then None else lookup h j)" if "ht_del mem h k = Some (ok, h')"
    using that del lookup_delete [OF h(1), of h' k] lookup_cong_set [OF h(1), of h' j] h(2)
    by (auto simp: ht_del_def simp del: set_concat split: option.splits)
  assume k: "k = v"
  show "\<exists>r. ht_add mem h k v = Some r" using ins by (auto simp: ht_add_def)
  show "ht_inv hs ls h'" if "ht_add mem h k v = Some (ok, h')"
    using that ins i by (auto simp: ht_add_def ht_inv_def)
  show "lookup h k = None" if "ht_add mem h k v = Some (True, h')"
    using that ins k by (auto simp: ht_add_def)
  show "lookup h' j = (if ok \<and> same_elem ls j k then Some v else lookup h j)" if "ht_add mem h k v = Some (ok, h')"
    using that ins k lookup_insert [OF h(1), of h' v] lookup_cong_set [OF h(1), of h' j] h(2)
    by (auto simp: ht_add_def simp del: set_concat split: if_splits)
qed

subsection \<open>Properties\<close>

text \<open>
  C14. On a proper hash table, whose hash function gives equal elements equal hash values,
  \<open>hash_find\<close>, \<open>hash_insert\<close>, \<open>hash_replace\<close> and \<open>hash_delete\<close> never panic and their rehashing
  loop always ends, whether or not memory for new buckets is found. Each returns the element of
  the table equal to its argument, if any. Insertion adds the element only if there was none,
  replacement always adds it and drops the old one, deletion drops exactly the element returned.
  The table stays proper and \<open>hash_size\<close> counts its elements.
\<close>

theorem hash_ops_correct:
  assumes "hash_inv h"
  shows "\<exists>old h1 h2 h3. hash_find h e = Some old \<and>
    (\<forall>x. old = Some x \<longleftrightarrow> x \<in> set (elems h) \<and> same_in h x e) \<and>
    hash_insert mem h e = Some (old, h1) \<and> hash_inv h1 \<and>
    set (elems h1) = (if old = None then insert e (set (elems h)) else set (elems h)) \<and>
    hash_replace mem h e = Some (old, h2) \<and> hash_inv h2 \<and>
    set (elems h2) = insert e (set (elems h) - set_option old) \<and>
    hash_delete mem h e = Some (old, h3) \<and> hash_inv h3 \<and>
    set (elems h3) = set (elems h) - set_option old \<and>
    hash_size h3 = of_nat (card (set (elems h3)))"
proof -
  have f: "hash_find h e = Some (lookup h e)" by (rule hash_find_lookup [OF assms])
  have u: "\<forall>x. lookup h e = Some x \<longleftrightarrow> x \<in> set (elems h) \<and> same_in h x e"
    using assms lookup_eq_Some [of h e] by (simp add: hash_inv_def)
  obtain h1 where h1: "hash_insert mem h e = Some (lookup h e, h1)" "hash_inv h1"
    "set (elems h1) = (if lookup h e = None then insert e (set (elems h)) else set (elems h))"
    using hash_insert_set [OF assms, of mem e] by blast
  obtain h2 where h2: "hash_replace mem h e = Some (lookup h e, h2)" "hash_inv h2"
    "set (elems h2) = insert e (set (elems h) - set_option (lookup h e))"
    using hash_replace_set [OF assms, of mem e] by (cases "lookup h e") auto
  obtain h3 where h3: "hash_delete mem h e = Some (lookup h e, h3)" "hash_inv h3"
    "set (elems h3) = set (elems h) - set_option (lookup h e)"
    using hash_delete_set [OF assms, of mem e] by (cases "lookup h e") auto
  have "hash_size h3 = of_nat (card (set (elems h3)))"
    using h3(2) by (simp add: hash_inv_def hash_size_def keys_unique_def distinct_card del: set_concat length_concat)
  with f u h1 h2 h3 show ?thesis by blast
qed

definition demo_table :: "nat hash_table" where
  "demo_table = \<lparr>h_elem_cnt = 2, bucket_cnt = 4, buckets = [[8], [], [], [3]], hash_fn = of_nat, less_fn = (<)\<rparr>"

lemma demo_table_inv: "hash_inv demo_table"
proof -
  have "(\<forall>i < length (buckets demo_table). \<forall>e \<in> set (buckets demo_table ! i). unat (find_bucket demo_table e) = i)"
    by (simp add: demo_table_def find_bucket_def less_Suc_eq numeral_eq_Suc flip: numeral_eq_Suc)
  then show ?thesis
    by (auto simp: hash_inv_def hwf_def keys_unique_def hash_contract_def same_elem_def demo_table_def)
qed

theorem hash_ops_correct_witness:
  "\<exists>old h1. hash_find demo_table 3 = Some old \<and> hash_insert True demo_table 3 = Some (old, h1) \<and> hash_inv h1"
  using hash_ops_correct [OF demo_table_inv, of 3 True] by (elim exE conjE) (intro exI conjI)

text \<open>
  C36. Iterating over a table with \<open>hash_first\<close> and \<open>hash_next\<close> ends and returns every element exactly
  once; \<open>hash_apply\<close> calls its action, and \<open>hash_clear\<close> its destructor, on the same elements in the
  same order, after which the cleared table is empty and still proper.
\<close>

theorem hash_traversal_correct:
  assumes "hash_inv h"
  shows "\<exists>es. hash_iterate h (hash_first h) [] = Some es \<and> distinct es \<and> set es = set (elems h) \<and>
    hash_apply f h s = fold f es s \<and> snd (hash_clear (Some f) h s) = fold f es s \<and>
    hash_inv (fst (hash_clear d h s)) \<and> elems (fst (hash_clear d h s)) = []"
proof -
  have w: "0 < length (buckets h)" "distinct (elems h)"
    using assms by (auto simp: hash_inv_def hwf_def keys_unique_def unat_gt_0)
  have "it_rest h (hash_first h) = elems h"
    using w(1) by (cases "buckets h") (simp_all add: it_rest_def hash_first_def)
  moreover have "it_bucket (hash_first h) = 0" "\<not> it_null (hash_first h)"
    by (simp_all add: hash_first_def)
  ultimately have "hash_iterate h (hash_first h) [] = Some (elems h)"
    using hash_iterate_rest [of "hash_first h" h "[]"] w(1) by simp
  then show ?thesis
    using w(2) by (intro exI [of _ "elems h"] conjI hash_apply_calls hash_clear_calls hash_clear_inv [OF assms] refl)
qed

theorem hash_traversal_correct_witness:
  "\<exists>es. hash_iterate demo_table (hash_first demo_table) [] = Some es \<and> set es = set (elems demo_table)"
  using hash_traversal_correct [OF demo_table_inv, of "\<lambda>_ s. s" "()" None] by blast

end
