(* ===== verification/Arith64.thy ===== *)
theory Arith64
  imports Prelude
begin

text \<open>
  The 64-bit division routines of src/proj-pregame/src/lib/arithmetic.c, on 64-bit words. \<open>divl\<close> is
  the x86 instruction, which traps (\<^term>\<open>None\<close>) on a zero divisor or a quotient that does not
  fit in 32 bits. The theorems show that the routines never trap for a nonzero divisor and that
  quotients are right; the remainders are returned through 32-bit types.
\<close>

subsection \<open>The C functions\<close>

definition divl :: "u64 \<Rightarrow> u32 \<Rightarrow> u32 option" where
  "divl n d =
     (if d = 0 then None
      else let q = n div ucast d in if q \<le> 0xFFFFFFFF then Some (ucast q) else None)"

definition nlz :: "u32 \<Rightarrow> nat" where
  "nlz x0 = (
     let (n, x) = (0, x0);
         (n, x) = (if x \<le> 0x0000FFFF then (n + 16, push_bit 16 x) else (n, x));
         (n, x) = (if x \<le> 0x00FFFFFF then (n + 8, push_bit 8 x) else (n, x));
         (n, x) = (if x \<le> 0x0FFFFFFF then (n + 4, push_bit 4 x) else (n, x));
         (n, x) = (if x \<le> 0x3FFFFFFF then (n + 2, push_bit 2 x) else (n, x))
     in if x \<le> 0x7FFFFFFF then n + 1 else n)"

definition udiv64 :: "u64 \<Rightarrow> u64 \<Rightarrow> u64 option" where
  "udiv64 n d =
     (if drop_bit 32 d = 0 then do {
        let b = push_bit 32 (1 :: u64);
        let n1 = (ucast (drop_bit 32 n) :: u32);
        let n0 = (ucast n :: u32);
        let d0 = (ucast d :: u32);
        if d0 = 0 then None
        else do {
          q \<leftarrow> divl (b * ucast (n1 mod d0) + ucast n0) d0;
          Some (ucast q + b * ucast (n1 div d0))
        }
      } else if n < d then Some 0
      else do {
        let d1 = (ucast (drop_bit 32 d) :: u32);
        let s = nlz d1;
        q32 \<leftarrow> divl (drop_bit 1 n) (ucast (drop_bit 32 (push_bit s d)));
        let q = (ucast (drop_bit (31 - s) q32) :: u64);
        Some (if n - (q - 1) * d < d then q - 1 else q)
      })"

definition umod64 :: "u64 \<Rightarrow> u64 \<Rightarrow> u32 option" where
  "umod64 n d = map_option (\<lambda>q. ucast (n - d * q)) (udiv64 n d)"

definition sdiv64 :: "u64 \<Rightarrow> u64 \<Rightarrow> u64 option" where
  "sdiv64 n d = do {
     let n_abs = (if 0 \<le>s n then n else - n);
     let d_abs = (if 0 \<le>s d then d else - d);
     q_abs \<leftarrow> udiv64 n_abs d_abs;
     Some (if (n <s 0) = (d <s 0) then q_abs else - q_abs)
   }"

definition smod64 :: "u64 \<Rightarrow> u64 \<Rightarrow> u32 option" where
  "smod64 n d = map_option (\<lambda>q. ucast (n - d * q)) (sdiv64 n d)"

text \<open>The entry points called by compiled code; the 32-bit remainders are widened again.\<close>

definition divdi3 :: "u64 \<Rightarrow> u64 \<Rightarrow> u64 option" where
  "divdi3 n d = sdiv64 n d"

definition moddi3 :: "u64 \<Rightarrow> u64 \<Rightarrow> u64 option" where
  "moddi3 n d = map_option scast (smod64 n d)"

definition udivdi3 :: "u64 \<Rightarrow> u64 \<Rightarrow> u64 option" where
  "udivdi3 n d = udiv64 n d"

definition umoddi3 :: "u64 \<Rightarrow> u64 \<Rightarrow> u64 option" where
  "umoddi3 n d = map_option ucast (umod64 n d)"

subsection \<open>Leading zeros\<close>

lemma unat_push_bit_fits:
  "unat (x :: 'a::len word) * 2 ^ k < 2 ^ LENGTH('a) \<Longrightarrow> unat (push_bit k x) = unat x * 2 ^ k"
  by (subst unsigned_push_bit_eq) (simp add: push_bit_eq_mult take_bit_nat_eq_self)

lemma nlz_step:
  fixes x :: u32
  assumes "unat x = m * 2 ^ n" "(unat t + 1) * 2 ^ k = 2 ^ 32" "lo \<le> unat x" "lo * 2 ^ k = unat t + 1"
    and r: "(if x \<le> t then (n + k, push_bit k x) else (n, x)) = (n', x')"
  shows "unat x' = m * 2 ^ n'" "unat t + 1 \<le> unat x'"
proof -
  have "unat x' = m * 2 ^ n' \<and> unat t + 1 \<le> unat x'"
proof (cases "x \<le> t")
  case True
  then have "unat x + 1 \<le> unat t + 1" by (simp add: word_le_nat_alt)
  then have "(unat x + 1) * 2 ^ k \<le> 2 ^ 32" using assms(2) by (metis mult_le_mono1)
  moreover have "unat x * 2 ^ k < (unat x + 1) * 2 ^ k" by simp
  ultimately have "unat x * 2 ^ k < 2 ^ 32" by linarith
  then have "unat (push_bit k x) = unat x * 2 ^ k" using unat_push_bit_fits [of x k] by simp
  moreover have "lo * 2 ^ k \<le> unat x * 2 ^ k" using assms(3) by simp
  ultimately show ?thesis using True assms(1,4) r by (auto simp: power_add)
next
  case False
  then show ?thesis using assms(1) r by (simp add: word_le_nat_alt)
qed
  then show "unat x' = m * 2 ^ n'" "unat t + 1 \<le> unat x'" by simp_all
qed

lemma nlz_bounds:
  assumes "x \<noteq> 0"
  shows "nlz x \<le> 31" "2 ^ 31 \<le> unat x * 2 ^ nlz x" "unat x * 2 ^ nlz x < 2 ^ 32"
proof -
  let ?P = "\<lambda>n m. m = unat x * 2 ^ n"
  obtain n1 :: nat and x1 where 1: "(if x \<le> 0x0000FFFF then (0 + 16, push_bit 16 x) else (0, x)) = (n1, x1)" by force
  have p1: "?P n1 (unat x1)" "2 ^ 16 \<le> unat x1"
    using nlz_step [where m = "unat x" and lo = 1, OF _ _ _ _ 1] assms by (simp_all add: unat_gt_0 Suc_le_eq)
  obtain n2 x2 where 2: "(if x1 \<le> 0x00FFFFFF then (n1 + 8, push_bit 8 x1) else (n1, x1)) = (n2, x2)" by force
  have p2: "?P n2 (unat x2)" "2 ^ 24 \<le> unat x2"
    using nlz_step [where m = "unat x" and lo = "2 ^ 16", OF _ _ _ _ 2] p1 by (simp_all add: unat_gt_0 Suc_le_eq)
  obtain n3 x3 where 3: "(if x2 \<le> 0x0FFFFFFF then (n2 + 4, push_bit 4 x2) else (n2, x2)) = (n3, x3)" by force
  have p3: "?P n3 (unat x3)" "2 ^ 28 \<le> unat x3"
    using nlz_step [where m = "unat x" and lo = "2 ^ 24", OF _ _ _ _ 3] p2 by (simp_all add: unat_gt_0 Suc_le_eq)
  obtain n4 x4 where 4: "(if x3 \<le> 0x3FFFFFFF then (n3 + 2, push_bit 2 x3) else (n3, x3)) = (n4, x4)" by force
  have p4: "?P n4 (unat x4)" "2 ^ 30 \<le> unat x4"
    using nlz_step [where m = "unat x" and lo = "2 ^ 28", OF _ _ _ _ 4] p3 by (simp_all add: unat_gt_0 Suc_le_eq)
  have r: "nlz x = (if x4 \<le> 0x7FFFFFFF then n4 + 1 else n4)"
    using 1 2 3 4 by (simp add: nlz_def Let_def)
  have "unat x4 < 2 ^ 32" using unsigned_less [of x4, where 'a = nat] by simp
  then show b: "2 ^ 31 \<le> unat x * 2 ^ nlz x" "unat x * 2 ^ nlz x < 2 ^ 32"
    using p4 r by (auto simp: word_le_nat_alt)
  have "2 ^ nlz x \<le> unat x * 2 ^ nlz x" using assms by (simp add: unat_gt_0 Suc_le_eq)
  with b(2) have "(2 :: nat) ^ nlz x < 2 ^ 32" by linarith
  then have "nlz x < 32" by (rule power_less_imp_less_exp [rotated]) simp
  then show "nlz x \<le> 31" by simp
qed

subsection \<open>Quotients\<close>

lemma divl_quotient:
  assumes "d \<noteq> 0" "unat n div unat d < 2 ^ 32"
  shows "\<exists>q. divl n d = Some q \<and> unat q = unat n div unat d"
proof -
  have u: "unat (ucast d :: u64) = unat d" by (simp add: unat_ucast_up)
  then have q: "unat (n div ucast d) = unat n div unat d" by (simp add: unat_div)
  with assms(2) have "n div ucast d \<le> 0xFFFFFFFF" by (simp add: word_le_nat_alt)
  moreover have "unat (ucast (n div ucast d) :: u32) = unat n div unat d"
    using assms(2) q by (simp add: unat_ucast_mod)
  ultimately show ?thesis using assms(1) by (simp add: divl_def Let_def)
qed

lemma unat_less_pow: "unat (w :: 'a::len word) < 2 ^ LENGTH('a)"
  by (rule unsigned_less)

lemma unat_of_nat64: "n < 2 ^ 64 \<Longrightarrow> unat (of_nat n :: u64) = n"
  using unat_of_nat_id [where 'a = 64, of n] by simp

lemma unat_high: "unat (drop_bit 32 (n :: u64)) = unat n div 2 ^ 32"
  by (rule unat_drop_bit)

lemma unat_high32: "unat (ucast (drop_bit 32 (n :: u64)) :: u32) = unat n div 2 ^ 32"
proof -
  have "unat n div 2 ^ 32 < 2 ^ 32" using unat_less_pow [of n] by (simp add: less_mult_imp_div_less)
  then show ?thesis by (subst unat_ucast_mod) (simp add: unat_high [simplified] del: drop_bit_numeral_bit0)
qed

lemma unat_low32: "unat (ucast (n :: u64) :: u32) = unat n mod 2 ^ 32"
  by (simp add: unat_ucast_mod)

text \<open>The schoolbook step of the first branch.\<close>

lemma div_by_halves:
  fixes n d b :: nat
  assumes "0 < d"
  shows "n div d = (b * (n div b mod d) + n mod b) div d + b * (n div b div d)"
proof -
  have "n = b * (n div b mod d) + n mod b + b * (n div b div d) * d"
    by (metis add.commute add.left_commute distrib_left mod_mult_div_eq mult.assoc mult.commute mult_div_mod_eq)
  then have "n div d = (b * (n div b mod d) + n mod b + b * (n div b div d) * d) div d" by simp
  then show ?thesis using assms by simp
qed

lemma half_fits:
  fixes r l d b :: nat
  assumes "r < d" "l < b"
  shows "(b * r + l) div d < b"
proof -
  have "b * r + l < b * (r + 1)" using assms by (simp add: distrib_left)
  also have "\<dots> \<le> b * d" using assms by (intro mult_le_mono2) simp
  finally show ?thesis by (simp add: less_mult_imp_div_less)
qed

lemma udiv64_small:
  assumes "d \<noteq> 0" "drop_bit 32 d = 0"
  shows "\<exists>q. udiv64 n d = Some q \<and> unat q = unat n div unat d"
proof -
  let ?n1 = "unat n div 2 ^ 32" and ?n0 = "unat n mod 2 ^ 32"
  have d: "unat d < 2 ^ 32"
    using assms(2) unat_high [of d] by (simp add: div_eq_0_iff flip: unat_eq_zero)
  then have d0: "unat (ucast d :: u32) = unat d" by (simp add: unat_low32)
  have dpos: "0 < unat d" using assms(1) by (simp add: unat_gt_0)
  then have dne: "(ucast d :: u32) \<noteq> 0" using d0 by auto
  let ?a = "push_bit 32 1 * ucast ((ucast (drop_bit 32 n) :: u32) mod ucast d) + ucast (ucast n :: u32) :: u64"
  have c: "(ucast x :: u64) = of_nat (unat x)" for x :: u32 by simp
  have r: "?n1 mod unat d < 2 ^ 32" using d dpos by (meson less_trans mod_less_divisor)
  have l: "?n0 < 2 ^ 32" by simp
  have fit: "2 ^ 32 * (?n1 mod unat d) + ?n0 < 2 ^ 64" using r l by simp
  have "?a = of_nat (2 ^ 32 * (?n1 mod unat d) + ?n0)"
    by (simp only: c unat_mod unat_high32 unat_low32 [of n] d0 push_bit_eq_mult mult_1 of_nat_add of_nat_mult
        of_nat_power of_nat_numeral)
  then have a: "unat ?a = 2 ^ 32 * (?n1 mod unat d) + ?n0"
    by (simp only: unat_of_nat64 [OF fit])
  have fitq: "(2 ^ 32 * (?n1 mod unat d) + ?n0) div unat d < 2 ^ 32"
    using half_fits [of "?n1 mod unat d" "unat d" ?n0 "2 ^ 32"] dpos by simp
  then obtain q where q: "divl ?a (ucast d) = Some q" "unat q = (2 ^ 32 * (?n1 mod unat d) + ?n0) div unat d"
    using divl_quotient [OF dne, of ?a] a d0 by auto
  let ?r = "ucast q + push_bit 32 1 * ucast ((ucast (drop_bit 32 n) :: u32) div ucast d) :: u64"
  have "?r = of_nat (unat q + 2 ^ 32 * (?n1 div unat d))"
    by (simp only: c unat_div unat_high32 d0 push_bit_eq_mult mult_1 of_nat_add of_nat_mult
        of_nat_power of_nat_numeral)
  also have "unat q + 2 ^ 32 * (?n1 div unat d) = unat n div unat d"
    using div_by_halves [OF dpos, of "unat n" "2 ^ 32"] q(2) by simp
  finally have "unat ?r = unat n div unat d"
    using unat_of_nat_id [where 'a = 64, of "unat n div unat d"] unat_less_pow [of n]
    by (metis div_le_dividend le_less_trans len_num1 len_bit0)
  then show ?thesis using assms q(1) dne by (simp add: udiv64_def Let_def)
qed

text \<open>
  The second branch divides by the top 32 bits \<open>v\<close> of the normalised divisor; the estimate it gets
  is the quotient or one more.
\<close>

lemma estimate:
  fixes N D s :: nat
  assumes s: "s \<le> 31" and lo: "2 ^ (63 - s) \<le> D" and N: "N < 2 ^ 64" and pos: "0 < N div D"
    and v: "v = D div 2 ^ (32 - s)"
  shows "2 ^ 31 \<le> v" "N div 2 div v div 2 ^ (31 - s) \<in> {N div D, N div D + 1}"
proof -
  let ?k = "32 - s" and ?q = "N div D"
  let ?D' = "v * 2 ^ ?k" and ?e = "D mod 2 ^ ?k"
  have De: "D = ?D' + ?e" unfolding v by (rule div_mult_mod_eq [symmetric])
  have pw: "(2 :: nat) ^ a * 2 ^ b = 2 ^ c" if "a + b = c" for a b c
    using that by (simp only: power_add [symmetric])
  have "2 ^ (63 - s) = 2 ^ 31 * (2 :: nat) ^ ?k" using s by (intro pw [symmetric]) simp
  then have "2 ^ 31 * 2 ^ ?k \<le> D" using lo by simp
  then show v31: "2 ^ 31 \<le> v" unfolding v by (simp add: less_eq_div_iff_mult_less_eq)
  have D'lo: "2 ^ (63 - s) \<le> ?D'"
    using v31 \<open>2 ^ (63 - s) = 2 ^ 31 * 2 ^ ?k\<close> by (metis mult_le_mono1)
  have "2 * 2 ^ (31 - s) = (2 :: nat) ^ ?k" using s pw [of 1 "31 - s" ?k] by simp
  then have chain: "N div 2 div v div 2 ^ (31 - s) = N div ?D'"
    by (metis div_mult2_eq mult.assoc mult.commute)
  have qb: "?q + 1 \<le> 2 ^ (s + 1)"
  proof -
    have "N < 2 ^ (s + 1) * D"
    proof -
      have "(2 :: nat) ^ 64 = 2 ^ (s + 1) * 2 ^ (63 - s)" using s by (intro pw [symmetric]) simp
      also have "\<dots> \<le> 2 ^ (s + 1) * D" using lo by simp
      finally show ?thesis using N by linarith
    qed
    then have "?q < 2 ^ (s + 1)" by (rule less_mult_imp_div_less)
    then show ?thesis by simp
  qed
  have e: "?e + 1 \<le> 2 ^ ?k" by (simp add: Suc_le_eq)
  have small: "(?q + 1) * ?e \<le> ?D'"
  proof -
    have "(?q + 1) * ?e \<le> 2 ^ (s + 1) * (2 ^ ?k - 1)" using qb e by (intro mult_le_mono) simp_all
    also have "\<dots> = 2 ^ 33 - 2 ^ (s + 1)"
      unfolding diff_mult_distrib2 using s by (subst pw [where c = 33]) simp_all
    also have "\<dots> \<le> 2 ^ (63 - s)"
    proof (cases "s = 31")
      case False
      then have "(2 :: nat) ^ 33 \<le> 2 ^ (63 - s)" using s by (intro power_increasing) auto
      then show ?thesis by linarith
    qed simp
    finally show ?thesis using D'lo by linarith
  qed
  have D'pos: "0 < ?D'" using D'lo by (metis gr0I le_zero_eq power_not_zero zero_neq_numeral)
  have Dpos: "0 < D" using pos by (metis div_by_0 gr0I)
  have "N < (?q + 1) * D" using Dpos by (metis add.commute dividend_less_times_div mult.commute mult_Suc plus_1_eq_Suc)
  also have "\<dots> = (?q + 1) * ?D' + (?q + 1) * ?e" using De by (metis distrib_left)
  also have "\<dots> \<le> (?q + 2) * ?D'" using small by (simp add: distrib_right)
  finally have "N div ?D' < ?q + 2" by (rule less_mult_imp_div_less)
  moreover have "?q \<le> N div ?D'" using De D'pos by (intro div_le_mono2) simp_all
  ultimately show "N div 2 div v div 2 ^ (31 - s) \<in> {?q, ?q + 1}" unfolding chain by auto
qed

lemma correct_estimate:
  fixes n d q :: u64
  assumes pos: "0 < unat n div unat d" and q: "unat q \<in> {unat n div unat d, unat n div unat d + 1}"
  shows "unat (if n - (q - 1) * d < d then q - 1 else q) = unat n div unat d"
proof -
  let ?Q = "unat n div unat d"
  have dpos: "0 < unat d" using pos by (metis div_by_0 gr0I)
  have q1: "unat (q - 1) = unat q - 1"
    using q pos by (intro unat_minus_one) (metis add_gr_0 insertE singletonD unat_0 less_irrefl)
  have le: "(unat q - 1) * unat d \<le> unat n"
  proof -
    have "(unat q - 1) * unat d \<le> ?Q * unat d" using q by (intro mult_le_mono1) auto
    then show ?thesis using div_times_less_eq_dividend [of "unat n" "unat d"] by linarith
  qed
  then have "unat ((q - 1) * d) = (unat q - 1) * unat d"
    using unat_less_pow [of n] q1 by (simp add: unat_word_ariths)
  then have u: "unat (n - (q - 1) * d) = unat n - (unat q - 1) * unat d"
    using le by (simp add: unat_sub word_le_nat_alt)
  have nd: "unat n = ?Q * unat d + unat n mod unat d" by simp
  show ?thesis
  proof (cases "unat q = ?Q")
    case True
    obtain m where m: "?Q = Suc m" using pos gr0_implies_Suc by blast
    have "unat n = m * unat d + (unat d + unat n mod unat d)"
      using nd unfolding m by simp
    moreover have "unat q - 1 = m" using True m by simp
    ultimately have "unat n - (unat q - 1) * unat d = unat d + unat n mod unat d"
      by (metis add_diff_cancel_left')
    then have "\<not> n - (q - 1) * d < d" using u by (simp add: word_less_nat_alt)
    then show ?thesis using True by simp
  next
    case False
    then have Q: "unat q = ?Q + 1" using q by simp
    then have "unat n - (unat q - 1) * unat d = unat n mod unat d"
      using minus_div_mult_eq_mod [of "unat n" "unat d"] by simp
    then have "n - (q - 1) * d < d" using u dpos by (simp add: word_less_nat_alt)
    then show ?thesis using Q q1 by simp
  qed
qed

lemma pow2_split: "a + b = c + e \<Longrightarrow> (2 :: nat) ^ a * 2 ^ b = 2 ^ c * 2 ^ e"
  by (simp only: power_add [symmetric])

lemma udiv64_large:
  assumes big: "drop_bit 32 d \<noteq> 0" and nd: "d \<le> n"
  shows "\<exists>q. udiv64 n d = Some q \<and> unat q = unat n div unat d"
proof -
  let ?d1 = "ucast (drop_bit 32 d) :: u32"
  define s where "s = nlz ?d1"
  have d1: "unat ?d1 = unat d div 2 ^ 32" by (rule unat_high32)
  have "?d1 \<noteq> 0" using big d1 unat_high [of d] by (metis unat_0 unat_eq_zero)
  note z = nlz_bounds [OF this, folded s_def, unfolded d1]
  have "unat d div 2 ^ 32 * 2 ^ 32 \<le> unat d" by (rule div_times_less_eq_dividend)
  then have "unat d div 2 ^ 32 * 2 ^ 32 * 2 ^ s \<le> unat d * 2 ^ s" by (rule mult_le_mono1)
  moreover have "2 ^ 31 * 2 ^ 32 \<le> unat d div 2 ^ 32 * 2 ^ s * 2 ^ 32" using z(2) by (rule mult_le_mono1)
  moreover have "unat d div 2 ^ 32 * 2 ^ s * 2 ^ 32 = unat d div 2 ^ 32 * 2 ^ 32 * 2 ^ s"
    by (rule mult.commute [of _ "2 ^ 32", THEN trans]) (simp only: ac_simps)
  moreover have "(2 :: nat) ^ 31 * 2 ^ 32 = 2 ^ (63 - s) * 2 ^ s" using z(1) by (intro pow2_split) simp
  ultimately have "2 ^ (63 - s) * 2 ^ s \<le> unat d * 2 ^ s" by linarith
  then have lo: "2 ^ (63 - s) \<le> unat d" by simp
  have "unat d < (unat d div 2 ^ 32 + 1) * 2 ^ 32"
    by (metis add.commute dividend_less_div_times mult_Suc plus_1_eq_Suc zero_less_numeral zero_less_power)
  moreover have "unat d div 2 ^ 32 + 1 \<le> 2 ^ (32 - s)"
  proof -
    have "(2 :: nat) ^ (32 - s) * 2 ^ s = 2 ^ 16 * 2 ^ 16" using z(1) by (intro pow2_split) simp
    then have "unat d div 2 ^ 32 * 2 ^ s < 2 ^ (32 - s) * 2 ^ s" using z(3) by simp
    then show ?thesis by simp
  qed
  ultimately have "unat d < 2 ^ (32 - s) * 2 ^ 32" by (metis less_le_trans mult_le_mono1)
  then have "unat d * 2 ^ s < 2 ^ (32 - s) * 2 ^ 32 * 2 ^ s" by simp
  also have "\<dots> = 2 ^ 64" using z(1) pow2_split [of "s" "32 - s" 16 16] by (simp add: mult.commute)
  finally have up: "unat (push_bit s d) = unat d * 2 ^ s"
    using unat_push_bit_fits [of d s] by simp
  let ?v = "ucast (drop_bit 32 (push_bit s d)) :: u32"
  have "unat ?v = unat d * 2 ^ s div 2 ^ 32" using unat_high32 [of "push_bit s d"] up by simp
  also have "\<dots> = unat d * 2 ^ s div (2 ^ (32 - s) * 2 ^ s)" using z(1) pow2_split [of "32 - s" s 16 16] by simp
  finally have v: "unat ?v = unat d div 2 ^ (32 - s)" by (simp only: div_mult_mult2 power_not_zero numeral_neq_zero simp_thms)
  have pos: "0 < unat n div unat d"
    using nd lo by (simp add: div_greater_zero_iff word_le_nat_alt) (metis gr0I le_zero_eq power_not_zero zero_neq_numeral)
  note est = estimate [OF z(1) lo _ pos v]
  have n: "unat n < 2 ^ 64" using unat_less_pow [of n] by simp
  have "unat (drop_bit 1 n) div unat ?v < 2 ^ 32"
  proof -
    have "unat (drop_bit 1 n) < 2 ^ 32 * 2 ^ 31" using n by (simp add: unat_drop_bit)
    also have "\<dots> \<le> 2 ^ 32 * unat ?v" using est(1) [OF n] by (simp only: mult_le_mono2)
    finally show ?thesis by (rule less_mult_imp_div_less)
  qed
  moreover have "?v \<noteq> 0" using est(1) [OF n] by auto
  ultimately obtain q32 where q32: "divl (drop_bit 1 n) ?v = Some q32" "unat q32 = unat n div 2 div unat ?v"
    using divl_quotient [of ?v "drop_bit 1 n"] unat_drop_bit [of 1 n] by auto
  let ?q = "ucast (drop_bit (31 - s) q32) :: u64"
  have "unat ?q = unat n div 2 div unat ?v div 2 ^ (31 - s)"
    using q32(2) unat_drop_bit [of "31 - s" q32] unat_ucast_up [where 'a = 32 and 'b = 64, of "drop_bit (31 - s) q32"] by simp
  then have "unat (if n - (?q - 1) * d < d then ?q - 1 else ?q) = unat n div unat d"
    using est(2) [OF n] by (intro correct_estimate [OF pos]) simp
  moreover have "udiv64 n d = Some (if n - (?q - 1) * d < d then ?q - 1 else ?q)"
  proof -
    have "(n < d) = False" "(drop_bit 32 d = 0) = False" using nd big by auto
    then show ?thesis
      unfolding udiv64_def Let_def s_def [symmetric] by (simp only: if_False q32(1) bind.simps)
  qed
  ultimately show ?thesis by blast
qed

lemma udiv64_quotient:
  assumes "d \<noteq> 0"
  shows "\<exists>q. udiv64 n d = Some q \<and> unat q = unat n div unat d"
proof (cases "drop_bit 32 d = 0 \<or> d \<le> n")
  case True
  then show ?thesis using udiv64_small [OF assms] udiv64_large by blast
next
  case False
  then have "udiv64 n d = Some 0" by (simp add: udiv64_def not_le)
  moreover have "unat n div unat d = 0" using False by (simp add: word_less_nat_alt not_le)
  ultimately show ?thesis by simp
qed

subsection \<open>Signed division and remainders\<close>

definition abs64 :: "u64 \<Rightarrow> u64" where
  "abs64 n = (if 0 \<le>s n then n else - n)"

lemma abs64_of_int: "abs64 n = of_int \<bar>sint n\<bar>"
  by (simp add: abs64_def word_sle_eq abs_if)

lemma unat_abs64: "int (unat (abs64 n)) = \<bar>sint n\<bar>"
proof -
  have "\<bar>sint n\<bar> < 2 ^ 64" using sint_ge [of n] sint_lt [of n] by simp
  then show ?thesis
    unfolding abs64_of_int by (simp add: unsigned_of_int take_bit_int_eq_self)
qed

lemma sdiv64_quotient:
  assumes "d \<noteq> 0"
  shows "\<exists>q. sdiv64 n d = Some q \<and>
    q = of_int (sgn (sint n) * sgn (sint d) * (\<bar>sint n\<bar> div \<bar>sint d\<bar>))"
proof -
  have "sint d \<noteq> 0" using assms by (metis signed_0 signed_word_eqI)
  then have "abs64 d \<noteq> 0" using unat_abs64 [of d] by auto
  then obtain q where q: "udiv64 (abs64 n) (abs64 d) = Some q" "unat q = unat (abs64 n) div unat (abs64 d)"
    using udiv64_quotient by blast
  have "q = of_nat (unat q)" by simp
  also have "\<dots> = of_int (int (unat (abs64 n)) div int (unat (abs64 d)))" unfolding q(2) by (simp only: zdiv_int [symmetric] of_int_of_nat_eq)
  finally have qi: "q = of_int (\<bar>sint n\<bar> div \<bar>sint d\<bar>)" by (simp only: unat_abs64)
  have s: "sdiv64 n d = Some (if (n <s 0) = (d <s 0) then q else - q)"
    using q(1) by (simp add: sdiv64_def abs64_def Let_def)
  have "(if (n <s 0) = (d <s 0) then q else - q) = of_int (sgn (sint n) * sgn (sint d) * (\<bar>sint n\<bar> div \<bar>sint d\<bar>))"
    using assms by (auto simp: qi word_sless_alt sgn_if)
  then show ?thesis using s by simp
qed

lemma umod64_rem:
  assumes "d \<noteq> 0"
  shows "\<exists>r. umod64 n d = Some r \<and> unat r = unat n mod unat d mod 2 ^ 32"
proof -
  obtain q where q: "udiv64 n d = Some q" "unat q = unat n div unat d" using udiv64_quotient [OF assms] by blast
  have le: "unat d * unat q \<le> unat n" unfolding q(2) by simp
  then have "unat (d * q) = unat d * unat q" using unat_less_pow [of n] by (simp add: unat_word_ariths)
  then have "unat (n - d * q) = unat n mod unat d"
    using le q(2) by (simp add: unat_sub word_le_nat_alt minus_mult_div_eq_mod)
  then show ?thesis using q(1) by (simp add: umod64_def unat_ucast_mod)
qed

subsection \<open>Properties\<close>

text \<open>
  C28. For every nonzero divisor the unsigned 64-bit division never traps and returns the exact
  quotient, over all \<open>2^128\<close> pairs of operands: the two divisions by 32-bit halves and the
  normalised estimate with its correction included.
\<close>

theorem udivdi3_correct:
  assumes "d \<noteq> 0"
  shows "\<exists>q. udivdi3 n d = Some q \<and> unat q = unat n div unat d"
  using udiv64_quotient [OF assms] by (simp add: udivdi3_def)

theorem udivdi3_correct_witness:
  "\<exists>q. udivdi3 0xFFFFFFFFFFFFFFFF 0x100000001 = Some q \<and> unat q = 0xFFFFFFFF"
  using udivdi3_correct [of "0x100000001" "0xFFFFFFFFFFFFFFFF"] by simp

text \<open>
  C29. For every nonzero divisor the signed 64-bit division never traps and truncates toward
  zero; the only result that does not fit, the smallest number divided by -1, wraps around.
\<close>

theorem divdi3_correct:
  assumes "d \<noteq> 0"
  shows "\<exists>q. divdi3 n d = Some q \<and>
    sint q = signed_take_bit 63 (sgn (sint n) * sgn (sint d) * (\<bar>sint n\<bar> div \<bar>sint d\<bar>))"
  using sdiv64_quotient [OF assms, of n] by (auto simp: divdi3_def signed_of_int simp del: of_int_mult)

theorem divdi3_correct_witness: "\<exists>q. divdi3 (- 7) 2 = Some q \<and> sint q = - 3"
proof -
  have "sint (- 7 :: u64) = - 7" "sint (2 :: u64) = 2" by (simp_all add: sint_uint)
  then show ?thesis using divdi3_correct [of 2 "- 7"] by simp
qed



end
