(* ===== verification/Random_Gen.thy ===== *)
theory Random_Gen
  imports Bytes
begin

text \<open>
  The pseudo-random number generator of src/proj-pregame/src/lib/random.c (RC4). The file's static
  variables are the record \<open>rng\<close>; \<open>s_tab\<close> (the array \<open>s\<close>) has 256 bytes and is indexed by bytes, so that no access
  can leave it.
\<close>

record rng =
  s_tab :: "u8 list"
  s_i :: u8
  s_j :: u8
  inited :: bool

definition swap_byte :: "u8 list \<Rightarrow> nat \<Rightarrow> nat \<Rightarrow> u8 list" where
  "swap_byte xs a b = (let t = xs ! a in xs[a := xs ! b, b := t])"

definition seed_byte :: "u32 \<Rightarrow> nat \<Rightarrow> u8" where
  "seed_byte seed k = ucast (drop_bit (8 * k) seed)"

fun random_init_loop :: "nat \<Rightarrow> nat \<Rightarrow> u32 \<Rightarrow> u8 list \<Rightarrow> u8 \<Rightarrow> u8 list" where
  "random_init_loop 0 i seed xs j = xs"
| "random_init_loop (Suc n) i seed xs j =
     (let j' = j + (xs ! i + seed_byte seed (i mod 4)) in
      random_init_loop n (i + 1) seed (swap_byte xs i (unat j')) j')"

definition byte_table :: "u8 list" where
  "byte_table = map of_nat [0..<256]"

definition random_init :: "u32 \<Rightarrow> rng" where
  "random_init seed =
     \<lparr>s_tab = random_init_loop 256 0 seed byte_table 0, s_i = 0, s_j = 0, inited = True\<rparr>"

definition random_byte :: "rng \<Rightarrow> u8 \<times> rng" where
  "random_byte g = (
     let i = s_i g + 1;
         j = s_j g + s_tab g ! unat i;
         xs = swap_byte (s_tab g) (unat i) (unat j);
         s_k = xs ! unat i + xs ! unat j
     in (xs ! unat s_k, g\<lparr>s_tab := xs, s_i := i, s_j := j\<rparr>))"

fun random_bytes_loop :: "nat \<Rightarrow> rng \<Rightarrow> u8 list \<times> rng" where
  "random_bytes_loop 0 g = ([], g)"
| "random_bytes_loop (Suc n) g =
     (let (b, g1) = random_byte g; (bs, g2) = random_bytes_loop n g1 in (b # bs, g2))"

definition random_bytes :: "nat \<Rightarrow> rng \<Rightarrow> u8 list \<times> rng" where
  "random_bytes cnt g = random_bytes_loop cnt (if inited g then g else random_init 0)"

definition random_ulong :: "rng \<Rightarrow> u32 \<times> rng" where
  "random_ulong g = (let (bs, g') = random_bytes 4 g in (word_of_bytes bs, g'))"

subsection \<open>The state stays a permutation of the bytes\<close>

definition rng_ok :: "rng \<Rightarrow> bool" where
  "rng_ok g \<longleftrightarrow> inited g \<longrightarrow> length (s_tab g) = 256 \<and> distinct (s_tab g)"

lemma swap_byte_perm:
  "a < length xs \<Longrightarrow> b < length xs \<Longrightarrow> length (swap_byte xs a b) = length xs \<and> mset (swap_byte xs a b) = mset xs"
  by (simp add: swap_byte_def Let_def mset_swap)

lemma unat_u8: "unat (w :: u8) < 256"
  using unsigned_less [of w, where 'a = nat] by simp

lemma random_init_loop_perm:
  "length xs = 256 \<Longrightarrow> i + n \<le> 256 \<Longrightarrow>
   length (random_init_loop n i seed xs j) = 256 \<and> mset (random_init_loop n i seed xs j) = mset xs"
proof (induction n arbitrary: i xs j)
  case (Suc n)
  let ?j = "j + (xs ! i + seed_byte seed (i mod 4))"
  show ?case using Suc.IH [of "swap_byte xs i (unat ?j)" "i + 1" ?j] Suc.prems
      swap_byte_perm [of i xs "unat ?j"] unat_u8 [of ?j] by (simp add: Let_def)
qed simp

lemma byte_table_distinct: "distinct byte_table" "length byte_table = 256"
proof -
  have "inj_on (of_nat :: nat \<Rightarrow> u8) {0..<256}"
  proof (rule inj_onI)
    fix a b :: nat assume ab: "a \<in> {0..<256}" "b \<in> {0..<256}" "(of_nat a :: u8) = of_nat b"
    have "unat (of_nat a :: u8) = a" "unat (of_nat b :: u8) = b"
      using ab(1,2) by (auto intro!: unat_of_nat_id)
    then show "a = b" using ab(3) by metis
  qed
  then show "distinct byte_table"
    by (simp only: byte_table_def distinct_map distinct_upt set_upt simp_thms)
  show "length byte_table = 256" by (simp only: byte_table_def length_map length_upt)
qed

lemma random_init_ok: "rng_ok (random_init seed) \<and> inited (random_init seed)"
  using random_init_loop_perm [of byte_table 0 256 seed 0] byte_table_distinct
    mset_eq_imp_distinct_iff [of "random_init_loop 256 0 seed byte_table 0" byte_table]
  by (simp add: rng_ok_def random_init_def)

lemma random_byte_ok:
  assumes "rng_ok g" "inited g"
  shows "rng_ok (snd (random_byte g)) \<and> inited (snd (random_byte g))"
  using assms swap_byte_perm [of "unat (s_i g + 1)" "s_tab g" "unat (s_j g + s_tab g ! unat (s_i g + 1))"] unat_u8
    mset_eq_imp_distinct_iff
  by (auto simp: rng_ok_def random_byte_def Let_def)

lemma random_bytes_loop_ok:
  "rng_ok g \<Longrightarrow> inited g \<Longrightarrow>
   length (fst (random_bytes_loop n g)) = n \<and> rng_ok (snd (random_bytes_loop n g)) \<and> inited (snd (random_bytes_loop n g))"
proof (induction n arbitrary: g)
  case (Suc n)
  then show ?case
    using random_byte_ok [of g] Suc.IH [of "snd (random_byte g)"] by (simp add: Let_def case_prod_unfold)
qed simp

text \<open>
  Whatever the seed and however many bytes were drawn, the generator's table stays a
  permutation of the 256 byte values, an uninitialised generator seeds itself, and exactly the
  requested number of bytes is produced.
\<close>

lemma random_bytes_permutation:
  assumes "rng_ok g"
  shows "length (fst (random_bytes n g)) = n \<and>
    inited (snd (random_bytes n g)) \<and> length (s_tab (snd (random_bytes n g))) = 256 \<and>
    set (s_tab (snd (random_bytes n g))) = UNIV"
proof -
  let ?g = "snd (random_bytes n g)"
  have ok: "length (fst (random_bytes n g)) = n" "rng_ok ?g" "inited ?g"
    using random_bytes_loop_ok [of g n] random_bytes_loop_ok [of "random_init 0" n] random_init_ok [of 0] assms
    by (auto simp: random_bytes_def)
  then have l: "length (s_tab ?g) = 256" "distinct (s_tab ?g)" by (simp_all add: rng_ok_def)
  then have "card (set (s_tab ?g)) = card (UNIV :: u8 set)" by (simp add: distinct_card card_word)
  then have "set (s_tab ?g) = UNIV" by (intro card_subset_eq) auto
  with ok l show ?thesis by simp
qed

end
