(* ===== verification/Fixed_Point.thy ===== *)
theory Fixed_Point
  imports Prelude "HOL-Library.Signed_Division"
begin

text \<open>
  The 16.16 fixed-point arithmetic of src/proj-pregame/src/threads/fixed-point.h. A C \<open>int\<close> is an
  integer in the range of 32 bits; \<open>wrap\<close> is what the machine keeps of a result that leaves it.
  Division of C integers truncates toward zero (\<open>sdiv\<close>).
\<close>

subsection \<open>The C functions\<close>

definition wrap :: "int \<Rightarrow> int" where
  "wrap i = signed_take_bit 31 i"

definition FIX_P :: nat where "FIX_P = 16"
definition FIX_Q :: nat where "FIX_Q = 16"
definition FIX_F :: int where "FIX_F = 2 ^ FIX_Q"
definition FIX_MAX_INT :: int where "FIX_MAX_INT = 2 ^ FIX_P - 1"
definition FIX_MIN_INT :: int where "FIX_MIN_INT = - FIX_MAX_INT"

record fixed_point =
  fx :: int

definition mk_fix :: "int \<Rightarrow> fixed_point" where
  "mk_fix i = \<lparr>fx = wrap i\<rparr>"

definition fix_int :: "int \<Rightarrow> fixed_point option" where
  "fix_int n = do { ASSERT (n \<ge> FIX_MIN_INT \<and> n \<le> FIX_MAX_INT); Some (mk_fix (n * FIX_F)) }"

definition fix_frac :: "int \<Rightarrow> int \<Rightarrow> fixed_point option" where
  "fix_frac n d = do {
     ASSERT (d \<noteq> 0);
     ASSERT (n sdiv d \<ge> FIX_MIN_INT \<and> n sdiv d \<le> FIX_MAX_INT);
     Some (mk_fix ((n * FIX_F) sdiv d))
   }"

definition fix_round :: "fixed_point \<Rightarrow> int" where
  "fix_round x = wrap (fx x + FIX_F div 2) sdiv FIX_F"

definition fix_trunc :: "fixed_point \<Rightarrow> int" where
  "fix_trunc x = fx x sdiv FIX_F"

definition fix_add :: "fixed_point \<Rightarrow> fixed_point \<Rightarrow> fixed_point" where
  "fix_add x y = mk_fix (fx x + fx y)"

definition fix_sub :: "fixed_point \<Rightarrow> fixed_point \<Rightarrow> fixed_point" where
  "fix_sub x y = mk_fix (fx x - fx y)"

definition fix_mul :: "fixed_point \<Rightarrow> fixed_point \<Rightarrow> fixed_point" where
  "fix_mul x y = mk_fix ((fx x * fx y) sdiv FIX_F)"

definition fix_scale :: "fixed_point \<Rightarrow> int \<Rightarrow> fixed_point option" where
  "fix_scale x n = do { ASSERT (n \<ge> 0); Some (mk_fix (fx x * n)) }"

text \<open>The division instruction traps on a zero divisor.\<close>

definition fix_div :: "fixed_point \<Rightarrow> fixed_point \<Rightarrow> fixed_point option" where
  "fix_div x y = (if fx y = 0 then None else Some (mk_fix ((fx x * FIX_F) sdiv fx y)))"

definition fix_unscale :: "fixed_point \<Rightarrow> int \<Rightarrow> fixed_point option" where
  "fix_unscale x n = do { ASSERT (n > 0); Some (mk_fix (fx x sdiv n)) }"

definition fix_inv :: "fixed_point \<Rightarrow> fixed_point option" where
  "fix_inv x = do { one \<leftarrow> fix_int 1; fix_div one x }"

definition fix_compare :: "fixed_point \<Rightarrow> fixed_point \<Rightarrow> int" where
  "fix_compare x y = (if fx x < fx y then - 1 else if fx x > fx y then 1 else 0)"

subsection \<open>Lemmas\<close>

lemma wrap_id: "- (2 ^ 31) \<le> i \<Longrightarrow> i < 2 ^ 31 \<Longrightarrow> wrap i = i"
  by (simp add: wrap_def signed_take_bit_int_eq_self)

lemma FIX_simps: "FIX_F = 65536" "FIX_MAX_INT = 65535" "FIX_MIN_INT = - 65535"
  by (simp_all add: FIX_F_def FIX_Q_def FIX_MAX_INT_def FIX_MIN_INT_def FIX_P_def)

lemma sdiv_mult: "0 < d \<Longrightarrow> (n * d) sdiv d = (n :: int)"
  by (simp add: signed_divide_int_def sgn_mult abs_mult)
    (metis mult.commute mult_sgn_abs)

lemma sdiv_pos: "0 \<le> a \<Longrightarrow> 0 < d \<Longrightarrow> a sdiv d = a div (d :: int)"
  by (cases "a = 0") (simp_all add: signed_divide_int_def)

lemma sdiv_neg: "a \<le> 0 \<Longrightarrow> 0 < d \<Longrightarrow> a sdiv d = - ((- a) div (d :: int))"
  by (cases "a = 0") (simp_all add: signed_divide_int_def)



end
