(* ===== verification/Vaddr.thy ===== *)
theory Vaddr
  imports Prelude
begin

text \<open>
  Virtual addresses (src/proj-pregame/src/threads/vaddr.h): page numbers and offsets, rounding to
  pages, the user/kernel border and the 1:1 map of physical memory. Also the byte memory that
  the page allocator and its clients fill with \<open>memset\<close>.
\<close>

subsection \<open>The C functions\<close>

definition PGBITS :: nat where "PGBITS = 12"
definition PGSIZE :: u32 where "PGSIZE = push_bit PGBITS 1"
definition PGMASK :: u32 where "PGMASK = push_bit PGBITS 1 - 1"
definition PHYS_BASE :: addr where "PHYS_BASE = 0xc0000000"

definition pg_ofs :: "addr \<Rightarrow> u32" where
  "pg_ofs va = va AND PGMASK"

definition pg_no :: "addr \<Rightarrow> u32" where
  "pg_no va = drop_bit PGBITS va"

definition pg_round_up :: "addr \<Rightarrow> addr" where
  "pg_round_up va = (va + PGSIZE - 1) AND NOT PGMASK"

definition pg_round_down :: "addr \<Rightarrow> addr" where
  "pg_round_down va = va AND NOT PGMASK"

definition is_user_vaddr :: "addr \<Rightarrow> bool" where
  "is_user_vaddr vaddr \<longleftrightarrow> vaddr < PHYS_BASE"

definition is_kernel_vaddr :: "addr \<Rightarrow> bool" where
  "is_kernel_vaddr vaddr \<longleftrightarrow> vaddr \<ge> PHYS_BASE"

definition ptov :: "u32 \<Rightarrow> addr option" where
  "ptov paddr = do { ASSERT (paddr < PHYS_BASE); Some (paddr + PHYS_BASE) }"

definition vtop :: "addr \<Rightarrow> u32 option" where
  "vtop vaddr = do { ASSERT (is_kernel_vaddr vaddr); Some (vaddr - PHYS_BASE) }"

type_synonym memory = "addr \<Rightarrow> u8"

text \<open>\<open>memset\<close> on memory: the bytes whose distance from \<open>p\<close> is below \<open>n\<close>.\<close>

definition mem_fill :: "memory \<Rightarrow> addr \<Rightarrow> u8 \<Rightarrow> u32 \<Rightarrow> memory" where
  "mem_fill m p v n = (\<lambda>a. if a - p < n then v else m a)"

text \<open>\<open>memcpy\<close> between two blocks.\<close>

definition mem_copy :: "memory \<Rightarrow> addr \<Rightarrow> addr \<Rightarrow> u32 \<Rightarrow> memory" where
  "mem_copy m dst src n = (\<lambda>a. if a - dst < n then m (src + (a - dst)) else m a)"

text \<open>The addresses of a block of \<open>n\<close> bytes.\<close>

definition span_of :: "addr \<Rightarrow> nat \<Rightarrow> nat set" where
  "span_of p n = {unat p ..< unat p + n}"

lemma in_span:
  assumes "unat p + unat n \<le> 2 ^ 32"
  shows "x - p < n \<longleftrightarrow> unat x \<in> span_of p (unat n)"
proof (cases "unat p \<le> unat x")
  case True
  then have "unat (x - p) = unat x - unat p" by (simp add: unat_sub_if')
  then show ?thesis using True by (auto simp: span_of_def word_less_nat_alt)
next
  case False
  then have "unat (x - p) = unat x + 2 ^ 32 - unat p" by (simp add: unat_sub_if')
  then show ?thesis using False assms unsigned_less [of p, where 'a = nat] by (simp add: span_of_def word_less_nat_alt)
qed

lemma mem_fill_outside:
  "unat p + unat n \<le> 2 ^ 32 \<Longrightarrow> unat x \<notin> span_of p (unat n) \<Longrightarrow> mem_fill m p v n x = m x"
  by (simp add: mem_fill_def in_span)

subsection \<open>Page arithmetic\<close>

lemma PG_simps: "PGSIZE = 4096" "PGMASK = 4095" "unat PGSIZE = 4096"
  by (simp_all add: PGSIZE_def PGMASK_def PGBITS_def)

lemma PGMASK_mask: "PGMASK = mask 12"
  by (simp add: PG_simps mask_eq_exp_minus_1)

lemma unat_pg_no: "unat (pg_no a) = unat a div 4096"
  using unat_drop_bit [of 12 a] by (simp add: pg_no_def PGBITS_def)

lemma pg_no_less: "unat (pg_no a) < 2 ^ 20"
  using unsigned_less [of a, where 'a = nat] by (simp add: unat_pg_no less_mult_imp_div_less)

lemma unat_pg_ofs: "unat (pg_ofs a) = unat a mod 4096"
proof -
  have "pg_ofs a = take_bit 12 a" by (simp add: pg_ofs_def PGMASK_mask take_bit_eq_mask)
  then show ?thesis by (simp add: take_bit_eq_mod unat_mod)
qed

lemma pg_ofs_round: "pg_ofs a + pg_round_down a = a"
proof -
  have "(a AND PGMASK) + (a AND NOT PGMASK) = (a AND PGMASK) OR (a AND NOT PGMASK)"
    by (rule disjunctive_add) (auto simp: bit_simps)
  also have "\<dots> = a" by (intro bit_eqI) (auto simp: bit_simps)
  finally show ?thesis by (simp add: pg_ofs_def pg_round_down_def)
qed

lemma unat_pg_round_down: "unat (pg_round_down a) = unat a div 4096 * 4096"
proof -
  have "pg_round_down a = a - pg_ofs a" using pg_ofs_round [of a] by (metis add_diff_cancel_left')
  moreover have "pg_ofs a \<le> a" by (simp add: word_le_nat_alt unat_pg_ofs)
  ultimately show ?thesis
    by (simp add: unat_sub word_le_nat_alt unat_pg_ofs minus_mod_eq_div_mult)
qed

lemma pg_ofs_round_down [simp]: "pg_ofs (pg_round_down a) = 0"
  by (simp add: unat_pg_ofs unat_pg_round_down flip: unat_eq_zero)

lemma pg_no_round_down [simp]: "pg_no (pg_round_down a) = pg_no a"
  by (simp add: word_unat_eq_iff unat_pg_no unat_pg_round_down)

lemma pg_round_down_less: "unat a < unat (pg_round_down a) + 4096"
  by (simp add: unat_pg_round_down)

lemma unat_pg_round_up:
  "unat a \<le> 2 ^ 32 - 4096 \<Longrightarrow> unat (pg_round_up a) = (unat a + 4095) div 4096 * 4096"
proof -
  assume "unat a \<le> 2 ^ 32 - 4096"
  then have "unat (a + 4095) = unat a + 4095" using unat_plus_le [of a 4095 4294967295] by simp
  moreover have "pg_round_up a = pg_round_down (a + 4095)"
    by (simp add: pg_round_up_def pg_round_down_def PG_simps add_diff_eq [symmetric])
  ultimately show ?thesis by (simp add: unat_pg_round_down)
qed

text \<open>The address of a page and back.\<close>

definition page_addr :: "u32 \<Rightarrow> addr" where
  "page_addr n = push_bit PGBITS n"

lemma unat_page_addr: "unat n < 2 ^ 20 \<Longrightarrow> unat (page_addr n) = unat n * 4096"
  unfolding page_addr_def PGBITS_def
  by (subst unsigned_push_bit_eq) (simp add: push_bit_eq_mult take_bit_nat_eq_self)

lemma page_addr_pg_no: "pg_ofs a = 0 \<Longrightarrow> page_addr (pg_no a) = a"
proof -
  assume "pg_ofs a = 0"
  then have "unat a mod 4096 = 0" using unat_pg_ofs [of a] by simp
  then have "unat (page_addr (pg_no a)) = unat a"
    using unat_page_addr [OF pg_no_less, of a] by (auto simp: unat_pg_no)
  then show ?thesis by (simp add: word_unat_eq_iff)
qed

lemma pg_no_page_addr: "unat n < 2 ^ 20 \<Longrightarrow> pg_no (page_addr n) = n \<and> pg_ofs (page_addr n) = 0"
  by (simp add: word_unat_eq_iff unat_pg_no unat_page_addr unat_pg_ofs)

lemma page_step:
  assumes "pg_ofs b = 0" "unat (pg_no b) + unat i < 2 ^ 20"
  shows "unat (b + PGSIZE * i) = unat b + 4096 * unat i" "pg_ofs (b + PGSIZE * i) = 0"
    "unat (pg_no (b + PGSIZE * i)) = unat (pg_no b) + unat i"
proof -
  have m: "unat b mod 4096 = 0" using assms(1) unat_pg_ofs [of b] by simp
  then have b: "unat b = unat (pg_no b) * 4096" by (auto simp: unat_pg_no)
  have i: "unat (PGSIZE * i) = 4096 * unat i"
    using assms(2) by (simp add: PG_simps unat_word_ariths)
  have "unat b + 4096 * unat i < 2 ^ 32" using assms(2) b by simp
  then show u: "unat (b + PGSIZE * i) = unat b + 4096 * unat i"
    using i by (simp add: unat_plus_if')
  have "unat (pg_ofs (b + PGSIZE * i)) = 0" unfolding unat_pg_ofs u using m by simp
  then show "pg_ofs (b + PGSIZE * i) = 0" by (simp add: unat_eq_zero)
  show "unat (pg_no (b + PGSIZE * i)) = unat (pg_no b) + unat i" unfolding unat_pg_no u using b by simp
qed

lemma ptov_vtop: "paddr < 0x40000000 \<Longrightarrow> (ptov paddr \<bind> vtop) = Some paddr"
proof -
  assume a: "paddr < 0x40000000"
  then have "unat (paddr + PHYS_BASE) = unat paddr + unat PHYS_BASE"
    by (simp add: PHYS_BASE_def unat_word_ariths word_less_nat_alt)
  then have "PHYS_BASE \<le> paddr + PHYS_BASE" by (simp add: word_le_nat_alt)
  moreover have "paddr < PHYS_BASE" using a by (simp add: PHYS_BASE_def word_less_nat_alt)
  ultimately show ?thesis by (simp add: ptov_def vtop_def is_kernel_vaddr_def)
qed

end
