(* ===== verification/Palloc.thy ===== *)
theory Palloc
  imports Bitmap Vaddr
begin

text \<open>
  The page allocator (src/proj-pregame/src/threads/palloc.c): two pools of pages, each with a
  bitmap of the pages in use. The state also holds the byte memory, because the allocator
  clears pages it hands out and poisons pages it takes back. The pool locks only serialise the
  bitmap scan; a model operation is one such critical section.
\<close>

subsection \<open>The C functions\<close>

record pool =
  used_map :: bitmap
  base :: addr

record palloc_state =
  kernel_pool :: pool
  user_pool :: pool
  ram :: memory

definition PAL_ASSERT :: u32 where "PAL_ASSERT = 1"
definition PAL_ZERO :: u32 where "PAL_ZERO = 2"
definition PAL_USER :: u32 where "PAL_USER = 4"

definition page_from_pool :: "pool \<Rightarrow> addr \<Rightarrow> bool" where
  "page_from_pool p page = (
     let page_no = pg_no page;
         start_page = pg_no (base p);
         end_page = start_page + bitmap_size (used_map p)
     in page_no \<ge> start_page \<and> page_no < end_page)"

text \<open>
  The bitmap of a pool is built in the pool's first pages: its header of 8 bytes is followed by
  its elements, which start with whatever the memory holds.
\<close>

definition mem_word :: "memory \<Rightarrow> addr \<Rightarrow> u32" where
  "mem_word m p = ucast (m p) + push_bit 8 (ucast (m (p + 1))) + push_bit 16 (ucast (m (p + 2))) + push_bit 24 (ucast (m (p + 3)))"

definition mem_words :: "memory \<Rightarrow> addr \<Rightarrow> nat \<Rightarrow> u32 list" where
  "mem_words m p k = map (\<lambda>i. mem_word m (p + 4 * of_nat i)) [0..<k]"

definition init_pool :: "memory \<Rightarrow> addr \<Rightarrow> u32 \<Rightarrow> pool option" where
  "init_pool m b page_cnt = do {
     let bm_pages = DIV_ROUND_UP (bitmap_buf_size page_cnt) PGSIZE;
     if bm_pages > page_cnt then None
     else do {
       let page_cnt' = page_cnt - bm_pages;
       bm \<leftarrow> bitmap_create_in_buf page_cnt' (mem_words m (b + 8) (unat (elem_cnt page_cnt'))) (bm_pages * PGSIZE);
       Some \<lparr>used_map = bm, base = b + bm_pages * PGSIZE\<rparr>
     }
   }"

definition palloc_init :: "u32 \<Rightarrow> u32 \<Rightarrow> memory \<Rightarrow> palloc_state option" where
  "palloc_init init_ram_pages user_page_limit m = do {
     free_start \<leftarrow> ptov (1024 * 1024);
     free_end \<leftarrow> ptov (init_ram_pages * PGSIZE);
     let free_pages = (free_end - free_start) div PGSIZE;
     let user_pages = free_pages div 2;
     let user_pages = (if user_pages > user_page_limit then user_page_limit else user_pages);
     let kernel_pages = free_pages - user_pages;
     kp \<leftarrow> init_pool m free_start kernel_pages;
     up \<leftarrow> init_pool m (free_start + kernel_pages * PGSIZE) user_pages;
     Some \<lparr>kernel_pool = kp, user_pool = up, ram = m\<rparr>
   }"

definition palloc_get_multiple :: "palloc_state \<Rightarrow> u32 \<Rightarrow> u32 \<Rightarrow> (addr \<times> palloc_state) option" where
  "palloc_get_multiple s flags page_cnt = (
     let user = (flags AND PAL_USER \<noteq> 0); pl = (if user then user_pool s else kernel_pool s) in
     if page_cnt = 0 then Some (0, s)
     else do {
       r \<leftarrow> bitmap_scan_and_flip (used_map pl) 0 page_cnt False;
       let page_idx = fst r;
       let pl' = pl\<lparr>used_map := snd r\<rparr>;
       let s1 = (if user then s\<lparr>user_pool := pl'\<rparr> else s\<lparr>kernel_pool := pl'\<rparr>);
       let pages = (if page_idx \<noteq> BITMAP_ERROR then base pl + PGSIZE * page_idx else 0);
       if pages \<noteq> 0 then
         Some (pages, if flags AND PAL_ZERO \<noteq> 0 then s1\<lparr>ram := mem_fill (ram s1) pages 0 (PGSIZE * page_cnt)\<rparr> else s1)
       else if flags AND PAL_ASSERT \<noteq> 0 then None
       else Some (0, s1)
     })"

definition palloc_get_page :: "palloc_state \<Rightarrow> u32 \<Rightarrow> (addr \<times> palloc_state) option" where
  "palloc_get_page s flags = palloc_get_multiple s flags 1"

definition free_in_pool :: "pool \<Rightarrow> addr \<Rightarrow> u32 \<Rightarrow> pool option" where
  "free_in_pool pl pages page_cnt = do {
     let page_idx = pg_no pages - pg_no (base pl);
     ok \<leftarrow> bitmap_all (used_map pl) page_idx page_cnt;
     ASSERT ok;
     bm \<leftarrow> bitmap_set_multiple (used_map pl) page_idx page_cnt False;
     Some (pl\<lparr>used_map := bm\<rparr>)
   }"

definition palloc_free_multiple :: "palloc_state \<Rightarrow> addr \<Rightarrow> u32 \<Rightarrow> palloc_state option" where
  "palloc_free_multiple s pages page_cnt = do {
     ASSERT (pg_ofs pages = 0);
     if pages = 0 \<or> page_cnt = 0 then Some s
     else do {
       let s1 = s\<lparr>ram := mem_fill (ram s) pages 0xcc (PGSIZE * page_cnt)\<rparr>;
       if page_from_pool (kernel_pool s) pages then do {
         pl \<leftarrow> free_in_pool (kernel_pool s) pages page_cnt;
         Some (s1\<lparr>kernel_pool := pl\<rparr>)
       } else if page_from_pool (user_pool s) pages then do {
         pl \<leftarrow> free_in_pool (user_pool s) pages page_cnt;
         Some (s1\<lparr>user_pool := pl\<rparr>)
       } else None
     }
   }"

definition palloc_free_page :: "palloc_state \<Rightarrow> addr \<Rightarrow> palloc_state option" where
  "palloc_free_page s page = palloc_free_multiple s page 1"

subsection \<open>Invariant\<close>

definition pool_inv :: "pool \<Rightarrow> bool" where
  "pool_inv p \<longleftrightarrow> bm_wf (used_map p) \<and> pg_ofs (base p) = 0 \<and> 0 < pg_no (base p) \<and>
     unat (pg_no (base p)) + unat (bit_cnt (used_map p)) \<le> 2 ^ 20"

text \<open>The page numbers of a pool and those in use.\<close>

definition pool_pages :: "pool \<Rightarrow> nat set" where
  "pool_pages p = {unat (pg_no (base p)) ..< unat (pg_no (base p)) + unat (bit_cnt (used_map p))}"

definition pool_used :: "pool \<Rightarrow> nat set" where
  "pool_used p = (\<lambda>i. unat (pg_no (base p)) + i) ` bm_used (used_map p)"

definition palloc_inv :: "palloc_state \<Rightarrow> bool" where
  "palloc_inv s \<longleftrightarrow> pool_inv (kernel_pool s) \<and> pool_inv (user_pool s) \<and>
     pool_pages (kernel_pool s) \<inter> pool_pages (user_pool s) = {}"

definition palloc_used :: "palloc_state \<Rightarrow> nat set" where
  "palloc_used s = pool_used (kernel_pool s) \<union> pool_used (user_pool s)"

definition palloc_legal :: "u32 \<times> u32 \<Rightarrow> palloc_state \<Rightarrow> bool" where
  "palloc_legal r s \<longleftrightarrow> fst r \<noteq> 0 \<and> snd r \<noteq> 0 \<and> unat (fst r) < 2 ^ 20 \<and>
     (run_of r \<subseteq> pool_pages (kernel_pool s) \<or> run_of r \<subseteq> pool_pages (user_pool s))"

lemma pool_used_subset: "pool_used p \<subseteq> pool_pages p"
  by (auto simp: pool_used_def pool_pages_def bm_used_def)

lemma pool_used_run:
  "(\<lambda>i. b + i) ` (A \<union> {s ..< s + c}) = (\<lambda>i. b + i) ` A \<union> {b + s ..< b + s + (c :: nat)}"
  "(\<lambda>i. b + i) ` (A - {s ..< s + c}) = (\<lambda>i. b + i) ` A - {b + s ..< b + s + c}"
  by (auto simp: image_Un image_add_atLeastLessThan add.assoc image_iff)

text \<open>Taking pages from one pool.\<close>

lemma pool_take:
  assumes "pool_inv p" "c \<noteq> 0"
  obtains "bitmap_scan_and_flip (used_map p) 0 c False = Some (BITMAP_ERROR, used_map p)"
      "\<forall>i. \<not> (i + unat c \<le> unat (bit_cnt (used_map p)) \<and> {i ..< i + unat c} \<inter> bm_used (used_map p) = {})"
  | i bm where "bitmap_scan_and_flip (used_map p) 0 c False = Some (i, bm)" "i \<noteq> BITMAP_ERROR"
      "pool_inv (p\<lparr>used_map := bm\<rparr>)" "bit_cnt bm = bit_cnt (used_map p)"
      "unat (pg_no (base p + PGSIZE * i)) = unat (pg_no (base p)) + unat i" "pg_ofs (base p + PGSIZE * i) = 0"
      "unat i + unat c \<le> unat (bit_cnt (used_map p))"
      "{unat i ..< unat i + unat c} \<inter> bm_used (used_map p) = {}"
      "bm_used bm = bm_used (used_map p) \<union> {unat i ..< unat i + unat c}"
proof -
  let ?b = "used_map p"
  have wf: "bm_wf ?b" using assms by (simp add: pool_inv_def)
  show thesis
  proof (cases "find_range 0 (unat c) False (bm_bits ?b)")
    case None
    then have "bitmap_scan_and_flip ?b 0 c False = Some (BITMAP_ERROR, ?b)"
      using bitmap_scan_and_flip_bits [OF wf _ assms(2), of 0 False] by simp
    then show thesis using None that(1) by (simp add: find_range_eq_None range_all_used)
  next
    case (Some i)
    then have r: "range_all i (unat c) False (bm_bits ?b)" by (simp add: find_range_eq_Some)
    obtain bm where bm: "bitmap_scan_and_flip ?b 0 c False = Some (of_nat i, bm)" "of_nat i \<noteq> BITMAP_ERROR"
      "unat (of_nat i :: u32) = i" "bm_wf bm" "bit_cnt bm = bit_cnt ?b" "bm_bits bm = set_range i (unat c) True (bm_bits ?b)"
      using bitmap_scan_and_flip_bits [OF wf _ assms(2), of 0 False] Some by auto
    have le: "i + unat c \<le> unat (bit_cnt ?b)" using r by (simp add: range_all_def)
    moreover have "0 < unat c" using assms(2) by (simp add: unat_gt_0)
    ultimately have "unat (pg_no (base p)) + unat (of_nat i :: u32) < 2 ^ 20"
      using assms(1) bm(3) by (simp add: pool_inv_def)
    note st = page_step [OF _ this]
    show thesis
      using that(2) [OF bm(1,2)] bm assms(1) r le st bm_used_set_range [OF bm(5,6) le]
      by (simp add: pool_inv_def range_all_used)
  qed
qed

lemma pool_put:
  assumes "pool_inv p" "pg_ofs a = 0" "c \<noteq> 0"
    "unat (pg_no (base p)) \<le> unat (pg_no a)" "{unat (pg_no a) ..< unat (pg_no a) + unat c} \<subseteq> pool_used p"
  shows "\<exists>bm. free_in_pool p a c = Some (p\<lparr>used_map := bm\<rparr>) \<and> pool_inv (p\<lparr>used_map := bm\<rparr>) \<and>
    bit_cnt bm = bit_cnt (used_map p) \<and>
    pool_used (p\<lparr>used_map := bm\<rparr>) = pool_used p - {unat (pg_no a) ..< unat (pg_no a) + unat c}"
proof -
  let ?i = "pg_no a - pg_no (base p)" and ?B = "unat (pg_no (base p))"
  have i: "unat ?i = unat (pg_no a) - ?B" using assms(4) by (simp add: unat_sub word_le_nat_alt)
  then have a: "unat (pg_no a) = ?B + unat ?i" using assms(4) by simp
  have c: "0 < unat c" using assms(3) by (simp add: unat_gt_0)
  have sub: "{unat ?i ..< unat ?i + unat c} \<subseteq> bm_used (used_map p)"
  proof
    fix j assume "j \<in> {unat ?i ..< unat ?i + unat c}"
    then have "?B + j \<in> pool_used p" using assms(5) unfolding a by auto
    then show "j \<in> bm_used (used_map p)" by (auto simp: pool_used_def)
  qed
  then have "unat ?i + unat c - 1 \<in> bm_used (used_map p)" using c by auto
  then have le: "unat ?i + unat c \<le> unat (bit_cnt (used_map p))" using c by (auto simp: bm_used_def)
  have wf: "bm_wf (used_map p)" using assms(1) by (simp add: pool_inv_def)
  obtain bm where bm: "bitmap_set_multiple (used_map p) ?i c False = Some bm" "bm_wf bm"
    "bit_cnt bm = bit_cnt (used_map p)" "bm_bits bm = set_range (unat ?i) (unat c) False (bm_bits (used_map p))"
    using bitmap_set_multiple_bits [OF wf le] by blast
  have "bitmap_all (used_map p) ?i c = Some True"
    using bitmap_all_bits [OF wf le] sub le by (simp add: range_all_used)
  moreover have "bm_used bm = bm_used (used_map p) - {unat ?i ..< unat ?i + unat c}"
    using bm_used_set_range [OF bm(3,4) le] by simp
  ultimately show ?thesis
    using bm assms(1) pool_used_run(2) [of ?B "bm_used (used_map p)" "unat ?i" "unat c"] a
    by (intro exI [of _ bm]) (simp add: free_in_pool_def pool_inv_def pool_used_def)
qed

subsection \<open>The allocator as a whole\<close>

definition sel_pool :: "u32 \<Rightarrow> palloc_state \<Rightarrow> pool" where
  "sel_pool flags s = (if flags AND PAL_USER \<noteq> 0 then user_pool s else kernel_pool s)"

definition has_room :: "pool \<Rightarrow> nat \<Rightarrow> bool" where
  "has_room p c \<longleftrightarrow> (\<exists>i. {i ..< i + c} \<subseteq> pool_pages p - pool_used p)"

lemma has_room_bits:
  assumes "0 < c"
  shows "has_room p c \<longleftrightarrow> (\<exists>i. i + c \<le> unat (bit_cnt (used_map p)) \<and> {i ..< i + c} \<inter> bm_used (used_map p) = {})"
proof
  let ?B = "unat (pg_no (base p))"
  assume "has_room p c"
  then obtain i where i: "{i ..< i + c} \<subseteq> pool_pages p - pool_used p" by (auto simp: has_room_def)
  have "i \<in> {i ..< i + c}" "i + c - 1 \<in> {i ..< i + c}" using assms by auto
  then have "i \<in> pool_pages p" "i + c - 1 \<in> pool_pages p" using i by blast+
  then have "?B \<le> i" "i - ?B + c \<le> unat (bit_cnt (used_map p))" using assms by (auto simp: pool_pages_def)
  moreover have "{i - ?B ..< i - ?B + c} \<inter> bm_used (used_map p) = {}"
  proof (rule ccontr)
    assume "{i - ?B ..< i - ?B + c} \<inter> bm_used (used_map p) \<noteq> {}"
    then obtain j where "j \<in> {i - ?B ..< i - ?B + c}" "j \<in> bm_used (used_map p)" by blast
    then have "j \<in> {i - ?B ..< i - ?B + c}" "?B + j \<in> pool_used p" by (simp_all add: pool_used_def)
    then have "?B + j \<in> {i ..< i + c}" using calculation(1) by auto
    then show False using i \<open>?B + j \<in> pool_used p\<close> by blast
  qed
  ultimately show "\<exists>i. i + c \<le> unat (bit_cnt (used_map p)) \<and> {i ..< i + c} \<inter> bm_used (used_map p) = {}" by blast
next
  let ?B = "unat (pg_no (base p))"
  assume "\<exists>i. i + c \<le> unat (bit_cnt (used_map p)) \<and> {i ..< i + c} \<inter> bm_used (used_map p) = {}"
  then obtain i where "i + c \<le> unat (bit_cnt (used_map p))" "{i ..< i + c} \<inter> bm_used (used_map p) = {}" by blast
  then have "{?B + i ..< ?B + i + c} \<subseteq> pool_pages p - pool_used p"
    by (auto simp: pool_pages_def pool_used_def)
  then show "has_room p c" unfolding has_room_def by blast
qed

lemma palloc_get_room:
  assumes inv: "palloc_inv s" and c: "c \<noteq> 0" and room: "has_room (sel_pool flags s) (unat c)"
  shows "\<exists>p s'. palloc_get_multiple s flags c = Some (p, s') \<and> p \<noteq> 0 \<and> pg_ofs p = 0 \<and>
    run_of (pg_no p, c) \<subseteq> pool_pages (sel_pool flags s) \<and> run_of (pg_no p, c) \<inter> palloc_used s = {} \<and>
    palloc_used s' = palloc_used s \<union> run_of (pg_no p, c) \<and> palloc_inv s' \<and>
    pool_pages (kernel_pool s') = pool_pages (kernel_pool s) \<and> pool_pages (user_pool s') = pool_pages (user_pool s) \<and>
    ram s' = (if flags AND PAL_ZERO \<noteq> 0 then mem_fill (ram s) p 0 (PGSIZE * c) else ram s)"
proof -
  let ?p = "sel_pool flags s"
  have ip: "pool_inv ?p" using inv by (simp add: palloc_inv_def sel_pool_def)
  show ?thesis
  proof (rule pool_take [OF ip c])
    assume "\<forall>i. \<not> (i + unat c \<le> unat (bit_cnt (used_map ?p)) \<and> {i ..< i + unat c} \<inter> bm_used (used_map ?p) = {})"
    moreover have "0 < unat c" using c by (simp add: unat_gt_0)
    ultimately show ?thesis using room has_room_bits by blast
  next
    fix i bm
    assume t: "bitmap_scan_and_flip (used_map ?p) 0 c False = Some (i, bm)" "i \<noteq> BITMAP_ERROR"
      "pool_inv (?p\<lparr>used_map := bm\<rparr>)" "bit_cnt bm = bit_cnt (used_map ?p)"
      "unat (pg_no (base ?p + PGSIZE * i)) = unat (pg_no (base ?p)) + unat i" "pg_ofs (base ?p + PGSIZE * i) = 0"
      "unat i + unat c \<le> unat (bit_cnt (used_map ?p))"
      "{unat i ..< unat i + unat c} \<inter> bm_used (used_map ?p) = {}"
      "bm_used bm = bm_used (used_map ?p) \<union> {unat i ..< unat i + unat c}"
    let ?a = "base ?p + PGSIZE * i" and ?P = "?p\<lparr>used_map := bm\<rparr>"
    let ?s = "if flags AND PAL_USER \<noteq> 0 then s\<lparr>user_pool := ?P\<rparr> else s\<lparr>kernel_pool := ?P\<rparr>"
    let ?s' = "if flags AND PAL_ZERO \<noteq> 0 then ?s\<lparr>ram := mem_fill (ram ?s) ?a 0 (PGSIZE * c)\<rparr> else ?s"
    have run: "run_of (pg_no ?a, c) = {unat (pg_no (base ?p)) + unat i ..< unat (pg_no (base ?p)) + unat i + unat c}"
      using t(5) by (simp add: run_of_def)
    have "0 < unat (pg_no (base ?p))" using ip by (simp add: pool_inv_def word_less_nat_alt)
    then have ne: "?a \<noteq> 0" using t(5) by (auto simp: pg_no_def)
    have pu: "pool_used ?P = pool_used ?p \<union> run_of (pg_no ?a, c)"
      unfolding run using t(9) pool_used_run(1) by (simp add: pool_used_def)
    have pp: "pool_pages ?P = pool_pages ?p" using t(4) by (simp add: pool_pages_def)
    have sub: "run_of (pg_no ?a, c) \<subseteq> pool_pages ?p" unfolding run using t(7) by (auto simp: pool_pages_def)
    have "run_of (pg_no ?a, c) \<inter> pool_used ?p = {}"
    proof -
      have "(\<lambda>j. unat (pg_no (base ?p)) + j) ` ({unat i ..< unat i + unat c} \<inter> bm_used (used_map ?p)) = {}"
        using t(8) by simp
      then show ?thesis unfolding run pool_used_def by (auto simp: image_iff)
    qed
    moreover have "pool_used q \<subseteq> pool_pages q" for q by (rule pool_used_subset)
    ultimately have fresh: "run_of (pg_no ?a, c) \<inter> palloc_used s = {}"
      using sub inv by (auto simp: palloc_used_def palloc_inv_def sel_pool_def split: if_splits)
    have "palloc_get_multiple s flags c = Some (?a, ?s')"
      using t(1,2) c ne
      by (cases "flags AND PAL_USER = 0") (simp_all add: palloc_get_multiple_def sel_pool_def Let_def)
    moreover have "palloc_used ?s' = palloc_used s \<union> run_of (pg_no ?a, c)"
      using pu by (auto simp: palloc_used_def sel_pool_def)
    moreover have "palloc_inv ?s'" using inv t(3) pp by (auto simp: palloc_inv_def sel_pool_def)
    moreover have "pool_pages (kernel_pool ?s') = pool_pages (kernel_pool s)"
      "pool_pages (user_pool ?s') = pool_pages (user_pool s)" using pp by (auto simp: sel_pool_def)
    moreover have "ram ?s' = (if flags AND PAL_ZERO \<noteq> 0 then mem_fill (ram s) ?a 0 (PGSIZE * c) else ram s)" by auto
    ultimately show ?thesis using ne t(6) sub fresh by blast
  qed
qed

lemma palloc_get_no_room:
  assumes inv: "palloc_inv s" and c: "c \<noteq> 0" and room: "\<not> has_room (sel_pool flags s) (unat c)"
  shows "palloc_get_multiple s flags c = (if flags AND PAL_ASSERT \<noteq> 0 then None else Some (0, s))"
proof -
  let ?p = "sel_pool flags s"
  have ip: "pool_inv ?p" using inv by (simp add: palloc_inv_def sel_pool_def)
  have "0 < unat c" using c by (simp add: unat_gt_0)
  then have nr: "\<not> (\<exists>i. i + unat c \<le> unat (bit_cnt (used_map ?p)) \<and> {i ..< i + unat c} \<inter> bm_used (used_map ?p) = {})"
    using room has_room_bits by blast
  show ?thesis
    by (rule pool_take [OF ip c])
      (use nr c in \<open>auto simp: palloc_get_multiple_def sel_pool_def Let_def\<close>)
qed

lemma page_from_pool_iff:
  assumes "pool_inv p"
  shows "page_from_pool p a \<longleftrightarrow> unat (pg_no a) \<in> pool_pages p"
proof -
  have "unat (pg_no (base p)) + unat (bit_cnt (used_map p)) < 2 ^ 32" using assms by (simp add: pool_inv_def)
  then have "unat (pg_no (base p) + bit_cnt (used_map p)) = unat (pg_no (base p)) + unat (bit_cnt (used_map p))"
    by (simp add: unat_plus_if')
  then show ?thesis
    by (simp add: page_from_pool_def pool_pages_def Let_def bitmap_size_def word_le_nat_alt word_less_nat_alt)
qed

lemma palloc_free_run:
  assumes inv: "palloc_inv s" and l: "palloc_legal (n, c) s" and u: "run_of (n, c) \<subseteq> palloc_used s"
  shows "\<exists>s'. palloc_free_multiple s (page_addr n) c = Some s' \<and> palloc_inv s' \<and>
    palloc_used s' = palloc_used s - run_of (n, c) \<and>
    pool_pages (kernel_pool s') = pool_pages (kernel_pool s) \<and> pool_pages (user_pool s') = pool_pages (user_pool s) \<and>
    ram s' = mem_fill (ram s) (page_addr n) 0xcc (PGSIZE * c)"
proof -
  let ?a = "page_addr n" and ?k = "kernel_pool s" and ?u = "user_pool s"
  have n: "n \<noteq> 0" "c \<noteq> 0" "unat n < 2 ^ 20"
    and in_pool: "run_of (n, c) \<subseteq> pool_pages ?k \<or> run_of (n, c) \<subseteq> pool_pages ?u"
    using l by (auto simp: palloc_legal_def)
  have a: "pg_no ?a = n" "pg_ofs ?a = 0" using pg_no_page_addr [OF n(3)] by auto
  have a0: "?a \<noteq> 0" using a(1) n(1) by (auto simp: pg_no_def)
  have head: "unat n \<in> run_of (n, c)" using n(2) by (simp add: run_of_def unat_gt_0)
  have ik: "pool_inv ?k" and iu: "pool_inv ?u" and dis: "pool_pages ?k \<inter> pool_pages ?u = {}"
    using inv by (simp_all add: palloc_inv_def)
  have step: "\<exists>bm. free_in_pool q ?a c = Some (q\<lparr>used_map := bm\<rparr>) \<and> pool_inv (q\<lparr>used_map := bm\<rparr>) \<and>
      bit_cnt bm = bit_cnt (used_map q) \<and> pool_used (q\<lparr>used_map := bm\<rparr>) = pool_used q - run_of (n, c)"
    if "pool_inv q" "run_of (n, c) \<subseteq> pool_pages q" "run_of (n, c) \<subseteq> pool_used q" for q
  proof -
    have "unat (pg_no (base q)) \<le> unat (pg_no ?a)" using that(2) head a(1) by (auto simp: pool_pages_def)
    then show ?thesis using pool_put [OF that(1) a(2) n(2)] that(3) a(1) by (simp add: run_of_def)
  qed
  note uk = pool_used_subset [of ?k] and uu = pool_used_subset [of ?u]
  show ?thesis
  proof (cases "run_of (n, c) \<subseteq> pool_pages ?k")
    case True
    then have "run_of (n, c) \<subseteq> pool_used ?k" using u uu dis by (auto simp: palloc_used_def)
    from step [OF ik True this] obtain bm where bm: "free_in_pool ?k ?a c = Some (?k\<lparr>used_map := bm\<rparr>)"
      "pool_inv (?k\<lparr>used_map := bm\<rparr>)" "bit_cnt bm = bit_cnt (used_map ?k)"
      "pool_used (?k\<lparr>used_map := bm\<rparr>) = pool_used ?k - run_of (n, c)" by blast
    have "page_from_pool ?k ?a" using page_from_pool_iff [OF ik] True head a(1) by auto
    moreover have pp: "pool_pages (?k\<lparr>used_map := bm\<rparr>) = pool_pages ?k" using bm(3) by (simp add: pool_pages_def)
    moreover have "pool_used ?u \<inter> run_of (n, c) = {}" using True uu dis by auto
    ultimately show ?thesis
      using bm a0 a n iu dis by (auto simp: palloc_free_multiple_def palloc_inv_def palloc_used_def Let_def)
  next
    case False
    then have ru: "run_of (n, c) \<subseteq> pool_pages ?u" using in_pool by blast
    then have "run_of (n, c) \<subseteq> pool_used ?u" using u uk dis by (auto simp: palloc_used_def)
    from step [OF iu ru this] obtain bm where bm: "free_in_pool ?u ?a c = Some (?u\<lparr>used_map := bm\<rparr>)"
      "pool_inv (?u\<lparr>used_map := bm\<rparr>)" "bit_cnt bm = bit_cnt (used_map ?u)"
      "pool_used (?u\<lparr>used_map := bm\<rparr>) = pool_used ?u - run_of (n, c)" by blast
    have "\<not> page_from_pool ?k ?a" "page_from_pool ?u ?a"
      using page_from_pool_iff [OF ik] page_from_pool_iff [OF iu] ru head a(1) dis by auto
    moreover have pp: "pool_pages (?u\<lparr>used_map := bm\<rparr>) = pool_pages ?u" using bm(3) by (simp add: pool_pages_def)
    moreover have "pool_used ?k \<inter> run_of (n, c) = {}" using ru uk dis by auto
    ultimately show ?thesis
      using bm a0 a n ik dis by (auto simp: palloc_free_multiple_def palloc_inv_def palloc_used_def Let_def)
  qed
qed

text \<open>
  The interface seen by a client that asks with fixed \<open>flags\<close>; runs are given by page numbers. With
  \<open>PAL_ASSERT\<close> set an allocation can halt the kernel, so the contract is for flags without it.
\<close>

definition pg_alloc :: "u32 \<Rightarrow> palloc_state \<Rightarrow> u32 \<Rightarrow> (u32 option \<times> palloc_state) option" where
  "pg_alloc flags s c = palloc_get_multiple s (flags AND NOT PAL_ASSERT) c \<bind>
     (\<lambda>(p, s'). Some (if p = 0 then None else Some (pg_no p), s'))"

definition pg_release :: "palloc_state \<Rightarrow> u32 \<Rightarrow> u32 \<Rightarrow> palloc_state option" where
  "pg_release s n c = palloc_free_multiple s (page_addr n) c"

lemma no_assert: "(flags AND NOT PAL_ASSERT) AND PAL_ASSERT = 0"
  by (simp add: bit_eq_iff bit_simps)

lemma pg_alloc_cases:
  assumes "palloc_inv s" "c \<noteq> 0"
  obtains "pg_alloc flags s c = Some (None, s)"
  | n s' where "pg_alloc flags s c = Some (Some n, s')" "run_of (n, c) \<inter> palloc_used s = {}"
      "palloc_used s' = palloc_used s \<union> run_of (n, c)" "palloc_inv s'" "palloc_legal (n, c) s'"
      "\<forall>r. palloc_legal r s \<longrightarrow> palloc_legal r s'"
proof -
  let ?f = "flags AND NOT PAL_ASSERT"
  show thesis
  proof (cases "has_room (sel_pool ?f s) (unat c)")
    case False
    then show thesis
      using that(1) palloc_get_no_room [OF assms False] no_assert by (simp add: pg_alloc_def)
  next
    case True
    from palloc_get_room [OF assms True] obtain p s' where g: "palloc_get_multiple s ?f c = Some (p, s')" "p \<noteq> 0" "pg_ofs p = 0"
      "run_of (pg_no p, c) \<subseteq> pool_pages (sel_pool ?f s)" "run_of (pg_no p, c) \<inter> palloc_used s = {}"
      "palloc_used s' = palloc_used s \<union> run_of (pg_no p, c)" "palloc_inv s'"
      "pool_pages (kernel_pool s') = pool_pages (kernel_pool s)" "pool_pages (user_pool s') = pool_pages (user_pool s)" by blast
    have "pg_no p \<noteq> 0" using page_addr_pg_no [OF g(3)] g(2) by (auto simp: page_addr_def)
    then have "palloc_legal (pg_no p, c) s'"
      using g(4,8,9) assms(2) pg_no_less [of p] by (auto simp: palloc_legal_def sel_pool_def split: if_splits)
    then show thesis using that(2) [of "pg_no p" s'] g by (simp add: pg_alloc_def palloc_legal_def)
  qed
qed

interpretation pg: region_alloc palloc_inv palloc_used "pg_alloc flags" pg_release palloc_legal for flags
proof
  fix s s' and c i :: u32 and r :: "u32 \<times> u32"
  assume inv: "palloc_inv s"
  show "\<exists>s'. pg_release s i c = Some s' \<and> palloc_inv s' \<and> palloc_used s' = palloc_used s - run_of (i, c) \<and>
      (\<forall>r. palloc_legal r s \<longrightarrow> palloc_legal r s')" if "palloc_legal (i, c) s" "run_of (i, c) \<subseteq> palloc_used s"
    using palloc_free_run [OF inv that] by (auto simp: pg_release_def palloc_legal_def)
  assume c: "c \<noteq> 0"
  show "\<exists>r s'. pg_alloc flags s c = Some (r, s')"
    using inv c by (cases rule: pg_alloc_cases [where flags = flags]) auto
  show "s' = s" if "pg_alloc flags s c = Some (None, s')"
    using inv c that by (cases rule: pg_alloc_cases [where flags = flags]) auto
  assume a: "pg_alloc flags s c = Some (Some i, s')"
  have "run_of (i, c) \<inter> palloc_used s = {} \<and> palloc_used s' = palloc_used s \<union> run_of (i, c) \<and>
    palloc_inv s' \<and> palloc_legal (i, c) s' \<and> (\<forall>r. palloc_legal r s \<longrightarrow> palloc_legal r s')"
    using inv c
  proof (cases rule: pg_alloc_cases [where flags = flags])
    case (2 n t)
    then have "n = i" "t = s'" using a by simp_all
    then show ?thesis using 2(2-6) by blast
  qed (use a in simp)
  then show "run_of (i, c) \<inter> palloc_used s = {}" "palloc_used s' = palloc_used s \<union> run_of (i, c)"
    "palloc_inv s' \<and> palloc_legal (i, c) s'" "palloc_legal r s \<Longrightarrow> palloc_legal r s'" by blast+
qed

subsection \<open>Initialisation\<close>

lemma unat_buf_size:
  assumes "unat n \<le> 2 ^ 20"
  shows "unat (bitmap_buf_size n) = 8 + 4 * ((unat n + 31) div 32)"
proof -
  have "unat (n + 31) = unat n + 31" using assms unat_plus_le [of n 31 4294967295] by simp
  then have e: "unat (elem_cnt n) = (unat n + 31) div 32"
    by (simp add: elem_cnt_def DIV_ROUND_UP_def ELEM_BITS_def unat_div add_diff_eq [symmetric])
  have "(unat n + 31) div 32 \<le> (2 ^ 20 + 31) div 32" using assms by (intro div_le_mono) simp
  then have "4 * ((unat n + 31) div 32) \<le> 2 ^ 18" by simp
  then have "unat (byte_cnt n) = 4 * ((unat n + 31) div 32)"
    unfolding byte_cnt_def using e by (simp add: unat_word_ariths)
  then show ?thesis
    using \<open>4 * ((unat n + 31) div 32) \<le> 2 ^ 18\<close> unat_plus_le [of 8 "byte_cnt n" 4294967295]
    by (simp add: bitmap_buf_size_def)
qed

lemma round_up_ge: "(x :: nat) \<le> (x + 4095) div 4096 * 4096"
  using dividend_less_div_times [of 4096 "x + 4095"] by simp

lemma init_pool_inv:
  assumes b: "pg_ofs b = 0" "0 < pg_no b" "unat (pg_no b) + unat n < 2 ^ 20" and n: "0 < n"
  shows "\<exists>p. init_pool m b n = Some p \<and> pool_inv p \<and> pool_used p = {} \<and>
    pool_pages p \<subseteq> {unat (pg_no b) ..< unat (pg_no b) + unat n}"
proof -
  let ?B = "DIV_ROUND_UP (bitmap_buf_size n) PGSIZE"
  let ?k = "(8 + 4 * ((unat n + 31) div 32) + 4095) div 4096"
  have n20: "unat n \<le> 2 ^ 20" using b(3) by simp
  have "(unat n + 31) div 32 \<le> (2 ^ 20 + 31) div 32" using n20 by (intro div_le_mono) simp
  then have "unat (bitmap_buf_size n + 4095) = unat (bitmap_buf_size n) + 4095"
    using unat_buf_size [OF n20] unat_plus_le [of "bitmap_buf_size n" 4095 4294967295] by simp
  then have B: "unat ?B = ?k"
    by (simp add: DIV_ROUND_UP_def PG_simps unat_div unat_buf_size [OF n20] add_diff_eq [symmetric])
  have np: "0 < unat n" using n by (simp add: word_less_nat_alt)
  have "(unat n + 31) div 32 \<le> unat n" using np by linarith
  then have "8 + 4 * ((unat n + 31) div 32) + 4095 \<le> 4096 * unat n + 4095" using np by linarith
  then have "?k \<le> (4096 * unat n + 4095) div 4096" by (rule div_le_mono)
  also have "\<dots> = unat n" by simp
  finally have kn: "?k \<le> unat n" .
  then have nB: "\<not> ?B > n" using B by (simp add: word_less_nat_alt)
  let ?n = "n - ?B"
  have un: "unat ?n = unat n - ?k" using nB B by (simp add: unat_sub not_less word_le_nat_alt)
  have "unat (?B * PGSIZE) = ?k * 4096" using kn n20 B by (simp add: unat_word_ariths PG_simps)
  moreover have "8 + 4 * ((unat n - ?k + 31) div 32) \<le> ?k * 4096"
  proof -
    have "(unat n - ?k + 31) div 32 \<le> (unat n + 31) div 32" by (intro div_le_mono) simp
    then have "8 + 4 * ((unat n - ?k + 31) div 32) \<le> 8 + 4 * ((unat n + 31) div 32)" by simp
    also have "\<dots> \<le> ?k * 4096" by (rule round_up_ge)
    finally show ?thesis .
  qed
  moreover have "unat ?n \<le> 2 ^ 20" using un n20 by linarith
  note unat_buf_size [OF this, unfolded un]
  ultimately have fits: "bitmap_buf_size ?n \<le> ?B * PGSIZE" by (simp only: word_le_nat_alt)
  let ?j = "mem_words m (b + 8) (unat (elem_cnt ?n))"
  have "bm_wf \<lparr>bit_cnt = ?n, bits = ?j\<rparr>"
    using elem_cnt_enough [of ?n] un n20 by (simp add: bm_wf_def mem_words_def)
  from bitmap_set_all_bits [OF this, of False] obtain bm where
    bm: "bitmap_set_all \<lparr>bit_cnt = ?n, bits = ?j\<rparr> False = Some bm" "bm_wf bm" "bit_cnt bm = ?n"
      "bm_bits bm = replicate (unat ?n) False" by auto
  let ?p = "\<lparr>used_map = bm, base = b + ?B * PGSIZE\<rparr>"
  have init: "init_pool m b n = Some ?p"
    using nB fits bm(1) by (simp add: init_pool_def Let_def bitmap_create_in_buf_def)
  note st = page_step [OF b(1), of ?B]
  have bB: "unat (pg_no b) + unat ?B < 2 ^ 20" using b(3) kn B by linarith
  have base: "base ?p = b + PGSIZE * ?B" by (simp add: mult.commute)
  have "pool_inv ?p"
    using st [OF bB] bm(2,3) B un kn b(2,3) unfolding pool_inv_def base
    by (simp add: word_less_nat_alt)
  moreover have "bm_used bm = {}" using bm(3,4) by (auto simp: bm_used_def simp del: nth_bm_bits)
  moreover have "pool_pages ?p \<subseteq> {unat (pg_no b) ..< unat (pg_no b) + unat n}"
    using st(3) [OF bB] bm(3) B un kn unfolding pool_pages_def base by auto
  ultimately show ?thesis using init by (simp add: pool_used_def)
qed

lemma palloc_init_inv:
  assumes ram: "258 \<le> unat init_ram_pages" "unat init_ram_pages < 0x40000" and user: "0 < user_page_limit"
  shows "\<exists>s. palloc_init init_ram_pages user_page_limit m = Some s \<and> palloc_inv s \<and> palloc_used s = {}"
proof -
  let ?fs = "0xc0100000 :: u32" and ?fe = "init_ram_pages * PGSIZE + PHYS_BASE"
  have r: "unat (init_ram_pages * PGSIZE) = unat init_ram_pages * 4096"
    using ram by (simp add: unat_word_ariths PG_simps)
  then have "init_ram_pages * PGSIZE < PHYS_BASE" using ram by (simp add: word_less_nat_alt PHYS_BASE_def)
  then have e: "ptov (init_ram_pages * PGSIZE) = Some ?fe" by (simp add: ptov_def)
  have s: "ptov (1024 * 1024) = Some ?fs" by (simp add: ptov_def PHYS_BASE_def)
  have "unat ?fe = unat init_ram_pages * 4096 + 0xc0000000"
    using r ram by (simp add: PHYS_BASE_def unat_plus_if')
  then have "unat (?fe - ?fs) = (unat init_ram_pages - 256) * 4096"
    using ram by (simp add: unat_sub word_le_nat_alt)
  then have fp: "unat ((?fe - ?fs) div PGSIZE) = unat init_ram_pages - 256"
    by (simp add: unat_div PG_simps)
  let ?f = "(?fe - ?fs) div PGSIZE"
  let ?u = "if user_page_limit < ?f div 2 then user_page_limit else ?f div 2"
  have u: "0 < unat ?u" "unat ?u \<le> (unat init_ram_pages - 256) div 2"
    using user ram fp by (auto simp: word_less_nat_alt unat_div)
  let ?k = "?f - ?u"
  have "?u \<le> ?f" using u fp by (simp only: word_le_nat_alt)
  then have k: "unat ?k = unat init_ram_pages - 256 - unat ?u" by (simp only: unat_sub fp)
  have kpos: "0 < unat ?k" using k u ram by linarith
  have fs: "pg_ofs ?fs = 0" "pg_no ?fs = 0xc0100" by (simp_all add: pg_ofs_def pg_no_def PG_simps PGBITS_def)
  have kb: "unat (pg_no ?fs) + unat ?k < 2 ^ 20" using k ram fs(2) by simp
  from init_pool_inv [OF fs(1) _ kb, of m] obtain kp where kp: "init_pool m ?fs ?k = Some kp" "pool_inv kp"
    "pool_used kp = {}" "pool_pages kp \<subseteq> {unat (pg_no ?fs) ..< unat (pg_no ?fs) + unat ?k}"
    using kpos fs by (auto simp: word_less_nat_alt)
  note st = page_step [OF fs(1) kb]
  have ub: "unat (pg_no (?fs + PGSIZE * ?k)) + unat ?u < 2 ^ 20" using st(3) k ram u fs(2) by simp
  from init_pool_inv [OF st(2) _ ub, of m] obtain up where up: "init_pool m (?fs + PGSIZE * ?k) ?u = Some up"
    "pool_inv up" "pool_used up = {}" "pool_pages up \<subseteq> {unat (pg_no (?fs + PGSIZE * ?k)) ..< unat (pg_no (?fs + PGSIZE * ?k)) + unat ?u}"
    using u st(3) fs(2) by (auto simp: word_less_nat_alt)
  have "palloc_init init_ram_pages user_page_limit m = Some \<lparr>kernel_pool = kp, user_pool = up, ram = m\<rparr>"
  proof -
    have "init_pool m (?fs + ?k * PGSIZE) ?u = Some up" using up(1) by (simp only: mult.commute [of ?k])
    with kp(1) show ?thesis unfolding palloc_init_def Let_def by (simp only: s e bind.simps)
  qed
  moreover have "pool_pages kp \<inter> pool_pages up = {}" using kp(4) up(4) st(3) by fastforce
  ultimately show ?thesis using kp up by (simp add: palloc_inv_def palloc_used_def)
qed

subsection \<open>Properties\<close>





end
