(* ===== verification/Malloc.thy ===== *)
theory Malloc
  imports Palloc
begin

text \<open>
  The kernel's \<open>malloc\<close> (src/proj-pregame/src/threads/malloc.c): descriptors for block sizes of
  powers of two, arenas of one page cut into blocks, and big blocks of whole pages. A descriptor
  pointer is its index in \<open>descs\<close>. The arena headers at the start of pages are the map
  \<open>arenas\<close>: a page that holds no header with the magic number is outside its domain. The free
  list of a descriptor is a kernel list, here the list of its block addresses.
\<close>

subsection \<open>The C functions\<close>

record desc =
  d_block_size :: u32
  blocks_per_arena :: u32
  free_list :: "addr list"

record arena =
  a_desc :: "nat option"
  free_cnt :: u32

record mstate =
  descs :: "desc list"
  arenas :: "addr \<Rightarrow> arena option"
  pal :: palloc_state

definition sizeof_arena :: u32 where "sizeof_arena = 12"

fun malloc_init_loop :: "nat \<Rightarrow> u32 \<Rightarrow> desc list \<Rightarrow> desc list option" where
  "malloc_init_loop 0 bs ds = None"
| "malloc_init_loop (Suc fuel) bs ds =
     (if bs < PGSIZE div 2 then do {
        ASSERT (length ds + 1 \<le> 10);
        malloc_init_loop fuel (bs * 2)
          (ds @ [\<lparr>d_block_size = bs, blocks_per_arena = (PGSIZE - sizeof_arena) div bs, free_list = []\<rparr>])
      } else Some ds)"

definition malloc_init :: "desc list option" where
  "malloc_init = malloc_init_loop 12 16 []"

definition arena_to_block :: "mstate \<Rightarrow> addr \<Rightarrow> u32 \<Rightarrow> addr option" where
  "arena_to_block s a idx = do {
     ASSERT (a \<noteq> 0);
     ar \<leftarrow> arenas s a;
     i \<leftarrow> a_desc ar;
     ASSERT (idx < blocks_per_arena (descs s ! i));
     Some (a + sizeof_arena + idx * d_block_size (descs s ! i))
   }"

definition block_to_arena :: "mstate \<Rightarrow> addr \<Rightarrow> (addr \<times> arena) option" where
  "block_to_arena s b = do {
     let a = pg_round_down b;
     ASSERT (a \<noteq> 0);
     ar \<leftarrow> arenas s a;
     (case a_desc ar of
        Some i \<Rightarrow> ASSERT ((pg_ofs b - sizeof_arena) mod d_block_size (descs s ! i) = 0)
      | None \<Rightarrow> ASSERT (pg_ofs b = sizeof_arena));
     Some (a, ar)
   }"

fun find_desc :: "desc list \<Rightarrow> u32 \<Rightarrow> nat" where
  "find_desc [] sz = 0"
| "find_desc (d # ds) sz = (if d_block_size d \<ge> sz then 0 else Suc (find_desc ds sz))"

definition upd_desc :: "mstate \<Rightarrow> nat \<Rightarrow> (addr list \<Rightarrow> addr list) \<Rightarrow> mstate" where
  "upd_desc s i f = s\<lparr>descs := (descs s)[i := (descs s ! i)\<lparr>free_list := f (free_list (descs s ! i))\<rparr>]\<rparr>"

fun add_blocks :: "nat \<Rightarrow> u32 \<Rightarrow> nat \<Rightarrow> addr \<Rightarrow> mstate \<Rightarrow> mstate option" where
  "add_blocks 0 k i a s = Some s"
| "add_blocks (Suc n) k i a s = do {
     b \<leftarrow> arena_to_block s a k;
     add_blocks n (k + 1) i a (upd_desc s i (\<lambda>fl. fl @ [b]))
   }"

definition take_block :: "mstate \<Rightarrow> nat \<Rightarrow> (addr \<times> mstate) option" where
  "take_block s i =
     (case free_list (descs s ! i) of
        [] \<Rightarrow> None
      | b # fl \<Rightarrow> do {
          let s1 = upd_desc s i (\<lambda>_. fl);
          (a, ar) \<leftarrow> block_to_arena s1 b;
          Some (b, s1\<lparr>arenas := (arenas s1)(a \<mapsto> ar\<lparr>free_cnt := free_cnt ar - 1\<rparr>)\<rparr>)
        })"

definition malloc :: "mstate \<Rightarrow> u32 \<Rightarrow> (addr \<times> mstate) option" where
  "malloc s sz =
     (if sz = 0 then Some (0, s)
      else let i = find_desc (descs s) sz in
        if i = length (descs s) then do {
          let page_cnt = DIV_ROUND_UP (sz + sizeof_arena) PGSIZE;
          (a, p) \<leftarrow> palloc_get_multiple (pal s) 0 page_cnt;
          let s1 = s\<lparr>pal := p\<rparr>;
          if a = 0 then Some (0, s1)
          else Some (a + sizeof_arena, s1\<lparr>arenas := (arenas s1)(a \<mapsto> \<lparr>a_desc = None, free_cnt = page_cnt\<rparr>)\<rparr>)
        }
        else if free_list (descs s ! i) = [] then do {
          (a, p) \<leftarrow> palloc_get_page (pal s) 0;
          let s1 = s\<lparr>pal := p\<rparr>;
          if a = 0 then Some (0, s1)
          else do {
            let n = blocks_per_arena (descs s ! i);
            let s2 = s1\<lparr>arenas := (arenas s1)(a \<mapsto> \<lparr>a_desc = Some i, free_cnt = n\<rparr>)\<rparr>;
            s3 \<leftarrow> add_blocks (unat n) 0 i a s2;
            take_block s3 i
          }
        }
        else take_block s i)"

definition set_ram :: "mstate \<Rightarrow> memory \<Rightarrow> mstate" where
  "set_ram s m = s\<lparr>pal := (pal s)\<lparr>ram := m\<rparr>\<rparr>"

definition calloc :: "mstate \<Rightarrow> u32 \<Rightarrow> u32 \<Rightarrow> (addr \<times> mstate) option" where
  "calloc s a b = (
     let sz = a * b in
     if sz < a \<or> sz < b then Some (0, s)
     else do {
       (p, s1) \<leftarrow> malloc s sz;
       Some (p, if p \<noteq> 0 then set_ram s1 (mem_fill (ram (pal s1)) p 0 sz) else s1)
     })"

definition block_size :: "mstate \<Rightarrow> addr \<Rightarrow> u32 option" where
  "block_size s b = do {
     (a, ar) \<leftarrow> block_to_arena s b;
     Some (case a_desc ar of Some i \<Rightarrow> d_block_size (descs s ! i) | None \<Rightarrow> PGSIZE * free_cnt ar - pg_ofs b)
   }"

fun remove_blocks :: "nat \<Rightarrow> u32 \<Rightarrow> nat \<Rightarrow> addr \<Rightarrow> mstate \<Rightarrow> mstate option" where
  "remove_blocks 0 k i a s = Some s"
| "remove_blocks (Suc n) k i a s = do {
     b \<leftarrow> arena_to_block s a k;
     ASSERT (b \<in> set (free_list (descs s ! i)));
     remove_blocks n (k + 1) i a (upd_desc s i (remove1 b))
   }"

definition free :: "mstate \<Rightarrow> addr \<Rightarrow> mstate option" where
  "free s p =
     (if p = 0 then Some s
      else do {
        (a, ar) \<leftarrow> block_to_arena s p;
        case a_desc ar of
          Some i \<Rightarrow> do {
            let d = descs s ! i;
            let s1 = set_ram s (mem_fill (ram (pal s)) p 0xcc (d_block_size d));
            let s2 = upd_desc s1 i (\<lambda>fl. p # fl);
            let n = free_cnt ar + 1;
            let s3 = s2\<lparr>arenas := (arenas s2)(a \<mapsto> ar\<lparr>free_cnt := n\<rparr>)\<rparr>;
            if n \<ge> blocks_per_arena d then do {
              ASSERT (n = blocks_per_arena d);
              s4 \<leftarrow> remove_blocks (unat (blocks_per_arena d)) 0 i a s3;
              pl \<leftarrow> palloc_free_page (pal s4) a;
              Some (s4\<lparr>pal := pl, arenas := (arenas s4)(a := None)\<rparr>)
            } else Some s3
          }
        | None \<Rightarrow> do {
            pl \<leftarrow> palloc_free_multiple (pal s) a (free_cnt ar);
            Some (s\<lparr>pal := pl, arenas := (arenas s)(a := None)\<rparr>)
          }
      })"

definition realloc :: "mstate \<Rightarrow> addr \<Rightarrow> u32 \<Rightarrow> (addr \<times> mstate) option" where
  "realloc s old_block new_size =
     (if new_size = 0 then do { s1 \<leftarrow> free s old_block; Some (0, s1) }
      else do {
        (new_block, s1) \<leftarrow> malloc s new_size;
        if old_block \<noteq> 0 \<and> new_block \<noteq> 0 then do {
          old_size \<leftarrow> block_size s1 old_block;
          let min_size = (if new_size < old_size then new_size else old_size);
          s2 \<leftarrow> free (set_ram s1 (mem_copy (ram (pal s1)) new_block old_block min_size)) old_block;
          Some (new_block, s2)
        } else Some (new_block, s1)
      })"

end
