(* ===== verification/Malloc_Proofs.thy ===== *)
theory Malloc_Proofs
  imports Malloc
begin

text \<open>
  Safety of \<open>malloc\<close> and \<open>free\<close>: the invariant that ties free lists, arena headers and the page
  allocator together, and the set of live blocks. Block sizes are \<open>16 * 2 ^ i\<close> for the seven
  descriptors \<open>i < 7\<close>.
\<close>

subsection \<open>Geometry of an arena\<close>

definition bsz :: "nat \<Rightarrow> nat" where "bsz i = 16 * 2 ^ i"

definition bpa :: "nat \<Rightarrow> nat" where "bpa i = 4084 div bsz i"

definition blk :: "addr \<Rightarrow> nat \<Rightarrow> nat \<Rightarrow> addr" where
  "blk a i j = a + of_nat (12 + j * bsz i)"

lemma bsz_pos: "0 < bsz i" by (simp add: bsz_def)

lemma bpa_le: "bpa i \<le> 4084"
  unfolding bpa_def by (rule div_le_dividend)

lemma bpa_pos:
  assumes "i < 7"
  shows "0 < bpa i"
proof -
  have "(2 :: nat) ^ i \<le> 2 ^ 6" using assms by (intro power_increasing) auto
  then have "bsz i \<le> 4084" by (simp add: bsz_def)
  then show ?thesis using bsz_pos [of i] by (simp add: bpa_def div_greater_zero_iff)
qed

lemma blk_fits:
  assumes "j < bpa i"
  shows "12 + j * bsz i + bsz i \<le> 4096"
proof -
  have "(j + 1) * bsz i \<le> bpa i * bsz i" using assms by (intro mult_le_mono1) simp
  also have "\<dots> \<le> 4084" unfolding bpa_def by (rule div_times_less_eq_dividend)
  finally show ?thesis by simp
qed

lemma aligned_unat: "pg_ofs a = 0 \<Longrightarrow> unat a = 4096 * unat (pg_no a)"
  using unat_pg_ofs [of a] by (auto simp: unat_pg_no)

lemma aligned_bound: "pg_ofs a = 0 \<Longrightarrow> unat a + 4096 \<le> 2 ^ 32"
  using aligned_unat [of a] pg_no_less [of a] by simp

lemma ofs_add:
  assumes "pg_ofs a = 0" "r < 4096"
  shows "unat (a + of_nat r) = unat a + r" "pg_round_down (a + of_nat r) = a" "pg_ofs (a + of_nat r) = of_nat r"
    "pg_no (a + of_nat r) = pg_no a"
proof -
  have r: "unat (of_nat r :: u32) = r" using assms(2) by (intro unat_of_nat_id) simp
  show u: "unat (a + of_nat r) = unat a + r"
    using aligned_bound [OF assms(1)] assms(2) r by (simp add: unat_plus_if')
  have a: "unat a = 4096 * unat (pg_no a)" by (rule aligned_unat [OF assms(1)])
  show "pg_round_down (a + of_nat r) = a"
    using assms(2) a by (simp add: word_unat_eq_iff unat_pg_round_down u)
  show "pg_ofs (a + of_nat r) = of_nat r"
    using assms(2) a r by (simp add: word_unat_eq_iff unat_pg_ofs u)
  show "pg_no (a + of_nat r) = pg_no a"
    using assms(2) a by (simp add: word_unat_eq_iff [of "pg_no (a + of_nat r)"] unat_pg_no [of "a + of_nat r"] u)
qed

lemma blk_facts:
  assumes "pg_ofs a = 0" "j < bpa i"
  shows "unat (blk a i j) = unat a + 12 + j * bsz i" "pg_round_down (blk a i j) = a"
    "pg_ofs (blk a i j) = of_nat (12 + j * bsz i)" "blk a i j \<noteq> 0"
proof -
  have r: "12 + j * bsz i < 4096" using blk_fits [OF assms(2)] bsz_pos [of i] by linarith
  note o = ofs_add [OF assms(1) r]
  show u: "unat (blk a i j) = unat a + 12 + j * bsz i" "pg_round_down (blk a i j) = a"
    "pg_ofs (blk a i j) = of_nat (12 + j * bsz i)" using o unfolding blk_def by simp_all
  show "blk a i j \<noteq> 0"
  proof
    assume "blk a i j = 0"
    then have "unat (blk a i j) = 0" by simp
    then show False using u(1) by simp
  qed
qed

lemma blk_inj:
  assumes "pg_ofs a = 0" "pg_ofs a' = 0" "j < bpa i" "j' < bpa i" "blk a i j = blk a' i j'"
  shows "a = a' \<and> j = j'"
proof -
  have "a = a'" using blk_facts(2) [OF assms(1,3)] blk_facts(2) [OF assms(2,4)] assms(5) by metis
  then have "j * bsz i = j' * bsz i"
    using blk_facts(1) [OF assms(1,3)] blk_facts(1) [OF assms(2,4)] assms(5) by auto
  then show ?thesis using \<open>a = a'\<close> bsz_pos [of i] by auto
qed

subsection \<open>Invariant\<close>

definition dshape :: "desc list \<Rightarrow> bool" where
  "dshape ds \<longleftrightarrow> length ds = 7 \<and>
     (\<forall>i < 7. unat (d_block_size (ds ! i)) = bsz i \<and> unat (blocks_per_arena (ds ! i)) = bpa i)"

definition pages :: "arena \<Rightarrow> u32" where
  "pages ar = (case a_desc ar of Some i \<Rightarrow> 1 | None \<Rightarrow> free_cnt ar)"

abbreviation fl :: "mstate \<Rightarrow> nat \<Rightarrow> addr list" where
  "fl s i \<equiv> free_list (descs s ! i)"

definition free_in :: "mstate \<Rightarrow> addr \<Rightarrow> nat \<Rightarrow> nat set" where
  "free_in s a i = {j. j < bpa i \<and> blk a i j \<in> set (fl s i)}"

definition arena_ok :: "mstate \<Rightarrow> addr \<Rightarrow> arena \<Rightarrow> bool" where
  "arena_ok s a ar \<longleftrightarrow> pg_ofs a = 0 \<and> palloc_legal (pg_no a, pages ar) (pal s) \<and>
     run_of (pg_no a, pages ar) \<subseteq> palloc_used (pal s) \<and>
     (\<forall>i. a_desc ar = Some i \<longrightarrow> i < 7 \<and> unat (free_cnt ar) = card (free_in s a i))"

definition arenas_apart :: "mstate \<Rightarrow> bool" where
  "arenas_apart s \<longleftrightarrow> (\<forall>a ar a' ar'. arenas s a = Some ar \<longrightarrow> arenas s a' = Some ar' \<longrightarrow> a \<noteq> a' \<longrightarrow>
     run_of (pg_no a, pages ar) \<inter> run_of (pg_no a', pages ar') = {})"

definition free_ok :: "mstate \<Rightarrow> nat \<Rightarrow> bool" where
  "free_ok s i \<longleftrightarrow> distinct (fl s i) \<and>
     (\<forall>p \<in> set (fl s i). \<exists>a ar j. arenas s a = Some ar \<and> a_desc ar = Some i \<and> j < bpa i \<and> p = blk a i j)"

definition minv0 :: "mstate \<Rightarrow> bool" where
  "minv0 s \<longleftrightarrow> palloc_inv (pal s) \<and> dshape (descs s) \<and>
     (\<forall>a ar. arenas s a = Some ar \<longrightarrow> arena_ok s a ar) \<and> arenas_apart s \<and> (\<forall>i < 7. free_ok s i)"

text \<open>Between calls no arena is entirely free: \<open>free\<close> gives such an arena back.\<close>

definition partly_used :: "mstate \<Rightarrow> addr \<Rightarrow> bool" where
  "partly_used s a \<longleftrightarrow> (\<forall>ar i. arenas s a = Some ar \<longrightarrow> a_desc ar = Some i \<longrightarrow> card (free_in s a i) < bpa i)"

definition minv :: "mstate \<Rightarrow> bool" where
  "minv s \<longleftrightarrow> minv0 s \<and> (\<forall>a. partly_used s a)"

text \<open>The blocks a client holds: their address and size.\<close>

definition live :: "mstate \<Rightarrow> addr \<Rightarrow> nat \<Rightarrow> bool" where
  "live s p n \<longleftrightarrow> (\<exists>a ar. arenas s a = Some ar \<and>
     (case a_desc ar of
        Some i \<Rightarrow> n = bsz i \<and> (\<exists>j < bpa i. p = blk a i j \<and> p \<notin> set (fl s i))
      | None \<Rightarrow> p = a + 12 \<and> n + 12 = 4096 * unat (free_cnt ar)))"

lemma live_small:
  "arenas s a = Some ar \<Longrightarrow> a_desc ar = Some i \<Longrightarrow> j < bpa i \<Longrightarrow> blk a i j \<notin> set (fl s i) \<Longrightarrow>
   live s (blk a i j) (bsz i)"
  by (auto simp: live_def intro!: exI [of _ a])

lemma live_big:
  "arenas s a = Some ar \<Longrightarrow> a_desc ar = None \<Longrightarrow> n + 12 = 4096 * unat (free_cnt ar) \<Longrightarrow> live s (a + 12) n"
  by (auto simp: live_def intro!: exI [of _ a])

lemma live_cases:
  assumes "live s p n"
  obtains (small) a ar i j where "arenas s a = Some ar" "a_desc ar = Some i" "j < bpa i" "p = blk a i j"
      "n = bsz i" "p \<notin> set (fl s i)"
  | (big) a ar where "arenas s a = Some ar" "a_desc ar = None" "p = a + 12" "n + 12 = 4096 * unat (free_cnt ar)"
proof -
  obtain a ar where a: "arenas s a = Some ar" and l: "case a_desc ar of
        Some i \<Rightarrow> n = bsz i \<and> (\<exists>j < bpa i. p = blk a i j \<and> p \<notin> set (fl s i))
      | None \<Rightarrow> p = a + 12 \<and> n + 12 = 4096 * unat (free_cnt ar)"
    using assms by (auto simp: live_def)
  then show thesis using small big by (cases "a_desc ar") auto
qed

text \<open>The bytes of an arena behind its header.\<close>

lemma live_in_arena:
  assumes "arena_ok s a ar"
    and "case a_desc ar of
        Some i \<Rightarrow> n = bsz i \<and> (\<exists>j < bpa i. p = blk a i j \<and> p \<notin> set (fl s i))
      | None \<Rightarrow> p = a + 12 \<and> n + 12 = 4096 * unat (free_cnt ar)"
  shows "span_of p n \<subseteq> {unat a ..< unat a + 4096 * unat (pages ar)}"
proof (cases "a_desc ar")
  case None
  have "unat p = unat a + 12"
    using ofs_add(1) [of a 12] assms None by (simp add: arena_ok_def)
  then show ?thesis using assms None by (simp add: span_of_def pages_def)
next
  case (Some i)
  then obtain j where "n = bsz i" "j < bpa i" "p = blk a i j" using assms(2) by auto
  then show ?thesis
    using blk_facts(1) [of a j i] blk_fits [of j i] assms(1) Some by (auto simp: span_of_def pages_def arena_ok_def)
qed

lemma span_pages:
  assumes "pg_ofs a = 0" "x \<in> {unat a ..< unat a + 4096 * unat c}"
  shows "x div 4096 \<in> run_of (pg_no a, c)"
  using assms aligned_unat [OF assms(1)] by (auto simp: run_of_def)

lemma live_disjoint:
  assumes inv: "minv0 s" and p: "live s p n" and q: "live s q m" and ne: "p \<noteq> q"
  shows "span_of p n \<inter> span_of q m = {}"
proof -
  obtain a ar where a: "arenas s a = Some ar" and la: "case a_desc ar of
        Some i \<Rightarrow> n = bsz i \<and> (\<exists>j < bpa i. p = blk a i j \<and> p \<notin> set (fl s i))
      | None \<Rightarrow> p = a + 12 \<and> n + 12 = 4096 * unat (free_cnt ar)"
    using p by (auto simp: live_def)
  obtain b br where b: "arenas s b = Some br" and lb: "case a_desc br of
        Some i \<Rightarrow> m = bsz i \<and> (\<exists>j < bpa i. q = blk b i j \<and> q \<notin> set (fl s i))
      | None \<Rightarrow> q = b + 12 \<and> m + 12 = 4096 * unat (free_cnt br)"
    using q by (auto simp: live_def)
  have oka: "arena_ok s a ar" and okb: "arena_ok s b br" using inv a b by (auto simp: minv0_def)
  note sa = live_in_arena [OF oka la] and sb = live_in_arena [OF okb lb]
  show ?thesis
  proof (cases "a = b")
    case False
    then have "run_of (pg_no a, pages ar) \<inter> run_of (pg_no b, pages br) = {}"
      using inv a b by (auto simp: minv0_def arenas_apart_def)
    moreover have "x div 4096 \<in> run_of (pg_no a, pages ar)" if "x \<in> span_of p n" for x
      using span_pages [of a x] sa that oka by (auto simp: arena_ok_def)
    moreover have "x div 4096 \<in> run_of (pg_no b, pages br)" if "x \<in> span_of q m" for x
      using span_pages [of b x] sb that okb by (auto simp: arena_ok_def)
    ultimately show ?thesis by blast
  next
    case True
    then have br: "br = ar" using a b by simp
    obtain i where i: "a_desc ar = Some i" using la lb ne True br by (cases "a_desc ar") auto
    obtain j k where j: "j < bpa i" "p = blk a i j" "n = bsz i" and k: "k < bpa i" "q = blk a i k" "m = bsz i"
      using la lb i br True by auto
    have al: "pg_ofs a = 0" using oka by (simp add: arena_ok_def)
    have "j \<noteq> k" using ne j k by auto
    then have "j + 1 \<le> k \<or> k + 1 \<le> j" by linarith
    then have "(j + 1) * bsz i \<le> k * bsz i \<or> (k + 1) * bsz i \<le> j * bsz i" by (metis mult_le_mono1)
    then show ?thesis
      using blk_facts(1) [OF al j(1)] blk_facts(1) [OF al k(1)] j k by (auto simp: span_of_def)
  qed
qed

subsection \<open>Taking a block\<close>

lemma upd_desc_simps [simp]:
  "arenas (upd_desc s i f) = arenas s" "pal (upd_desc s i f) = pal s"
  "length (descs (upd_desc s i f)) = length (descs s)"
  by (simp_all add: upd_desc_def)

lemma set_ram_simps [simp]:
  "descs (set_ram s m) = descs s" "arenas (set_ram s m) = arenas s" "pal (set_ram s m) = (pal s)\<lparr>ram := m\<rparr>"
  by (simp_all add: set_ram_def)

lemma upd_desc_nth:
  "i < length (descs s) \<Longrightarrow> k < length (descs s) \<Longrightarrow> descs (upd_desc s i f) ! k =
     (if k = i then (descs s ! i)\<lparr>free_list := f (fl s i)\<rparr> else descs s ! k)"
  by (simp add: upd_desc_def)

lemma dshape_upd: "dshape (descs s) \<Longrightarrow> i < 7 \<Longrightarrow> dshape (descs (upd_desc s i f))"
  by (simp add: dshape_def upd_desc_nth)

lemma minv0_D:
  assumes "minv0 s"
  shows "palloc_inv (pal s)" "dshape (descs s)" "arenas_apart s" "length (descs s) = 7"
    "\<And>a ar. arenas s a = Some ar \<Longrightarrow> arena_ok s a ar" "\<And>i. i < 7 \<Longrightarrow> free_ok s i"
  using assms by (auto simp: minv0_def dshape_def)

lemma block_to_arena_blk:
  assumes "minv0 s" "arenas s a = Some ar" "a_desc ar = Some i" "j < bpa i" "descs s' ! i = (descs s ! i)\<lparr>free_list := f\<rparr>"
    "arenas s' = arenas s"
  shows "block_to_arena s' (blk a i j) = Some (a, ar)"
proof -
  have ok: "pg_ofs a = 0" "i < 7" using minv0_D(5) [OF assms(1,2)] assms(3) by (auto simp: arena_ok_def)
  have "0 < unat (pg_no a)"
    using minv0_D(5) [OF assms(1,2)] by (auto simp: arena_ok_def palloc_legal_def unat_gt_0)
  then have a0: "a \<noteq> 0" using aligned_unat [OF ok(1)] by auto
  have d: "unat (d_block_size (descs s ! i)) = bsz i" using minv0_D(2) [OF assms(1)] ok(2) by (simp add: dshape_def)
  have "pg_ofs (blk a i j) - sizeof_arena = of_nat (j * bsz i)"
    using blk_facts(3) [OF ok(1) assms(4)] by (simp add: sizeof_arena_def)
  moreover have "unat (of_nat (j * bsz i) :: u32) = j * bsz i"
    using blk_fits [OF assms(4)] by (intro unat_of_nat_id) simp
  ultimately have "(pg_ofs (blk a i j) - sizeof_arena) mod d_block_size (descs s ! i) = 0"
    using d by (simp add: word_unat_eq_iff unat_mod del: of_nat_mult)
  then show ?thesis
    using blk_facts(2) [OF ok(1) assms(4)] a0 assms(2,3,5,6) by (simp add: block_to_arena_def Let_def)
qed

lemma card_free_in: "card (free_in s a i) \<le> bpa i"
proof -
  have "free_in s a i \<subseteq> {..< bpa i}" by (auto simp: free_in_def)
  then show ?thesis by (metis card_lessThan card_mono finite_lessThan)
qed

lemma finite_free_in [simp]: "finite (free_in s a i)"
  by (simp add: free_in_def)

text \<open>
  A change of the free list of descriptor \<open>i\<close> together with the count of one of its arenas \<open>a\<close> keeps
  the invariant when the two agree.
\<close>

lemma minv0_update:
  assumes inv: "minv0 s" and a: "arenas s a = Some ar" "a_desc ar = Some i"
    and s': "arenas s' = (arenas s)(a \<mapsto> ar\<lparr>free_cnt := c\<rparr>)" "pal s' = (pal s)\<lparr>ram := m\<rparr>"
      "\<And>k. k < 7 \<Longrightarrow> k \<noteq> i \<Longrightarrow> descs s' ! k = descs s ! k" "dshape (descs s')"
    and f: "distinct (fl s' i)" "\<And>b j. pg_ofs b = 0 \<Longrightarrow> b \<noteq> a \<Longrightarrow> j < bpa i \<Longrightarrow> (blk b i j \<in> set (fl s' i)) = (blk b i j \<in> set (fl s i))"
      "\<And>p. p \<in> set (fl s' i) \<Longrightarrow> p \<notin> set (fl s i) \<Longrightarrow> \<exists>j < bpa i. p = blk a i j"
      "unat c = card (free_in s' a i)"
  shows "minv0 s'" "\<And>b. b \<noteq> a \<Longrightarrow> partly_used s b \<Longrightarrow> partly_used s' b"
proof -
  note D = minv0_D [OF inv]
  have i: "i < 7" and al: "pg_ofs a = 0" using D(5) [OF a(1)] a(2) by (auto simp: arena_ok_def)
  have desc': "a_desc br' = a_desc br \<and> pages br' = pages br \<and> arena_ok s b br"
    if "arenas s' b = Some br'" "arenas s b = Some br" for b br br'
    using that s'(1) a D(5) [OF that(2)] by (auto simp: pages_def split: if_splits)
  have other: "free_in s' b k = free_in s b k" if "pg_ofs b = 0" "b \<noteq> a \<or> k \<noteq> i" "k < 7" for b k
    using that f(2) s'(3) by (cases "k = i") (auto simp: free_in_def)
  have pl: "palloc_inv (pal s')" "palloc_used (pal s') = palloc_used (pal s)" "palloc_legal r (pal s') = palloc_legal r (pal s)" for r
    using D(1) s'(2) by (auto simp: palloc_inv_def palloc_used_def palloc_legal_def)
  have ok': "arena_ok s' b br'" if b: "arenas s' b = Some br'" for b br'
  proof (cases "b = a")
    case True
    then show ?thesis
      using b s'(1) a f(4) i D(5) [OF a(1)] pl by (auto simp: arena_ok_def pages_def)
  next
    case False
    then have "arenas s b = Some br'" using b s'(1) by simp
    from D(5) [OF this] show ?thesis using other [of b] False pl by (auto simp: arena_ok_def)
  qed
  have "arenas_apart s'"
    unfolding arenas_apart_def
  proof (intro allI impI)
    fix b br c' cr assume h: "arenas s' b = Some br" "arenas s' c' = Some cr" "b \<noteq> c'"
    obtain br0 where br0: "arenas s b = Some br0" using h(1) s'(1) a by (cases "b = a") auto
    obtain cr0 where cr0: "arenas s c' = Some cr0" using h(2) s'(1) a by (cases "c' = a") auto
    have "run_of (pg_no b, pages br0) \<inter> run_of (pg_no c', pages cr0) = {}"
      using D(3) br0 cr0 h(3) unfolding arenas_apart_def by blast
    then show "run_of (pg_no b, pages br) \<inter> run_of (pg_no c', pages cr) = {}"
      using desc' [OF h(1) br0] desc' [OF h(2) cr0] by simp
  qed
  moreover have "free_ok s' k" if "k < 7" for k
  proof (cases "k = i")
    case True
    have "\<exists>b br j. arenas s' b = Some br \<and> a_desc br = Some i \<and> j < bpa i \<and> p = blk b i j"
      if p: "p \<in> set (fl s' i)" for p
    proof (cases "p \<in> set (fl s i)")
      case True
      then obtain b br j where b: "arenas s b = Some br" "a_desc br = Some i" "j < bpa i" "p = blk b i j"
        using D(6) [OF i] by (auto simp: free_ok_def)
      then show ?thesis using s'(1) a by (cases "b = a") auto
    next
      case False
      then obtain j where "j < bpa i" "p = blk a i j" using f(3) p by blast
      then show ?thesis using s'(1) a by auto
    qed
    then show ?thesis using True f(1) by (simp add: free_ok_def)
  next
    case False
    have "\<exists>b br j. arenas s' b = Some br \<and> a_desc br = Some k \<and> j < bpa k \<and> p = blk b k j"
      if p: "p \<in> set (fl s k)" for p
    proof -
      obtain b br j where "arenas s b = Some br" "a_desc br = Some k" "j < bpa k" "p = blk b k j"
        using D(6) [OF \<open>k < 7\<close>] p by (auto simp: free_ok_def)
      then show ?thesis using s'(1) a False by (cases "b = a") auto
    qed
    then show ?thesis using False s'(3) \<open>k < 7\<close> D(6) [OF \<open>k < 7\<close>] by (simp add: free_ok_def)
  qed
  ultimately show "minv0 s'" using ok' pl(1) s'(4) by (simp add: minv0_def)
  show "partly_used s' b" if "b \<noteq> a" "partly_used s b" for b
    using that s'(1) other [of b] D(5) [of b] by (auto simp: partly_used_def arena_ok_def)
qed

lemma take_block_ok:
  assumes inv: "minv0 s" and i: "i < 7" and fl: "fl s i = b # rest"
    and pu: "\<And>a. a \<noteq> pg_round_down b \<Longrightarrow> partly_used s a"
  shows "\<exists>s'. take_block s i = Some (b, s') \<and> minv s' \<and> \<not> live s b n \<and> b \<noteq> 0 \<and>
    (\<forall>q m. live s' q m \<longleftrightarrow> live s q m \<or> (q = b \<and> m = bsz i))"
proof -
  note D = minv0_D [OF inv]
  have fo: "free_ok s i" using D(6) [OF i] .
  obtain a ar j where a: "arenas s a = Some ar" "a_desc ar = Some i" and j: "j < bpa i" "b = blk a i j"
    using fo fl by (auto simp: free_ok_def)
  have al: "pg_ofs a = 0" and cnt: "unat (free_cnt ar) = card (free_in s a i)"
    using D(5) [OF a(1)] a(2) by (auto simp: arena_ok_def)
  have pg: "pg_round_down b = a" using blk_facts(2) [OF al j(1)] j(2) by simp
  let ?s1 = "upd_desc s i (\<lambda>_. rest)"
  let ?s = "?s1\<lparr>arenas := (arenas s)(a \<mapsto> ar\<lparr>free_cnt := free_cnt ar - 1\<rparr>)\<rparr>"
  have "block_to_arena ?s1 b = Some (a, ar)"
    using block_to_arena_blk [OF inv a j(1), of ?s1 rest] i D(4) j(2) by (simp add: upd_desc_nth)
  then have t: "take_block s i = Some (b, ?s)" using fl by (simp add: take_block_def Let_def)
  have fl': "fl ?s i = rest" and oth: "\<And>k. k < 7 \<Longrightarrow> k \<noteq> i \<Longrightarrow> descs ?s ! k = descs s ! k"
    using i D(4) upd_desc_nth [of i s] by simp_all
  have d: "distinct (b # rest)" using fo fl by (simp add: free_ok_def)
  have fi: "free_in ?s a i = free_in s a i - {j}"
  proof -
    have "blk a i k \<in> set rest \<longleftrightarrow> blk a i k \<in> set (b # rest) \<and> k \<noteq> j" if "k < bpa i" for k
      using d j blk_inj [OF al al that j(1)] by auto
    then show ?thesis unfolding free_in_def fl' fl by auto
  qed
  have jin: "j \<in> free_in s a i" using j fl by (simp add: free_in_def)
  then have pos: "0 < card (free_in s a i)" by (metis card_gt_0_iff empty_iff finite_free_in)
  have c: "unat (free_cnt ar - 1) = card (free_in ?s a i)"
    using fi jin cnt pos by (subst unat_minus_one) (auto simp: unat_eq_zero [symmetric])
  have upd: "minv0 ?s" "\<And>x. x \<noteq> a \<Longrightarrow> partly_used s x \<Longrightarrow> partly_used ?s x"
  proof -
    have "dshape (descs ?s)" using dshape_upd [OF D(2) i] by simp
    moreover have "pal ?s = (pal s)\<lparr>ram := ram (pal s)\<rparr>" by simp
    moreover have "(blk x i k \<in> set (fl ?s i)) = (blk x i k \<in> set (fl s i))"
      if "pg_ofs x = 0" "x \<noteq> a" "k < bpa i" for x k
      using that blk_inj [OF that(1) al that(3) j(1)] j(2) fl fl' by auto
    moreover have "p \<in> set (fl s i)" if "p \<in> set (fl ?s i)" for p using that fl fl' by simp
    ultimately show "minv0 ?s" "\<And>x. x \<noteq> a \<Longrightarrow> partly_used s x \<Longrightarrow> partly_used ?s x"
      using minv0_update [OF inv a, of ?s "free_cnt ar - 1" "ram (pal s)"] oth d fl' c by auto
  qed
  have "card (free_in ?s a i) < bpa i" using fi jin pos card_free_in [of s a i] by simp
  then have "partly_used ?s a" using a by (simp add: partly_used_def)
  then have "partly_used ?s x" for x using upd(2) [of x] pu [of x] pg by (cases "x = a") auto
  then have mi: "minv ?s" using upd(1) by (simp add: minv_def)
  have al': "pg_ofs x = 0 \<and> (\<forall>k. a_desc xr = Some k \<longrightarrow> k < 7)" if "arenas s x = Some xr" for x xr
    using D(5) [OF that] by (auto simp: arena_ok_def)
  have nl: "\<not> live s b n"
  proof
    assume "live s b n"
    then show False
    proof (cases rule: live_cases)
      case (small x xr k l)
      then have "x = a" using blk_facts(2) [of x l k] al' [OF small(1)] pg by simp
      then show False using small a fl by simp
    next
      case (big x xr)
      then have "x = a" using ofs_add(2) [of x 12] al' [OF big(1)] pg by simp
      then show False using big a by simp
    qed
  qed
  have lv: "live ?s q m \<longleftrightarrow> live s q m \<or> (q = b \<and> m = bsz i)" for q m
  proof
    assume "live ?s q m"
    then show "live s q m \<or> (q = b \<and> m = bsz i)"
    proof (cases rule: live_cases)
      case (small x xr k l)
      obtain xr0 where x0: "arenas s x = Some xr0" "a_desc xr0 = Some k"
        using small(1,2) a by (cases "x = a") auto
      have "q \<in> set (fl s k) \<longrightarrow> q = b \<and> k = i"
        using small(6) oth [of k] al' [OF x0(1)] x0(2) fl fl' by (cases "k = i") auto
      then show ?thesis using live_small [OF x0 small(3)] small(4,5) by auto
    next
      case (big x xr)
      then have "arenas s x = Some xr" using a by (cases "x = a") auto
      then show ?thesis using live_big big by blast
    qed
  next
    assume h: "live s q m \<or> (q = b \<and> m = bsz i)"
    have new: "live ?s b (bsz i)"
    proof -
      have "arenas ?s a = Some (ar\<lparr>free_cnt := free_cnt ar - 1\<rparr>)" "a_desc (ar\<lparr>free_cnt := free_cnt ar - 1\<rparr>) = Some i"
        using a by simp_all
      then show ?thesis using live_small [of ?s a _ i j] j d fl' by simp
    qed
    have "live ?s q m" if "live s q m"
      using that
    proof (cases rule: live_cases)
      case (small x xr k l)
      obtain xr1 where x1: "arenas ?s x = Some xr1" "a_desc xr1 = Some k"
        using small(1,2) a by (cases "x = a") auto
      have "q \<notin> set (fl ?s k)"
        using small(6) oth [of k] al' [OF small(1)] small(2) fl fl' by (cases "k = i") auto
      then show ?thesis using live_small [OF x1 small(3)] small(4,5) by simp
    next
      case (big x xr)
      then have "arenas ?s x = Some xr" using a by (cases "x = a") auto
      then show ?thesis using live_big big by blast
    qed
    then show "live ?s q m" using h new by blast
  qed
  have "b \<noteq> 0" using blk_facts(4) [OF al j(1)] j(2) by simp
  then show ?thesis using t mi nl lv by blast
qed

subsection \<open>A new arena\<close>

lemma run_nonempty: "c \<noteq> 0 \<Longrightarrow> unat n \<in> run_of (n, c)"
  by (simp add: run_of_def unat_gt_0)

lemma minv0_add_arena:
  assumes inv: "minv0 s" and al: "pg_ofs a = 0"
    and fresh: "run_of (pg_no a, pages ar) \<inter> palloc_used (pal s) = {}"
    and p: "palloc_inv (pal s')" "palloc_used (pal s') = palloc_used (pal s) \<union> run_of (pg_no a, pages ar)"
      "\<And>r. palloc_legal r (pal s) \<Longrightarrow> palloc_legal r (pal s')" "palloc_legal (pg_no a, pages ar) (pal s')"
    and s': "arenas s' = (arenas s)(a \<mapsto> ar)" "dshape (descs s')"
    and f: "\<And>k b j. k < 7 \<Longrightarrow> pg_ofs b = 0 \<Longrightarrow> b \<noteq> a \<Longrightarrow> j < bpa k \<Longrightarrow>
        (blk b k j \<in> set (fl s' k)) = (blk b k j \<in> set (fl s k))"
      "\<And>k. k < 7 \<Longrightarrow> distinct (fl s' k)"
      "\<And>k x. k < 7 \<Longrightarrow> x \<in> set (fl s' k) \<Longrightarrow>
        x \<in> set (fl s k) \<or> (a_desc ar = Some k \<and> (\<exists>j < bpa k. x = blk a k j))"
      "\<And>i. a_desc ar = Some i \<Longrightarrow> i < 7 \<and> unat (free_cnt ar) = card (free_in s' a i)"
  shows "minv0 s'" "arenas s a = None" "\<And>b. b \<noteq> a \<Longrightarrow> partly_used s b \<Longrightarrow> partly_used s' b"
proof -
  note D = minv0_D [OF inv]
  have c0: "pages ar \<noteq> 0" using p(4) by (simp add: palloc_legal_def)
  show na: "arenas s a = None"
  proof (rule ccontr)
    assume "arenas s a \<noteq> None"
    then obtain br where br: "arenas s a = Some br" by blast
    have "unat (pg_no a) \<in> run_of (pg_no a, pages br)"
      using D(5) [OF br] run_nonempty by (auto simp: arena_ok_def palloc_legal_def)
    then have "unat (pg_no a) \<in> palloc_used (pal s)" using D(5) [OF br] by (auto simp: arena_ok_def)
    then show False using fresh run_nonempty [OF c0] by blast
  qed
  have fi: "free_in s' b k = free_in s b k" if "pg_ofs b = 0" "b \<noteq> a" "k < 7" for b k
    using that f(1) by (auto simp: free_in_def)
  have "arena_ok s' b br" if "arenas s' b = Some br" for b br
  proof (cases "b = a")
    case True
    then show ?thesis using that s'(1) al p f(4) by (auto simp: arena_ok_def)
  next
    case False
    then have "arenas s b = Some br" using that s'(1) by simp
    from D(5) [OF this] show ?thesis using fi [of b] False p by (auto simp: arena_ok_def)
  qed
  moreover have "arenas_apart s'"
    unfolding arenas_apart_def
  proof (intro allI impI)
    fix b br c cr assume h: "arenas s' b = Some br" "arenas s' c = Some cr" "b \<noteq> c"
    have old: "run_of (pg_no x, pages xr) \<subseteq> palloc_used (pal s)" if "arenas s' x = Some xr" "x \<noteq> a" for x xr
      using D(5) [of x xr] that s'(1) by (auto simp: arena_ok_def)
    consider "b = a" "c \<noteq> a" | "b \<noteq> a" "c = a" | "b \<noteq> a" "c \<noteq> a" using h(3) by blast
    then show "run_of (pg_no b, pages br) \<inter> run_of (pg_no c, pages cr) = {}"
    proof cases
      case 1
      then show ?thesis using h s'(1) old [OF h(2)] fresh by auto
    next
      case 2
      then show ?thesis using h s'(1) old [OF h(1)] fresh by auto
    next
      case 3
      then show ?thesis using h s'(1) D(3) by (auto simp: arenas_apart_def)
    qed
  qed
  moreover have "free_ok s' k" if k: "k < 7" for k
  proof -
    have "\<exists>b br j. arenas s' b = Some br \<and> a_desc br = Some k \<and> j < bpa k \<and> x = blk b k j" if x: "x \<in> set (fl s' k)" for x
    proof (cases "x \<in> set (fl s k)")
      case True
      then obtain b br j where "arenas s b = Some br" "a_desc br = Some k" "j < bpa k" "x = blk b k j"
        using D(6) [OF k] by (auto simp: free_ok_def)
      then show ?thesis using s'(1) na by (cases "b = a") auto
    next
      case False
      then show ?thesis using f(3) [OF k x] s'(1) by auto
    qed
    then show ?thesis using f(2) [OF k] by (simp add: free_ok_def)
  qed
  ultimately show "minv0 s'" using p(1) s'(2) by (simp add: minv0_def)
  show "partly_used s' b" if "b \<noteq> a" "partly_used s b" for b
    using that s'(1) fi [of b] D(5) [of b] by (auto simp: partly_used_def arena_ok_def)
qed

lemma upd_desc_upd: "i < length (descs s) \<Longrightarrow> upd_desc (upd_desc s i f) i g = upd_desc s i (\<lambda>l. g (f l))"
  by (simp add: upd_desc_def)

lemma upd_desc_id: "i < length (descs s) \<Longrightarrow> upd_desc s i (\<lambda>l. l) = s"
  by (simp add: upd_desc_def)

lemma arena_to_block_blk:
  assumes "dshape (descs s)" "i < 7" "arenas s a = Some ar" "a_desc ar = Some i" "a \<noteq> 0" "k < bpa i"
  shows "arena_to_block s a (of_nat k) = Some (blk a i k)"
proof -
  have u: "unat (d_block_size (descs s ! i)) = bsz i" and n: "unat (blocks_per_arena (descs s ! i)) = bpa i"
    using assms(1,2) by (auto simp: dshape_def)
  have d: "d_block_size (descs s ! i) = of_nat (bsz i)" unfolding u [symmetric] by simp
  have "k < 2 ^ 32" using assms(6) bpa_le [of i] by simp
  then have "of_nat k < blocks_per_arena (descs s ! i)"
    using assms(6) n unat_of_nat_id [where 'a = 32, of k] by (simp add: word_less_nat_alt)
  then show ?thesis using assms d by (simp add: arena_to_block_def blk_def sizeof_arena_def)
qed

lemma add_blocks_upd:
  "dshape (descs s) \<Longrightarrow> i < 7 \<Longrightarrow> arenas s a = Some ar \<Longrightarrow> a_desc ar = Some i \<Longrightarrow> a \<noteq> 0 \<Longrightarrow> k + n \<le> bpa i \<Longrightarrow>
   add_blocks n (of_nat k) i a s = Some (upd_desc s i (\<lambda>l. l @ map (blk a i) [k..<k + n]))"
proof (induction n arbitrary: k s)
  case 0
  then show ?case using upd_desc_id [of i s] by (simp add: dshape_def)
next
  case (Suc n)
  let ?s = "upd_desc s i (\<lambda>l. l @ [blk a i k])"
  have "arena_to_block s a (of_nat k) = Some (blk a i k)"
    using arena_to_block_blk [OF Suc.prems(1-5), of k] Suc.prems(6) by simp
  moreover have "add_blocks n (of_nat (k + 1)) i a ?s = Some (upd_desc ?s i (\<lambda>l. l @ map (blk a i) [k + 1..<k + 1 + n]))"
    using Suc.IH [of ?s "k + 1"] Suc.prems dshape_upd [OF Suc.prems(1,2)] by simp
  moreover have "[k..<k + Suc n] = k # [k + 1..<k + 1 + n]" by (simp add: upt_conv_Cons)
  ultimately show ?case
    using Suc.prems upd_desc_upd [of i s] by (simp add: dshape_def add.commute [of 1])
qed

lemma remove_blocks_upd:
  "dshape (descs s) \<Longrightarrow> i < 7 \<Longrightarrow> arenas s a = Some ar \<Longrightarrow> a_desc ar = Some i \<Longrightarrow> a \<noteq> 0 \<Longrightarrow> pg_ofs a = 0 \<Longrightarrow>
   k + n \<le> bpa i \<Longrightarrow> distinct (fl s i) \<Longrightarrow> \<forall>j. k \<le> j \<longrightarrow> j < k + n \<longrightarrow> blk a i j \<in> set (fl s i) \<Longrightarrow>
   remove_blocks n (of_nat k) i a s = Some (upd_desc s i (filter (\<lambda>x. x \<notin> blk a i ` {k..<k + n})))"
proof (induction n arbitrary: k s)
  case 0
  then show ?case using upd_desc_id [of i s] by (simp add: dshape_def)
next
  case (Suc n)
  let ?s = "upd_desc s i (remove1 (blk a i k))"
  have len: "i < length (descs s)" using Suc.prems(1,2) by (simp add: dshape_def)
  have fl: "fl ?s i = remove1 (blk a i k) (fl s i)" using len by (simp add: upd_desc_nth)
  have at: "arena_to_block s a (of_nat k) = Some (blk a i k)"
    using arena_to_block_blk [OF Suc.prems(1-5), of k] Suc.prems(7) by simp
  have "blk a i j \<in> set (fl ?s i)" if "k + 1 \<le> j" "j < k + 1 + n" for j
  proof -
    have "blk a i j \<noteq> blk a i k" using blk_inj [of a a j i k] Suc.prems(6,7) that by auto
    then show ?thesis using fl Suc.prems(8,9) that by simp
  qed
  then have "remove_blocks n (of_nat (k + 1)) i a ?s =
      Some (upd_desc ?s i (filter (\<lambda>x. x \<notin> blk a i ` {k + 1..<k + 1 + n})))"
    using Suc.IH [of ?s "k + 1"] Suc.prems dshape_upd [OF Suc.prems(1,2)] fl by (simp add: distinct_remove1)
  moreover have "upd_desc ?s i (filter (\<lambda>x. x \<notin> blk a i ` {k + 1..<k + 1 + n})) =
      upd_desc s i (\<lambda>l. filter (\<lambda>x. x \<notin> blk a i ` {k + 1..<k + 1 + n}) (remove1 (blk a i k) l))"
    using upd_desc_upd [OF len] .
  moreover have "filter (\<lambda>x. x \<notin> blk a i ` {k + 1..<k + 1 + n}) (remove1 (blk a i k) (fl s i)) =
      filter (\<lambda>x. x \<notin> blk a i ` {k..<k + Suc n}) (fl s i)"
  proof -
    have "{k..<k + Suc n} = insert k {k + 1..<k + 1 + n}" by auto
    then show ?thesis by (simp add: distinct_remove1_removeAll [OF Suc.prems(8)] removeAll_filter_not_eq) (metis (mono_tags, lifting))
  qed
  then have "upd_desc s i (\<lambda>l. filter (\<lambda>x. x \<notin> blk a i ` {k + 1..<k + 1 + n}) (remove1 (blk a i k) l)) =
      upd_desc s i (filter (\<lambda>x. x \<notin> blk a i ` {k..<k + Suc n}))"
    by (simp add: upd_desc_def)
  moreover have "blk a i k \<in> set (fl s i)" using Suc.prems(9) by simp
  ultimately show ?case using at by (simp add: add.commute [of 1])
qed

subsection \<open>The allocation theorem\<close>

text \<open>The effect of a successful or failed allocation on the live blocks.\<close>

definition allocated :: "mstate \<Rightarrow> mstate \<Rightarrow> addr \<Rightarrow> nat \<Rightarrow> bool" where
  "allocated s s' p n \<longleftrightarrow> p \<noteq> 0 \<and> (\<forall>k. \<not> live s p k) \<and> (\<forall>q m. live s' q m \<longleftrightarrow> live s q m \<or> (q = p \<and> m = n))"

lemma pages_cases:
  assumes "palloc_inv pl" "c \<noteq> 0"
  obtains "palloc_get_multiple pl 0 c = Some (0, pl)"
  | a pl' where "palloc_get_multiple pl 0 c = Some (a, pl')" "a \<noteq> 0" "pg_ofs a = 0"
      "run_of (pg_no a, c) \<inter> palloc_used pl = {}" "palloc_used pl' = palloc_used pl \<union> run_of (pg_no a, c)"
      "palloc_inv pl'" "palloc_legal (pg_no a, c) pl'" "\<And>r. palloc_legal r pl \<Longrightarrow> palloc_legal r pl'"
proof (cases "has_room (sel_pool 0 pl) (unat c)")
  case False
  then show thesis using palloc_get_no_room [OF assms False] that(1) by simp
next
  case True
  from palloc_get_room [OF assms True] obtain a pl' where g: "palloc_get_multiple pl 0 c = Some (a, pl')" "a \<noteq> 0" "pg_ofs a = 0"
    "run_of (pg_no a, c) \<subseteq> pool_pages (sel_pool 0 pl)" "run_of (pg_no a, c) \<inter> palloc_used pl = {}"
    "palloc_used pl' = palloc_used pl \<union> run_of (pg_no a, c)" "palloc_inv pl'"
    "pool_pages (kernel_pool pl') = pool_pages (kernel_pool pl)" "pool_pages (user_pool pl') = pool_pages (user_pool pl)" by blast
  have "pg_no a \<noteq> 0" using page_addr_pg_no [OF g(3)] g(2) by (auto simp: page_addr_def)
  then have "palloc_legal (pg_no a, c) pl'"
    using g(4,8) assms(2) pg_no_less [of a] by (simp add: palloc_legal_def sel_pool_def)
  then show thesis using that(2) [OF g(1-3,5-7)] g(8,9) by (simp add: palloc_legal_def)
qed

lemma find_desc_bound: "find_desc ds sz = length ds \<or> (find_desc ds sz < length ds \<and> sz \<le> d_block_size (ds ! find_desc ds sz))"
  by (induction ds) auto

lemma big_size:
  assumes "c = DIV_ROUND_UP (sz + sizeof_arena) PGSIZE" "c \<noteq> 0" "unat sz + 12 < 2 ^ 32"
  shows "unat sz + 12 \<le> 4096 * unat c"
proof -
  have x: "unat (sz + 12) = unat sz + 12" using assms(3) by (simp add: unat_plus_if')
  have c: "unat c = unat (sz + 12 + 4095) div 4096"
    unfolding assms(1) DIV_ROUND_UP_def sizeof_arena_def PG_simps by (simp add: unat_div add_diff_eq [symmetric])
  have "unat c \<noteq> 0" using assms(2) by (simp add: unat_eq_zero)
  then have "4096 \<le> unat (sz + 12 + 4095)" using c by (metis div_less not_le)
  then have "unat (sz + 12 + 4095) = unat sz + 12 + 4095"
  proof -
    have "unat (sz + 12 + 4095) = (if unat sz + 12 + 4095 < 2 ^ 32 then unat sz + 12 + 4095
        else unat sz + 12 + 4095 - 2 ^ 32)"
      by (simp only: unat_plus_if' [of "sz + 12" 4095] x) simp
    then show ?thesis
      using \<open>4096 \<le> unat (sz + 12 + 4095)\<close> assms(3) by (auto split: if_splits)
  qed
  then show ?thesis using c round_up_ge [of "unat sz + 12"] by (simp add: mult.commute)
qed

lemma malloc_big:
  assumes inv: "minv s" and c: "c \<noteq> 0"
  shows "\<exists>a pl. palloc_get_multiple (pal s) 0 c = Some (a, pl) \<and>
    (if a = 0 then pl = pal s
     else let s' = s\<lparr>pal := pl, arenas := (arenas s)(a \<mapsto> \<lparr>a_desc = None, free_cnt = c\<rparr>)\<rparr> in
       minv s' \<and> allocated s s' (a + 12) (4096 * unat c - 12))"
proof (rule pages_cases [OF _ c])
  show "palloc_inv (pal s)" using inv by (simp add: minv_def minv0_def)
next
  assume "palloc_get_multiple (pal s) 0 c = Some (0, pal s)"
  then show ?thesis by simp
next
  fix a pl
  assume g: "palloc_get_multiple (pal s) 0 c = Some (a, pl)" "a \<noteq> 0" "pg_ofs a = 0"
    "run_of (pg_no a, c) \<inter> palloc_used (pal s) = {}" "palloc_used pl = palloc_used (pal s) \<union> run_of (pg_no a, c)"
    "palloc_inv pl" "palloc_legal (pg_no a, c) pl" "\<And>r. palloc_legal r (pal s) \<Longrightarrow> palloc_legal r pl"
  let ?ar = "\<lparr>a_desc = None, free_cnt = c\<rparr>"
  let ?s = "s\<lparr>pal := pl, arenas := (arenas s)(a \<mapsto> ?ar)\<rparr>"
  have i0: "minv0 s" using inv by (simp add: minv_def)
  have pg: "pages ?ar = c" by (simp add: pages_def)
  have new: "minv0 ?s" "arenas s a = None" "\<And>b. b \<noteq> a \<Longrightarrow> partly_used s b \<Longrightarrow> partly_used ?s b"
    using minv0_add_arena [OF i0 g(3), of ?ar ?s] g pg minv0_D [OF i0]
    by (auto simp: free_ok_def)
  have "partly_used ?s b" for b
  proof (cases "b = a")
    case False
    then show ?thesis using new(3) inv by (simp add: minv_def)
  qed (simp add: partly_used_def)
  then have mi: "minv ?s" using new(1) by (simp add: minv_def)
  have "0 < unat c" using c by (simp add: unat_gt_0)
  then have c12: "4096 * unat c - 12 + 12 = 4096 * unat c" by linarith
  have al12: "pg_round_down (x + 12) = x" "x + 12 \<noteq> 0" if "pg_ofs x = 0" for x
  proof -
    show "pg_round_down (x + 12) = x" using ofs_add(2) [OF that, of 12] by simp
    have "unat (x + 12) = unat x + 12" using ofs_add(1) [OF that, of 12] by simp
    then show "x + 12 \<noteq> 0" by auto
  qed
  have al: "pg_ofs x = 0" if "arenas s x = Some xr" for x xr
    using minv0_D(5) [OF i0 that] by (simp add: arena_ok_def)
  have nl: "\<not> live s (a + 12) k" for k
  proof
    assume "live s (a + 12) k"
    then show False
    proof (cases rule: live_cases)
      case (small x xr i j)
      then have "x = a" using blk_facts(2) [OF al [OF small(1)] small(3)] al12(1) [OF g(3)] by simp
      then show False using small(1) new(2) by simp
    next
      case (big x xr)
      then show False using new(2) by simp
    qed
  qed
  have lv: "live ?s q m \<longleftrightarrow> live s q m \<or> (q = a + 12 \<and> m = 4096 * unat c - 12)" for q m
  proof
    assume "live ?s q m"
    then show "live s q m \<or> (q = a + 12 \<and> m = 4096 * unat c - 12)"
    proof (cases rule: live_cases)
      case (small x xr i j)
      then have "arenas s x = Some xr" by (cases "x = a") auto
      then show ?thesis using live_small [of s x xr i j] small by simp
    next
      case (big x xr)
      then show ?thesis using live_big [of s x xr] by (cases "x = a") auto
    qed
  next
    assume "live s q m \<or> (q = a + 12 \<and> m = 4096 * unat c - 12)"
    moreover have "live ?s (a + 12) (4096 * unat c - 12)" using live_big [of ?s a ?ar] c12 by simp
    moreover have "live ?s q m" if "live s q m"
      using that
    proof (cases rule: live_cases)
      case (small x xr i j)
      then show ?thesis using live_small [of ?s x xr i j] new(2) by (cases "x = a") auto
    next
      case (big x xr)
      then show ?thesis using live_big [of ?s x xr] new(2) by (cases "x = a") auto
    qed
    ultimately show "live ?s q m" by blast
  qed
  have "allocated s ?s (a + 12) (4096 * unat c - 12)"
    using nl lv al12(2) [OF g(3)] by (simp add: allocated_def)
  then show ?thesis using g(1,2) mi by (auto simp: Let_def)
qed

lemma malloc_new_arena:
  assumes inv: "minv s" and i: "i < 7" and e: "fl s i = []"
  shows "\<exists>a pl. palloc_get_page (pal s) 0 = Some (a, pl) \<and>
    (if a = 0 then pl = pal s
     else \<exists>s3 p s'. add_blocks (unat (blocks_per_arena (descs s ! i))) 0 i a
         (s\<lparr>pal := pl, arenas := (arenas s)(a \<mapsto> \<lparr>a_desc = Some i, free_cnt = blocks_per_arena (descs s ! i)\<rparr>)\<rparr>) = Some s3 \<and>
       take_block s3 i = Some (p, s') \<and> minv s' \<and> allocated s s' p (bsz i))"
proof (rule pages_cases [of "pal s" 1])
  show "palloc_inv (pal s)" using inv by (simp add: minv_def minv0_def)
next
  assume "palloc_get_multiple (pal s) 0 1 = Some (0, pal s)"
  then show ?thesis by (simp add: palloc_get_page_def)
next
  fix a pl
  assume g: "palloc_get_multiple (pal s) 0 1 = Some (a, pl)" "a \<noteq> 0" "pg_ofs a = 0"
    "run_of (pg_no a, 1) \<inter> palloc_used (pal s) = {}" "palloc_used pl = palloc_used (pal s) \<union> run_of (pg_no a, 1)"
    "palloc_inv pl" "palloc_legal (pg_no a, 1) pl" "\<And>r. palloc_legal r (pal s) \<Longrightarrow> palloc_legal r pl"
  let ?n = "blocks_per_arena (descs s ! i)"
  let ?ar = "\<lparr>a_desc = Some i, free_cnt = ?n\<rparr>"
  let ?s2 = "s\<lparr>pal := pl, arenas := (arenas s)(a \<mapsto> ?ar)\<rparr>"
  let ?bs = "map (blk a i) [0..<bpa i]"
  let ?s3 = "upd_desc ?s2 i (\<lambda>l. l @ ?bs)"
  have i0: "minv0 s" using inv by (simp add: minv_def)
  note D = minv0_D [OF i0]
  have n: "unat ?n = bpa i" using D(2) i by (simp add: dshape_def)
  have s3: "add_blocks (unat ?n) 0 i a ?s2 = Some ?s3"
    using add_blocks_upd [of ?s2 i a ?ar 0 "bpa i"] D(2) i g(2) n by simp
  have fl3: "fl ?s3 i = ?bs" and oth: "\<And>k. k < 7 \<Longrightarrow> k \<noteq> i \<Longrightarrow> fl ?s3 k = fl s k"
    using i D(4) e upd_desc_nth [of i ?s2] by simp_all
  have inj: "inj_on (blk a i) {0..<bpa i}"
    by (rule inj_onI) (use blk_inj [OF g(3) g(3)] in auto)
  have fi: "free_in ?s3 a i = {..< bpa i}" unfolding free_in_def fl3 by auto
  have new: "minv0 ?s3" "arenas s a = None" "\<And>b. b \<noteq> a \<Longrightarrow> partly_used s b \<Longrightarrow> partly_used ?s3 b"
  proof -
    have A: "(blk b k j \<in> set (fl ?s3 k)) = (blk b k j \<in> set (fl s k))"
      if "k < 7" "pg_ofs b = 0" "b \<noteq> a" "j < bpa k" for k b j
      using that fl3 oth [of k] e blk_inj [OF that(2) g(3) that(4)] by (cases "k = i") (auto, blast)
    have B: "distinct (fl ?s3 k)" if "k < 7" for k
      using fl3 oth [OF that] D(6) [OF that] inj by (cases "k = i") (auto simp: distinct_map free_ok_def)
    have C: "x \<in> set (fl s k) \<or> (a_desc ?ar = Some k \<and> (\<exists>j < bpa k. x = blk a k j))"
      if "k < 7" "x \<in> set (fl ?s3 k)" for k x
      using that(2) fl3 oth [OF that(1)] by (cases "k = i") auto
    have pg: "pages ?ar = 1" by (simp add: pages_def)
    have ds: "dshape (descs ?s3)" using dshape_upd [of ?s2 i] D(2) i by simp
    have N: "k < 7 \<and> unat (free_cnt ?ar) = card (free_in ?s3 a k)" if "a_desc ?ar = Some k" for k
      using that i n fi by simp
    have pl: "pal ?s3 = pl" and ar: "arenas ?s3 = (arenas s)(a \<mapsto> ?ar)" by simp_all
    note add = minv0_add_arena [OF i0 g(3), of ?ar ?s3, unfolded pl pg, OF g(4,6,5,8,7) ar ds A B C N]
    show "minv0 ?s3" "arenas s a = None" using add(1,2) by auto
    show "\<And>b. b \<noteq> a \<Longrightarrow> partly_used s b \<Longrightarrow> partly_used ?s3 b" using add(3) by auto
  qed
  have live3: "live ?s3 q m \<longleftrightarrow> live s q m" for q m
  proof
    assume "live ?s3 q m"
    then show "live s q m"
    proof (cases rule: live_cases)
      case (small x xr k j)
      have xa: "x \<noteq> a"
      proof
        assume "x = a"
        then have "k = i" using small(1,2) by auto
        then show False using small \<open>x = a\<close> fl3 by auto
      qed
      then have x: "arenas s x = Some xr" using small(1) by simp
      then have "k < 7" using D(5) [OF x] small(2) by (simp add: arena_ok_def)
      then have "q \<notin> set (fl s k)" using small(6) oth [of k] e by (cases "k = i") auto
      then show ?thesis using live_small [OF x small(2,3)] small(4,5) by simp
    next
      case (big x xr)
      then show ?thesis using live_big [of s x xr] by (cases "x = a") auto
    qed
  next
    assume "live s q m"
    then show "live ?s3 q m"
    proof (cases rule: live_cases)
      case (small x xr k j)
      have xa: "x \<noteq> a" using small(1) new(2) by auto
      have ok: "pg_ofs x = 0" "k < 7" using D(5) [OF small(1)] small(2) by (auto simp: arena_ok_def)
      have "q \<notin> set (fl ?s3 k)"
        using small(3,4,6) oth [OF ok(2)] fl3 blk_inj [OF ok(1) g(3) small(3)] xa by (cases "k = i") (auto, blast)
      then show ?thesis using live_small [of ?s3 x xr k j] small xa by simp
    next
      case (big x xr)
      then show ?thesis using live_big [of ?s3 x xr] new(2) by (cases "x = a") auto
    qed
  qed
  have "0 < bpa i" by (rule bpa_pos [OF i])
  then obtain r where r: "fl ?s3 i = blk a i 0 # r" using fl3 by (simp add: upt_conv_Cons)
  have pu: "partly_used ?s3 b" if "b \<noteq> pg_round_down (blk a i 0)" for b
    using that new(3) inv blk_facts(2) [OF g(3) \<open>0 < bpa i\<close>] by (simp add: minv_def)
  have "\<exists>s'. take_block ?s3 i = Some (blk a i 0, s') \<and> minv s' \<and> allocated s s' (blk a i 0) (bsz i)"
  proof -
    obtain s' where t: "take_block ?s3 i = Some (blk a i 0, s')" "minv s'" "blk a i 0 \<noteq> 0"
      "\<forall>q m. live s' q m \<longleftrightarrow> live ?s3 q m \<or> (q = blk a i 0 \<and> m = bsz i)"
      using take_block_ok [OF new(1) i r pu] by blast
    have "\<not> live s (blk a i 0) k" for k using take_block_ok [OF new(1) i r pu, of k] live3 by blast
    then show ?thesis using t live3 by (auto simp: allocated_def)
  qed
  then show ?thesis using g(1,2) s3 by (auto simp: palloc_get_page_def)
qed simp

theorem malloc_ok:
  assumes inv: "minv s"
  shows "\<exists>p s'. malloc s sz = Some (p, s') \<and> minv s' \<and>
    (if p = 0 then s' = s
     else \<exists>n. allocated s s' p n \<and> (unat sz + 12 < 2 ^ 32 \<longrightarrow> unat sz \<le> n))"
proof (cases "sz = 0")
  case True
  then show ?thesis using inv by (simp add: malloc_def)
next
  case sz: False
  have i0: "minv0 s" using inv by (simp add: minv_def)
  note D = minv0_D [OF i0]
  let ?i = "find_desc (descs s) sz"
  consider (big) "?i = length (descs s)" | (small) "?i < 7" "sz \<le> d_block_size (descs s ! ?i)"
    using find_desc_bound [of "descs s" sz] D(4) by auto
  then show ?thesis
  proof cases
    case big
    let ?c = "DIV_ROUND_UP (sz + sizeof_arena) PGSIZE"
    show ?thesis
    proof (cases "?c = 0")
      case True
      then have "palloc_get_multiple (pal s) 0 ?c = Some (0, pal s)" by (simp add: palloc_get_multiple_def)
      then have "malloc s sz = Some (0, s)" using big sz by (simp add: malloc_def Let_def)
      then show ?thesis using inv by simp
    next
      case False
      obtain a pl where g: "palloc_get_multiple (pal s) 0 ?c = Some (a, pl)" "a = 0 \<longrightarrow> pl = pal s"
        "a \<noteq> 0 \<longrightarrow> minv (s\<lparr>pal := pl, arenas := (arenas s)(a \<mapsto> \<lparr>a_desc = None, free_cnt = ?c\<rparr>)\<rparr>) \<and>
           allocated s (s\<lparr>pal := pl, arenas := (arenas s)(a \<mapsto> \<lparr>a_desc = None, free_cnt = ?c\<rparr>)\<rparr>) (a + 12) (4096 * unat ?c - 12)"
        using malloc_big [OF inv False] by (auto simp: Let_def split: if_splits)
      have "unat sz \<le> 4096 * unat ?c - 12" if "unat sz + 12 < 2 ^ 32"
        using big_size [OF refl False that] by linarith
      then show ?thesis
        using g big sz inv by (cases "a = 0") (auto simp: malloc_def Let_def sizeof_arena_def allocated_def)
    qed
  next
    case small
    have le: "unat sz \<le> bsz ?i" using small D(2) by (simp add: dshape_def word_le_nat_alt)
    show ?thesis
    proof (cases "fl s ?i")
      case Nil
      from malloc_new_arena [OF inv small(1) Nil] obtain a pl where g: "palloc_get_page (pal s) 0 = Some (a, pl)"
        "a = 0 \<longrightarrow> pl = pal s" "a \<noteq> 0 \<longrightarrow> (\<exists>s3 p s'. add_blocks (unat (blocks_per_arena (descs s ! ?i))) 0 ?i a
         (s\<lparr>pal := pl, arenas := (arenas s)(a \<mapsto> \<lparr>a_desc = Some ?i, free_cnt = blocks_per_arena (descs s ! ?i)\<rparr>)\<rparr>) = Some s3 \<and>
          take_block s3 ?i = Some (p, s') \<and> minv s' \<and> allocated s s' p (bsz ?i))"
        by (auto split: if_splits)
      show ?thesis
      proof (cases "a = 0")
        case True
        then have "malloc s sz = Some (0, s)" using g(1,2) Nil small(1) sz D(4) by (simp add: malloc_def Let_def)
        then show ?thesis using inv by simp
      next
        case False
        then obtain s3 p s' where x: "add_blocks (unat (blocks_per_arena (descs s ! ?i))) 0 ?i a
         (s\<lparr>pal := pl, arenas := (arenas s)(a \<mapsto> \<lparr>a_desc = Some ?i, free_cnt = blocks_per_arena (descs s ! ?i)\<rparr>)\<rparr>) = Some s3"
          "take_block s3 ?i = Some (p, s')" "minv s'" "allocated s s' p (bsz ?i)" using g(3) by blast
        have "malloc s sz = Some (p, s')" using x(1,2) g(1) False Nil small(1) sz D(4) by (simp add: malloc_def Let_def)
        moreover have "p \<noteq> 0" using x(4) by (simp add: allocated_def)
        ultimately show ?thesis using x(3,4) le by auto
      qed
    next
      case (Cons b r)
      have pu: "partly_used s x" for x using inv by (simp add: minv_def)
      obtain s' where t: "take_block s ?i = Some (b, s')" "minv s'" "b \<noteq> 0"
        "\<forall>q m. live s' q m \<longleftrightarrow> live s q m \<or> (q = b \<and> m = bsz ?i)"
        using take_block_ok [OF i0 small(1) Cons pu] by blast
      have "\<not> live s b k" for k using take_block_ok [OF i0 small(1) Cons pu, of k] by blast
      then have "allocated s s' b (bsz ?i)" using t by (simp add: allocated_def)
      then show ?thesis using t Cons small(1) sz D(4) le by (auto simp: malloc_def Let_def)
    qed
  qed
qed

subsection \<open>The release theorem\<close>

lemma arena_nonzero:
  assumes "minv0 s" "arenas s a = Some ar"
  shows "a \<noteq> 0"
proof -
  have ok: "arena_ok s a ar" using minv0_D(5) [OF assms] .
  have "0 < unat (pg_no a)" using ok by (auto simp: arena_ok_def palloc_legal_def unat_gt_0)
  then show ?thesis using ok aligned_unat [of a] by (auto simp: arena_ok_def)
qed

lemma live_arena:
  assumes "minv0 s" "arenas s a = Some ar" "live s q m"
  shows "pg_round_down q = a \<longleftrightarrow> (\<exists>i j. a_desc ar = Some i \<and> j < bpa i \<and> q = blk a i j) \<or> (a_desc ar = None \<and> q = a + 12)"
  using assms(3)
proof (cases rule: live_cases)
  case (small x xr i j)
  have "pg_ofs x = 0" using minv0_D(5) [OF assms(1) small(1)] by (simp add: arena_ok_def)
  then have q: "pg_round_down q = x" using blk_facts(2) small by simp
  have al: "pg_ofs a = 0" using minv0_D(5) [OF assms(1,2)] by (simp add: arena_ok_def)
  have "pg_round_down (blk a k l) = a" if "l < bpa k" for k l using blk_facts(2) [OF al that] .
  moreover have "pg_round_down (a + 12) = a" using ofs_add(2) [OF al, of 12] by simp
  ultimately show ?thesis using q small assms(2) by auto
next
  case (big x xr)
  have "pg_ofs x = 0" using minv0_D(5) [OF assms(1) big(1)] by (simp add: arena_ok_def)
  then have q: "pg_round_down q = x" using ofs_add(2) [of x 12] big by simp
  have al: "pg_ofs a = 0" using minv0_D(5) [OF assms(1,2)] by (simp add: arena_ok_def)
  have "pg_round_down (blk a k l) = a" if "l < bpa k" for k l using blk_facts(2) [OF al that] .
  then show ?thesis using q big assms(2) by auto
qed

text \<open>An arena is taken out: what remains is the heap without its blocks.\<close>

lemma minv0_drop_arena:
  assumes inv: "minv0 s" and a: "arenas s a = Some ar"
    and p: "palloc_inv (pal s')" "palloc_used (pal s') = palloc_used (pal s) - run_of (pg_no a, pages ar)"
      "\<And>r. palloc_legal r (pal s) \<Longrightarrow> palloc_legal r (pal s')"
    and s': "arenas s' = (arenas s)(a := None)" "dshape (descs s')"
    and f: "\<And>k. k < 7 \<Longrightarrow> set (fl s' k) = {x \<in> set (fl s k). pg_round_down x \<noteq> a}" "\<And>k. k < 7 \<Longrightarrow> distinct (fl s' k)"
  shows "minv0 s'" "\<And>b. partly_used s b \<Longrightarrow> partly_used s' b" "live s' q m \<longleftrightarrow> live s q m \<and> pg_round_down q \<noteq> a"
proof -
  note D = minv0_D [OF inv]
  have al: "pg_ofs b = 0" if "arenas s b = Some br" for b br using D(5) [OF that] by (simp add: arena_ok_def)
  have mem: "blk b k j \<in> set (fl s' k) \<longleftrightarrow> blk b k j \<in> set (fl s k)" if "k < 7" "pg_ofs b = 0" "b \<noteq> a" "j < bpa k" for b k j
    using f(1) [OF that(1)] blk_facts(2) [OF that(2,4)] that(3) by simp
  then have fi: "free_in s' b k = free_in s b k" if "pg_ofs b = 0" "b \<noteq> a" "k < 7" for b k
    using that by (auto simp: free_in_def)
  have old: "arenas s b = Some br \<and> b \<noteq> a" if "arenas s' b = Some br" for b br
    using that s'(1) by (auto split: if_splits)
  have "arena_ok s' b br" if "arenas s' b = Some br" for b br
  proof -
    have b: "arenas s b = Some br" "b \<noteq> a" using old [OF that] by auto
    have "run_of (pg_no b, pages br) \<inter> run_of (pg_no a, pages ar) = {}"
      using D(3) b a unfolding arenas_apart_def by blast
    then show ?thesis using D(5) [OF b(1)] p(2,3) fi [OF al [OF b(1)] b(2)] by (auto simp: arena_ok_def)
  qed
  moreover have "arenas_apart s'" using D(3) old unfolding arenas_apart_def by blast
  moreover have "free_ok s' k" if k: "k < 7" for k
  proof -
    have "\<exists>b br j. arenas s' b = Some br \<and> a_desc br = Some k \<and> j < bpa k \<and> x = blk b k j" if x: "x \<in> set (fl s' k)" for x
    proof -
      obtain b br j where b: "arenas s b = Some br" "a_desc br = Some k" "j < bpa k" "x = blk b k j"
        using D(6) [OF k] x f(1) [OF k] by (auto simp: free_ok_def)
      moreover have "b \<noteq> a" using x f(1) [OF k] blk_facts(2) [OF al [OF b(1)] b(3)] b(4) by auto
      ultimately show ?thesis using s'(1) by auto
    qed
    then show ?thesis using f(2) [OF k] by (simp add: free_ok_def)
  qed
  ultimately show "minv0 s'" using p(1) s'(2) by (simp add: minv0_def)
  show "partly_used s' b" if "partly_used s b" for b
    using that old fi [of b] D(5) [of b] by (fastforce simp: partly_used_def arena_ok_def)
  show "live s' q m \<longleftrightarrow> live s q m \<and> pg_round_down q \<noteq> a"
  proof
    assume "live s' q m"
    then show "live s q m \<and> pg_round_down q \<noteq> a"
    proof (cases rule: live_cases)
      case (small x xr k j)
      have x: "arenas s x = Some xr" "x \<noteq> a" using old [OF small(1)] by auto
      have "k < 7" using D(5) [OF x(1)] small(2) by (simp add: arena_ok_def)
      then have "live s q m"
        using live_small [OF x(1) small(2,3)] mem [of k x j] al [OF x(1)] x(2) small(3-6) by simp
      then show ?thesis using small(3,4) x blk_facts(2) [OF al [OF x(1)]] by simp
    next
      case (big x xr)
      have x: "arenas s x = Some xr" "x \<noteq> a" using old [OF big(1)] by auto
      have "pg_round_down q = x" using ofs_add(2) [OF al [OF x(1)], of 12] big(3) by simp
      then show ?thesis using live_big [OF x(1) big(2,4)] x big(3) by simp
    qed
  next
    assume l: "live s q m \<and> pg_round_down q \<noteq> a"
    then have "live s q m" ..
    then show "live s' q m"
    proof (cases rule: live_cases)
      case (small x xr k j)
      have x: "x \<noteq> a" using l small(3,4) blk_facts(2) [OF al [OF small(1)]] by auto
      have "k < 7" using D(5) [OF small(1)] small(2) by (simp add: arena_ok_def)
      then show ?thesis using live_small [of s' x xr k j] f(1) [of k] small x s'(1) by simp
    next
      case (big x xr)
      have x: "x \<noteq> a" using l big(3) ofs_add(2) [OF al [OF big(1)], of 12] by auto
      then show ?thesis using live_big [of s' x xr] big s'(1) by simp
    qed
  qed
qed

text \<open>A block goes back to its free list.\<close>

lemma push_block_ok:
  assumes inv: "minv0 s" and a: "arenas s a = Some ar" "a_desc ar = Some i" and j: "j < bpa i" "blk a i j \<notin> set (fl s i)"
    and t: "t = (upd_desc (set_ram s m) i (\<lambda>l. blk a i j # l))\<lparr>arenas := (arenas s)(a \<mapsto> ar\<lparr>free_cnt := free_cnt ar + 1\<rparr>)\<rparr>"
  shows "minv0 t" "\<And>b. b \<noteq> a \<Longrightarrow> partly_used s b \<Longrightarrow> partly_used t b" "unat (free_cnt ar + 1) = card (free_in t a i)"
    "live t q n \<longleftrightarrow> live s q n \<and> q \<noteq> blk a i j"
proof -
  note D = minv0_D [OF inv]
  have i: "i < 7" and al: "pg_ofs a = 0" and cnt: "unat (free_cnt ar) = card (free_in s a i)"
    using D(5) [OF a(1)] a(2) by (auto simp: arena_ok_def)
  have al': "pg_ofs x = 0 \<and> (\<forall>k. a_desc xr = Some k \<longrightarrow> k < 7)" if "arenas s x = Some xr" for x xr
    using D(5) [OF that] by (auto simp: arena_ok_def)
  have flt: "fl t i = blk a i j # fl s i" and oth: "\<And>k. k < 7 \<Longrightarrow> k \<noteq> i \<Longrightarrow> descs t ! k = descs s ! k"
    using i D(4) t upd_desc_nth [of i "set_ram s m"] by (simp_all add: set_ram_def)
  have fi: "free_in t a i = insert j (free_in s a i)"
    using flt j blk_inj [OF al al _ j(1)] by (auto simp: free_in_def)
  have "j \<notin> free_in s a i" using j by (simp add: free_in_def)
  then have card: "card (free_in t a i) = card (free_in s a i) + 1" using fi by simp
  show c: "unat (free_cnt ar + 1) = card (free_in t a i)"
    using cnt card card_free_in [of t a i] bpa_le [of i] unat_plus_le [of "free_cnt ar" 1 "4294967295"] by simp
  have d: "dshape (descs t)" using dshape_upd [of "set_ram s m" i] D(2) i t by (simp add: set_ram_def)
  have p: "pal t = (pal s)\<lparr>ram := m\<rparr>" and at: "arenas t = (arenas s)(a \<mapsto> ar\<lparr>free_cnt := free_cnt ar + 1\<rparr>)"
    using t by (simp_all add: set_ram_def)
  have dist: "distinct (fl t i)" using D(6) [OF i] j flt by (simp add: free_ok_def)
  have others: "(blk b i k \<in> set (fl t i)) = (blk b i k \<in> set (fl s i))" if "pg_ofs b = 0" "b \<noteq> a" "k < bpa i" for b k
    using that flt blk_inj [OF that(1) al that(3) j(1)] by auto
  have fresh: "\<exists>j < bpa i. x = blk a i j" if "x \<in> set (fl t i)" "x \<notin> set (fl s i)" for x
    using that flt j by auto
  note upd = minv0_update [OF inv a at p oth d dist others fresh c]
  show "minv0 t" using upd(1) by simp
  show "\<And>b. b \<noteq> a \<Longrightarrow> partly_used s b \<Longrightarrow> partly_used t b" using upd(2) by simp
  show "live t q n \<longleftrightarrow> live s q n \<and> q \<noteq> blk a i j"
  proof
    assume "live t q n"
    then show "live s q n \<and> q \<noteq> blk a i j"
    proof (cases rule: live_cases)
      case (small x xr k l)
      obtain xr0 where x0: "arenas s x = Some xr0" "a_desc xr0 = Some k"
        using small(1,2) a at by (cases "x = a") auto
      have k: "k < 7" and px: "pg_ofs x = 0" using al' [OF x0(1)] x0(2) by auto
      have "q \<notin> set (fl s k)" using small(6) oth [OF k] flt by (cases "k = i") auto
      moreover have "q \<noteq> blk a i j"
      proof
        assume e: "q = blk a i j"
        then have "x = a" using blk_facts(2) [OF px small(3)] blk_facts(2) [OF al j(1)] small(4) by simp
        then show False using small(6) x0 a flt e by simp
      qed
      ultimately show ?thesis using live_small [OF x0 small(3)] small(4,5) by simp
    next
      case (big x xr)
      then have x: "arenas s x = Some xr" "x \<noteq> a" using a at by (auto split: if_splits)
      then have "q \<noteq> blk a i j"
        using big(3) ofs_add(2) [of x 12] al' [OF x(1)] blk_facts(2) [OF al j(1)] by auto
      then show ?thesis using live_big [OF x(1) big(2,4)] big(3) by simp
    qed
  next
    assume l: "live s q n \<and> q \<noteq> blk a i j"
    then have "live s q n" ..
    then show "live t q n"
    proof (cases rule: live_cases)
      case (small x xr k l)
      obtain xr1 where x1: "arenas t x = Some xr1" "a_desc xr1 = Some k"
        using small(1,2) a at by (cases "x = a") auto
      have "k < 7" using al' [OF small(1)] small(2) by auto
      then have "q \<notin> set (fl t k)" using small(6) oth [of k] flt l by (cases "k = i") auto
      then show ?thesis using live_small [OF x1 small(3)] small(4,5) by simp
    next
      case (big x xr)
      then have "arenas t x = Some xr" using a at by (cases "x = a") auto
      then show ?thesis using live_big big by blast
    qed
  qed
qed

text \<open>The bytes a fill reaches, and the bytes of a run of pages.\<close>

lemma legal_bound:
  assumes "palloc_inv pl" "palloc_legal (n, c) pl"
  shows "0 < unat n" "unat n + unat c \<le> 2 ^ 20"
proof -
  have c: "0 < unat c" "0 < unat n" using assms(2) by (auto simp: palloc_legal_def unat_gt_0)
  then have "unat n + unat c - 1 \<in> run_of (n, c)" by (auto simp: run_of_def)
  then have "unat n + unat c - 1 \<in> pool_pages (kernel_pool pl) \<union> pool_pages (user_pool pl)"
    using assms(2) by (auto simp: palloc_legal_def)
  then show "unat n + unat c \<le> 2 ^ 20" using assms(1) c by (auto simp: palloc_inv_def pool_inv_def pool_pages_def)
  show "0 < unat n" by (rule c(2))
qed

lemma arena_bytes:
  assumes "minv0 s" "arenas s a = Some ar"
  shows "unat (PGSIZE * pages ar) = 4096 * unat (pages ar)" "unat a + 4096 * unat (pages ar) \<le> 2 ^ 32"
proof -
  have ok: "arena_ok s a ar" using minv0_D(5) [OF assms] .
  note b = legal_bound [OF minv0_D(1) [OF assms(1)], of "pg_no a" "pages ar"]
  have "unat (pages ar) < 2 ^ 20" "unat (pg_no a) + unat (pages ar) \<le> 2 ^ 20" using b ok by (auto simp: arena_ok_def)
  then show "unat (PGSIZE * pages ar) = 4096 * unat (pages ar)" "unat a + 4096 * unat (pages ar) \<le> 2 ^ 32"
    using aligned_unat [of a] ok by (simp_all add: unat_word_ariths PG_simps arena_ok_def)
qed

lemma live_bytes:
  assumes inv: "minv0 s" and l: "live s q m"
  shows "\<exists>b br. arenas s b = Some br \<and> pg_round_down q = b \<and> span_of q m \<subseteq> {unat b ..< unat b + 4096 * unat (pages br)}"
proof -
  obtain b br where b: "arenas s b = Some br" and lb: "case a_desc br of
        Some i \<Rightarrow> m = bsz i \<and> (\<exists>j < bpa i. q = blk b i j \<and> q \<notin> set (fl s i))
      | None \<Rightarrow> q = b + 12 \<and> m + 12 = 4096 * unat (free_cnt br)"
    using l by (auto simp: live_def)
  have "pg_round_down q = b"
    using live_arena [OF inv b l] lb by (cases "a_desc br") auto
  then show ?thesis using b live_in_arena [OF minv0_D(5) [OF inv b] lb] by blast
qed

lemma live_fits:
  assumes "minv0 s" "live s q m"
  shows "unat q + m \<le> 2 ^ 32" "0 < m"
proof -
  obtain b br where b: "arenas s b = Some br" "span_of q m \<subseteq> {unat b ..< unat b + 4096 * unat (pages br)}"
    using live_bytes [OF assms] by blast
  show m: "0 < m" using assms(2)
  proof (cases rule: live_cases)
    case (small a ar i j)
    then show ?thesis using bsz_pos by simp
  next
    case (big a ar)
    have "0 < unat (free_cnt ar)"
      using minv0_D(5) [OF assms(1) big(1)] big(2) by (auto simp: arena_ok_def palloc_legal_def pages_def unat_gt_0)
    then show ?thesis using big(4) by linarith
  qed
  then have "unat q + m - 1 \<in> span_of q m" by (auto simp: span_of_def)
  then have "unat q + m - 1 < unat b + 4096 * unat (pages br)" using b(2) by auto
  then show "unat q + m \<le> 2 ^ 32" using arena_bytes(2) [OF assms(1) b(1)] by linarith
qed

lemma page_fill_outside:
  assumes inv: "minv0 s" and a: "arenas s a = Some ar" and l: "live s q m" "pg_round_down q \<noteq> a" "unat x \<in> span_of q m"
  shows "mem_fill r a v (PGSIZE * pages ar) x = r x"
proof (rule mem_fill_outside)
  show "unat a + unat (PGSIZE * pages ar) \<le> 2 ^ 32" using arena_bytes [OF inv a] by simp
  obtain b br where b: "arenas s b = Some br" "pg_round_down q = b" "span_of q m \<subseteq> {unat b ..< unat b + 4096 * unat (pages br)}"
    using live_bytes [OF inv l(1)] by blast
  have al: "pg_ofs a = 0" "pg_ofs b = 0" using minv0_D(5) [OF inv a] minv0_D(5) [OF inv b(1)] by (auto simp: arena_ok_def)
  have "run_of (pg_no a, pages ar) \<inter> run_of (pg_no b, pages br) = {}"
    using minv0_D(3) [OF inv] a b(1,2) l(2) unfolding arenas_apart_def by blast
  moreover have "unat x div 4096 \<in> run_of (pg_no b, pages br)" using span_pages [OF al(2), of "unat x"] b(3) l(3) by blast
  ultimately have "unat x div 4096 \<notin> run_of (pg_no a, pages ar)" by blast
  then have "unat x \<notin> {unat a ..< unat a + 4096 * unat (pages ar)}" using span_pages [OF al(1)] by blast
  then show "unat x \<notin> span_of a (unat (PGSIZE * pages ar))" using arena_bytes(1) [OF inv a] by (simp add: span_of_def)
qed

lemma arena_release:
  assumes inv: "minv0 s" and a: "arenas s a = Some ar"
  shows "\<exists>pl. palloc_free_multiple (pal s) a (pages ar) = Some pl \<and> palloc_inv pl \<and>
    palloc_used pl = palloc_used (pal s) - run_of (pg_no a, pages ar) \<and> (\<forall>r. palloc_legal r (pal s) \<longrightarrow> palloc_legal r pl) \<and>
    ram pl = mem_fill (ram (pal s)) a 0xcc (PGSIZE * pages ar)"
proof -
  note D = minv0_D [OF inv]
  have ok: "pg_ofs a = 0" "palloc_legal (pg_no a, pages ar) (pal s)" "run_of (pg_no a, pages ar) \<subseteq> palloc_used (pal s)"
    using D(5) [OF a] by (auto simp: arena_ok_def)
  show ?thesis
    using palloc_free_run [OF D(1) ok(2,3)] page_addr_pg_no [OF ok(1)] by (auto simp: palloc_legal_def)
qed

text \<open>The effect of a release on the live blocks and on their contents.\<close>

definition released :: "mstate \<Rightarrow> mstate \<Rightarrow> addr \<Rightarrow> bool" where
  "released s s' p \<longleftrightarrow> (\<forall>q m. live s' q m \<longleftrightarrow> live s q m \<and> q \<noteq> p) \<and>
     (\<forall>q m x. live s' q m \<longrightarrow> unat x \<in> span_of q m \<longrightarrow> ram (pal s') x = ram (pal s) x)"

lemma free_big_ok:
  assumes inv: "minv s" and a: "arenas s a = Some ar" "a_desc ar = None"
  shows "\<exists>s'. free s (a + 12) = Some s' \<and> minv s' \<and> released s s' (a + 12)"
proof -
  have i0: "minv0 s" using inv by (simp add: minv_def)
  note D = minv0_D [OF i0]
  have al: "pg_ofs a = 0" using D(5) [OF a(1)] by (simp add: arena_ok_def)
  have pg: "pages ar = free_cnt ar" using a(2) by (simp add: pages_def)
  have r: "pg_round_down (a + 12) = a" "pg_ofs (a + 12) = 12" "unat (a + 12) = unat a + 12"
    using ofs_add [OF al, of 12] by simp_all
  then have nz: "a + 12 \<noteq> 0" by auto
  obtain pl where pl: "palloc_free_multiple (pal s) a (free_cnt ar) = Some pl" "palloc_inv pl"
    "palloc_used pl = palloc_used (pal s) - run_of (pg_no a, pages ar)" "\<And>r. palloc_legal r (pal s) \<Longrightarrow> palloc_legal r pl"
    "ram pl = mem_fill (ram (pal s)) a 0xcc (PGSIZE * pages ar)" using arena_release [OF i0 a(1)] pg by auto
  let ?s = "s\<lparr>pal := pl, arenas := (arenas s)(a := None)\<rparr>"
  have f: "free s (a + 12) = Some ?s"
    using nz r arena_nonzero [OF i0 a(1)] a pl(1)
    by (simp add: free_def block_to_arena_def Let_def sizeof_arena_def)
  have flt: "set (fl s k) = {x \<in> set (fl s k). pg_round_down x \<noteq> a}" if "k < 7" for k
  proof -
    have "pg_round_down x \<noteq> a" if x: "x \<in> set (fl s k)" for x
    proof -
      obtain b br j where b: "arenas s b = Some br" "a_desc br = Some k" "j < bpa k" "x = blk b k j"
        using D(6) [OF \<open>k < 7\<close>] x by (auto simp: free_ok_def)
      have "pg_ofs b = 0" using D(5) [OF b(1)] by (simp add: arena_ok_def)
      then show ?thesis using blk_facts(2) [of b j k] b a by auto
    qed
    then show ?thesis by blast
  qed
  have dist: "distinct (fl s k)" if "k < 7" for k using D(6) [OF that] by (simp add: free_ok_def)
  note drop = minv0_drop_arena [OF i0 a(1), of ?s, simplified, OF pl(2-4) D(2) flt dist]
  have only: "pg_round_down q = a \<longleftrightarrow> q = a + 12" if "live s q m" for q m
    using live_arena [OF i0 a(1) that] a(2) by simp
  have "minv ?s" using drop(1,2) inv by (simp add: minv_def)
  moreover have lv: "live ?s q m \<longleftrightarrow> live s q m \<and> q \<noteq> a + 12" for q m using drop(3) [of q m] only [of q m] by auto
  moreover have "ram pl x = ram (pal s) x" if "live ?s q m" "unat x \<in> span_of q m" for q m x
    using page_fill_outside [OF i0 a(1), of q m x] that lv only pl(5) by auto
  ultimately show ?thesis using f by (auto simp: released_def)
qed

lemma free_small_ok:
  assumes inv: "minv s" and a: "arenas s a = Some ar" "a_desc ar = Some i" and j: "j < bpa i" "blk a i j \<notin> set (fl s i)"
  shows "\<exists>s'. free s (blk a i j) = Some s' \<and> minv s' \<and> released s s' (blk a i j)"
proof -
  have i0: "minv0 s" using inv by (simp add: minv_def)
  note D = minv0_D [OF i0]
  let ?p = "blk a i j" and ?d = "descs s ! i" and ?c = "free_cnt ar + 1"
  let ?m = "mem_fill (ram (pal s)) ?p 0xcc (d_block_size ?d)"
  let ?t = "(upd_desc (set_ram s ?m) i (\<lambda>l. ?p # l))\<lparr>arenas := (arenas s)(a \<mapsto> ar\<lparr>free_cnt := ?c\<rparr>)\<rparr>"
  have i: "i < 7" and al: "pg_ofs a = 0" using D(5) [OF a(1)] a(2) by (auto simp: arena_ok_def)
  have u: "unat (d_block_size ?d) = bsz i" "unat (blocks_per_arena ?d) = bpa i" using D(2) i by (auto simp: dshape_def)
  have pl: "live s ?p (bsz i)" using live_small [OF a j] .
  have p0: "?p \<noteq> 0" using blk_facts(4) [OF al j(1)] .
  have b2a: "block_to_arena s ?p = Some (a, ar)" using block_to_arena_blk [OF i0 a j(1), of s "fl s i"] by simp
  note push = push_block_ok [OF i0 a j refl, where m = ?m]
  have ramt: "ram (pal ?t) = ?m" by (simp add: set_ram_def)
  have same: "?m x = ram (pal s) x" if "live s q n" "q \<noteq> ?p" "unat x \<in> span_of q n" for q n x
  proof (rule mem_fill_outside)
    show "unat ?p + unat (d_block_size ?d) \<le> 2 ^ 32" using live_fits(1) [OF i0 pl] u by simp
    show "unat x \<notin> span_of ?p (unat (d_block_size ?d))" using live_disjoint [OF i0 that(1) pl that(2)] that(3) u by auto
  qed
  show ?thesis
  proof (cases "?c \<ge> blocks_per_arena ?d")
    case False
    then have "free s ?p = Some ?t" using p0 b2a a(2) by (simp add: free_def Let_def set_ram_def)
    moreover have "card (free_in ?t a i) < bpa i"
      using False push(3) u(2) by (simp add: word_le_nat_alt not_le)
    then have "partly_used ?t a" using a by (simp add: partly_used_def)
    then have "partly_used ?t b" for b using push(2) [of b] inv by (cases "b = a") (auto simp: minv_def)
    then have "minv ?t" using push(1) by (simp add: minv_def)
    ultimately show ?thesis using push(4) same ramt by (auto simp: released_def)
  next
    case True
    then have "bpa i \<le> card (free_in ?t a i)" using push(3) u(2) by (simp add: word_le_nat_alt)
    then have card: "card (free_in ?t a i) = bpa i" using card_free_in [of ?t a i] by simp
    then have full: "free_in ?t a i = {..< bpa i}"
      by (intro card_subset_eq) (auto simp: free_in_def)
    have ceq: "?c = blocks_per_arena ?d" using push(3) u(2) card by (simp add: word_unat_eq_iff)
    have T: "minv0 ?t" "dshape (descs ?t)" "free_ok ?t i" "arenas ?t a = Some (ar\<lparr>free_cnt := ?c\<rparr>)"
      using push(1) minv0_D(2,6) [OF push(1)] i by simp_all
    have pg: "pages (ar\<lparr>free_cnt := ?c\<rparr>) = 1" using a(2) by (simp add: pages_def)
    let ?u = "upd_desc ?t i (filter (\<lambda>x. x \<notin> blk a i ` {0..<bpa i}))"
    have rem: "remove_blocks (unat (blocks_per_arena ?d)) 0 i a ?t = Some ?u"
      using remove_blocks_upd [OF T(2) i T(4), of 0 "bpa i"] a(2) arena_nonzero [OF i0 a(1)] al T(3) full u(2)
      by (auto simp: free_ok_def free_in_def)
    obtain pl where pl: "palloc_free_multiple (pal ?t) a 1 = Some pl" "palloc_inv pl"
      "palloc_used pl = palloc_used (pal ?t) - run_of (pg_no a, 1)" "\<And>r. palloc_legal r (pal ?t) \<Longrightarrow> palloc_legal r pl"
      "ram pl = mem_fill (ram (pal ?t)) a 0xcc (PGSIZE * 1)" using arena_release [OF T(1,4)] pg by auto
    let ?v = "?u\<lparr>pal := pl, arenas := (arenas ?t)(a := None)\<rparr>"
    have f: "free s ?p = Some ?v"
      using p0 b2a a(2) True ceq rem pl(1) by (simp add: free_def Let_def palloc_free_page_def set_ram_def)
    have flv: "fl ?v i = filter (\<lambda>x. x \<notin> blk a i ` {0..<bpa i}) (fl ?t i)" "\<And>k. k < 7 \<Longrightarrow> k \<noteq> i \<Longrightarrow> fl ?v k = fl ?t k"
      using upd_desc_nth [of i ?t] D(4) i by simp_all
    have flt: "set (fl ?v k) = {x \<in> set (fl ?t k). pg_round_down x \<noteq> a}" if k: "k < 7" for k
    proof -
      have F: "\<exists>b br l. arenas ?t b = Some br \<and> a_desc br = Some k \<and> l < bpa k \<and> x = blk b k l \<and> pg_round_down x = b"
        if x: "x \<in> set (fl ?t k)" for x
      proof -
        obtain b br l where b: "arenas ?t b = Some br" "a_desc br = Some k" "l < bpa k" "x = blk b k l"
          using minv0_D(6) [OF T(1) k] x by (auto simp: free_ok_def)
        have "pg_ofs b = 0" using minv0_D(5) [OF T(1) b(1)] by (simp add: arena_ok_def)
        then have "pg_round_down x = b" using b blk_facts(2) [of b l k] by simp
        then show ?thesis using b by blast
      qed
      show ?thesis
      proof (cases "k = i")
        case True
        have "x \<in> blk a i ` {0..<bpa i} \<longleftrightarrow> pg_round_down x = a" if "x \<in> set (fl ?t i)" for x
          using F [of x] that True blk_facts(2) [OF al] by auto
        then show ?thesis unfolding True flv(1) by auto
      next
        case False
        then have "fl ?v k = fl ?t k" using flv(2) k by simp
        moreover have "pg_round_down x \<noteq> a" if "x \<in> set (fl ?t k)" for x using F [OF that] T(4) a(2) False by auto
        ultimately show ?thesis by auto
      qed
    qed
    have dist: "distinct (fl ?v k)" if "k < 7" for k
      using minv0_D(6) [OF T(1) that] flv(1) flv(2) [OF that] by (cases "k = i") (auto simp: free_ok_def)
    have dv: "dshape (descs ?v)" using dshape_upd [OF T(2) i] by simp
    have palv: "pal ?v = pl" and arv: "arenas ?v = (arenas ?t)(a := None)" by simp_all
    note drop = minv0_drop_arena [OF T(1,4), of ?v, unfolded pg palv, OF pl(2-4) arv dv flt dist]
    have none: "partly_used ?v a" by (simp add: partly_used_def)
    have "partly_used ?v b" for b
      using none drop(2) [of b] push(2) [of b] inv by (cases "b = a") (auto simp: minv_def)
    then have "minv ?v" using drop(1) by (simp add: minv_def)
    moreover have only: "pg_round_down q \<noteq> a" if lt: "live ?t q m" for q m
    proof
      assume "pg_round_down q = a"
      then obtain l where l: "l < bpa i" "q = blk a i l" using live_arena [OF T(1,4) lt] a(2) by auto
      then have "q \<in> set (fl ?t i)" using full by (auto simp: free_in_def)
      from lt show False
      proof (cases rule: live_cases)
        case (small x xr k h)
        have "pg_ofs x = 0" using minv0_D(5) [OF T(1) small(1)] by (simp add: arena_ok_def)
        then have "x = a" using blk_facts(2) [of x h k] small(3,4) \<open>pg_round_down q = a\<close> by simp
        then have "k = i" using small(1,2) T(4) a(2) by auto
        then show False using small(6) \<open>q \<in> set (fl ?t i)\<close> by simp
      next
        case (big x xr)
        have "pg_ofs x = 0" using minv0_D(5) [OF T(1) big(1)] by (simp add: arena_ok_def)
        then have "x = a" using ofs_add(2) [of x 12] big(3) \<open>pg_round_down q = a\<close> by simp
        then show False using big(1,2) T(4) a(2) by auto
      qed
    qed
    then have lv: "live ?v q m \<longleftrightarrow> live s q m \<and> q \<noteq> ?p" for q m using drop(3) [of q m] push(4) [of q m] by blast
    moreover have "ram pl x = ram (pal s) x" if "live ?v q m" "unat x \<in> span_of q m" for q m x
    proof -
      have l: "live s q m" "q \<noteq> ?p" using that(1) lv by auto
      then have lt: "live ?t q m" using push(4) by simp
      have "ram pl x = ram (pal ?t) x" using page_fill_outside [OF T(1,4) lt only [OF lt] that(2)] pl(5) pg by simp
      then show ?thesis using same [OF l(1,2) that(2)] ramt by simp
    qed
    ultimately show ?thesis using f by (auto simp: released_def)
  qed
qed

lemma free_live:
  assumes "minv s" "live s p n"
  shows "\<exists>s'. free s p = Some s' \<and> minv s' \<and> released s s' p"
  using assms(2)
proof (cases rule: live_cases)
  case (small a ar i j)
  then show ?thesis using free_small_ok [OF assms(1) small(1-3)] by simp
next
  case (big a ar)
  then show ?thesis using free_big_ok [OF assms(1) big(1,2)] by simp
qed

subsection \<open>Start, \<open>realloc\<close> and \<open>calloc\<close>\<close>

lemma malloc_init_shape: "\<exists>ds. malloc_init = Some ds \<and> dshape ds \<and> (\<forall>i < 7. free_list (ds ! i) = [])"
proof -
  have "malloc_init = Some (map (\<lambda>i. \<lparr>d_block_size = of_nat (bsz i), blocks_per_arena = of_nat (bpa i), free_list = []\<rparr>) [0..<7])"
    by code_simp
  moreover have "unat (of_nat (bsz i) :: u32) = bsz i" if "i < 7" for i
  proof -
    have "(2 :: nat) ^ i \<le> 2 ^ 6" using that by (intro power_increasing) auto
    then show ?thesis by (intro unat_of_nat_id) (simp add: bsz_def)
  qed
  moreover have "unat (of_nat (bpa i) :: u32) = bpa i" for i
    using bpa_le [of i] by (intro unat_of_nat_id) simp
  ultimately show ?thesis by (auto simp: dshape_def)
qed

lemma minv_init:
  assumes "palloc_inv pl" "malloc_init = Some ds"
  shows "minv \<lparr>descs = ds, arenas = (\<lambda>_. None), pal = pl\<rparr>" "\<not> live \<lparr>descs = ds, arenas = (\<lambda>_. None), pal = pl\<rparr> q n"
proof -
  have "dshape ds" "\<forall>i < 7. free_list (ds ! i) = []" using malloc_init_shape [unfolded assms(2)] by auto
  then show "minv \<lparr>descs = ds, arenas = (\<lambda>_. None), pal = pl\<rparr>" using assms(1)
    by (simp add: minv_def minv0_def arenas_apart_def free_ok_def partly_used_def)
qed (simp add: live_def)

lemma live_set_ram [simp]: "live (set_ram s m) q n = live s q n"
  by (simp add: live_def cong: option.case_cong)

lemma minv_set_ram [simp]: "minv (set_ram s m) = minv s"
  by (simp add: minv_def minv0_def arena_ok_def arenas_apart_def free_ok_def partly_used_def free_in_def
      palloc_inv_def palloc_used_def palloc_legal_def)

lemma palloc_get_ram: "palloc_get_multiple pl 0 c = Some (a, pl') \<Longrightarrow> ram pl' = ram pl"
  by (auto simp: palloc_get_multiple_def Let_def panic_simps split: if_splits)

lemma add_blocks_pal: "add_blocks n k i a s = Some s' \<Longrightarrow> pal s' = pal s"
  by (induction n arbitrary: k s) (auto simp: panic_simps)

lemma take_block_pal: "take_block s i = Some (p, s') \<Longrightarrow> pal s' = pal s"
  by (auto simp: take_block_def Let_def panic_simps split: list.splits)

lemma malloc_ram: "malloc s sz = Some (p, s') \<Longrightarrow> ram (pal s') = ram (pal s)"
  by (auto simp: malloc_def Let_def panic_simps palloc_get_page_def
      dest!: palloc_get_ram add_blocks_pal take_block_pal split: if_splits)

lemma block_size_live:
  assumes inv: "minv s" and l: "live s p n"
  shows "\<exists>k. block_size s p = Some k \<and> unat k = n"
proof -
  have i0: "minv0 s" using inv by (simp add: minv_def)
  from l show ?thesis
  proof (cases rule: live_cases)
    case (small a ar i j)
    have "i < 7" using minv0_D(5) [OF i0 small(1)] small(2) by (simp add: arena_ok_def)
    then have "unat (d_block_size (descs s ! i)) = n" using minv0_D(2) [OF i0] small(5) by (simp add: dshape_def)
    moreover have "block_to_arena s p = Some (a, ar)"
      using block_to_arena_blk [OF i0 small(1-3), of s "fl s i"] small(4) by simp
    ultimately show ?thesis using small(2) by (simp add: block_size_def)
  next
    case (big a ar)
    have al: "pg_ofs a = 0" using minv0_D(5) [OF i0 big(1)] by (simp add: arena_ok_def)
    have r: "pg_round_down p = a" "pg_ofs p = 12" using ofs_add [OF al, of 12] big(3) by simp_all
    have "block_to_arena s p = Some (a, ar)"
      using r big arena_nonzero [OF i0 big(1)] by (simp add: block_to_arena_def Let_def sizeof_arena_def)
    moreover have c: "unat (PGSIZE * free_cnt ar) = 4096 * unat (free_cnt ar)"
      using arena_bytes(1) [OF i0 big(1)] big(2) by (simp add: pages_def)
    then have "unat (PGSIZE * free_cnt ar - 12) = n"
      using big(4) by (subst unat_sub) (auto simp: word_le_nat_alt)
    ultimately show ?thesis using big(2) r(2) by (simp add: block_size_def)
  qed
qed

lemma malloc_cases:
  assumes "minv s"
  obtains "malloc s sz = Some (0, s)"
  | p s' n where "malloc s sz = Some (p, s')" "minv s'" "p \<noteq> 0" "allocated s s' p n" "unat sz + 12 < 2 ^ 32 \<longrightarrow> unat sz \<le> n"
    "ram (pal s') = ram (pal s)"
proof -
  obtain p s' where m: "malloc s sz = Some (p, s')" "minv s'"
    "if p = 0 then s' = s else \<exists>n. allocated s s' p n \<and> (unat sz + 12 < 2 ^ 32 \<longrightarrow> unat sz \<le> n)"
    using malloc_ok [OF assms, of sz] by blast
  then show thesis using that malloc_ram [OF m(1)] by (cases "p = 0") auto
qed

text \<open>\<open>realloc\<close> of a live block when memory for the new block is found.\<close>

lemma realloc_moves:
  assumes inv: "minv s" and l: "live s p n" and sz: "sz \<noteq> 0" and m: "malloc s sz = Some (q, s1)" "minv s1" "q \<noteq> 0"
    "allocated s s1 q k" "ram (pal s1) = ram (pal s)" and fits: "unat sz \<le> k"
  shows "\<exists>s'. realloc s p sz = Some (q, s') \<and> minv s' \<and> (\<forall>r m. live s' r m \<longleftrightarrow> (live s r m \<and> r \<noteq> p) \<or> (r = q \<and> m = k)) \<and>
    (\<forall>i < min n (unat sz). ram (pal s') (q + of_nat i) = ram (pal s) (p + of_nat i)) \<and>
    (\<forall>r m x. live s r m \<longrightarrow> r \<noteq> p \<longrightarrow> unat x \<in> span_of r m \<longrightarrow> ram (pal s') x = ram (pal s) x)"
proof -
  have i0: "minv0 s" and i1: "minv0 s1" using inv m(2) by (simp_all add: minv_def)
  have lv: "live s1 r j \<longleftrightarrow> live s r j \<or> (r = q \<and> j = k)" and nq: "\<not> live s q j" for r j
    using m(4) by (auto simp: allocated_def)
  have l1: "live s1 p n" "live s1 q k" using l lv by auto
  have pq: "p \<noteq> q" using l nq by auto
  have p0: "p \<noteq> 0" using live_bytes [OF i0 l] arena_nonzero [OF i0] by (auto simp: pg_round_down_def, blast)
  obtain old where old: "block_size s1 p = Some old" "unat old = n" using block_size_live [OF m(2) l1(1)] by blast
  let ?k = "if sz < old then sz else old"
  let ?c = "mem_copy (ram (pal s1)) q p ?k"
  have k: "unat ?k = min n (unat sz)" using old(2) by (auto simp: word_less_nat_alt)
  have qb: "unat q + unat ?k \<le> 2 ^ 32" using live_fits(1) [OF i1 l1(2)] k fits by linarith
  obtain s' where s': "free (set_ram s1 ?c) p = Some s'" "minv s'" "released (set_ram s1 ?c) s' p"
    using free_live [of "set_ram s1 ?c" p n] m(2) l1(1) by auto
  have "realloc s p sz = Some (q, s')"
    using sz m(1,3) p0 old(1) s'(1) by (simp add: realloc_def Let_def)
  moreover have lv': "live s' r j \<longleftrightarrow> (live s r j \<and> r \<noteq> p) \<or> (r = q \<and> j = k)" for r j
    using s'(3) lv pq by (auto simp: released_def)
  moreover have keep: "ram (pal s') x = ?c x" if "live s' r j" "unat x \<in> span_of r j" for r j x
    using s'(3) that by (auto simp: released_def)
  have "ram (pal s') (q + of_nat i) = ram (pal s) (p + of_nat i)" if i: "i < min n (unat sz)" for i
  proof -
    have lt: "i < 2 ^ LENGTH(32)" using i unsigned_less [of sz, where 'a = nat] by simp
    have "unat q + i < 2 ^ 32" using qb k i by linarith
    then have u: "unat (q + of_nat i) = unat q + i" using unat_of_nat_id [where 'a = 32, OF lt] by (simp add: unat_plus_if')
    have "?c (q + of_nat i) = ram (pal s) (p + of_nat i)"
      using i k unat_of_nat_id [where 'a = 32, OF lt] m(5) by (simp add: mem_copy_def word_less_nat_alt)
    then show ?thesis using keep [of q k "q + of_nat i"] lv' u i fits by (simp add: span_of_def)
  qed
  moreover have "ram (pal s') x = ram (pal s) x" if "live s r j" "r \<noteq> p" "unat x \<in> span_of r j" for r j x
  proof -
    have "span_of r j \<inter> span_of q k = {}" using live_disjoint [OF i1, of r j q k] l1(2) lv that(1) nq by blast
    then have "unat x \<notin> span_of q (unat ?k)" using that(3) k fits by (auto simp: span_of_def)
    then have "?c x = ram (pal s) x" using in_span [OF qb, of x] m(5) by (simp add: mem_copy_def)
    then show ?thesis using keep [of r j x] lv' that by simp
  qed
  ultimately show ?thesis using s'(2) by blast
qed

subsection \<open>Reachable heaps\<close>

text \<open>
  The heaps the kernel reaches after \<open>palloc_init\<close> and \<open>malloc_init\<close> when its callers only free
  and reallocate blocks they hold. A request of more than \<open>2 ^ 32 - 13\<close> bytes is left out, because
  \<open>malloc\<close> then computes the size of the block wrongly (\<open>malloc_wraps\<close>).
\<close>

inductive heap_reach :: "mstate \<Rightarrow> bool" where
  init: "258 \<le> unat ram_pages \<Longrightarrow> unat ram_pages < 0x40000 \<Longrightarrow> 0 < user_limit \<Longrightarrow>
     palloc_init ram_pages user_limit m = Some pl \<Longrightarrow> malloc_init = Some ds \<Longrightarrow>
     heap_reach \<lparr>descs = ds, arenas = (\<lambda>_. None), pal = pl\<rparr>"
| malloc: "heap_reach s \<Longrightarrow> malloc s sz = Some (p, s') \<Longrightarrow> heap_reach s'"
| calloc: "heap_reach s \<Longrightarrow> calloc s a b = Some (p, s') \<Longrightarrow> heap_reach s'"
| realloc: "heap_reach s \<Longrightarrow> live s p n \<Longrightarrow> unat sz + 12 < 2 ^ 32 \<Longrightarrow> realloc s p sz = Some (q, s') \<Longrightarrow> heap_reach s'"
| free: "heap_reach s \<Longrightarrow> live s p n \<Longrightarrow> free s p = Some s' \<Longrightarrow> heap_reach s'"

lemma realloc_ok:
  assumes "minv s" "live s p n" "unat sz + 12 < 2 ^ 32"
  shows "\<exists>q s'. realloc s p sz = Some (q, s') \<and> minv s'"
proof (cases "sz = 0")
  case True
  then show ?thesis using free_live [OF assms(1,2)] by (auto simp: realloc_def)
next
  case False
  show ?thesis using assms(1)
  proof (cases rule: malloc_cases [where sz = sz])
    case 1
    then show ?thesis using assms(1) False by (simp add: realloc_def)
  next
    case (2 q s1 k)
    then show ?thesis using realloc_moves [OF assms(1,2) False 2(1-4,6)] assms(3) by auto
  qed
qed

lemma heap_reach_inv: "heap_reach s \<Longrightarrow> minv s"
proof (induction rule: heap_reach.induct)
  case (init ram_pages user_limit m pl ds)
  then have "palloc_inv pl" using palloc_init_inv [of ram_pages user_limit m] by auto
  then show ?case using minv_init(1) init by simp
next
  case (malloc s sz p s')
  then show ?case using malloc_ok [of s sz] by auto
next
  case (calloc s a b p s')
  then show ?case using malloc_ok [of s "a * b"] by (auto simp: calloc_def Let_def panic_simps split: if_splits)
next
  case (realloc s p n sz q s')
  then show ?case using realloc_ok [of s p n sz] by auto
next
  case (free s p n s')
  then show ?case using free_live [of s p n] by auto
qed

text \<open>A concrete heap: 262 pages of memory, one of them for user programs, and a first block.\<close>

definition palloc0 :: "palloc_state option" where
  "palloc0 = palloc_init 262 1 (\<lambda>_. 0)"

definition heap0 :: "mstate option" where
  "heap0 = do {
     pl \<leftarrow> palloc0;
     ds \<leftarrow> malloc_init;
     Some \<lparr>descs = ds, arenas = (\<lambda>_. None), pal = pl\<rparr>
   }"

lemma heap0_malloc:
  obtains s s' k where "heap0 = Some s" "heap_reach s" "malloc s 100 = Some (0xc010100c, s')" "heap_reach s'"
    "minv s'" "allocated s s' 0xc010100c k" "live s' 0xc010100c k"
proof -
  have "(case palloc0 of None \<Rightarrow> False | Some pl \<Rightarrow> (case malloc_init of None \<Rightarrow> False | Some ds \<Rightarrow>
      (case malloc \<lparr>descs = ds, arenas = (\<lambda>_. None), pal = pl\<rparr> 100 of None \<Rightarrow> False | Some (p, s') \<Rightarrow> p = 0xc010100c)))"
    by code_simp
  then obtain pl ds s' where e: "palloc0 = Some pl" "malloc_init = Some ds"
    "malloc \<lparr>descs = ds, arenas = (\<lambda>_. None), pal = pl\<rparr> 100 = Some (0xc010100c, s')"
    by (auto split: option.splits)
  define s where "s = \<lparr>descs = ds, arenas = (\<lambda>_. None), pal = pl\<rparr>"
  have h: "heap0 = Some s" "malloc s 100 = Some (0xc010100c, s')" by (simp_all only: heap0_def s_def e Option.bind.simps)
  then have r: "heap_reach s" using heap_reach.init [of 262 1 "\<lambda>_. 0"] by (auto simp: heap0_def palloc0_def panic_simps)
  then have r': "heap_reach s'" using heap_reach.malloc h(2) by blast
  obtain k where "allocated s s' 0xc010100c k"
    using malloc_ok [OF heap_reach_inv [OF r], of 100] h(2) by auto
  then show thesis using that h r r' heap_reach_inv [OF r'] by (auto simp: allocated_def)
qed

subsection \<open>Properties\<close>

text \<open>
  C5. In every heap the kernel can reach by \<open>malloc\<close>, \<open>calloc\<close>, \<open>realloc\<close> and \<open>free\<close> of blocks it
  holds, \<open>malloc\<close> never panics; it returns a null pointer and changes nothing, or a new block,
  of at least the requested size, that shares no byte with any block in use. All blocks in use
  before stay in use, with their contents.
\<close>

theorem malloc_correct:
  assumes "heap_reach s" "unat sz + 12 < 2 ^ 32"
  shows "\<exists>p s'. malloc s sz = Some (p, s') \<and> ram (pal s') = ram (pal s) \<and> (if p = 0 then s' = s else
    (\<exists>n. unat sz \<le> n \<and> unat p + n \<le> 2 ^ 32 \<and> (\<forall>q m. live s' q m \<longleftrightarrow> live s q m \<or> (q = p \<and> m = n)) \<and>
      (\<forall>q m. live s q m \<longrightarrow> span_of p n \<inter> span_of q m = {})))"
proof -
  have inv: "minv s" by (rule heap_reach_inv [OF assms(1)])
  then show ?thesis
  proof (cases rule: malloc_cases [where sz = sz])
    case (2 p s' n)
    have i: "minv0 s'" using 2(2) by (simp add: minv_def)
    have a: "live s' q m \<longleftrightarrow> live s q m \<or> (q = p \<and> m = n)" "\<not> live s p m" for q m
      using 2(4) by (auto simp: allocated_def)
    have "span_of p n \<inter> span_of q m = {}" if "live s q m" for q m
      using live_disjoint [OF i, of p n q m] a that by blast
    then show ?thesis using 2 a live_fits(1) [OF i, of p n] assms(2) by auto
  qed auto
qed

theorem malloc_correct_witness:
  "\<exists>s p s'. heap0 = Some s \<and> malloc s 100 = Some (p, s') \<and> p \<noteq> 0 \<and> (\<exists>n. 100 \<le> n \<and> live s' p n)"
proof -
  obtain s s' where h: "heap0 = Some s" "heap_reach s" "malloc s 100 = Some (0xc010100c, s')" by (rule heap0_malloc)
  then obtain n where "100 \<le> n" "live s' 0xc010100c n" using malloc_correct [OF h(2), of 100] by auto
  then show ?thesis using h by (intro exI [of _ s] exI [of _ "0xc010100c"] exI [of _ s']) auto
qed

text \<open>
  C6. \<open>free\<close> of a block in use never panics in a reachable heap: afterwards exactly this block is no
  longer in use, every other block keeps its address, size and contents, and blocks in use
  stay pairwise disjoint (also when \<open>free\<close> returns the whole arena to the page allocator).
\<close>

theorem free_correct:
  assumes "heap_reach s" "live s p n"
  shows "\<exists>s'. free s p = Some s' \<and> heap_reach s' \<and> (\<forall>q m. live s' q m \<longleftrightarrow> live s q m \<and> q \<noteq> p) \<and>
    (\<forall>q m x. live s' q m \<longrightarrow> unat x \<in> span_of q m \<longrightarrow> ram (pal s') x = ram (pal s) x) \<and>
    (\<forall>q m r k. live s' q m \<longrightarrow> live s' r k \<longrightarrow> q \<noteq> r \<longrightarrow> span_of q m \<inter> span_of r k = {})"
proof -
  obtain s' where s': "free s p = Some s'" "minv s'" "released s s' p"
    using free_live [OF heap_reach_inv [OF assms(1)] assms(2)] by blast
  then have "minv0 s'" by (simp add: minv_def)
  then have "\<forall>q m r k. live s' q m \<longrightarrow> live s' r k \<longrightarrow> q \<noteq> r \<longrightarrow> span_of q m \<inter> span_of r k = {}"
    using live_disjoint by simp
  then show ?thesis using s'(1,3) heap_reach.free [OF assms s'(1)] by (simp add: released_def)
qed

theorem free_correct_witness:
  "\<exists>s p s' s''. heap0 = Some s \<and> malloc s 100 = Some (p, s') \<and> p \<noteq> 0 \<and> free s' p = Some s'' \<and> (\<forall>n. \<not> live s'' p n)"
proof -
  obtain s s' k where h: "heap0 = Some s" "malloc s 100 = Some (0xc010100c, s')" "heap_reach s'" "live s' 0xc010100c k"
    by (rule heap0_malloc)
  obtain s'' where "free s' 0xc010100c = Some s''" "\<forall>q m. live s'' q m \<longleftrightarrow> live s' q m \<and> q \<noteq> 0xc010100c"
    using free_correct [OF h(3,4)] by blast
  then show ?thesis using h by (intro exI [of _ s] exI [of _ "0xc010100c"] exI [of _ s'] exI [of _ s'']) simp
qed

text \<open>
  C26. \<open>realloc\<close> of a block in use to a new, nonzero size: when no memory is found it returns a null
  pointer and the heap is as before; else the new block holds the first bytes of the old one, as
  many as both have, the old block is gone, and all other blocks keep their contents.
\<close>

theorem realloc_correct:
  assumes "heap_reach s" "live s p n" "sz \<noteq> 0" "unat sz + 12 < 2 ^ 32"
  shows "\<exists>q s'. realloc s p sz = Some (q, s') \<and> (if q = 0 then s' = s else
    (\<exists>k \<ge> unat sz. (\<forall>r m. live s' r m \<longleftrightarrow> (live s r m \<and> r \<noteq> p) \<or> (r = q \<and> m = k)) \<and>
      (\<forall>i < min n (unat sz). ram (pal s') (q + of_nat i) = ram (pal s) (p + of_nat i)) \<and>
      (\<forall>r m x. live s r m \<longrightarrow> r \<noteq> p \<longrightarrow> unat x \<in> span_of r m \<longrightarrow> ram (pal s') x = ram (pal s) x)))"
proof -
  have inv: "minv s" by (rule heap_reach_inv [OF assms(1)])
  then show ?thesis
  proof (cases rule: malloc_cases [where sz = sz])
    case 1
    then have "realloc s p sz = Some (0, s)" using assms(3) by (simp add: realloc_def)
    then show ?thesis by simp
  next
    case (2 q s1 k)
    have k: "unat sz \<le> k" using 2(5) assms(4) by simp
    obtain s' where "realloc s p sz = Some (q, s')" "\<forall>r m. live s' r m \<longleftrightarrow> (live s r m \<and> r \<noteq> p) \<or> (r = q \<and> m = k)"
      "\<forall>i < min n (unat sz). ram (pal s') (q + of_nat i) = ram (pal s) (p + of_nat i)"
      "\<forall>r m x. live s r m \<longrightarrow> r \<noteq> p \<longrightarrow> unat x \<in> span_of r m \<longrightarrow> ram (pal s') x = ram (pal s) x"
      using realloc_moves [OF inv assms(2,3) 2(1-4,6) k] by blast
    then show ?thesis using 2(3) k by (intro exI [of _ q] exI [of _ s']) auto
  qed
qed

theorem realloc_correct_witness:
  "\<exists>s p s' q s''. heap0 = Some s \<and> malloc s 100 = Some (p, s') \<and> p \<noteq> 0 \<and> realloc s' p 2000 = Some (q, s'')"
proof -
  obtain s s' k where h: "heap0 = Some s" "malloc s 100 = Some (0xc010100c, s')" "heap_reach s'" "live s' 0xc010100c k"
    by (rule heap0_malloc)
  obtain q s'' where "realloc s' 0xc010100c 2000 = Some (q, s'')"
    using realloc_correct [OF h(3,4), of 2000] by auto
  then show ?thesis using h by (intro exI [of _ s] exI [of _ "0xc010100c"] exI [of _ s'] exI [of _ q] exI [of _ s'']) simp
qed

text \<open>
  The sizes for which the guards fail: \<open>malloc\<close> of \<open>2 ^ 32 - 12\<close> bytes rounds up to no page at
  all, of \<open>2 ^ 32 - 11\<close> bytes to one page; \<open>calloc\<close> of 65537 elements of 65537 bytes passes its
  overflow test and asks for 131073 bytes.
\<close>

lemma malloc_wraps: "DIV_ROUND_UP ((0xfffffff5 :: u32) + sizeof_arena) PGSIZE = 1"
  by code_simp

lemma calloc_wraps: "(65537 :: u32) * 65537 = 131073" "\<not> (65537 :: u32) * 65537 < 65537"
  by code_simp+

end
