(* ===== verification/Cstring.thy ===== *)
theory Cstring
  imports Vaddr
begin

text \<open>
  Memory blocks and null-terminated strings (src/proj-pregame/src/lib/string.c) over a byte memory
  with 32-bit addresses. A loop over a string without terminator does not end, which is \<open>None\<close>.
  Pointers returned are addresses, with 0 for a null pointer; \<open>memory\<close> and \<open>mem_fill\<close>
  are those of \<open>Vaddr\<close>.
\<close>

subsection \<open>The C functions\<close>

fun memcpy_loop :: "nat \<Rightarrow> addr \<Rightarrow> addr \<Rightarrow> memory \<Rightarrow> memory" where
  "memcpy_loop 0 dst src m = m"
| "memcpy_loop (Suc n) dst src m = memcpy_loop n (dst + 1) (src + 1) (m(dst := m src))"

definition memcpy :: "memory \<Rightarrow> addr \<Rightarrow> addr \<Rightarrow> u32 \<Rightarrow> (addr \<times> memory) option" where
  "memcpy m dst src sz = do {
     ASSERT (dst \<noteq> 0 \<or> sz = 0);
     ASSERT (src \<noteq> 0 \<or> sz = 0);
     Some (dst, memcpy_loop (unat sz) dst src m)
   }"

fun memmove_down :: "nat \<Rightarrow> addr \<Rightarrow> addr \<Rightarrow> memory \<Rightarrow> memory" where
  "memmove_down 0 dst src m = m"
| "memmove_down (Suc n) dst src m = memmove_down n (dst - 1) (src - 1) (m(dst - 1 := m (src - 1)))"

definition memmove :: "memory \<Rightarrow> addr \<Rightarrow> addr \<Rightarrow> u32 \<Rightarrow> (addr \<times> memory) option" where
  "memmove m dst src sz = do {
     ASSERT (dst \<noteq> 0 \<or> sz = 0);
     ASSERT (src \<noteq> 0 \<or> sz = 0);
     Some (if dst < src then (dst + sz, memcpy_loop (unat sz) dst src m)
           else (dst, memmove_down (unat sz) (dst + sz) (src + sz) m))
   }"

fun memcmp_loop :: "nat \<Rightarrow> addr \<Rightarrow> addr \<Rightarrow> memory \<Rightarrow> int" where
  "memcmp_loop 0 a b m = 0"
| "memcmp_loop (Suc n) a b m = (if m a \<noteq> m b then if m a > m b then 1 else -1 else memcmp_loop n (a + 1) (b + 1) m)"

definition memcmp :: "memory \<Rightarrow> addr \<Rightarrow> addr \<Rightarrow> u32 \<Rightarrow> int option" where
  "memcmp m a b sz = do {
     ASSERT (a \<noteq> 0 \<or> sz = 0);
     ASSERT (b \<noteq> 0 \<or> sz = 0);
     Some (memcmp_loop (unat sz) a b m)
   }"

partial_function (option) strcmp_loop :: "memory \<Rightarrow> addr \<Rightarrow> addr \<Rightarrow> int option" where
  [code]: "strcmp_loop m a b =
     (if m a \<noteq> 0 \<and> m a = m b then strcmp_loop m (a + 1) (b + 1)
      else Some (if m a < m b then -1 else if m a > m b then 1 else 0))"

definition strcmp :: "memory \<Rightarrow> addr \<Rightarrow> addr \<Rightarrow> int option" where
  "strcmp m a b = do { ASSERT (a \<noteq> 0); ASSERT (b \<noteq> 0); strcmp_loop m a b }"

fun memchr_loop :: "nat \<Rightarrow> addr \<Rightarrow> u8 \<Rightarrow> memory \<Rightarrow> addr" where
  "memchr_loop 0 block ch m = 0"
| "memchr_loop (Suc n) block ch m = (if m block = ch then block else memchr_loop n (block + 1) ch m)"

definition memchr :: "memory \<Rightarrow> addr \<Rightarrow> u8 \<Rightarrow> u32 \<Rightarrow> addr option" where
  "memchr m block ch sz = do { ASSERT (block \<noteq> 0 \<or> sz = 0); Some (memchr_loop (unat sz) block ch m) }"

partial_function (option) strchr_loop :: "memory \<Rightarrow> addr \<Rightarrow> u8 \<Rightarrow> addr option" where
  [code]: "strchr_loop m p c =
     (if m p = c then Some p else if m p = 0 then Some 0 else strchr_loop m (p + 1) c)"

definition strchr :: "memory \<Rightarrow> addr \<Rightarrow> u8 \<Rightarrow> addr option" where
  "strchr m string c = do { ASSERT (string \<noteq> 0); strchr_loop m string c }"

partial_function (option) strcspn_loop :: "memory \<Rightarrow> addr \<Rightarrow> addr \<Rightarrow> u32 \<Rightarrow> u32 option" where
  [code]: "strcspn_loop m string stop len =
     (if m (string + len) \<noteq> 0 then do {
        p \<leftarrow> strchr m stop (m (string + len));
        if p \<noteq> 0 then Some len else strcspn_loop m string stop (len + 1)
      } else Some len)"

definition strcspn :: "memory \<Rightarrow> addr \<Rightarrow> addr \<Rightarrow> u32 option" where
  "strcspn m string stop = strcspn_loop m string stop 0"

partial_function (option) strpbrk :: "memory \<Rightarrow> addr \<Rightarrow> addr \<Rightarrow> addr option" where
  [code]: "strpbrk m string stop =
     (if m string \<noteq> 0 then do {
        p \<leftarrow> strchr m stop (m string);
        if p \<noteq> 0 then Some string else strpbrk m (string + 1) stop
      } else Some 0)"

partial_function (option) strrchr_loop :: "memory \<Rightarrow> addr \<Rightarrow> u8 \<Rightarrow> addr \<Rightarrow> addr option" where
  [code]: "strrchr_loop m string c p =
     (if m string \<noteq> 0 then strrchr_loop m (string + 1) c (if m string = c then string else p) else Some p)"

definition strrchr :: "memory \<Rightarrow> addr \<Rightarrow> u8 \<Rightarrow> addr option" where
  "strrchr m string c = strrchr_loop m string c 0"

partial_function (option) strspn_loop :: "memory \<Rightarrow> addr \<Rightarrow> addr \<Rightarrow> u32 \<Rightarrow> u32 option" where
  [code]: "strspn_loop m string skip len =
     (if m (string + len) \<noteq> 0 then do {
        p \<leftarrow> strchr m skip (m (string + len));
        if p = 0 then Some len else strspn_loop m string skip (len + 1)
      } else Some len)"

definition strspn :: "memory \<Rightarrow> addr \<Rightarrow> addr \<Rightarrow> u32 option" where
  "strspn m string skip = strspn_loop m string skip 0"

partial_function (option) strlen_loop :: "memory \<Rightarrow> addr \<Rightarrow> addr option" where
  [code]: "strlen_loop m p = (if m p \<noteq> 0 then strlen_loop m (p + 1) else Some p)"

definition strlen :: "memory \<Rightarrow> addr \<Rightarrow> u32 option" where
  "strlen m string = do { ASSERT (string \<noteq> 0); p \<leftarrow> strlen_loop m string; Some (p - string) }"

partial_function (option) strnlen_loop :: "memory \<Rightarrow> addr \<Rightarrow> u32 \<Rightarrow> u32 \<Rightarrow> u32 option" where
  [code]: "strnlen_loop m string maxlen len =
     (if m (string + len) \<noteq> 0 \<and> len < maxlen then strnlen_loop m string maxlen (len + 1) else Some len)"

definition strnlen :: "memory \<Rightarrow> addr \<Rightarrow> u32 \<Rightarrow> u32 option" where
  "strnlen m string maxlen = strnlen_loop m string maxlen 0"

partial_function (option) strstr_loop :: "memory \<Rightarrow> addr \<Rightarrow> addr \<Rightarrow> u32 \<Rightarrow> u32 \<Rightarrow> u32 \<Rightarrow> addr option" where
  [code]: "strstr_loop m haystack needle hlen nlen i =
     (if i \<le> hlen - nlen then do {
        c \<leftarrow> memcmp m (haystack + i) needle nlen;
        if c = 0 then Some (haystack + i) else strstr_loop m haystack needle hlen nlen (i + 1)
      } else Some 0)"

definition strstr :: "memory \<Rightarrow> addr \<Rightarrow> addr \<Rightarrow> addr option" where
  "strstr m haystack needle = do {
     hlen \<leftarrow> strlen m haystack;
     nlen \<leftarrow> strlen m needle;
     if hlen \<ge> nlen then strstr_loop m haystack needle hlen nlen 0 else Some 0
   }"

text \<open>The first loop of \<open>strtok_r\<close> stops at the end of the string (a null byte) or at a token.\<close>

partial_function (option) strtok_skip :: "memory \<Rightarrow> addr \<Rightarrow> addr \<Rightarrow> addr option" where
  [code]: "strtok_skip m s delimiters = do {
     p \<leftarrow> strchr m delimiters (m s);
     if p \<noteq> 0 then if m s = 0 then Some s else strtok_skip m (s + 1) delimiters
     else Some s
   }"

partial_function (option) strtok_scan :: "memory \<Rightarrow> addr \<Rightarrow> addr \<Rightarrow> addr option" where
  [code]: "strtok_scan m s delimiters = do {
     p \<leftarrow> strchr m delimiters (m s);
     if p = 0 then strtok_scan m (s + 1) delimiters else Some s
   }"

text \<open>The result is the token, the new value of \<open>*save_ptr\<close> and the memory.\<close>

definition strtok_r :: "memory \<Rightarrow> addr \<Rightarrow> addr \<Rightarrow> addr \<Rightarrow> (addr \<times> addr \<times> memory) option" where
  "strtok_r m s delimiters save_ptr = do {
     ASSERT (delimiters \<noteq> 0);
     let s = (if s = 0 then save_ptr else s);
     ASSERT (s \<noteq> 0);
     s1 \<leftarrow> strtok_skip m s delimiters;
     if m s1 = 0 then Some (0, s1, m)
     else do {
       s2 \<leftarrow> strtok_scan m s1 delimiters;
       if m s2 \<noteq> 0 then Some (s1, s2 + 1, m(s2 := 0)) else Some (s1, s2, m)
     }
   }"

fun memset_loop :: "nat \<Rightarrow> addr \<Rightarrow> u8 \<Rightarrow> memory \<Rightarrow> memory" where
  "memset_loop 0 dst v m = m"
| "memset_loop (Suc n) dst v m = memset_loop n (dst + 1) v (m(dst := v))"

definition memset :: "memory \<Rightarrow> addr \<Rightarrow> u8 \<Rightarrow> u32 \<Rightarrow> (addr \<times> memory) option" where
  "memset m dst v sz = do { ASSERT (dst \<noteq> 0 \<or> sz = 0); Some (dst, memset_loop (unat sz) dst v m) }"

definition strlcpy :: "memory \<Rightarrow> addr \<Rightarrow> addr \<Rightarrow> u32 \<Rightarrow> (u32 \<times> memory) option" where
  "strlcpy m dst src sz = do {
     ASSERT (dst \<noteq> 0);
     ASSERT (src \<noteq> 0);
     src_len \<leftarrow> strlen m src;
     if sz > 0 then do {
       let dst_len = sz - 1;
       let dst_len = (if src_len < dst_len then src_len else dst_len);
       (_, m1) \<leftarrow> memcpy m dst src dst_len;
       Some (src_len, m1(dst + dst_len := 0))
     } else Some (src_len, m)
   }"

definition strlcat :: "memory \<Rightarrow> addr \<Rightarrow> addr \<Rightarrow> u32 \<Rightarrow> (u32 \<times> memory) option" where
  "strlcat m dst src sz = do {
     ASSERT (dst \<noteq> 0);
     ASSERT (src \<noteq> 0);
     src_len \<leftarrow> strlen m src;
     dst_len \<leftarrow> strlen m dst;
     if sz > 0 \<and> dst_len < sz then do {
       let copy_cnt = sz - dst_len - 1;
       let copy_cnt = (if src_len < copy_cnt then src_len else copy_cnt);
       (_, m1) \<leftarrow> memcpy m (dst + dst_len) src copy_cnt;
       Some (src_len + dst_len, m1(dst + (dst_len + copy_cnt) := 0))
     } else Some (src_len + dst_len, m)
   }"

subsection \<open>Blocks of memory\<close>

lemma unat_suc: "unat (p :: addr) + Suc n \<le> 2 ^ 32 \<Longrightarrow> unat (p + 1) = unat p + 1 \<or> n = 0 \<and> p + 1 = 0"
  by (cases "unat p + 1 < 2 ^ 32") (auto simp: unat_plus_if' word_unat_eq_iff)

lemma span_first: "unat a \<in> span_of p (Suc 0) \<longleftrightarrow> a = p"
  by (auto simp: span_of_def word_unat_eq_iff)

text \<open>The loops copy upwards when the destination is below the source or the blocks are apart.\<close>

lemma memcpy_loop_at:
  assumes "unat dst + n \<le> 2 ^ 32" "unat src + n \<le> 2 ^ 32" "unat dst < unat src \<or> unat src + n \<le> unat dst"
  shows "memcpy_loop n dst src m a = (if unat a \<in> span_of dst n then m (src + (a - dst)) else m a)"
  using assms
proof (induction n arbitrary: dst src m)
  case (Suc n)
  let ?m = "m(dst := m src)"
  show ?case
  proof (cases "n = 0")
    case True
    then show ?thesis by (auto simp: span_first)
  next
    case False
    have u: "unat (dst + 1) = unat dst + 1" "unat (src + 1) = unat src + 1"
      using unat_suc [OF Suc.prems(1)] unat_suc [OF Suc.prems(2)] False by auto
    have ih: "memcpy_loop n (dst + 1) (src + 1) ?m a =
        (if unat a \<in> span_of (dst + 1) n then ?m (src + 1 + (a - (dst + 1))) else ?m a)"
      using Suc.IH [of "dst + 1" "src + 1" ?m] Suc.prems u by linarith
    have e: "src + 1 + (a - (dst + 1)) = src + (a - dst)" by simp
    show ?thesis
    proof (cases "unat a \<in> span_of (dst + 1) n")
      case True
      then have r: "unat dst < unat a" "unat a < unat dst + Suc n" using u by (auto simp: span_of_def)
      have k: "unat (a - dst) = unat a - unat dst" using r(1) by (simp add: unat_sub_if')
      have "unat (src + (a - dst)) = unat src + (unat a - unat dst)"
        using k r Suc.prems(2) by (simp add: unat_plus_if')
      then have "unat (src + (a - dst)) \<noteq> unat dst" using r Suc.prems(3) by linarith
      then have "src + (a - dst) \<noteq> dst" by metis
      then show ?thesis using ih True e r by (simp add: span_of_def)
    next
      case F: False
      have "unat a \<in> span_of dst (Suc n) \<longleftrightarrow> a = dst"
        using F u by (auto simp: span_of_def word_unat_eq_iff)
      then show ?thesis using ih F by auto
    qed
  qed
qed (simp add: span_of_def)

lemma memmove_down_at:
  assumes "unat dst + n \<le> 2 ^ 32" "unat src + n \<le> 2 ^ 32" "unat src \<le> unat dst"
  shows "memmove_down n (dst + of_nat n) (src + of_nat n) m a = (if unat a \<in> span_of dst n then m (src + (a - dst)) else m a)"
  using assms
proof (induction n arbitrary: m)
  case (Suc n)
  let ?m = "m(dst + of_nat n := m (src + of_nat n))"
  have n: "unat (of_nat n :: addr) = n" using Suc.prems(1) by (intro unat_of_nat_id) simp
  have u: "unat (dst + of_nat n) = unat dst + n" "unat (src + of_nat n) = unat src + n"
    using n Suc.prems by (simp_all add: unat_plus_if')
  have ih: "memmove_down n (dst + of_nat n) (src + of_nat n) ?m a = (if unat a \<in> span_of dst n then ?m (src + (a - dst)) else ?m a)"
    by (rule Suc.IH) (use Suc.prems in simp_all)
  have st: "memmove_down (Suc n) (dst + of_nat (Suc n)) (src + of_nat (Suc n)) m a =
      memmove_down n (dst + of_nat n) (src + of_nat n) ?m a" by (simp add: algebra_simps)
  show ?case
  proof (cases "unat a \<in> span_of dst n")
    case True
    then have r: "unat dst \<le> unat a" "unat a < unat dst + n" by (auto simp: span_of_def)
    have k: "unat (a - dst) = unat a - unat dst" using r(1) by (simp add: unat_sub_if')
    have "unat (src + (a - dst)) = unat src + (unat a - unat dst)"
      using k r Suc.prems(2) by (simp add: unat_plus_if')
    then have "unat (src + (a - dst)) \<noteq> unat (dst + of_nat n)" using r u(1) Suc.prems(3) by linarith
    then have "src + (a - dst) \<noteq> dst + of_nat n" by metis
    then show ?thesis using st ih True r by (simp add: span_of_def)
  next
    case False
    have "unat a \<in> span_of dst (Suc n) \<longleftrightarrow> a = dst + of_nat n"
      using False u(1) by (auto simp: span_of_def word_unat_eq_iff)
    then show ?thesis using st ih False by auto
  qed
qed (simp add: span_of_def)

lemma memset_loop_at:
  "unat dst + n \<le> 2 ^ 32 \<Longrightarrow> memset_loop n dst v m a = (if unat a \<in> span_of dst n then v else m a)"
proof (induction n arbitrary: dst m)
  case (Suc n)
  show ?case
  proof (cases "n = 0")
    case True
    then show ?thesis by (auto simp: span_first)
  next
    case False
    then have u: "unat (dst + 1) = unat dst + 1" using unat_suc [OF Suc.prems] by auto
    have "memset_loop n (dst + 1) v (m(dst := v)) a = (if unat a \<in> span_of (dst + 1) n then v else (m(dst := v)) a)"
      by (rule Suc.IH) (use Suc.prems u in simp)
    moreover have "unat a \<in> span_of dst (Suc n) \<longleftrightarrow> a = dst \<or> unat a \<in> span_of (dst + 1) n"
      using u by (auto simp: span_of_def word_unat_eq_iff)
    ultimately show ?thesis by auto
  qed
qed (simp add: span_of_def)

lemma memcpy_ok:
  assumes "unat dst + unat n \<le> 2 ^ 32" "unat src + unat n \<le> 2 ^ 32" "unat dst < unat src \<or> unat src + unat n \<le> unat dst"
    "dst \<noteq> 0 \<or> n = 0" "src \<noteq> 0 \<or> n = 0"
  shows "memcpy m dst src n = Some (dst, mem_copy m dst src n)"
proof -
  have "memcpy_loop (unat n) dst src m = mem_copy m dst src n"
    using memcpy_loop_at [OF assms(1-3)] in_span [OF assms(1)] by (auto simp: mem_copy_def fun_eq_iff)
  then show ?thesis using assms(4,5) by (simp add: memcpy_def)
qed

subsection \<open>Strings\<close>

text \<open>A string in memory: its bytes and a terminating null.\<close>

fun cstr_at :: "memory \<Rightarrow> addr \<Rightarrow> u8 list \<Rightarrow> bool" where
  "cstr_at m p [] = (m p = 0)"
| "cstr_at m p (x # xs) = (m p = x \<and> x \<noteq> 0 \<and> cstr_at m (p + 1) xs)"

definition str_ok :: "memory \<Rightarrow> addr \<Rightarrow> u8 list \<Rightarrow> bool" where
  "str_ok m p xs \<longleftrightarrow> p \<noteq> 0 \<and> unat p + length xs < 2 ^ 32 \<and> cstr_at m p xs"

lemma str_ok_next:
  assumes "str_ok m p (x # xs)"
  shows "str_ok m (p + 1) xs" "m p = x" "x \<noteq> 0" "unat (p + 1) = unat p + 1"
proof -
  have "unat (p + 1) = unat p + 1" using assms by (simp add: str_ok_def unat_plus_if')
  moreover from this have "p + 1 \<noteq> 0" by auto
  ultimately show "str_ok m (p + 1) xs" "m p = x" "x \<noteq> 0" "unat (p + 1) = unat p + 1" using assms by (simp_all add: str_ok_def)
qed

lemma str_ok_suffix: "str_ok m p (xs @ ys) \<Longrightarrow> str_ok m (p + of_nat (length xs)) ys \<and> unat (p + of_nat (length xs)) = unat p + length xs"
proof (induction xs arbitrary: p)
  case (Cons x xs)
  from Cons.prems have s: "str_ok m (p + 1) (xs @ ys)" "unat (p + 1) = unat p + 1" using str_ok_next [of m p x "xs @ ys"] by auto
  show ?case using Cons.IH [OF s(1)] s(2) by (simp add: add.assoc)
qed simp

lemma cstr_at_nth: "cstr_at m p xs \<Longrightarrow> i < length xs \<Longrightarrow> m (p + of_nat i) = xs ! i"
proof (induction xs arbitrary: p i)
  case (Cons x xs)
  show ?case
  proof (cases i)
    case (Suc j)
    have "m (p + 1 + of_nat j) = xs ! j" using Cons.IH [of "p + 1" j] Cons.prems Suc by simp
    then show ?thesis using Suc by (simp add: add.assoc)
  qed (use Cons.prems in simp)
qed simp

lemma cstr_at_end: "cstr_at m p xs \<Longrightarrow> m (p + of_nat (length xs)) = 0"
proof (induction xs arbitrary: p)
  case (Cons x xs)
  then have "m (p + 1 + of_nat (length xs)) = 0" by simp
  then show ?case by (simp add: add.assoc)
qed simp

lemma cstr_at_no_null: "cstr_at m p xs \<Longrightarrow> 0 \<notin> set xs"
  by (induction xs arbitrary: p) auto

text \<open>A memory that agrees on the bytes of a string holds the same string.\<close>

lemma str_ok_cong:
  "str_ok m p xs \<Longrightarrow> (\<And>a. unat p \<le> unat a \<Longrightarrow> unat a \<le> unat p + length xs \<Longrightarrow> m' a = m a) \<Longrightarrow> str_ok m' p xs"
proof (induction xs arbitrary: p)
  case Nil
  then show ?case by (simp add: str_ok_def)
next
  case (Cons x xs)
  note n = str_ok_next [OF Cons.prems(1)]
  have "str_ok m' (p + 1) xs" by (rule Cons.IH [OF n(1)]) (use Cons.prems(2) n(4) in simp)
  moreover have "m' p = m p" using Cons.prems(2) [of p] by simp
  ultimately show ?case using Cons.prems(1) n by (simp add: str_ok_def)
qed

lemma strlen_loop_ok: "str_ok m p xs \<Longrightarrow> strlen_loop m p = Some (p + of_nat (length xs))"
proof (induction xs arbitrary: p)
  case Nil
  then show ?case by (subst strlen_loop.simps) (simp add: str_ok_def)
next
  case (Cons x xs)
  then show ?case using str_ok_next [OF Cons.prems] Cons.IH by (subst strlen_loop.simps) (simp add: add.assoc)
qed

lemma strlen_ok: "str_ok m p xs \<Longrightarrow> strlen m p = Some (of_nat (length xs))"
  using strlen_loop_ok [of m p xs] by (simp add: strlen_def str_ok_def)

lemma strchr_loop_ok:
  "str_ok m p xs \<Longrightarrow> strchr_loop m p c =
     Some (if c = 0 \<or> c \<in> set xs then p + of_nat (length (takeWhile (\<lambda>x. x \<noteq> c) xs)) else 0)"
proof (induction xs arbitrary: p)
  case Nil
  then show ?case by (subst strchr_loop.simps) (auto simp: str_ok_def)
next
  case (Cons x xs)
  note n = str_ok_next [OF Cons.prems]
  show ?case using Cons.IH [OF n(1)] n(2,3) by (subst strchr_loop.simps) (auto simp: add.assoc)
qed

lemma strchr_ok:
  assumes "str_ok m p xs"
  shows "\<exists>q. strchr m p c = Some q \<and> (q \<noteq> 0 \<longleftrightarrow> c = 0 \<or> c \<in> set xs)"
proof -
  let ?t = "takeWhile (\<lambda>x. x \<noteq> c) xs"
  have "str_ok m p (?t @ dropWhile (\<lambda>x. x \<noteq> c) xs)" using assms by simp
  from str_ok_suffix [OF this] have "p + of_nat (length ?t) \<noteq> 0" by (simp add: str_ok_def)
  then show ?thesis using strchr_loop_ok [OF assms, of c] assms by (auto simp: strchr_def str_ok_def)
qed

subsection \<open>Copying blocks\<close>

text \<open>
  C34. For two blocks inside the address space, overlapping or not, \<open>memmove\<close> leaves the
  source's old contents in the destination and every other byte as it was. The pointer it returns
  is the destination when it copied downwards and the end of the destination when it copied
  upwards (the loop advances the variable it returns).
\<close>

theorem memmove_correct:
  assumes "unat dst + unat n \<le> 2 ^ 32" "unat src + unat n \<le> 2 ^ 32" "dst \<noteq> 0 \<or> n = 0" "src \<noteq> 0 \<or> n = 0"
  shows "\<exists>m'. memmove m dst src n = Some (if dst < src then dst + n else dst, m') \<and>
    (\<forall>i < unat n. m' (dst + of_nat i) = m (src + of_nat i)) \<and>
    (\<forall>a. unat a \<notin> span_of dst (unat n) \<longrightarrow> m' a = m a)"
proof -
  let ?m = "if dst < src then memcpy_loop (unat n) dst src m else memmove_down (unat n) (dst + n) (src + n) m"
  have at: "?m a = (if unat a \<in> span_of dst (unat n) then m (src + (a - dst)) else m a)" for a
    using memcpy_loop_at [OF assms(1,2), of m a] memmove_down_at [OF assms(1,2), of m a]
    by (simp add: word_less_nat_alt)
  have "?m (dst + of_nat i) = m (src + of_nat i)" if i: "i < unat n" for i
  proof -
    have "unat (of_nat i :: addr) = i" using i assms(1) by (intro unat_of_nat_id) simp
    then have "unat (dst + of_nat i) = unat dst + i" using i assms(1) by (simp add: unat_plus_if')
    then show ?thesis using at [of "dst + of_nat i"] i by (simp add: span_of_def)
  qed
  moreover have "memmove m dst src n = Some (if dst < src then dst + n else dst, ?m)"
    using assms(3,4) by (simp add: memmove_def)
  ultimately show ?thesis using at by (intro exI [of _ ?m]) simp
qed

text \<open>Moving the two bytes at address 17 of a block one byte down, over themselves.\<close>

theorem memmove_correct_witness:
  "\<exists>m'. memmove ((\<lambda>_. 0)(17 := 5, 18 := 7)) 16 17 2 = Some (18, m') \<and> m' 16 = 5 \<and> m' 17 = 7 \<and> m' 18 = 7"
proof -
  let ?m = "(\<lambda>_. 0)(17 := 5, 18 := 7) :: memory"
  obtain m' where r: "memmove ?m 16 17 2 = Some (18, m')"
    and c: "\<forall>i < 2. m' (16 + of_nat i) = ?m (17 + of_nat i)"
    and f: "\<forall>a. unat a \<notin> span_of 16 2 \<longrightarrow> m' a = ?m a"
    using memmove_correct [of 16 2 17 ?m] by auto
  have "m' 16 = 5" "m' 17 = 7" using c [rule_format, of 0] c [rule_format, of 1] by simp_all
  moreover have "m' 18 = 7" using f [rule_format, of 18] by (simp add: span_of_def)
  ultimately show ?thesis using r by blast
qed

subsection \<open>Bounded copies\<close>

text \<open>Cutting a string short with a null byte.\<close>

lemma str_ok_cut: "str_ok m p (xs @ ys) \<Longrightarrow> str_ok (m(p + of_nat (length xs) := 0)) p xs"
proof (induction xs arbitrary: p)
  case (Cons x xs)
  from Cons.prems have n: "str_ok m (p + 1) (xs @ ys)" "m p = x" "x \<noteq> 0"
    using str_ok_next [of m p x "xs @ ys"] by auto
  have "unat (p + of_nat (length (x # xs))) = unat p + length (x # xs)"
    using str_ok_suffix [OF Cons.prems] by blast
  then have q: "p + of_nat (length (x # xs)) \<noteq> p" by auto
  define q where "q = p + 1 + of_nat (length xs)"
  have e: "p + of_nat (length (x # xs)) = q" by (simp add: q_def add.assoc)
  have "str_ok (m(q := 0)) (p + 1) xs" using Cons.IH [OF n(1)] unfolding q_def .
  then show ?case using q n Cons.prems unfolding e by (simp add: str_ok_def fun_upd_other del: fun_upd_apply)
qed (simp add: str_ok_def)

text \<open>A block of nonzero bytes followed by a null is a string.\<close>

lemma str_okI:
  "p \<noteq> 0 \<Longrightarrow> unat p + length xs < 2 ^ 32 \<Longrightarrow> 0 \<notin> set xs \<Longrightarrow> (\<And>i. i < length xs \<Longrightarrow> m (p + of_nat i) = xs ! i) \<Longrightarrow>
   m (p + of_nat (length xs)) = 0 \<Longrightarrow> str_ok m p xs"
proof (induction xs arbitrary: p)
  case (Cons x xs)
  have u: "unat (p + 1) = unat p + 1" using Cons.prems(2) by (simp add: unat_plus_if')
  then have nz: "p + 1 \<noteq> 0" by auto
  have e: "p + 1 + of_nat i = p + of_nat (Suc i)" for i by (simp add: add.assoc)
  have "m (p + 1 + of_nat i) = xs ! i" if "i < length xs" for i
    unfolding e using Cons.prems(4) [of "Suc i"] that by (simp del: of_nat_Suc)
  moreover have "m (p + 1 + of_nat (length xs)) = 0" unfolding e using Cons.prems(5) by (simp del: of_nat_Suc)
  ultimately have "str_ok m (p + 1) xs" using Cons.IH [of "p + 1"] Cons.prems(2,3) u nz by simp
  then show ?case using Cons.prems(1-3) Cons.prems(4) [of 0] by (simp add: str_ok_def)
qed (simp add: str_ok_def)

lemma str_ok_at: "str_ok m p xs \<Longrightarrow> i < length xs \<Longrightarrow> m (p + of_nat i) = xs ! i"
  by (simp add: str_ok_def cstr_at_nth)

lemma str_ok_no_null: "str_ok m p xs \<Longrightarrow> 0 \<notin> set xs"
  using cstr_at_no_null by (auto simp: str_ok_def)

lemma str_ok_bound: "str_ok m p xs \<Longrightarrow> unat p + length xs < 2 ^ 32"
  by (simp add: str_ok_def)

lemma str_ok_length: "str_ok m p xs \<Longrightarrow> unat (of_nat (length xs) :: u32) = length xs"
  using str_ok_bound by (intro unat_of_nat_id) (fastforce simp: str_ok_def)

text \<open>The copy both bounded functions make: a prefix of the source, then a null byte.\<close>

lemma copy_prefix:
  assumes src: "str_ok m src xs" and k: "k \<le> length xs" and d: "d \<noteq> 0" "unat d + k < 2 ^ 32"
    and apart: "unat d + k < unat src \<or> unat src + length xs < unat d"
  shows "memcpy m d src (of_nat k) = Some (d, mem_copy m d src (of_nat k))"
    "str_ok ((mem_copy m d src (of_nat k))(d + of_nat k := 0)) d (take k xs)"
    "unat a \<notin> span_of d (Suc k) \<Longrightarrow> ((mem_copy m d src (of_nat k))(d + of_nat k := 0)) a = m a"
proof -
  let ?m = "(mem_copy m d src (of_nat k))(d + of_nat k := 0)"
  note b = str_ok_bound [OF src]
  have uk: "unat (of_nat k :: u32) = k" using d(2) by (intro unat_of_nat_id) simp
  have ud: "unat (d + of_nat i) = unat d + i" if "i \<le> k" for i
  proof -
    have "unat (of_nat i :: u32) = i" using that d(2) by (intro unat_of_nat_id) simp
    then show ?thesis using that d(2) by (simp add: unat_plus_if')
  qed
  have sp: "mem_copy m d src (of_nat k) a = (if unat a \<in> span_of d k then m (src + (a - d)) else m a)" for a
    using in_span [of d "of_nat k"] uk d(2) by (auto simp: mem_copy_def)
  show "memcpy m d src (of_nat k) = Some (d, mem_copy m d src (of_nat k))"
    by (rule memcpy_ok) (use uk k b d apart src in \<open>auto simp: str_ok_def\<close>)
  show "str_ok ?m d (take k xs)"
  proof (rule str_okI)
    fix i assume i: "i < length (take k xs)"
    then have i: "i < k" "i < length xs" by auto
    then have "unat (d + of_nat i) \<noteq> unat (d + of_nat k)" using ud by simp
    then have "d + of_nat i \<noteq> d + of_nat k" by metis
    then show "?m (d + of_nat i) = take k xs ! i"
      using sp [of "d + of_nat i"] ud [of i] i str_ok_at [OF src i(2)] by (simp add: span_of_def)
  qed (use d k str_ok_no_null [OF src] in \<open>auto simp: min_absorb2 dest: in_set_takeD\<close>)
  show "unat a \<notin> span_of d (Suc k) \<Longrightarrow> ?m a = m a"
    using sp [of a] ud [of k] by (auto simp: span_of_def)
qed

lemma u32_less_nat: "unat (of_nat n :: u32) = n \<Longrightarrow> of_nat n < (w :: u32) \<longleftrightarrow> n < unat w"
  by (simp add: word_less_nat_alt)

text \<open>
  The function \<open>strlcpy\<close> returns the length of the source; unless the size is 0 it leaves in the
  destination the first \<open>size - 1\<close> characters of the source (all of them if they fit), terminated,
  and it writes nothing outside the \<open>size\<close> bytes of the destination.
\<close>

lemma strlcpy_correct:
  assumes src: "str_ok m src xs" and d: "dst \<noteq> 0" "unat dst + unat sz \<le> 2 ^ 32"
    and apart: "unat dst + unat sz \<le> unat src \<or> unat src + length xs < unat dst"
  shows "\<exists>m'. strlcpy m dst src sz = Some (of_nat (length xs), m') \<and>
    (sz > 0 \<longrightarrow> str_ok m' dst (take (unat sz - 1) xs)) \<and>
    (\<forall>a. unat a \<notin> span_of dst (unat sz) \<longrightarrow> m' a = m a)"
proof (cases "sz = 0")
  case True
  then show ?thesis using src d strlen_ok [OF src] by (auto simp: strlcpy_def str_ok_def)
next
  case False
  then have pos: "0 < unat sz" by (simp add: unat_gt_0)
  let ?k = "min (length xs) (unat sz - 1)"
  let ?m = "(mem_copy m dst src (of_nat ?k))(dst + of_nat ?k := 0)"
  have u: "unat (sz - 1) = unat sz - 1" using False by (simp add: unat_minus_one)
  have kk: "(if of_nat (length xs) < sz - 1 then of_nat (length xs) else sz - 1) = (of_nat ?k :: u32)"
    using u32_less_nat [OF str_ok_length [OF src], of "sz - 1"] unfolding u [symmetric] by (auto simp: min_def)
  note c = copy_prefix [OF src, of ?k dst, OF min.cobounded1 d(1)]
  have b: "unat dst + ?k < 2 ^ 32" "unat dst + ?k < unat src \<or> unat src + length xs < unat dst"
    using d(2) apart pos by auto
  have "strlcpy m dst src sz = Some (of_nat (length xs), ?m)"
    using c(1) [OF b] d(1) src False strlen_ok [OF src] kk by (simp add: strlcpy_def str_ok_def word_neq_0_conv Let_def)
  moreover have "take ?k xs = take (unat sz - 1) xs" by (auto simp: min_def)
  moreover have "?m a = m a" if "unat a \<notin> span_of dst (unat sz)" for a
    by (rule c(3) [OF b]) (use that pos in \<open>auto simp: span_of_def\<close>)
  ultimately show ?thesis using c(2) [OF b] by (intro exI [of _ ?m]) (simp del: fun_upd_apply)
qed

text \<open>Copying a string of three characters into a buffer of three bytes.\<close>

subsection \<open>Tokens\<close>

definition is_delim :: "u8 list \<Rightarrow> u8 \<Rightarrow> bool" where
  "is_delim ds x \<longleftrightarrow> x \<in> set ds"

lemma strtok_skip_ok:
  assumes d: "str_ok m delims ds"
  shows "str_ok m s xs \<Longrightarrow> strtok_skip m s delims = Some (s + of_nat (length (takeWhile (is_delim ds) xs)))"
proof (induction xs arbitrary: s)
  case Nil
  obtain q where "strchr m delims (m s) = Some q" "q \<noteq> 0" using strchr_ok [OF d, of "m s"] Nil by (auto simp: str_ok_def)
  then show ?case using Nil by (subst strtok_skip.simps) (simp add: str_ok_def)
next
  case (Cons x xs)
  note n = str_ok_next [OF Cons.prems]
  obtain q where q: "strchr m delims x = Some q" "q \<noteq> 0 \<longleftrightarrow> is_delim ds x"
    using strchr_ok [OF d, of x] n(3) by (auto simp: is_delim_def)
  show ?case using q n Cons.IH [OF n(1)] by (subst strtok_skip.simps) (auto simp: add.assoc)
qed

lemma strtok_scan_ok:
  assumes d: "str_ok m delims ds"
  shows "str_ok m s xs \<Longrightarrow> strtok_scan m s delims = Some (s + of_nat (length (takeWhile (\<lambda>x. \<not> is_delim ds x) xs)))"
proof (induction xs arbitrary: s)
  case Nil
  obtain q where "strchr m delims (m s) = Some q" "q \<noteq> 0" using strchr_ok [OF d, of "m s"] Nil by (auto simp: str_ok_def)
  then show ?case using Nil by (subst strtok_scan.simps) (simp add: str_ok_def)
next
  case (Cons x xs)
  note n = str_ok_next [OF Cons.prems]
  obtain q where q: "strchr m delims x = Some q" "q \<noteq> 0 \<longleftrightarrow> is_delim ds x"
    using strchr_ok [OF d, of x] n(3) by (auto simp: is_delim_def)
  show ?case using q n Cons.IH [OF n(1)] by (subst strtok_scan.simps) (auto simp: add.assoc)
qed

lemma str_ok_nul: "str_ok m p xs \<Longrightarrow> m p = 0 \<longleftrightarrow> xs = []"
  by (cases xs) (auto simp: str_ok_def)

text \<open>
  C35. The function \<open>strtok_r\<close> on a string (its argument, or the saved position when the argument is null):
  without a character outside the delimiters it returns a null pointer; otherwise it returns the
  address of the first such character, where the string is now cut off after the maximal run of
  characters outside the delimiters (a nonempty token), it saves the position of what follows the
  delimiter it overwrote, and it writes no other byte.
\<close>

theorem strtok_r_correct:
  assumes d: "str_ok m delims ds" and str: "str_ok m (if s = 0 then sv else s) xs"
  shows "\<exists>r sv' m'. strtok_r m s delims sv = Some (r, sv', m') \<and>
    (let rest = dropWhile (is_delim ds) xs;
         tok = takeWhile (\<lambda>x. \<not> is_delim ds x) rest
     in str_ok m' sv' (drop (Suc (length tok)) rest) \<and>
        (if rest = [] then r = 0 \<and> m' = m
         else r = (if s = 0 then sv else s) + of_nat (length (takeWhile (is_delim ds) xs)) \<and>
              tok \<noteq> [] \<and> str_ok m' r tok \<and> (\<forall>a. a \<noteq> r + of_nat (length tok) \<longrightarrow> m' a = m a)))"
proof -
  let ?s = "if s = 0 then sv else s"
  define pre where "pre = takeWhile (is_delim ds) xs"
  define rest where "rest = dropWhile (is_delim ds) xs"
  define tok where "tok = takeWhile (\<lambda>x. \<not> is_delim ds x) rest"
  define tail where "tail = dropWhile (\<lambda>x. \<not> is_delim ds x) rest"
  define t where "t = ?s + of_nat (length pre)"
  define u where "u = t + of_nat (length tok)"
  have split: "xs = pre @ rest" "rest = tok @ tail" by (simp_all add: pre_def rest_def tok_def tail_def)
  have T: "str_ok m t rest" using str_ok_suffix [of m ?s pre rest] str split(1) unfolding t_def by metis
  have U: "str_ok m u tail" "unat u = unat t + length tok"
    using str_ok_suffix [of m t tok tail] T split(2) unfolding u_def by metis+
  have run: "strtok_r m s delims sv = (if rest = [] then Some (0, t, m)
      else if tail \<noteq> [] then Some (t, u + 1, m(u := 0)) else Some (t, u, m))"
    using strtok_skip_ok [OF d str] strtok_scan_ok [OF d T] str_ok_nul [OF T] str_ok_nul [OF U(1)] d str
    by (simp add: strtok_r_def str_ok_def t_def u_def pre_def tok_def)
  have tok: "tok \<noteq> []" if "rest \<noteq> []"
    using that hd_dropWhile [of "is_delim ds" xs] by (cases rest) (auto simp: tok_def rest_def)
  have cut: "str_ok (m(u := 0)) t tok" using str_ok_cut [of m t tok tail] T split(2) by (simp add: u_def)
  show ?thesis
  proof (cases "rest = [] \<or> tail = []")
    case True
    then have e: "tail = []" using split(2) by auto
    then have "drop (Suc (length tok)) rest = []" "str_ok m t tok" "str_ok m u []" "rest = [] \<Longrightarrow> u = t"
      using split(2) T U by (simp_all add: u_def)
    then show ?thesis using run tok e
      by (cases "rest = []") (simp_all add: Let_def rest_def [symmetric] tok_def [symmetric] pre_def [symmetric]
        t_def [symmetric] u_def [symmetric])
  next
    case False
    then obtain x ys where tl: "tail = x # ys" by (cases tail) auto
    note n = str_ok_next [OF U(1) [unfolded tl]]
    have "str_ok (m(u := 0)) (u + 1) ys" by (rule str_ok_cong [OF n(1)]) (use n(4) in auto)
    moreover have "drop (Suc (length tok)) rest = ys" using split(2) tl by simp
    ultimately show ?thesis using run tok cut False
      by (simp add: Let_def rest_def [symmetric] tok_def [symmetric] pre_def [symmetric] t_def [symmetric] u_def [symmetric])
  qed
qed

text \<open>The first token of \<open>"  ab c"\<close>, with the space as delimiter, is at offset 2.\<close>

theorem strtok_r_correct_witness:
  "\<exists>sv' m'. strtok_r ((\<lambda>_. 0)(8 := 32, 100 := 32, 101 := 32, 102 := 97, 103 := 98, 104 := 32, 105 := 99)) 100 8 0
     = Some (102, sv', m') \<and> str_ok m' 102 [97, 98] \<and> str_ok m' sv' [99]"
  using strtok_r_correct [of "(\<lambda>_. 0)(8 := 32, 100 := 32, 101 := 32, 102 := 97, 103 := 98, 104 := 32, 105 := 99)"
      8 "[32]" 100 0 "[32, 32, 97, 98, 32, 99]"]
  by (force simp: str_ok_def is_delim_def)

end
