(* ===== verification/Stdlib.thy ===== *)
theory Stdlib
  imports Cstring
begin

text \<open>
  Number parsing, heap sort and binary search (src/proj-pregame/src/lib/stdlib.c, with the character
  classes of src/proj-pregame/src/lib/ctype.h). An array of \<open>cnt\<close> elements of \<open>size\<close> bytes is the
  list of its elements, the caller's comparison function a function on elements with a
  \<open>strcmp\<close>-like result, its auxiliary argument part of that function. Element indexes are natural
  numbers: twice an index wraps only for an array that fills half of the address space.
\<close>

subsection \<open>The C functions\<close>

definition islower :: "int \<Rightarrow> bool" where "islower c \<longleftrightarrow> c \<ge> 97 \<and> c \<le> 122"
definition isupper :: "int \<Rightarrow> bool" where "isupper c \<longleftrightarrow> c \<ge> 65 \<and> c \<le> 90"
definition isalpha :: "int \<Rightarrow> bool" where "isalpha c \<longleftrightarrow> islower c \<or> isupper c"
definition isdigit :: "int \<Rightarrow> bool" where "isdigit c \<longleftrightarrow> c \<ge> 48 \<and> c \<le> 57"
definition isalnum :: "int \<Rightarrow> bool" where "isalnum c \<longleftrightarrow> isalpha c \<or> isdigit c"
definition isxdigit :: "int \<Rightarrow> bool" where
  "isxdigit c \<longleftrightarrow> isdigit c \<or> c \<ge> 97 \<and> c \<le> 102 \<or> c \<ge> 65 \<and> c \<le> 70"
definition isspace :: "int \<Rightarrow> bool" where
  "isspace c \<longleftrightarrow> c = 32 \<or> c = 12 \<or> c = 10 \<or> c = 13 \<or> c = 9 \<or> c = 11"
definition isblank :: "int \<Rightarrow> bool" where "isblank c \<longleftrightarrow> c = 32 \<or> c = 9"
definition isgraph :: "int \<Rightarrow> bool" where "isgraph c \<longleftrightarrow> c > 32 \<and> c < 127"
definition isprint :: "int \<Rightarrow> bool" where "isprint c \<longleftrightarrow> c \<ge> 32 \<and> c < 127"
definition iscntrl :: "int \<Rightarrow> bool" where "iscntrl c \<longleftrightarrow> c \<ge> 0 \<and> c < 32 \<or> c = 127"
definition isascii :: "int \<Rightarrow> bool" where "isascii c \<longleftrightarrow> c \<ge> 0 \<and> c < 128"
definition ispunct :: "int \<Rightarrow> bool" where "ispunct c \<longleftrightarrow> isprint c \<and> \<not> isalnum c \<and> \<not> isspace c"
definition tolower :: "int \<Rightarrow> int" where "tolower c = (if isupper c then c - 65 + 97 else c)"
definition toupper :: "int \<Rightarrow> int" where "toupper c = (if islower c then c - 97 + 65 else c)"

partial_function (option) atoi_space :: "memory \<Rightarrow> addr \<Rightarrow> addr option" where
  [code]: "atoi_space m s = (if isspace (uint (m s)) then atoi_space m (s + 1) else Some s)"

text \<open>The value of the digits is accumulated as a negative number; a plain \<open>char\<close> is signed.\<close>

partial_function (option) atoi_digits :: "memory \<Rightarrow> addr \<Rightarrow> u32 \<Rightarrow> u32 option" where
  [code]: "atoi_digits m s v =
     (if isdigit (sint (m s)) then atoi_digits m (s + 1) (v * 10 - (scast (m s) - 48)) else Some v)"

definition atoi :: "memory \<Rightarrow> addr \<Rightarrow> u32 option" where
  "atoi m s = do {
     ASSERT (s \<noteq> 0);
     s \<leftarrow> atoi_space m s;
     let (negative, s) = (if m s = 43 then (False, s + 1) else if m s = 45 then (True, s + 1) else (False, s));
     v \<leftarrow> atoi_digits m s 0;
     Some (if \<not> negative then - v else v)
   }"

definition do_swap :: "'a list \<Rightarrow> nat \<Rightarrow> nat \<Rightarrow> 'a list" where
  "do_swap array a_idx b_idx = array[a_idx - 1 := array ! (b_idx - 1), b_idx - 1 := array ! (a_idx - 1)]"

definition do_compare :: "('a \<Rightarrow> 'a \<Rightarrow> int) \<Rightarrow> 'a list \<Rightarrow> nat \<Rightarrow> nat \<Rightarrow> int" where
  "do_compare compare array a_idx b_idx = compare (array ! (a_idx - 1)) (array ! (b_idx - 1))"

text \<open>The index of the largest of an element and its children.\<close>

definition heap_max :: "('a \<Rightarrow> 'a \<Rightarrow> int) \<Rightarrow> 'a list \<Rightarrow> nat \<Rightarrow> nat \<Rightarrow> nat" where
  "heap_max compare array i cnt =
     (let left = 2 * i; right = 2 * i + 1;
          mx = (if left \<le> cnt \<and> do_compare compare array left i > 0 then left else i)
      in if right \<le> cnt \<and> do_compare compare array right mx > 0 then right else mx)"

function heapify :: "('a \<Rightarrow> 'a \<Rightarrow> int) \<Rightarrow> 'a list \<Rightarrow> nat \<Rightarrow> nat \<Rightarrow> 'a list" where
  "heapify compare array i cnt =
     (if heap_max compare array i cnt = i then array
      else heapify compare (do_swap array i (heap_max compare array i cnt)) (heap_max compare array i cnt) cnt)"
  by pat_completeness auto
termination
  by (relation "measure (\<lambda>(_, _, i, cnt). cnt - i)") (auto simp: heap_max_def Let_def split: if_splits)

fun sort_build :: "('a \<Rightarrow> 'a \<Rightarrow> int) \<Rightarrow> 'a list \<Rightarrow> nat \<Rightarrow> nat \<Rightarrow> 'a list" where
  "sort_build compare array 0 cnt = array"
| "sort_build compare array (Suc i) cnt = sort_build compare (heapify compare array (Suc i) cnt) i cnt"

fun sort_drain :: "('a \<Rightarrow> 'a \<Rightarrow> int) \<Rightarrow> 'a list \<Rightarrow> nat \<Rightarrow> 'a list" where
  "sort_drain compare array i =
     (if i > 1 then sort_drain compare (heapify compare (do_swap array 1 i) 1 (i - 1)) (i - 1) else array)"

definition sort_array :: "'a list \<Rightarrow> nat \<Rightarrow> ('a \<Rightarrow> 'a \<Rightarrow> int) \<Rightarrow> 'a list option" where
  "sort_array array sz compare = do {
     ASSERT (sz > 0);
     Some (sort_drain compare (sort_build compare array (length array div 2) (length array)) (length array))
   }"

definition qsort :: "'a list \<Rightarrow> nat \<Rightarrow> ('a \<Rightarrow> 'a \<Rightarrow> int) \<Rightarrow> 'a list option" where
  "qsort array sz compare = sort_array array sz compare"

text \<open>The result is the index of the element found, \<open>None\<close> for a null pointer.\<close>

function binary_search_loop :: "'k \<Rightarrow> 'a list \<Rightarrow> ('k \<Rightarrow> 'a \<Rightarrow> int) \<Rightarrow> nat \<Rightarrow> nat \<Rightarrow> nat option" where
  "binary_search_loop key array compare first lst =
     (if first < lst then
        (let middle = first + (lst - first) div 2; cmp = compare key (array ! middle) in
         if cmp < 0 then binary_search_loop key array compare first middle
         else if cmp > 0 then binary_search_loop key array compare (middle + 1) lst
         else Some middle)
      else None)"
  by pat_completeness auto
termination
  by (relation "measure (\<lambda>(_, _, _, first, lst). lst - first)") auto

definition binary_search :: "'k \<Rightarrow> 'a list \<Rightarrow> ('k \<Rightarrow> 'a \<Rightarrow> int) \<Rightarrow> nat option" where
  "binary_search key array compare = binary_search_loop key array compare 0 (length array)"

definition bsearch :: "'k \<Rightarrow> 'a list \<Rightarrow> ('k \<Rightarrow> 'a \<Rightarrow> int) \<Rightarrow> nat option" where
  "bsearch key array compare = binary_search key array compare"

subsection \<open>Heaps\<close>

text \<open>A comparison function with \<open>strcmp\<close>-like results: a total preorder.\<close>

definition strcmp_type :: "('a \<Rightarrow> 'a \<Rightarrow> int) \<Rightarrow> bool" where
  "strcmp_type compare \<longleftrightarrow> (\<forall>x y. compare x y < 0 \<longleftrightarrow> compare y x > 0) \<and>
     (\<forall>x y z. compare x y \<le> 0 \<longrightarrow> compare y z \<le> 0 \<longrightarrow> compare x z \<le> 0)"

lemma strcmp_total: "strcmp_type cmp \<Longrightarrow> \<not> cmp x y > 0 \<longleftrightarrow> cmp x y \<le> 0"
  "strcmp_type cmp \<Longrightarrow> cmp x y > 0 \<Longrightarrow> cmp y x \<le> 0" "strcmp_type cmp \<Longrightarrow> cmp x x = 0"
  unfolding strcmp_type_def by (force, force, metis linorder_neqE_linordered_idom order_less_asym)

lemma strcmp_trans: "strcmp_type cmp \<Longrightarrow> cmp x y \<le> 0 \<Longrightarrow> cmp y z \<le> 0 \<Longrightarrow> cmp x z \<le> 0"
  unfolding strcmp_type_def by blast

text \<open>The heap order holds between every element from index \<open>l\<close> on and its children.\<close>

definition heap_from :: "('a \<Rightarrow> 'a \<Rightarrow> int) \<Rightarrow> 'a list \<Rightarrow> nat \<Rightarrow> nat \<Rightarrow> bool" where
  "heap_from cmp xs l cnt \<longleftrightarrow> (\<forall>k \<le> cnt. l \<le> k div 2 \<longrightarrow> cmp (xs ! (k - 1)) (xs ! (k div 2 - 1)) \<le> 0)"

text \<open>The same, except that the element at \<open>i\<close> may be too small.\<close>

definition heap_hole :: "('a \<Rightarrow> 'a \<Rightarrow> int) \<Rightarrow> 'a list \<Rightarrow> nat \<Rightarrow> nat \<Rightarrow> nat \<Rightarrow> bool" where
  "heap_hole cmp xs l i cnt \<longleftrightarrow>
     (\<forall>k \<le> cnt. l \<le> k div 2 \<longrightarrow> k div 2 \<noteq> i \<longrightarrow> cmp (xs ! (k - 1)) (xs ! (k div 2 - 1)) \<le> 0) \<and>
     (l \<le> i div 2 \<longrightarrow> (\<forall>k \<le> cnt. k div 2 = i \<longrightarrow> cmp (xs ! (k - 1)) (xs ! (i div 2 - 1)) \<le> 0))"

lemma child_of: "k div 2 = (i :: nat) \<Longrightarrow> k = 2 * i \<or> k = 2 * i + 1"
  by arith

lemma heap_max_ok:
  assumes "strcmp_type cmp" "1 \<le> i" "i \<le> cnt"
  shows "heap_max cmp xs i cnt = i \<or> heap_max cmp xs i cnt \<le> cnt \<and> i < heap_max cmp xs i cnt \<and> heap_max cmp xs i cnt div 2 = i"
    "k \<le> cnt \<Longrightarrow> k = i \<or> k div 2 = i \<Longrightarrow> cmp (xs ! (k - 1)) (xs ! (heap_max cmp xs i cnt - 1)) \<le> 0"
proof -
  show "heap_max cmp xs i cnt = i \<or> heap_max cmp xs i cnt \<le> cnt \<and> i < heap_max cmp xs i cnt \<and> heap_max cmp xs i cnt div 2 = i"
    using assms(2) by (auto simp: heap_max_def Let_def)
  let ?le = "\<lambda>a b. cmp (xs ! (a - 1)) (xs ! (b - 1)) \<le> 0"
  note t = strcmp_total [OF assms(1)] strcmp_trans [OF assms(1)]
  define mx where "mx = (if 2 * i \<le> cnt \<and> do_compare cmp xs (2 * i) i > 0 then 2 * i else i)"
  have m1: "?le i mx" "2 * i \<le> cnt \<Longrightarrow> ?le (2 * i) mx"
    unfolding mx_def do_compare_def using t(1-3) by (auto simp del: One_nat_def)
  have mx: "heap_max cmp xs i cnt = (if 2 * i + 1 \<le> cnt \<and> do_compare cmp xs (2 * i + 1) mx > 0 then 2 * i + 1 else mx)"
    unfolding heap_max_def mx_def Let_def ..
  have m2: "?le mx (heap_max cmp xs i cnt)" "2 * i + 1 \<le> cnt \<Longrightarrow> ?le (2 * i + 1) (heap_max cmp xs i cnt)"
    unfolding mx do_compare_def using t(1-3) by (auto simp del: One_nat_def)
  show "?le k (heap_max cmp xs i cnt)" if k: "k \<le> cnt" "k = i \<or> k div 2 = i"
  proof -
    consider "k = i" | "k = 2 * i" | "k = 2 * i + 1" using k(2) child_of by blast
    then show ?thesis
      by cases (use k(1) m1 m2 t(4) [OF m1(1) m2(1)] t(4) [OF m1(2) m2(1)] in auto)
  qed
qed

lemma do_swap_nth:
  assumes "1 \<le> a" "1 \<le> b" "a \<le> length xs" "b \<le> length xs" "1 \<le> k"
  shows "do_swap xs a b ! (k - 1) = xs ! ((if k = a then b else if k = b then a else k) - 1)"
proof -
  have "a - 1 < length xs" "b - 1 < length xs" using assms by linarith+
  then show ?thesis using assms by (auto simp: do_swap_def nth_list_update)
qed

lemma do_swap_split:
  assumes "1 \<le> a" "1 \<le> b" "a \<le> n" "b \<le> n" "n \<le> length xs"
  shows "mset (take n (do_swap xs a b)) = mset (take n xs)" "drop n (do_swap xs a b) = drop n xs"
    "length (do_swap xs a b) = length xs"
proof -
  have r: "a - 1 < length (take n xs)" "b - 1 < length (take n xs)" using assms by auto
  have "take n (do_swap xs a b) = (take n xs)[a - 1 := take n xs ! (b - 1), b - 1 := take n xs ! (a - 1)]"
    using r by (simp add: do_swap_def take_update_swap)
  then show "mset (take n (do_swap xs a b)) = mset (take n xs)" using r by (metis mset_swap)
  show "drop n (do_swap xs a b) = drop n xs" "length (do_swap xs a b) = length xs"
    using assms by (simp_all add: do_swap_def drop_update_cancel)
qed

lemma heap_hole_swap:
  assumes c: "strcmp_type cmp" and i: "1 \<le> l" "l \<le> i" "i \<le> cnt" "cnt \<le> length xs"
    and h: "heap_hole cmp xs l i cnt" and mx: "heap_max cmp xs i cnt = j" "j \<noteq> i"
  shows "heap_hole cmp (do_swap xs i j) l j cnt"
proof -
  have j: "j \<le> cnt" "i < j" "j div 2 = i" using heap_max_ok(1) [OF c, of i cnt xs] i mx by auto
  have top: "cmp (xs ! (k - 1)) (xs ! (j - 1)) \<le> 0" if "k \<le> cnt" "k = i \<or> k div 2 = i" for k
    using heap_max_ok(2) [OF c, of i cnt k xs] i mx that by simp
  have sw: "do_swap xs i j ! (k - 1) = xs ! ((if k = i then j else if k = j then i else k) - 1)" if "1 \<le> k" for k
    using do_swap_nth [of i j xs k] i j that by simp
  have A: "cmp (do_swap xs i j ! (k - 1)) (do_swap xs i j ! (k div 2 - 1)) \<le> 0"
    if k: "k \<le> cnt" "l \<le> k div 2" "k div 2 \<noteq> j" for k
  proof -
    have k1: "1 \<le> k" "1 \<le> k div 2" "k \<noteq> k div 2" using k i by linarith+
    consider "k div 2 = i" | "k = i" "k div 2 \<noteq> i" | "k \<noteq> i" "k div 2 \<noteq> i" by blast
    then show ?thesis
    proof cases
      case 1
      then show ?thesis using top [of k] top [of i] k k1 i j sw [of k] sw [of "k div 2"] by (simp split: if_splits)
    next
      case 2
      then show ?thesis using h j k k1 i sw [of k] sw [of "k div 2"] by (simp add: heap_hole_def split: if_splits)
    next
      case 3
      then show ?thesis using h j k k1 i sw [of k] sw [of "k div 2"] by (auto simp: heap_hole_def split: if_splits)
    qed
  qed
  have B: "cmp (do_swap xs i j ! (k - 1)) (do_swap xs i j ! (j div 2 - 1)) \<le> 0" if k: "k \<le> cnt" "k div 2 = j" for k
  proof -
    have "1 \<le> k" "k \<noteq> i" "k \<noteq> j" "j \<noteq> i" using k i j by linarith+
    moreover from this have "cmp (xs ! (k - 1)) (xs ! (j - 1)) \<le> 0"
      using h k i j unfolding heap_hole_def by (metis less_imp_le order_trans)
    ultimately show ?thesis using j k i sw [of k] sw [of i] by simp
  qed
  show ?thesis using A B by (simp add: heap_hole_def)
qed


lemma heapify_unfold: "heapify cmp xs i cnt = (let j = heap_max cmp xs i cnt in if j = i then xs else heapify cmp (do_swap xs i j) j cnt)"
  by (subst heapify.simps) (simp add: Let_def)

declare heapify.simps [simp del]

lemma heapify_ok:
  assumes c: "strcmp_type cmp" and i: "1 \<le> l" "l \<le> i" "i \<le> cnt" "cnt \<le> length xs" and h: "heap_hole cmp xs l i cnt"
  shows "heap_from cmp (heapify cmp xs i cnt) l cnt \<and> length (heapify cmp xs i cnt) = length xs \<and>
    mset (take cnt (heapify cmp xs i cnt)) = mset (take cnt xs) \<and> drop cnt (heapify cmp xs i cnt) = drop cnt xs"
  using i(2-) h
proof (induction "cnt - i" arbitrary: xs i rule: less_induct)
  case less
  let ?j = "heap_max cmp xs i cnt"
  have i1: "1 \<le> i" using i(1) less.prems(1) by simp
  show ?case
  proof (cases "?j = i")
    case True
    have "cmp (xs ! (k - 1)) (xs ! (k div 2 - 1)) \<le> 0" if "k \<le> cnt" "l \<le> k div 2" for k
      using heap_max_ok(2) [OF c i1 less.prems(2) that(1), of xs] less.prems(4) that True
      by (cases "k div 2 = i") (auto simp: heap_hole_def)
    then show ?thesis using True by (subst heapify_unfold, subst heapify_unfold) (auto simp: heap_from_def heapify_unfold)
  next
    case False
    then have j: "?j \<le> cnt" "i < ?j" using heap_max_ok(1) [OF c i1 less.prems(2), of xs] by auto
    note s = do_swap_split [of i ?j cnt xs]
    have sp: "mset (take cnt (do_swap xs i ?j)) = mset (take cnt xs)" "drop cnt (do_swap xs i ?j) = drop cnt xs"
      "length (do_swap xs i ?j) = length xs" using s i1 j less.prems(2,3) by simp_all
    have "heap_hole cmp (do_swap xs i ?j) l ?j cnt"
      by (rule heap_hole_swap [OF c i(1) less.prems refl False])
    then have "heap_from cmp (heapify cmp (do_swap xs i ?j) ?j cnt) l cnt \<and>
        length (heapify cmp (do_swap xs i ?j) ?j cnt) = length (do_swap xs i ?j) \<and>
        mset (take cnt (heapify cmp (do_swap xs i ?j) ?j cnt)) = mset (take cnt (do_swap xs i ?j)) \<and>
        drop cnt (heapify cmp (do_swap xs i ?j) ?j cnt) = drop cnt (do_swap xs i ?j)"
      using less.hyps [of ?j "do_swap xs i ?j"] j less.prems sp(3) by simp
    then show ?thesis using sp False by (simp add: heapify_unfold [of cmp xs i cnt] Let_def)
  qed
qed

lemma mset_take_drop: "mset (take n xs) = mset (take n ys) \<Longrightarrow> drop n xs = drop n ys \<Longrightarrow> mset xs = mset ys"
  by (metis append_take_drop_id mset_append)

lemma sort_build_ok:
  "strcmp_type cmp \<Longrightarrow> i \<le> cnt \<Longrightarrow> cnt \<le> length xs \<Longrightarrow> heap_from cmp xs (Suc i) cnt \<Longrightarrow>
   heap_from cmp (sort_build cmp xs i cnt) 1 cnt \<and> length (sort_build cmp xs i cnt) = length xs \<and>
   mset (sort_build cmp xs i cnt) = mset xs"
proof (induction i arbitrary: xs)
  case (Suc i)
  have "heap_hole cmp xs (Suc i) (Suc i) cnt"
    using Suc.prems(4) by (auto simp: heap_hole_def heap_from_def)
  from heapify_ok [OF Suc.prems(1) _ order_refl Suc.prems(2,3) this]
  have h: "heap_from cmp (heapify cmp xs (Suc i) cnt) (Suc i) cnt" "length (heapify cmp xs (Suc i) cnt) = length xs"
    "mset (heapify cmp xs (Suc i) cnt) = mset xs" by (auto intro: mset_take_drop)
  show ?case using Suc.IH [OF Suc.prems(1) _ _ h(1)] Suc.prems h by simp
qed simp

lemma heap_root:
  assumes "strcmp_type cmp" "heap_from cmp xs 1 cnt"
  shows "1 \<le> k \<Longrightarrow> k \<le> cnt \<Longrightarrow> cmp (xs ! (k - 1)) (xs ! 0) \<le> 0"
proof (induction k rule: less_induct)
  case (less k)
  show ?case
  proof (cases "k = 1")
    case False
    then have "cmp (xs ! (k - 1)) (xs ! (k div 2 - 1)) \<le> 0" using assms(2) less.prems by (simp add: heap_from_def)
    moreover have "cmp (xs ! (k div 2 - 1)) (xs ! 0) \<le> 0" using less False by simp
    ultimately show ?thesis using strcmp_trans [OF assms(1)] by blast
  qed (simp add: strcmp_total [OF assms(1)])
qed


text \<open>What the second loop maintains: the elements behind index \<open>i\<close> are sorted and above the rest.\<close>

definition drained :: "('a \<Rightarrow> 'a \<Rightarrow> int) \<Rightarrow> 'a list \<Rightarrow> nat \<Rightarrow> bool" where
  "drained cmp xs i \<longleftrightarrow> i \<le> length xs \<and> heap_from cmp xs 1 i \<and>
     sorted_wrt (\<lambda>a b. cmp a b \<le> 0) (drop i xs) \<and> (\<forall>a \<in> set (take i xs). \<forall>b \<in> set (drop i xs). cmp a b \<le> 0)"

lemma drained_step:
  assumes c: "strcmp_type cmp" and d: "drained cmp xs i" and i: "1 < i"
  defines "ys \<equiv> heapify cmp (do_swap xs 1 i) 1 (i - 1)"
  shows "drained cmp ys (i - 1) \<and> mset ys = mset xs \<and> length ys = length xs"
proof -
  let ?sw = "do_swap xs 1 i"
  note d' = d [unfolded drained_def]
  have sp: "mset (take i ?sw) = mset (take i xs)" "drop i ?sw = drop i xs" "length ?sw = length xs"
    using do_swap_split [of 1 i i xs] i d' by simp_all
  have nth: "?sw ! (k - 1) = xs ! ((if k = 1 then i else if k = i then 1 else k) - 1)" if "1 \<le> k" for k
    using do_swap_nth [of 1 i xs k] i d' that by simp
  have "heap_hole cmp ?sw 1 1 (i - 1)"
    unfolding heap_hole_def
  proof (intro conjI allI impI)
    fix k assume k: "k \<le> i - 1" "1 \<le> k div 2" "k div 2 \<noteq> 1"
    then have "k \<noteq> 1" "k \<noteq> i" "k div 2 \<noteq> i" "1 \<le> k" "k \<le> i" using i by auto
    then show "cmp (?sw ! (k - 1)) (?sw ! (k div 2 - 1)) \<le> 0"
      using nth [of k] nth [of "k div 2"] d' k by (simp add: heap_from_def)
  qed simp
  moreover have "1 \<le> i - 1" "i - 1 \<le> length ?sw" using i d' sp(3) by auto
  ultimately have h: "heap_from cmp ys 1 (i - 1)" "length ys = length xs" "mset (take (i - 1) ys) = mset (take (i - 1) ?sw)"
    "drop (i - 1) ys = drop (i - 1) ?sw" using heapify_ok [OF c order_refl order_refl, of "i - 1" ?sw] sp(3) unfolding ys_def by simp_all
  have lt: "i - 1 < length ?sw" using i d' sp(3) by linarith
  have dr: "drop (i - 1) ?sw = xs ! 0 # drop i xs"
    using Cons_nth_drop_Suc [OF lt] sp(2) nth [of i] i by simp
  have "take i ?sw = take (i - 1) ?sw @ [xs ! 0]"
    using take_Suc_conv_app_nth [OF lt] nth [of i] i by simp
  then have sub: "set (take (i - 1) ys) \<subseteq> set (take i xs)"
    using sp(1) h(3) by (metis Un_upper1 mset_eq_setD set_append)
  have top: "cmp a (xs ! 0) \<le> 0" if "a \<in> set (take i xs)" for a
  proof -
    from that obtain k where "k < i" "a = xs ! k" by (auto simp: in_set_conv_nth)
    then show ?thesis using heap_root [OF c, of xs i "Suc k"] d' by simp
  qed
  have "xs ! 0 \<in> set (take i xs)" using i d' by (auto simp: in_set_conv_nth intro!: exI [of _ 0])
  then have "drained cmp ys (i - 1)"
    unfolding drained_def h(4) dr using h(1,2) d' i sub top by auto
  moreover have "mset ys = mset xs"
    using mset_take_drop [OF h(3,4)] mset_take_drop [OF sp(1,2)] by simp
  ultimately show ?thesis using h(2) by blast
qed

lemma sort_drain_ok:
  "strcmp_type cmp \<Longrightarrow> drained cmp xs i \<Longrightarrow>
   sorted_wrt (\<lambda>a b. cmp a b \<le> 0) (sort_drain cmp xs i) \<and> mset (sort_drain cmp xs i) = mset xs"
proof (induction i arbitrary: xs rule: less_induct)
  case (less i)
  show ?case
  proof (cases "1 < i")
    case True
    then show ?thesis using less.IH [of "i - 1"] drained_step [OF less.prems True] less.prems(1)
      by (subst sort_drain.simps, subst (2) sort_drain.simps) auto
  next
    case False
    have "sorted_wrt (\<lambda>a b. cmp a b \<le> 0) (take i xs)" using False by (cases xs; cases i) auto
    then have "sorted_wrt (\<lambda>a b. cmp a b \<le> 0) (take i xs @ drop i xs)"
      using less.prems(2) unfolding drained_def sorted_wrt_append by blast
    then show ?thesis using False by simp
  qed
qed



subsection \<open>Binary search\<close>

lemma binary_search_loop_ok:
  assumes c: "strcmp_type cmp" and s: "sorted_wrt (\<lambda>a b. cmp a b \<le> 0) xs"
  shows "hi \<le> length xs \<Longrightarrow> (\<forall>k < length xs. k < lo \<or> hi \<le> k \<longrightarrow> cmp key (xs ! k) \<noteq> 0) \<Longrightarrow>
    (case binary_search_loop key xs cmp lo hi of
       Some k \<Rightarrow> k < length xs \<and> cmp key (xs ! k) = 0 | None \<Rightarrow> \<forall>x \<in> set xs. cmp key x \<noteq> 0)"
proof (induction "hi - lo" arbitrary: lo hi rule: less_induct)
  case less
  show ?case
  proof (cases "lo < hi")
    case False
    then have "k < lo \<or> hi \<le> k" for k by linarith
    then have "\<forall>x \<in> set xs. cmp key x \<noteq> 0" using less.prems(2) by (metis in_set_conv_nth)
    then show ?thesis using False by (subst binary_search_loop.simps) simp
  next
    case True
    define mid where "mid = lo + (hi - lo) div 2"
    have mid: "lo \<le> mid" "mid < hi" using True by (auto simp: mid_def)
    have rec: "binary_search_loop key xs cmp lo hi =
        (if cmp key (xs ! mid) < 0 then binary_search_loop key xs cmp lo mid
         else if cmp key (xs ! mid) > 0 then binary_search_loop key xs cmp (mid + 1) hi else Some mid)"
      using True by (subst binary_search_loop.simps) (simp add: Let_def mid_def)
    have le: "cmp (xs ! a) (xs ! b) \<le> 0" if "a \<le> b" "b < length xs" for a b
      using s that strcmp_total(3) [OF c] by (cases "a = b") (auto simp: sorted_wrt_iff_nth_less)
    consider "cmp key (xs ! mid) < 0" | "cmp key (xs ! mid) > 0" | "cmp key (xs ! mid) = 0" by linarith
    then show ?thesis
    proof cases
      case 1
      have "cmp key (xs ! k) \<noteq> 0" if k: "k < length xs" "mid \<le> k" for k
      proof
        assume "cmp key (xs ! k) = 0"
        moreover have "cmp key (xs ! k) < 0 \<longleftrightarrow> cmp (xs ! k) key > 0" using c by (simp add: strcmp_type_def)
        ultimately have "cmp (xs ! k) key \<le> 0" by simp
        then have "cmp (xs ! mid) key \<le> 0" using le [OF k(2,1)] strcmp_trans [OF c] by blast
        moreover have "cmp (xs ! mid) key > 0" using 1 c by (simp add: strcmp_type_def)
        ultimately show False by simp
      qed
      then show ?thesis unfolding rec using 1 less.hyps [of mid lo] less.prems mid by simp
    next
      case 2
      have "cmp key (xs ! k) \<noteq> 0" if k: "k \<le> mid" for k
        using 2 le [OF k] mid less.prems(1) strcmp_trans [OF c, of key "xs ! k" "xs ! mid"] by force
      then show ?thesis unfolding rec using 2 less.hyps [of hi "mid + 1"] less.prems mid by simp
    next
      case 3
      then show ?thesis unfolding rec using mid less.prems(1) by simp
    qed
  qed
qed

text \<open>
  In an array sorted by the comparison function, \<open>binary_search\<close> (and \<open>bsearch\<close>) returns the
  index of an element equal to the key if there is one, and a null pointer otherwise.
\<close>

lemma binary_search_correct:
  assumes "strcmp_type cmp" "sorted_wrt (\<lambda>a b. cmp a b \<le> 0) xs"
  shows "bsearch key xs cmp = binary_search key xs cmp \<and>
    (case binary_search key xs cmp of
       Some k \<Rightarrow> k < length xs \<and> cmp key (xs ! k) = 0 | None \<Rightarrow> \<forall>x \<in> set xs. cmp key x \<noteq> 0)"
  using binary_search_loop_ok [OF assms, of "length xs" 0 key] by (simp add: binary_search_def bsearch_def)

subsection \<open>Decimal numbers\<close>

fun digits_value :: "u8 list \<Rightarrow> nat \<Rightarrow> nat" where
  "digits_value [] v = v"
| "digits_value (d # ds) v = digits_value ds (v * 10 + (unat d - 48))"

definition is_digit_byte :: "u8 \<Rightarrow> bool" where "is_digit_byte x \<longleftrightarrow> isdigit (sint x)"

lemma sint_byte: "sint (x :: u8) = (if uint x < 128 then uint x else uint x - 256)"
proof -
  have r: "uint x < 256" "0 \<le> uint x" using unsigned_less [of x, where 'a = int] by simp_all
  have s: "sint x = (uint x + 128) mod 256 - 128"
    unfolding sint_uint signed_take_bit_eq_take_bit_shift take_bit_eq_mod by simp
  show ?thesis
  proof (cases "uint x < 128")
    case True
    then show ?thesis using r s by (simp add: mod_pos_pos_trivial)
  next
    case False
    have "(uint x + 128) mod 256 = (uint x - 128 + 256) mod 256" by (simp add: add.commute)
    also have "\<dots> = (uint x - 128) mod 256" by (rule mod_add_self2)
    also have "\<dots> = uint x - 128" using False r by (intro mod_pos_pos_trivial) simp_all
    finally show ?thesis using s False by simp
  qed
qed

lemma is_digit_byte_iff: "is_digit_byte x \<longleftrightarrow> 48 \<le> uint x \<and> uint x \<le> 57"
  using unsigned_less [of x, where 'a = int] by (auto simp: is_digit_byte_def isdigit_def sint_byte)

lemma atoi_digit:
  assumes "is_digit_byte x"
  shows "(scast x :: u32) - 48 = of_nat (unat x - 48)"
proof -
  have r: "48 \<le> uint x" "uint x \<le> 57" using assms by (simp_all add: is_digit_byte_iff)
  then have u: "48 \<le> unat x" by (metis nat_mono nat_numeral unat_eq_nat_uint)
  have "(scast x :: u32) = of_int (sint x)" by simp
  also have "\<dots> = of_nat (unat x)" using r by (simp add: sint_byte)
  finally show ?thesis using u by (simp add: of_nat_diff)
qed

lemma atoi_digits_ok:
  "str_ok m s (ds @ ys) \<Longrightarrow> \<forall>d \<in> set ds. is_digit_byte d \<Longrightarrow> (ys \<noteq> [] \<longrightarrow> \<not> is_digit_byte (hd ys)) \<Longrightarrow>
   v = - of_nat n \<Longrightarrow> atoi_digits m s v = Some (- of_nat (digits_value ds n))"
proof (induction ds arbitrary: s v n)
  case Nil
  have "\<not> is_digit_byte (m s)"
    using Nil by (cases ys) (auto simp: str_ok_def is_digit_byte_iff)
  then show ?case using Nil by (subst atoi_digits.simps) (simp add: is_digit_byte_def)
next
  case (Cons d ds)
  note n = str_ok_next [OF Cons.prems(1) [unfolded append_Cons]]
  have dg: "is_digit_byte d" using Cons.prems(2) by simp
  have "v * 10 - (scast d - 48) = - of_nat (n * 10 + (unat d - 48))"
    unfolding atoi_digit [OF dg] Cons.prems(4) by simp
  then have "atoi_digits m (s + 1) (v * 10 - (scast d - 48)) = Some (- of_nat (digits_value ds (n * 10 + (unat d - 48))))"
    using Cons.IH [OF n(1), of "v * 10 - (scast d - 48)"] Cons.prems(2,3) by (metis list.set_intros(2))
  then show ?case using dg n(2) by (subst atoi_digits.simps) (simp add: is_digit_byte_def)
qed

lemma atoi_space_ok:
  "str_ok m s (ws @ ys) \<Longrightarrow> \<forall>w \<in> set ws. isspace (uint w) \<Longrightarrow> (ys \<noteq> [] \<longrightarrow> \<not> isspace (uint (hd ys))) \<Longrightarrow>
   atoi_space m s = Some (s + of_nat (length ws))"
proof (induction ws arbitrary: s)
  case Nil
  have "\<not> isspace (uint (m s))" using Nil by (cases ys) (auto simp: str_ok_def isspace_def)
  then show ?case by (subst atoi_space.simps) simp
next
  case (Cons w ws)
  note n = str_ok_next [OF Cons.prems(1) [unfolded append_Cons]]
  show ?case using Cons.IH [OF n(1)] Cons.prems(2,3) n(2) by (subst atoi_space.simps) (simp add: add.assoc)
qed

lemma atoi_ok:
  assumes str: "str_ok m s (ws @ sign @ ds @ ys)" and ws: "\<forall>w \<in> set ws. isspace (uint w)"
    and sign: "sign \<in> {[], [43], [45]}" and ds: "\<forall>d \<in> set ds. is_digit_byte d" "ds \<noteq> []"
    and ys: "ys \<noteq> [] \<longrightarrow> \<not> is_digit_byte (hd ys)"
  shows "atoi m s = Some (if sign = [45] then - of_nat (digits_value ds 0) else of_nat (digits_value ds 0))"
proof -
  let ?s = "s + of_nat (length ws)"
  have d0: "is_digit_byte (hd ds)" using ds by simp
  have h: "hd (sign @ ds @ ys) = (if sign = [] then hd ds else hd sign)" using ds(2) by auto
  have "\<not> isspace (uint (hd (sign @ ds @ ys)))"
    using sign d0 unfolding h is_digit_byte_iff by (auto simp: isspace_def)
  then have sp: "atoi_space m s = Some ?s" using atoi_space_ok [OF str ws] by simp
  have s1: "str_ok m ?s (sign @ ds @ ys)" using str_ok_suffix [OF str] by blast
  have s2: "str_ok m (?s + of_nat (length sign)) (ds @ ys)" using str_ok_suffix [OF s1] by blast
  have at: "m ?s = hd (sign @ ds @ ys)" using str_ok_at [OF s1, of 0] ds(2) by (simp add: hd_conv_nth)
  have dg: "atoi_digits m (?s + of_nat (length sign)) 0 = Some (- of_nat (digits_value ds 0))"
    by (rule atoi_digits_ok [OF s2 ds(1) ys]) simp
  have nd: "hd ds \<noteq> 43" "hd ds \<noteq> 45" using d0 by (auto simp: is_digit_byte_iff)
  have "s \<noteq> 0" using str by (simp add: str_ok_def)
  then show ?thesis using sp dg at nd sign unfolding atoi_def h by auto
qed

end
