(* ===== verification/Stdio.thy ===== *)
theory Stdio
  imports Stdlib Bitmap
begin

text \<open>
  Formatted output (src/hw-memory/pintos/src/lib/stdio.c, the version of the library without
  floating-point conversions). The caller's \<open>output\<close> function with its auxiliary data is a function
  on a state that every character of output updates.

  A format string is the list of its bytes before the terminator; reading behind the terminator is
  \<open>None\<close>. The \<open>va_list\<close> is the list of the 32-bit stack slots that are left, an argument of 64 bits
  taking two, the lower half first; taking an argument that is not there is \<open>None\<close>. String
  arguments are addresses in memory, which must not overlap the output of \<open>vsnprintf\<close>. The \<open>int\<close>s
  for field width and precision are unbounded integers, as overflow of a signed integer is undefined.
\<close>

subsection \<open>The C functions\<close>

definition bytes_of :: "string \<Rightarrow> u8 list" where
  "bytes_of s = map of_char s"

datatype printf_flag = MINUS | PLUS | SPACE | POUND | ZERO | GROUP

datatype arg_type = CHAR_T | SHORT_T | INT_T | INTMAX_T | LONG_T | LONGLONG_T | PTRDIFFT_T | SIZET_T

record printf_conversion =
  flags :: "printf_flag set"
  width :: int
  precision :: int
  type_of :: arg_type

record integer_base =
  base :: u64
  digits :: "u8 list"
  xchar :: u8
  group :: nat

definition base_d :: integer_base where
  "base_d = \<lparr>base = 10, digits = bytes_of ''0123456789'', xchar = 0, group = 3\<rparr>"
definition base_o :: integer_base where
  "base_o = \<lparr>base = 8, digits = bytes_of ''01234567'', xchar = 0, group = 3\<rparr>"
definition base_x :: integer_base where
  "base_x = \<lparr>base = 16, digits = bytes_of ''0123456789abcdef'', xchar = of_char (CHR ''x''), group = 4\<rparr>"
definition base_X :: integer_base where
  "base_X = \<lparr>base = 16, digits = bytes_of ''0123456789ABCDEF'', xchar = of_char (CHR ''X''), group = 4\<rparr>"

type_synonym va_list = "u32 list"

fun va_arg32 :: "va_list \<Rightarrow> (u32 \<times> va_list) option" where
  "va_arg32 [] = None"
| "va_arg32 (a # args) = Some (a, args)"

fun va_arg64 :: "va_list \<Rightarrow> (u64 \<times> va_list) option" where
  "va_arg64 (lo # hi # args) = Some (push_bit 32 (ucast hi) OR ucast lo, args)"
| "va_arg64 _ = None"

text \<open>The character at the position of the format, a null byte at its end.\<close>

fun cur :: "u8 list \<Rightarrow> u8" where
  "cur [] = 0"
| "cur (c # cs) = c"

fun parse_flags :: "u8 list \<Rightarrow> printf_flag set \<Rightarrow> u8 list \<times> printf_flag set" where
  "parse_flags [] fl = ([], fl)"
| "parse_flags (c # cs) fl =
     (if c = of_char (CHR ''-'') then parse_flags cs (insert MINUS fl)
      else if c = of_char (CHR ''+'') then parse_flags cs (insert PLUS fl)
      else if c = of_char (CHR 0x20) then parse_flags cs (insert SPACE fl)
      else if c = of_char (CHR ''#'') then parse_flags cs (insert POUND fl)
      else if c = of_char (CHR ''0'') then parse_flags cs (insert ZERO fl)
      else if c = 39 then parse_flags cs (insert GROUP fl)
      else (c # cs, fl))"

fun parse_digits :: "u8 list \<Rightarrow> int \<Rightarrow> u8 list \<times> int" where
  "parse_digits [] v = ([], v)"
| "parse_digits (c # cs) v =
     (if isdigit (sint c) then parse_digits cs (v * 10 + sint c - 48) else (c # cs, v))"

fun parse_type :: "u8 list \<Rightarrow> u8 list \<times> arg_type" where
  "parse_type [] = ([], INT_T)"
| "parse_type (c # cs) =
     (if c = of_char (CHR ''h'') then if cur cs = of_char (CHR ''h'') then (tl cs, CHAR_T) else (cs, SHORT_T)
      else if c = of_char (CHR ''j'') then (cs, INTMAX_T)
      else if c = of_char (CHR ''l'') then if cur cs = of_char (CHR ''l'') then (tl cs, LONGLONG_T) else (cs, LONG_T)
      else if c = of_char (CHR ''t'') then (cs, PTRDIFFT_T)
      else if c = of_char (CHR ''z'') then (cs, SIZET_T)
      else (c # cs, INT_T))"

definition parse_conversion :: "u8 list \<Rightarrow> va_list \<Rightarrow> (u8 list \<times> printf_conversion \<times> va_list) option" where
  "parse_conversion format args = do {
     let (format, fl) = parse_flags format {};
     let fl = (if MINUS \<in> fl then fl - {ZERO} else fl);
     let fl = (if PLUS \<in> fl then fl - {SPACE} else fl);
     (format, w, args) \<leftarrow>
       (if cur format = of_char (CHR ''*'') then do {
          (a, args) \<leftarrow> va_arg32 args;
          Some (tl format, sint a, args)
        } else let (format, w) = parse_digits format 0 in Some (format, w, args));
     let (w, fl) = (if w < 0 then (- w, insert MINUS fl) else (w, fl));
     (format, p, args) \<leftarrow>
       (if cur format = of_char (CHR ''.'') then
          if cur (tl format) = of_char (CHR ''*'') then do {
            (a, args) \<leftarrow> va_arg32 args;
            Some (tl (tl format), sint a, args)
          } else let (format, p) = parse_digits (tl format) 0 in Some (format, p, args)
        else Some (format, -1, args));
     let p = (if p < 0 then -1 else p);
     let fl = (if p \<ge> 0 then fl - {ZERO} else fl);
     let (format, ty) = parse_type format;
     Some (format, \<lparr>flags = fl, width = w, precision = p, type_of = ty\<rparr>, args)
   }"

fun output_dup :: "u8 \<Rightarrow> nat \<Rightarrow> (u8 \<Rightarrow> 'a \<Rightarrow> 'a) \<Rightarrow> 'a \<Rightarrow> 'a" where
  "output_dup ch 0 output aux = aux"
| "output_dup ch (Suc cnt) output aux = output_dup ch cnt output (output ch aux)"

text \<open>The digits in the order in which they are stored, the last digit first.\<close>

partial_function (option) digit_loop :: "integer_base \<Rightarrow> bool \<Rightarrow> u64 \<Rightarrow> nat \<Rightarrow> u8 list \<Rightarrow> u8 list option" where
  [code]: "digit_loop b grp v digit_cnt buf =
     (if v > 0 then
        digit_loop b grp (v div base b) (digit_cnt + 1)
          ((if grp \<and> digit_cnt > 0 \<and> digit_cnt mod group b = 0 then buf @ [of_char (CHR '','')] else buf)
           @ [digits b ! unat (v mod base b)])
      else Some buf)"

function zero_loop :: "int \<Rightarrow> u8 list \<Rightarrow> u8 list" where
  "zero_loop prec buf = (if int (length buf) < prec \<and> length buf < 63 then zero_loop prec (buf @ [48]) else buf)"
  by pat_completeness auto
termination by (relation "measure (\<lambda>(_, buf). 63 - length buf)") auto

definition int_sign :: "bool \<Rightarrow> bool \<Rightarrow> printf_flag set \<Rightarrow> u8" where
  "int_sign is_signed negative fl =
     (if is_signed then
        if PLUS \<in> fl then if negative then 45 else 43
        else if SPACE \<in> fl then if negative then 45 else 32
        else if negative then 45 else 0
      else 0)"

definition int_buf :: "u64 \<Rightarrow> integer_base \<Rightarrow> printf_conversion \<Rightarrow> u8 list option" where
  "int_buf v b c = do {
     buf \<leftarrow> digit_loop b (GROUP \<in> flags c) v 0 [];
     let buf = zero_loop (if precision c < 0 then 1 else precision c) buf;
     Some (if POUND \<in> flags c \<and> base b = 8 \<and> (buf = [] \<or> last buf \<noteq> 48) then buf @ [48] else buf)
   }"

definition format_integer ::
    "u64 \<Rightarrow> bool \<Rightarrow> bool \<Rightarrow> integer_base \<Rightarrow> printf_conversion \<Rightarrow> (u8 \<Rightarrow> 'a \<Rightarrow> 'a) \<Rightarrow> 'a \<Rightarrow> 'a option" where
  "format_integer v is_signed negative b c output aux = do {
     let sign = int_sign is_signed negative (flags c);
     let x = (if POUND \<in> flags c \<and> v \<noteq> 0 then xchar b else 0);
     buf \<leftarrow> int_buf v b c;
     let pad_cnt = nat (width c - int (length buf) - (if x \<noteq> 0 then 2 else 0) - (if sign \<noteq> 0 then 1 else 0));
     let aux = (if MINUS \<notin> flags c \<and> ZERO \<notin> flags c then output_dup 32 pad_cnt output aux else aux);
     let aux = (if sign \<noteq> 0 then output sign aux else aux);
     let aux = (if x \<noteq> 0 then output x (output 48 aux) else aux);
     let aux = (if ZERO \<in> flags c then output_dup 48 pad_cnt output aux else aux);
     let aux = fold output (rev buf) aux;
     Some (if MINUS \<in> flags c then output_dup 32 pad_cnt output aux else aux)
   }"

text \<open>The characters of the string are given as a list of \<open>length\<close> bytes.\<close>

definition format_string :: "u8 list \<Rightarrow> printf_conversion \<Rightarrow> (u8 \<Rightarrow> 'a \<Rightarrow> 'a) \<Rightarrow> 'a \<Rightarrow> 'a" where
  "format_string str c output aux =
     (let len = int (length str);
          aux = (if width c > len \<and> MINUS \<notin> flags c then output_dup 32 (nat (width c - len)) output aux else aux);
          aux = fold output str aux
      in if width c > len \<and> MINUS \<in> flags c then output_dup 32 (nat (width c - len)) output aux else aux)"

fun signed_arg :: "arg_type \<Rightarrow> va_list \<Rightarrow> (int \<times> va_list) option" where
  "signed_arg CHAR_T args = map_option (map_prod (\<lambda>a. sint (ucast a :: u8)) id) (va_arg32 args)"
| "signed_arg SHORT_T args = map_option (map_prod (\<lambda>a. sint (ucast a :: u16)) id) (va_arg32 args)"
| "signed_arg INT_T args = map_option (map_prod sint id) (va_arg32 args)"
| "signed_arg INTMAX_T args = map_option (map_prod sint id) (va_arg64 args)"
| "signed_arg LONG_T args = map_option (map_prod sint id) (va_arg32 args)"
| "signed_arg LONGLONG_T args = map_option (map_prod sint id) (va_arg64 args)"
| "signed_arg PTRDIFFT_T args = map_option (map_prod sint id) (va_arg32 args)"
| "signed_arg SIZET_T args = map_option (map_prod
     (\<lambda>a. if uint a > 4294967295 div 2 then uint a - 4294967295 - 1 else uint a) id) (va_arg32 args)"

fun unsigned_arg :: "arg_type \<Rightarrow> va_list \<Rightarrow> (u64 \<times> va_list) option" where
  "unsigned_arg CHAR_T args = map_option (map_prod (\<lambda>a. ucast (ucast a :: u8)) id) (va_arg32 args)"
| "unsigned_arg SHORT_T args = map_option (map_prod (\<lambda>a. ucast (ucast a :: u16)) id) (va_arg32 args)"
| "unsigned_arg INT_T args = map_option (map_prod ucast id) (va_arg32 args)"
| "unsigned_arg INTMAX_T args = va_arg64 args"
| "unsigned_arg LONG_T args = map_option (map_prod ucast id) (va_arg32 args)"
| "unsigned_arg LONGLONG_T args = va_arg64 args"
| "unsigned_arg PTRDIFFT_T args = map_option (map_prod (\<lambda>a. scast a AND (push_bit 1 0x7fffffff OR 1)) id) (va_arg32 args)"
| "unsigned_arg SIZET_T args = map_option (map_prod ucast id) (va_arg32 args)"

text \<open>A string constant at an address of an otherwise empty memory.\<close>

definition literal_at :: "addr \<Rightarrow> string \<Rightarrow> memory" where
  "literal_at p s = (\<lambda>a. if unat (a - p) < length s then of_char (s ! unat (a - p)) else 0)"

text \<open>The bytes of a \<open>%s\<close> argument up to its end or the precision.\<close>

definition string_arg :: "memory \<Rightarrow> addr \<Rightarrow> int \<Rightarrow> u8 list option" where
  "string_arg m s prec =
     (let (m, s) = (if s = 0 then (literal_at 1 ''(null)'', 1) else (m, s)) in do {
        n \<leftarrow> strnlen m s (of_int prec);
        Some (map (\<lambda>i. m (s + of_nat i)) [0..<nat (sint n)])
      })"

text \<open>The conversions that are supported; the last branch is the one for \<open>%p\<close>.\<close>

definition conversion :: "memory \<Rightarrow> (u8 \<Rightarrow> 'a \<Rightarrow> 'a) \<Rightarrow> u8 \<Rightarrow> printf_conversion \<Rightarrow> va_list \<Rightarrow> 'a \<Rightarrow> (va_list \<times> 'a) option" where
  "conversion m output ch c args aux =
     (if ch = of_char (CHR ''d'') \<or> ch = of_char (CHR ''i'') then do {
        (v, args) \<leftarrow> signed_arg (type_of c) args;
        aux \<leftarrow> format_integer (of_int (if v < 0 then - v else v)) True (v < 0) base_d c output aux;
        Some (args, aux)
      }
      else if ch = of_char (CHR ''o'') \<or> ch = of_char (CHR ''u'') \<or> ch = of_char (CHR ''x'') \<or> ch = of_char (CHR ''X'') then do {
        (v, args) \<leftarrow> unsigned_arg (type_of c) args;
        let b = (if ch = of_char (CHR ''o'') then base_o else if ch = of_char (CHR ''u'') then base_d
                 else if ch = of_char (CHR ''x'') then base_x else base_X);
        aux \<leftarrow> format_integer v False False b c output aux;
        Some (args, aux)
      }
      else if ch = of_char (CHR ''c'') then do {
        (a, args) \<leftarrow> va_arg32 args;
        Some (args, format_string [ucast a] c output aux)
      }
      else if ch = of_char (CHR ''s'') then do {
        (s, args) \<leftarrow> va_arg32 args;
        str \<leftarrow> string_arg m s (precision c);
        Some (args, format_string str c output aux)
      }
      else do {
        (p, args) \<leftarrow> va_arg32 args;
        aux \<leftarrow> format_integer (ucast p) False False base_x (c\<lparr>flags := {POUND}\<rparr>) output aux;
        Some (args, aux)
      })"

definition unknown_format :: "u8 \<Rightarrow> u8 list" where
  "unknown_format ch =
     bytes_of (if ch \<in> set (bytes_of ''feEgGn'') then ''<<no %%%c in kernel>>'' else ''<<no %%%c conversion>>'')"

partial_function (option) do_vprintf ::
    "memory \<Rightarrow> (u8 \<Rightarrow> 'a \<Rightarrow> 'a) \<Rightarrow> u8 list \<Rightarrow> va_list \<Rightarrow> 'a \<Rightarrow> 'a option" where
  [code]: "do_vprintf m output format args aux =
     (if format = [] then Some aux
      else if hd format \<noteq> of_char (CHR ''%'') then do_vprintf m output (tl format) args (output (hd format) aux)
      else if cur (tl format) = of_char (CHR ''%'') then do_vprintf m output (tl (tl format)) args (output (of_char (CHR ''%'')) aux)
      else do {
        (format, c, args) \<leftarrow> parse_conversion (tl format) args;
        (args, aux) \<leftarrow>
          (if cur format \<in> set (bytes_of ''diouxXcsp'') then conversion m output (cur format) c args aux
           else do {
             aux \<leftarrow> do_vprintf m output (unknown_format (cur format)) [scast (cur format)] aux;
             Some (args, aux)
           });
        if format = [] then None else do_vprintf m output (tl format) args aux
      })"

definition do_printf :: "memory \<Rightarrow> (u8 \<Rightarrow> 'a \<Rightarrow> 'a) \<Rightarrow> u8 list \<Rightarrow> va_list \<Rightarrow> 'a \<Rightarrow> 'a option" where
  "do_printf m output format args aux = do_vprintf m output format args aux"

record vsnprintf_aux =
  outp :: addr
  outlen :: int
  max_length :: int
  outmem :: memory

definition vsnprintf_helper :: "u8 \<Rightarrow> vsnprintf_aux \<Rightarrow> vsnprintf_aux" where
  "vsnprintf_helper ch aux =
     (if outlen aux < max_length aux then
        aux\<lparr>outlen := outlen aux + 1, outmem := (outmem aux)(outp aux := ch), outp := outp aux + 1\<rparr>
      else aux\<lparr>outlen := outlen aux + 1\<rparr>)"

definition vsnprintf :: "memory \<Rightarrow> addr \<Rightarrow> u32 \<Rightarrow> u8 list \<Rightarrow> va_list \<Rightarrow> (int \<times> memory) option" where
  "vsnprintf m buffer buf_size format args = do {
     aux \<leftarrow> do_vprintf m vsnprintf_helper format args
       \<lparr>outp = buffer, outlen = 0, max_length = (if buf_size > 0 then sint (buf_size - 1) else 0), outmem = m\<rparr>;
     Some (outlen aux, if buf_size > 0 then (outmem aux)(outp aux := 0) else outmem aux)
   }"

definition snprintf :: "memory \<Rightarrow> addr \<Rightarrow> u32 \<Rightarrow> u8 list \<Rightarrow> va_list \<Rightarrow> (int \<times> memory) option" where
  "snprintf m buffer buf_size format args = vsnprintf m buffer buf_size format args"

text \<open>
  Output to the console: the number of characters of this call and the characters so far
  (src/proj-pregame/src/lib/kernel/console.c without its lock; every character goes to the serial
  port and the display).
\<close>

type_synonym console = "u8 list"

definition putchar_have_lock :: "u8 \<Rightarrow> console \<Rightarrow> console" where
  "putchar_have_lock c con = con @ [c]"

definition vprintf_helper :: "u8 \<Rightarrow> int \<times> console \<Rightarrow> int \<times> console" where
  "vprintf_helper c = (\<lambda>(char_cnt, con). (char_cnt + 1, putchar_have_lock c con))"

definition vprintf :: "memory \<Rightarrow> u8 list \<Rightarrow> va_list \<Rightarrow> console \<Rightarrow> (int \<times> console) option" where
  "vprintf m format args con = do_vprintf m vprintf_helper format args (0, con)"

definition printf :: "memory \<Rightarrow> string \<Rightarrow> va_list \<Rightarrow> console \<Rightarrow> console option" where
  "printf m format args con = map_option snd (vprintf m (bytes_of format) args con)"

partial_function (option) puts_loop :: "memory \<Rightarrow> addr \<Rightarrow> console \<Rightarrow> console option" where
  [code]: "puts_loop m s con = (if m s \<noteq> 0 then puts_loop m (s + 1) (putchar_have_lock (m s) con) else Some con)"

definition puts :: "memory \<Rightarrow> addr \<Rightarrow> console \<Rightarrow> console option" where
  "puts m s con = do { con \<leftarrow> puts_loop m s con; Some (putchar_have_lock 10 con) }"

fun putbuf :: "memory \<Rightarrow> addr \<Rightarrow> nat \<Rightarrow> console \<Rightarrow> console" where
  "putbuf m buffer 0 con = con"
| "putbuf m buffer (Suc n) con = putbuf m (buffer + 1) n (putchar_have_lock (m buffer) con)"

definition putchar :: "u8 \<Rightarrow> console \<Rightarrow> console" where
  "putchar c con = putchar_have_lock c con"

definition repeat_print :: "nat \<Rightarrow> string \<Rightarrow> console \<Rightarrow> console option" where
  "repeat_print n s con = foldl (\<lambda>r _. r \<bind> printf (\<lambda>_. 0) s []) (Some con) [0..<n]"

text \<open>One line of a dump: the bytes \<open>start\<close> to \<open>stop\<close> of the line are at \<open>buf\<close>.\<close>

definition hex_line :: "memory \<Rightarrow> u32 \<Rightarrow> addr \<Rightarrow> nat \<Rightarrow> nat \<Rightarrow> bool \<Rightarrow> console \<Rightarrow> console option" where
  "hex_line m ofs buf start stop ascii con = do {
     con \<leftarrow> printf m ''%08jx  '' [ofs AND NOT 15, 0] con;
     con \<leftarrow> repeat_print start ''   '' con;
     con \<leftarrow> foldl (\<lambda>r i. r \<bind> printf m ''%02hhx%c'' [ucast (m (buf + of_nat (i - start))), if i = 7 then 45 else 32]) (Some con) [start..<stop];
     con \<leftarrow> (if ascii then do {
       con \<leftarrow> repeat_print (16 - stop) ''   '' con;
       con \<leftarrow> printf m ''|'' [] con;
       con \<leftarrow> repeat_print start '' '' con;
       con \<leftarrow> foldl (\<lambda>r i. r \<bind> (let x = m (buf + of_nat (i - start)) in
          printf m ''%c'' [if isprint (uint x) then ucast x else 46])) (Some con) [start..<stop];
       con \<leftarrow> repeat_print (16 - stop) '' '' con;
       printf m ''|'' [] con
     } else Some con);
     printf m [CHR 0x0A] [] con
   }"

function hex_dump :: "memory \<Rightarrow> u32 \<Rightarrow> addr \<Rightarrow> nat \<Rightarrow> bool \<Rightarrow> console \<Rightarrow> console option" where
  "hex_dump m ofs buf sz ascii con =
     (if sz > 0 then do {
        let start = unat ofs mod 16;
        let stop = (if 16 - start > sz then start + sz else 16);
        con \<leftarrow> hex_line m ofs buf start stop ascii con;
        hex_dump m (ofs + of_nat (stop - start)) (buf + of_nat (stop - start)) (sz - (stop - start)) ascii con
      } else Some con)"
  by pat_completeness auto
termination
proof (relation "measure (\<lambda>(m, ofs, buf, sz, ascii, con). sz)", simp, goal_cases)
  case (1 m ofs buf sz ascii con x xa con')
  have "unat ofs mod 16 < 16" by simp
  then show ?case using 1 by (auto split: if_splits)
qed

fun scale_loop :: "u64 \<Rightarrow> string \<Rightarrow> string list \<Rightarrow> u64 \<times> string" where
  "scale_loop sz f [] = (sz, f)"
| "scale_loop sz f (g # gs) = (if sz \<ge> 1024 then scale_loop (sz div 1024) g gs else (sz, f))"

definition print_human_readable_size :: "u64 \<Rightarrow> console \<Rightarrow> console option" where
  "print_human_readable_size sz con =
     (if sz = 1 then printf (\<lambda>_. 0) ''1 byte'' [] con
      else let (n, f) = scale_loop sz ''bytes'' [''kB'', ''MB'', ''GB'', ''TB'']
           in printf (literal_at 1 f) ''%llu %s'' [ucast n, ucast (drop_bit 32 n), 1] con)"

subsection \<open>The text of a conversion\<close>

lemma output_dup_fold [simp]: "output_dup ch n out aux = fold out (replicate n ch) aux"
  by (induction n arbitrary: aux) auto

lemma fold_snoc [simp]: "fold (\<lambda>ch cs. cs @ [ch]) xs ys = ys @ xs"
  by (induction xs arbitrary: ys) auto

text \<open>The text of an integer conversion: padding, sign, prefix, zeros and digits.\<close>

definition int_text :: "u64 \<Rightarrow> bool \<Rightarrow> bool \<Rightarrow> integer_base \<Rightarrow> printf_conversion \<Rightarrow> u8 list \<Rightarrow> u8 list" where
  "int_text v is_signed negative b c buf =
     (let sign = (if int_sign is_signed negative (flags c) \<noteq> 0 then [int_sign is_signed negative (flags c)] else []);
          prefix = (if POUND \<in> flags c \<and> v \<noteq> 0 \<and> xchar b \<noteq> 0 then [48, xchar b] else []);
          pad = nat (width c - int (length buf) - int (length prefix) - int (length sign))
      in (if MINUS \<notin> flags c \<and> ZERO \<notin> flags c then replicate pad 32 else []) @ sign @ prefix @
         (if ZERO \<in> flags c then replicate pad 48 else []) @ rev buf @
         (if MINUS \<in> flags c then replicate pad 32 else []))"

definition string_text :: "u8 list \<Rightarrow> printf_conversion \<Rightarrow> u8 list" where
  "string_text str c =
     (let pad = replicate (nat (width c - int (length str))) 32 in if MINUS \<in> flags c then str @ pad else pad @ str)"

lemma format_integer_fold:
  "format_integer v s n b c out aux = map_option (\<lambda>buf. fold out (int_text v s n b c buf) aux) (int_buf v b c)"
proof (cases "int_buf v b c")
  case (Some buf)
  show ?thesis unfolding format_integer_def int_text_def Let_def Some
    by (simp del: fold_replicate)
qed (simp add: format_integer_def)

lemma format_string_fold: "format_string str c out aux = fold out (string_text str c) aux"
  unfolding format_string_def string_text_def Let_def by (simp del: fold_replicate)

lemma conversion_fold:
  "conversion m out ch c args aux = None \<and> (\<forall>aux2. conversion m out2 ch c args aux2 = None) \<or>
   (\<exists>args' cs. conversion m out ch c args aux = Some (args', fold out cs aux) \<and>
      (\<forall>aux2. conversion m out2 ch c args aux2 = Some (args', fold out2 cs aux2)))"
proof -
  have intc: "((format_integer v s n b c out aux \<bind> (\<lambda>a. Some (r, a))) = None \<and>
      (\<forall>aux2. (format_integer v s n b c out2 aux2 \<bind> (\<lambda>a. Some (r, a))) = None)) \<or>
     (\<exists>args' cs. (format_integer v s n b c out aux \<bind> (\<lambda>a. Some (r, a))) = Some (args', fold out cs aux) \<and>
      (\<forall>aux2. (format_integer v s n b c out2 aux2 \<bind> (\<lambda>a. Some (r, a))) = Some (args', fold out2 cs aux2)))"
    for v s n b c and r :: va_list
    by (cases "int_buf v b c") (auto simp: format_integer_fold)
  show ?thesis
    unfolding conversion_def format_string_fold Let_def
    using intc by (auto split: option.split prod.split bind_split)
qed

lemma do_vprintf_sink:
  fixes out :: "u8 \<Rightarrow> 'a \<Rightarrow> 'a" and out2 :: "u8 \<Rightarrow> 'b \<Rightarrow> 'b"
  assumes "do_vprintf m out f args aux = Some r"
  shows "\<exists>cs. r = fold out cs aux \<and> (\<forall>aux2. do_vprintf m out2 f args aux2 = Some (fold out2 cs aux2))"
proof (rule do_vprintf.raw_induct [where P = "\<lambda>m out f args aux r.
    \<exists>cs. r = fold out cs aux \<and> (\<forall>aux2. do_vprintf m out2 f args aux2 = Some (fold out2 cs aux2))", OF _ assms], goal_cases)
  case (1 rec m out format args aux r)
  note IH = 1(1) and body = 1(2)
  show ?case
  proof (cases "format = [] \<or> hd format \<noteq> of_char (CHR ''%'') \<or> cur (tl format) = of_char (CHR ''%'')")
    case True
    consider "format = []" | "format \<noteq> []" "hd format \<noteq> of_char (CHR ''%'')"
      | "format \<noteq> []" "hd format = of_char (CHR ''%'')" "cur (tl format) = of_char (CHR ''%'')" using True by blast
    then show ?thesis
    proof cases
      case 1
      then show ?thesis using body by (intro exI [of _ "[]"]) (simp add: do_vprintf.simps)
    next
      case 2
      then obtain cs where "r = fold out cs (out (hd format) aux)"
          "\<forall>aux2. do_vprintf m out2 (tl format) args aux2 = Some (fold out2 cs aux2)"
        using body IH by fastforce
      then show ?thesis using 2 by (intro exI [of _ "hd format # cs"]) (simp add: do_vprintf.simps [of m out2 format])
    next
      case 3
      then obtain cs where "r = fold out cs (out (of_char (CHR ''%'')) aux)"
          "\<forall>aux2. do_vprintf m out2 (tl (tl format)) args aux2 = Some (fold out2 cs aux2)"
        using body IH by fastforce
      then show ?thesis using 3 by (intro exI [of _ "of_char (CHR ''%'') # cs"]) (simp add: do_vprintf.simps [of m out2 format])
    qed
  next
    case False
    then obtain f c args' where p: "parse_conversion (tl format) args = Some (f, c, args')"
      using body by (auto simp: bind_eq_Some_conv split: if_splits)
    let ?conv = "if cur f \<in> set (bytes_of ''diouxXcsp'') then conversion m out (cur f) c args' aux
         else rec m out (unknown_format (cur f)) [scast (cur f)] aux \<bind> (\<lambda>aux. Some (args', aux))"
    have "(?conv \<bind> (\<lambda>(args, aux). if f = [] then None else rec m out (tl f) args aux)) = Some r"
      using body False p by simp
    then obtain args1 aux1 where ch: "?conv = Some (args1, aux1)" and f: "f \<noteq> []" and r: "rec m out (tl f) args1 aux1 = Some r"
      unfolding bind_Some_iff by (auto simp del: if_split split: if_splits(2))
    have "\<exists>cs. aux1 = fold out cs aux \<and> (\<forall>aux2.
        (if cur f \<in> set (bytes_of ''diouxXcsp'') then conversion m out2 (cur f) c args' aux2
         else do_vprintf m out2 (unknown_format (cur f)) [scast (cur f)] aux2 \<bind> (\<lambda>aux. Some (args', aux)))
        = Some (args1, fold out2 cs aux2))"
    proof (cases "cur f \<in> set (bytes_of ''diouxXcsp'')")
      case True
      then show ?thesis using ch conversion_fold [of m out "cur f" c args' aux out2] by auto
    next
      case False
      then show ?thesis using ch IH by (fastforce simp: bind_eq_Some_conv)
    qed
    then obtain cs1 where cs1: "aux1 = fold out cs1 aux"
      "\<And>aux2. (if cur f \<in> set (bytes_of ''diouxXcsp'') then conversion m out2 (cur f) c args' aux2
         else do_vprintf m out2 (unknown_format (cur f)) [scast (cur f)] aux2 \<bind> (\<lambda>aux. Some (args', aux)))
        = Some (args1, fold out2 cs1 aux2)" by blast
    obtain cs2 where cs2: "r = fold out cs2 aux1" "\<And>aux2. do_vprintf m out2 (tl f) args1 aux2 = Some (fold out2 cs2 aux2)"
      using IH [OF r] by blast
    have "do_vprintf m out2 format args aux2 = Some (fold out2 (cs1 @ cs2) aux2)" for aux2
      using False p f cs1(2) cs2(2) by (subst do_vprintf.simps) simp
    then show ?thesis using cs1(1) cs2(1) by (intro exI [of _ "cs1 @ cs2"]) simp
  qed
qed

text \<open>The text that a format and its arguments produce, whatever becomes of the characters.\<close>

definition printf_text :: "memory \<Rightarrow> u8 list \<Rightarrow> va_list \<Rightarrow> u8 list option" where
  "printf_text m format args = do_vprintf m (\<lambda>ch cs. cs @ [ch]) format args []"

lemma do_vprintf_text: "do_vprintf m out format args aux = map_option (\<lambda>cs. fold out cs aux) (printf_text m format args)"
proof (cases "printf_text m format args")
  case None
  have "do_vprintf m out format args aux = None"
  proof (rule ccontr)
    assume "do_vprintf m out format args aux \<noteq> None"
    then obtain r where "do_vprintf m out format args aux = Some r" by blast
    then show False using do_vprintf_sink [of m out format args aux r "\<lambda>ch cs. cs @ [ch]"] None
      by (auto simp: printf_text_def)
  qed
  then show ?thesis using None by simp
next
  case (Some cs)
  then show ?thesis
    using do_vprintf_sink [of m "\<lambda>ch cs. cs @ [ch]" format args "[]" cs out] by (auto simp: printf_text_def)
qed

subsection \<open>Output to a buffer\<close>

lemma vsnprintf_fold:
  assumes "unat p + k \<le> 2 ^ 32" "k = min (nat (mx - n)) (length cs)"
  shows "fold vsnprintf_helper cs \<lparr>outp = p, outlen = n, max_length = mx, outmem = m\<rparr> =
    \<lparr>outp = p + of_nat k, outlen = n + int (length cs), max_length = mx,
     outmem = (\<lambda>a. if unat a \<in> span_of p k then cs ! (unat a - unat p) else m a)\<rparr>"
  using assms
proof (induction cs arbitrary: p n m k)
  case (Cons c cs)
  show ?case
  proof (cases "n < mx")
    case True
    define j where "j = min (nat (mx - (n + 1))) (length cs)"
    have k: "k = Suc j" using Cons.prems(2) True by (auto simp: j_def)
    have rec: "fold vsnprintf_helper (c # cs) \<lparr>outp = p, outlen = n, max_length = mx, outmem = m\<rparr> =
        fold vsnprintf_helper cs \<lparr>outp = p + 1, outlen = n + 1, max_length = mx, outmem = m(p := c)\<rparr>"
      using True by (simp add: vsnprintf_helper_def)
    show ?thesis
    proof (cases "j = 0")
      case True
      have "fold vsnprintf_helper cs \<lparr>outp = p + 1, outlen = n + 1, max_length = mx, outmem = m(p := c)\<rparr> =
          \<lparr>outp = p + 1 + of_nat 0, outlen = n + 1 + int (length cs), max_length = mx,
           outmem = (\<lambda>a. if unat a \<in> span_of (p + 1) 0 then cs ! (unat a - unat (p + 1)) else (m(p := c)) a)\<rparr>"
      proof (rule Cons.IH)
        show "unat (p + 1) + 0 \<le> 2 ^ 32" using unsigned_less [of "p + 1", where 'a = nat] by simp
      qed (use True in \<open>simp add: j_def\<close>)
      then show ?thesis unfolding rec k True by (auto simp: span_of_def fun_eq_iff word_unat_eq_iff)
    next
      case False
      have u: "unat (p + 1) = unat p + 1" using unat_suc [of p j] Cons.prems(1) k False by auto
      have "fold vsnprintf_helper cs \<lparr>outp = p + 1, outlen = n + 1, max_length = mx, outmem = m(p := c)\<rparr> =
          \<lparr>outp = p + 1 + of_nat j, outlen = n + 1 + int (length cs), max_length = mx,
           outmem = (\<lambda>a. if unat a \<in> span_of (p + 1) j then cs ! (unat a - unat (p + 1)) else (m(p := c)) a)\<rparr>"
        by (rule Cons.IH) (use Cons.prems(1) u k in \<open>simp_all add: j_def\<close>)
      moreover have "(if unat a \<in> span_of (p + 1) j then cs ! (unat a - unat (p + 1)) else (m(p := c)) a) =
          (if unat a \<in> span_of p k then (c # cs) ! (unat a - unat p) else m a)" for a
      proof (cases "a = p")
        case False
        then have "unat a \<noteq> unat p" by (simp add: word_unat_eq_iff)
        then show ?thesis using u k False by (auto simp: span_of_def nth_Cons')
      qed (use u k in \<open>simp add: span_of_def\<close>)
      ultimately show ?thesis unfolding rec k by (simp add: add.assoc)
    qed
  next
    case False
    then have "k = 0" using Cons.prems(2) by simp
    moreover have "fold vsnprintf_helper cs \<lparr>outp = p, outlen = n + 1, max_length = mx, outmem = m\<rparr> =
        \<lparr>outp = p + of_nat 0, outlen = n + 1 + int (length cs), max_length = mx,
         outmem = (\<lambda>a. if unat a \<in> span_of p 0 then cs ! (unat a - unat p) else m a)\<rparr>"
      by (rule Cons.IH) (use False Cons.prems(1) in \<open>simp_all add: \<open>k = 0\<close>\<close>)
    moreover have "fold vsnprintf_helper (c # cs) \<lparr>outp = p, outlen = n, max_length = mx, outmem = m\<rparr> =
        fold vsnprintf_helper cs \<lparr>outp = p, outlen = n + 1, max_length = mx, outmem = m\<rparr>"
      using False by (simp add: vsnprintf_helper_def)
    ultimately show ?thesis by (simp add: span_of_def)
  qed
qed (simp add: span_of_def)

lemma vsnprintf_ok:
  assumes "unat n < 2 ^ 31" "unat buf + unat n \<le> 2 ^ 32"
  shows "case printf_text m format args of
     None \<Rightarrow> vsnprintf m buf n format args = None
   | Some cs \<Rightarrow> \<exists>m'. vsnprintf m buf n format args = Some (int (length cs), m') \<and>
       (n > 0 \<longrightarrow> (let k = min (unat n - 1) (length cs) in
          (\<forall>i < k. m' (buf + of_nat i) = cs ! i) \<and> m' (buf + of_nat k) = 0)) \<and>
       (\<forall>a. unat a \<notin> span_of buf (unat n) \<longrightarrow> m' a = m a)"
proof (cases "printf_text m format args")
  case None
  then show ?thesis by (simp add: vsnprintf_def do_vprintf_text)
next
  case (Some cs)
  let ?mx = "if n > 0 then sint (n - 1) else 0"
  have mx: "nat (?mx - 0) = unat n - 1"
  proof (cases "n = 0")
    case False
    have u: "unat (n - 1) = unat n - 1" using False by (simp add: unat_minus_one)
    then have "uint (n - 1) < 2 ^ 31" using assms(1) by (simp add: uint_nat)
    then have "sint (n - 1) = uint (n - 1)" using signed_take_bit_int_eq_self [of 31 "uint (n - 1)"] by (simp add: sint_uint order_trans [of _ 0])
    then show ?thesis using u False by (simp add: word_neq_0_conv uint_nat)
  qed simp
  define k where "k = min (unat n - 1) (length cs)"
  have k32: "k < 2 ^ 32" "unat buf + k \<le> 2 ^ 32" using assms by (auto simp: k_def)
  define M where "M = (\<lambda>a. if unat a \<in> span_of buf k then cs ! (unat a - unat buf) else m a)"
  have f: "fold vsnprintf_helper cs \<lparr>outp = buf, outlen = 0, max_length = ?mx, outmem = m\<rparr> =
      \<lparr>outp = buf + of_nat k, outlen = 0 + int (length cs), max_length = ?mx, outmem = M\<rparr>"
    unfolding M_def by (rule vsnprintf_fold) (use k32 mx in \<open>simp_all add: k_def\<close>)
  have run: "vsnprintf m buf n format args = Some (int (length cs), if n > 0 then M(buf + of_nat k := 0) else M)"
    using f Some by (simp add: vsnprintf_def do_vprintf_text)
  have ub: "unat (buf + of_nat i) = unat buf + i" if "n > 0" "i \<le> k" for i
  proof -
    have "unat buf + i < 2 ^ 32" using that assms unfolding k_def by (auto simp: word_less_nat_alt)
    then show ?thesis by (simp add: unat_plus_if' unat_of_nat_id)
  qed
  show ?thesis
  proof (cases "n > 0")
    case True
    have "M (buf + of_nat i) = cs ! i" "buf + of_nat i \<noteq> buf + of_nat k" if "i < k" for i
    proof -
      show "M (buf + of_nat i) = cs ! i" using ub [OF True, of i] that by (simp add: M_def span_of_def)
      show "buf + of_nat i \<noteq> buf + of_nat k" using ub [OF True, of i] ub [OF True, of k] that by (metis nat_add_left_cancel_less less_imp_le less_irrefl order_refl)
    qed
    then have "\<forall>i < k. (M(buf + of_nat k := 0)) (buf + of_nat i) = cs ! i" by (simp add: fun_upd_other)
    moreover have "(M(buf + of_nat k := 0)) (buf + of_nat k) = 0" by simp
    moreover have "(M(buf + of_nat k := 0)) a = m a" if "unat a \<notin> span_of buf (unat n)" for a
    proof -
      have "unat a \<notin> span_of buf k" "unat a \<noteq> unat (buf + of_nat k)"
        using that True ub [OF True, of k] by (auto simp: span_of_def k_def word_less_nat_alt)
      then show ?thesis by (auto simp: M_def)
    qed
    ultimately show ?thesis unfolding Some option.case Let_def k_def [symmetric] using run True
      by (auto simp del: fun_upd_apply)
  next
    case False
    then have "n = 0" by (simp add: word_neq_0_conv [symmetric] del: word_neq_0_conv)
    then show ?thesis using Some run by (auto simp: M_def k_def span_of_def)
  qed
qed




subsection \<open>Digits\<close>

text \<open>The digits of a number, the last first.\<close>

function num_digits :: "nat \<Rightarrow> nat \<Rightarrow> nat list" where
  "num_digits B v = (if v = 0 \<or> B < 2 then [] else v mod B # num_digits B (v div B))"
  by pat_completeness auto
termination by (relation "measure snd") auto

declare num_digits.simps [simp del]

lemma unat_div_base: "unat (v div b :: u64) = unat v div unat b" "unat (v mod b :: u64) = unat v mod unat b"
  by (simp_all add: unat_div unat_mod)

lemma digit_loop_ok:
  assumes "2 \<le> unat (base b)"
  shows "digit_loop b False v n buf = Some (buf @ map ((!) (digits b)) (num_digits (unat (base b)) (unat v)))"
proof (induction "unat v" arbitrary: v n buf rule: less_induct)
  case less
  show ?case
  proof (cases "v = 0")
    case True
    then show ?thesis by (subst digit_loop.simps) (simp add: num_digits.simps)
  next
    case False
    then have pos: "0 < unat v" by (simp add: unat_gt_0)
    then have "unat (v div base b) < unat v" using assms by (simp add: unat_div_base)
    from less.hyps [OF this] show ?thesis using False pos assms
      by (subst digit_loop.simps, subst num_digits.simps) (simp add: word_neq_0_conv unat_div_base)
  qed
qed

text \<open>Whatever the flags, the digits of a 64-bit number need at most 22 places and as many commas.\<close>

lemma digit_loop_length:
  assumes "8 \<le> unat (base b)"
  shows "unat v < 8 ^ k \<Longrightarrow> \<exists>ds. digit_loop b grp v n buf = Some (buf @ ds) \<and> length ds \<le> 2 * k"
proof (induction k arbitrary: v n buf)
  case 0
  then have "v = 0" by (simp add: unat_eq_0)
  then show ?case by (subst digit_loop.simps) simp
next
  case (Suc k)
  show ?case
  proof (cases "v = 0")
    case True
    then show ?thesis by (subst digit_loop.simps) simp
  next
    case False
    let ?buf = "(if grp \<and> n > 0 \<and> n mod group b = 0 then buf @ [of_char (CHR '','')] else buf) @ [digits b ! unat (v mod base b)]"
    have "unat (v div base b) \<le> unat v div 8" using assms by (simp add: unat_div_base div_le_mono2)
    also have "\<dots> < 8 ^ k" using Suc.prems by (simp add: less_mult_imp_div_less mult.commute)
    finally obtain ds where "digit_loop b grp (v div base b) (n + 1) ?buf = Some (?buf @ ds)" "length ds \<le> 2 * k"
      using Suc.IH by blast
    moreover have "digit_loop b grp v n buf = digit_loop b grp (v div base b) (n + 1) ?buf"
      using False by (subst digit_loop.simps) (simp add: word_neq_0_conv)
    ultimately show ?thesis by (cases "grp \<and> n > 0 \<and> n mod group b = 0") auto
  qed
qed

declare zero_loop.simps [simp del]

lemma zero_loop_eq: "length buf \<le> 63 \<Longrightarrow> zero_loop prec buf = buf @ replicate (min (nat prec) 63 - length buf) 48"
proof (induction "63 - length buf" arbitrary: buf rule: less_induct)
  case less
  show ?case
  proof (cases "int (length buf) < prec \<and> length buf < 63")
    case True
    then have "zero_loop prec (buf @ [48]) = (buf @ [48]) @ replicate (min (nat prec) 63 - length (buf @ [48])) 48"
      by (intro less.hyps) auto
    moreover have "min (nat prec) 63 - length buf = Suc (min (nat prec) 63 - length (buf @ [48]))" using True by auto
    ultimately show ?thesis using True by (subst zero_loop.simps) simp
  next
    case False
    then show ?thesis using less.prems by (subst zero_loop.simps) auto
  qed
qed

lemma format_integer_ok:
  assumes "b \<in> {base_d, base_o, base_x, base_X}"
  shows "\<exists>buf. int_buf v b c = Some buf \<and> length buf \<le> 64 \<and>
    format_integer v sg neg b c output aux = Some (fold output (int_text v sg neg b c buf) aux)"
proof -
  have b: "8 \<le> unat (base b)" using assms by (auto simp: base_d_def base_o_def base_x_def base_X_def)
  have "unat v < 8 ^ 22" using unsigned_less [of v, where 'a = nat] by simp
  then obtain ds where ds: "digit_loop b (GROUP \<in> flags c) v 0 [] = Some ds" "length ds \<le> 44"
    using digit_loop_length [OF b, of v 22 "GROUP \<in> flags c" 0 "[]"] by auto
  then have "\<exists>buf. int_buf v b c = Some buf \<and> length buf \<le> 64"
    by (auto simp: int_buf_def zero_loop_eq Let_def)
  then show ?thesis by (auto simp: format_integer_fold)
qed

text \<open>
  C32. Every integer conversion ends, and the characters it collects before it prints them never
  exceed the 64 bytes of its buffer, whatever the value, the base, the flags and the precision.
\<close>

theorem format_integer_fits:
  assumes "b \<in> {base_d, base_o, base_x, base_X}"
  shows "\<exists>buf. int_buf v b c = Some buf \<and> length buf \<le> 64 \<and>
    format_integer v sg neg b c output aux = Some (fold output (int_text v sg neg b c buf) aux)"
  using assms by (rule format_integer_ok)

theorem format_integer_fits_witness:
  "\<exists>buf. int_buf 8 base_o \<lparr>flags = {POUND}, width = 0, precision = 100, type_of = INT_T\<rparr> = Some buf \<and> length buf \<le> 64"
  using format_integer_fits [of base_o 8 "\<lparr>flags = {POUND}, width = 0, precision = 100, type_of = INT_T\<rparr>"
      False False "\<lambda>ch cs. cs @ [ch]" "[]"] by auto


subsection \<open>Printing and parsing a number\<close>

lemma num_digits_less: "d \<in> set (num_digits B v) \<Longrightarrow> d < B"
proof (induction B v rule: num_digits.induct)
  case (1 B v)
  then show ?case by (subst (asm) num_digits.simps) (auto split: if_splits)
qed

lemma num_digits_length: "2 \<le> B \<Longrightarrow> v < B ^ k \<Longrightarrow> length (num_digits B v) \<le> k"
proof (induction k arbitrary: v)
  case (Suc k)
  then have "v div B < B ^ k" by (simp add: less_mult_imp_div_less mult.commute)
  from Suc.IH [OF Suc.prems(1) this] show ?case by (subst num_digits.simps) simp
qed (simp add: num_digits.simps)

definition decimal :: "nat \<Rightarrow> u8 list" where
  "decimal v = (if v = 0 then [48] else map (\<lambda>d. of_nat (48 + d)) (rev (num_digits 10 v)))"

lemma unat_digit: "d < 10 \<Longrightarrow> unat (of_nat (48 + d) :: u8) = 48 + d"
  by (rule unat_of_nat_id) simp

lemma digits_value_append: "digits_value (xs @ ys) v = digits_value ys (digits_value xs v)"
  by (induction xs arbitrary: v) auto

lemma digits_value_decimal: "digits_value (decimal v) 0 = v"
proof -
  have "digits_value (map (\<lambda>d. of_nat (48 + d)) (rev (num_digits 10 v))) 0 = v" for v
  proof (induction v rule: less_induct)
    case (less v)
    show ?case
    proof (cases "v = 0")
      case False
      have "unat (of_nat (48 + v mod 10) :: u8) = 48 + v mod 10" by (rule unat_digit) simp
      moreover have "num_digits 10 v = v mod 10 # num_digits 10 (v div 10)" using False by (simp add: num_digits.simps [of 10 v])
      moreover have "digits_value (map (\<lambda>d. of_nat (48 + d)) (rev (num_digits 10 (v div 10)))) 0 = v div 10"
        by (rule less) (use False in simp)
      ultimately show ?thesis by (simp add: digits_value_append del: of_nat_add)
    qed (simp add: num_digits.simps)
  qed
  then show ?thesis by (simp add: decimal_def)
qed

lemma decimal_digits: "d \<in> set (decimal v) \<Longrightarrow> is_digit_byte d" "decimal v \<noteq> []"
proof -
  show "decimal v \<noteq> []" by (simp add: decimal_def num_digits.simps)
  show "is_digit_byte d" if mem: "d \<in> set (decimal v)"
  proof (cases "v = 0")
    case True
    then show ?thesis using mem by (simp add: decimal_def is_digit_byte_iff)
  next
    case False
    then obtain k where k: "k < 10" "d = of_nat (48 + k)"
      using mem num_digits_less [of _ 10 v] by (auto simp: decimal_def)
    then have "uint d = int (48 + k)" using unat_digit [OF k(1)] by (metis uint_nat)
    then show ?thesis using k(1) by (simp add: is_digit_byte_iff)
  qed
qed

lemma base_d_digit: "d < 10 \<Longrightarrow> digits base_d ! d = of_nat (48 + d)"
  by (auto simp: base_d_def bytes_of_def less_Suc_eq numeral_eq_Suc)

abbreviation plain :: printf_conversion where
  "plain \<equiv> \<lparr>flags = {}, width = 0, precision = -1, type_of = INT_T\<rparr>"

lemma int_text_plain:
  "int_buf v base_d plain = Some buf \<Longrightarrow> int_text v True neg base_d plain buf = (if neg then [45] else []) @ decimal (unat v)"
proof -
  assume i: "int_buf v base_d plain = Some buf"
  have dl: "digit_loop base_d False v 0 [] = Some (map ((!) (digits base_d)) (num_digits 10 (unat v)))"
    using digit_loop_ok [of base_d v 0 "[]"] by (simp add: base_d_def)
  have len: "length (num_digits 10 (unat v)) \<le> 20"
    using num_digits_length [of 10 "unat v" 20] unsigned_less [of v, where 'a = nat] by simp
  have "map ((!) (digits base_d)) (num_digits 10 (unat v)) = map (\<lambda>d. of_nat (48 + d)) (num_digits 10 (unat v))"
    using base_d_digit num_digits_less by (intro map_cong) auto
  then have "buf = rev (decimal (unat v))"
    using i dl len by (auto simp: int_buf_def zero_loop_eq decimal_def rev_map num_digits.simps [of 10 "unat v"] Let_def
        base_d_def)
  then show ?thesis by (simp add: int_text_def int_sign_def Let_def)
qed


lemma unat_abs_sint: "unat (of_int \<bar>sint (n :: u32)\<bar> :: u64) = nat \<bar>sint n\<bar>"
proof -
  have "\<bar>sint n\<bar> \<le> 2 ^ 31" using sint_ge [of n] sint_lt [of n] by simp
  then have "take_bit 64 \<bar>sint n\<bar> = \<bar>sint n\<bar>" by (intro take_bit_int_eq_self) simp_all
  then show ?thesis by (simp add: unat_eq_nat_uint uint_word_of_int_eq)
qed

lemma printf_text_d: "printf_text m (bytes_of ''%d'') [n] = Some ((if sint n < 0 then [45] else []) @ decimal (nat \<bar>sint n\<bar>))"
proof -
  let ?v = "of_int \<bar>sint n\<bar> :: u64"
  obtain buf where b: "int_buf ?v base_d plain = Some buf"
    using format_integer_ok [of base_d ?v plain True True "\<lambda>ch cs. cs @ [ch]" "[]"] by auto
  have pc: "parse_conversion [100] [n] = Some ([100], plain, [n])"
    by (simp add: parse_conversion_def isdigit_def sint_byte)
  have fmt: "bytes_of ''%d'' = [37, 100]" by (simp add: bytes_of_def)
  have dest: "(if sint n < 0 then - sint n else sint n) = \<bar>sint n\<bar>" by simp
  have cv: "conversion m (\<lambda>ch cs. cs @ [ch]) 100 plain [n] [] =
      Some ([], int_text ?v True (sint n < 0) base_d plain buf)"
    by (simp add: conversion_def format_integer_fold b dest)
  have nil: "do_vprintf m (\<lambda>ch cs. cs @ [ch]) [] [] cs = Some cs" for cs by (subst do_vprintf.simps) simp
  have "printf_text m (bytes_of ''%d'') [n] = Some (int_text ?v True (sint n < 0) base_d plain buf)"
    unfolding printf_text_def fmt by (subst do_vprintf.simps) (simp add: pc cv nil bytes_of_def)
  then show ?thesis by (simp add: int_text_plain [OF b] unat_abs_sint)
qed

text \<open>
  C31. A number printed with \<open>%d\<close> into a buffer of 12 bytes is a string that \<open>atoi\<close> reads as the same
  number, for every 32-bit integer.
\<close>

theorem print_parse_roundtrip:
  assumes "buf \<noteq> 0" "unat buf + 12 \<le> 2 ^ 32"
  shows "\<exists>k m'. snprintf m buf 12 (bytes_of ''%d'') [n] = Some (k, m') \<and> atoi m' buf = Some n"
proof -
  define sign where "sign = (if sint n < 0 then [45] else [] :: u8 list)"
  define ds where "ds = decimal (nat \<bar>sint n\<bar>)"
  have "\<bar>sint n\<bar> \<le> 2 ^ 31" using sint_ge [of n] sint_lt [of n] by simp
  then have "nat \<bar>sint n\<bar> < 10 ^ 10" by simp
  then have len: "length (sign @ ds) \<le> 11"
    using num_digits_length [of 10 "nat \<bar>sint n\<bar>" 10] by (auto simp: sign_def ds_def decimal_def abs_if split: if_splits)
  have t: "printf_text m (bytes_of ''%d'') [n] = Some (sign @ ds)"
    by (simp add: printf_text_d sign_def ds_def)
  obtain m' where r: "vsnprintf m buf 12 (bytes_of ''%d'') [n] = Some (int (length (sign @ ds)), m')"
    and at: "\<forall>i < length (sign @ ds). m' (buf + of_nat i) = (sign @ ds) ! i" "m' (buf + of_nat (length (sign @ ds))) = 0"
    using vsnprintf_ok [of 12 buf m "bytes_of ''%d''" "[n]"] assms(2) len unfolding t
    by (auto simp: Let_def min_absorb2)
  have dg: "\<forall>d \<in> set ds. is_digit_byte d" "ds \<noteq> []" using decimal_digits by (auto simp: ds_def)
  then have nz: "0 \<notin> set (sign @ ds)" by (auto simp: sign_def is_digit_byte_iff)
  have "str_ok m' buf (sign @ ds)"
    by (rule str_okI) (use assms len nz at in auto)
  then have "atoi m' buf = Some (if sign = [45] then - of_nat (digits_value ds 0) else of_nat (digits_value ds 0))"
    using atoi_ok [of m' buf "[]" sign ds "[]"] dg by (auto simp: sign_def)
  also have "\<dots> = Some n"
  proof -
    have "(of_nat (nat \<bar>sint n\<bar>) :: u32) = of_int \<bar>sint n\<bar>" by simp
    then show ?thesis by (auto simp: sign_def ds_def digits_value_decimal abs_if)
  qed
  finally show ?thesis using r by (simp add: snprintf_def)
qed

theorem print_parse_roundtrip_witness:
  "\<exists>k m'. snprintf (\<lambda>_. 0) 4096 12 (bytes_of ''%d'') [- 2147483648] = Some (k, m') \<and> atoi m' 4096 = Some (- 2147483648)"
  using print_parse_roundtrip [of 4096 "\<lambda>_. 0" "- 2147483648"] by simp

end
