(* ===== verification/Threads.thy ===== *)
theory Threads
  imports Vaddr
begin

text \<open>
  Threads and the scheduler (src/proj-pregame/src/threads/thread.c) with the interrupt level
  (src/proj-pregame/src/threads/interrupt.c).

  A thread is the address of its page. A function that switches threads returns to its caller only
  when the caller is scheduled again; until then the code that is left for it is on its kernel stack.
  The model keeps this stack as a list of return points, the innermost first: what
  \<open>switch_threads\<close> and the functions of thread.c and synch.c above it still have to do. \<open>schedule\<close>
  therefore ends in the context of the thread it switched to, whose first return point runs next. The
  stack pointers that \<open>switch_threads\<close> (switch.S) saves and loads are the return points here, and the
  page directory that \<open>process_activate\<close> loads is not part of the state.
\<close>

subsection \<open>The C functions\<close>

datatype thread_status = THREAD_RUNNING | THREAD_READY | THREAD_BLOCKED | THREAD_DYING

datatype sched_policy = SCHED_FIFO | SCHED_PRIO | SCHED_FAIR | SCHED_MLFQS

definition PRI_MIN :: int where "PRI_MIN = 0"
definition PRI_DEFAULT :: int where "PRI_DEFAULT = 31"
definition PRI_MAX :: int where "PRI_MAX = 63"
definition THREAD_MAGIC :: u32 where "THREAD_MAGIC = 0xcd6abf4b"
definition TIME_SLICE :: u32 where "TIME_SLICE = 4"

text \<open>
  Locks, semaphores and condition variables by where they are: of their own at an address, the
  parts of a lock and of a readers-writers lock, the lock of \<open>allocate_tid\<close>, and the semaphore in
  the stack frame of a thread that waits in \<open>cond_wait\<close>.
\<close>

datatype lockref = Lock addr | Rw_Guard addr | Tid_Lock
datatype semref = Sema addr | Lock_Sema lockref | Waiter_Sema addr
datatype condref = Cond addr | Rw_Read addr | Rw_Write addr

text \<open>What a new thread runs: \<open>idle\<close>, or some other function.\<close>

datatype entry = Entry_Idle semref | Entry_Fn addr addr

datatype frame =
    Kernel_Thread entry          \<comment> \<open>first schedule of a new thread: \<open>kernel_thread\<close>\<close>
  | Set_Level bool               \<comment> \<open>\<open>intr_set_level\<close> at the end of \<open>thread_yield\<close>\<close>
  | Idle_Start semref            \<comment> \<open>beginning of \<open>idle\<close>\<close>
  | Idle_Loop                    \<comment> \<open>loop of \<open>idle\<close>: block\<close>
  | Idle_Hlt                     \<comment> \<open>loop of \<open>idle\<close>: enable interrupts and halt\<close>
  | Tid_Assign addr              \<comment> \<open>\<open>allocate_tid\<close> with its lock held\<close>
  | Create_Rest addr entry       \<comment> \<open>\<open>thread_create\<close> after \<open>allocate_tid\<close>\<close>
  | Sema_Down semref             \<comment> \<open>call of \<open>sema_down\<close>\<close>
  | Sema_Loop semref bool        \<comment> \<open>the loop of \<open>sema_down\<close>, with the interrupt level to restore\<close>
  | Sema_Up semref               \<comment> \<open>call of \<open>sema_up\<close>\<close>
  | Lock_Acquire lockref         \<comment> \<open>call of \<open>lock_acquire\<close>\<close>
  | Set_Holder lockref           \<comment> \<open>\<open>lock_acquire\<close> after \<open>sema_down\<close>\<close>
  | Lock_Release lockref         \<comment> \<open>call of \<open>lock_release\<close>\<close>
  | Cond_Broadcast condref lockref  \<comment> \<open>loop of \<open>cond_broadcast\<close>\<close>
  | Rw_Enter addr bool           \<comment> \<open>loop of \<open>rw_lock_acquire\<close>, for a reader or a writer\<close>
  | Rw_Woken addr bool           \<comment> \<open>the same after \<open>cond_wait\<close>\<close>
  | Rw_Leave addr bool           \<comment> \<open>\<open>rw_lock_release\<close> with the guard lock held\<close>
  | Timer_Loop u64 u64           \<comment> \<open>loop of \<open>timer_sleep\<close>: the start and the number of ticks\<close>

record thread =
  tid :: int
  status :: thread_status
  tname :: "u8 list"
  stack :: addr
  priority :: int
  pcb :: addr
  magic :: u32
  frames :: "frame list"

text \<open>The thread that is running is the one whose page holds the CPU's stack pointer.\<close>

record sched =
  threads :: "addr \<Rightarrow> thread option"
  fifo_ready_list :: "addr list"
  all_list :: "addr list"
  idle_thread :: addr
  initial_thread :: addr
  running_thread :: addr
  intr_on :: bool
  in_external_intr :: bool
  yield_on_return :: bool
  thread_ticks :: u32
  idle_ticks :: int
  kernel_ticks :: int
  user_ticks :: int
  next_tid :: int
  active_sched_policy :: sched_policy
  ticks :: u64
  loops_per_tick :: u32

definition intr_disable :: "'a sched_scheme \<Rightarrow> 'a sched_scheme" where
  "intr_disable k = k\<lparr>intr_on := False\<rparr>"

definition intr_enable :: "'a sched_scheme \<Rightarrow> 'a sched_scheme option" where
  "intr_enable k = do { ASSERT (\<not> in_external_intr k); Some (k\<lparr>intr_on := True\<rparr>) }"

definition intr_set_level :: "bool \<Rightarrow> 'a sched_scheme \<Rightarrow> 'a sched_scheme option" where
  "intr_set_level level k = (if level then intr_enable k else Some (intr_disable k))"

definition intr_yield_on_return :: "'a sched_scheme \<Rightarrow> 'a sched_scheme option" where
  "intr_yield_on_return k = do { ASSERT (in_external_intr k); Some (k\<lparr>yield_on_return := True\<rparr>) }"

definition is_thread :: "'a sched_scheme \<Rightarrow> addr \<Rightarrow> bool" where
  "is_thread k t \<longleftrightarrow> t \<noteq> 0 \<and> (case threads k t of None \<Rightarrow> False | Some th \<Rightarrow> magic th = THREAD_MAGIC)"

definition upd_thread :: "addr \<Rightarrow> (thread \<Rightarrow> thread) \<Rightarrow> 'a sched_scheme \<Rightarrow> 'a sched_scheme" where
  "upd_thread t f k = k\<lparr>threads := (threads k)(t := map_option f (threads k t))\<rparr>"

definition set_status :: "addr \<Rightarrow> thread_status \<Rightarrow> 'a sched_scheme \<Rightarrow> 'a sched_scheme" where
  "set_status t s = upd_thread t (\<lambda>th. th\<lparr>status := s\<rparr>)"

definition has_status :: "'a sched_scheme \<Rightarrow> addr \<Rightarrow> thread_status \<Rightarrow> bool" where
  "has_status k t s \<longleftrightarrow> (case threads k t of None \<Rightarrow> False | Some th \<Rightarrow> status th = s)"

text \<open>Calls of the running thread: return points on top of its stack.\<close>

definition push_frames :: "frame list \<Rightarrow> 'a sched_scheme \<Rightarrow> 'a sched_scheme" where
  "push_frames fs k = upd_thread (running_thread k) (\<lambda>th. th\<lparr>frames := fs @ frames th\<rparr>) k"

definition thread_current :: "'a sched_scheme \<Rightarrow> addr option" where
  "thread_current k = do {
     ASSERT (is_thread k (running_thread k));
     ASSERT (has_status k (running_thread k) THREAD_RUNNING);
     Some (running_thread k)
   }"

definition thread_tick :: "'a sched_scheme \<Rightarrow> 'a sched_scheme option" where
  "thread_tick k = do {
     t \<leftarrow> thread_current k;
     th \<leftarrow> threads k t;
     let k = (if t = idle_thread k then k\<lparr>idle_ticks := idle_ticks k + 1\<rparr>
              else if pcb th \<noteq> 0 then k\<lparr>user_ticks := user_ticks k + 1\<rparr>
              else k\<lparr>kernel_ticks := kernel_ticks k + 1\<rparr>);
     let k = k\<lparr>thread_ticks := thread_ticks k + 1\<rparr>;
     if thread_ticks k \<ge> TIME_SLICE then intr_yield_on_return k else Some k
   }"

definition thread_enqueue :: "addr \<Rightarrow> 'a sched_scheme \<Rightarrow> 'a sched_scheme option" where
  "thread_enqueue t k = do {
     ASSERT (\<not> intr_on k);
     ASSERT (is_thread k t);
     if active_sched_policy k = SCHED_FIFO then Some (k\<lparr>fifo_ready_list := fifo_ready_list k @ [t]\<rparr>) else None
   }"

definition thread_unblock :: "addr \<Rightarrow> 'a sched_scheme \<Rightarrow> 'a sched_scheme option" where
  "thread_unblock t k = do {
     ASSERT (is_thread k t);
     let old_level = intr_on k;
     let k = intr_disable k;
     ASSERT (has_status k t THREAD_BLOCKED);
     k \<leftarrow> thread_enqueue t k;
     intr_set_level old_level (set_status t THREAD_READY k)
   }"

fun next_thread_to_run_by :: "sched_policy \<Rightarrow> 'a sched_scheme \<Rightarrow> (addr \<times> 'a sched_scheme) option" where
  "next_thread_to_run_by SCHED_FIFO k =
     (case fifo_ready_list k of
        t # ts \<Rightarrow> Some (t, k\<lparr>fifo_ready_list := ts\<rparr>)
      | [] \<Rightarrow> Some (idle_thread k, k))"
| "next_thread_to_run_by SCHED_PRIO k = None"
| "next_thread_to_run_by SCHED_FAIR k = None"
| "next_thread_to_run_by SCHED_MLFQS k = None"

definition next_thread_to_run :: "'a sched_scheme \<Rightarrow> (addr \<times> 'a sched_scheme) option" where
  "next_thread_to_run k = next_thread_to_run_by (active_sched_policy k) k"

text \<open>The page of a dead thread goes back to the page allocator.\<close>

definition thread_switch_tail :: "addr \<Rightarrow> 'a sched_scheme \<Rightarrow> 'a sched_scheme option" where
  "thread_switch_tail prev k = do {
     let cur = running_thread k;
     ASSERT (\<not> intr_on k);
     let k = set_status cur THREAD_RUNNING k;
     let k = k\<lparr>thread_ticks := 0\<rparr>;
     if prev \<noteq> 0 \<and> has_status k prev THREAD_DYING \<and> prev \<noteq> initial_thread k then do {
       ASSERT (prev \<noteq> cur);
       Some (k\<lparr>threads := (threads k)(prev := None)\<rparr>)
     } else Some k
   }"

definition schedule :: "'a sched_scheme \<Rightarrow> 'a sched_scheme option" where
  "schedule k = do {
     let cur = running_thread k;
     (nxt, k) \<leftarrow> next_thread_to_run k;
     ASSERT (\<not> intr_on k);
     ASSERT (\<not> has_status k cur THREAD_RUNNING);
     ASSERT (is_thread k nxt);
     thread_switch_tail (if cur \<noteq> nxt then cur else 0) (k\<lparr>running_thread := nxt\<rparr>)
   }"

definition thread_block :: "'a sched_scheme \<Rightarrow> 'a sched_scheme option" where
  "thread_block k = do {
     ASSERT (\<not> in_external_intr k);
     ASSERT (\<not> intr_on k);
     cur \<leftarrow> thread_current k;
     schedule (set_status cur THREAD_BLOCKED k)
   }"

definition thread_exit :: "'a sched_scheme \<Rightarrow> 'a sched_scheme option" where
  "thread_exit k = do {
     ASSERT (\<not> in_external_intr k);
     let k = intr_disable k;
     cur \<leftarrow> thread_current k;
     let k = k\<lparr>all_list := remove1 cur (all_list k)\<rparr>;
     schedule (set_status cur THREAD_DYING k)
   }"

definition thread_yield :: "'a sched_scheme \<Rightarrow> 'a sched_scheme option" where
  "thread_yield k = do {
     cur \<leftarrow> thread_current k;
     ASSERT (\<not> in_external_intr k);
     let old_level = intr_on k;
     let k = intr_disable k;
     k \<leftarrow> (if cur \<noteq> idle_thread k then thread_enqueue cur k else Some k);
     schedule (set_status cur THREAD_READY (push_frames [Set_Level old_level] k))
   }"

definition init_thread :: "addr \<Rightarrow> u8 list \<Rightarrow> int \<Rightarrow> 'a sched_scheme \<Rightarrow> 'a sched_scheme option" where
  "init_thread t name prio k = do {
     ASSERT (t \<noteq> 0);
     ASSERT (PRI_MIN \<le> prio \<and> prio \<le> PRI_MAX);
     let th = \<lparr>tid = 0, status = THREAD_BLOCKED, tname = take 15 name, stack = t + PGSIZE,
               priority = prio, pcb = 0, magic = THREAD_MAGIC, frames = []\<rparr>;
     let old_level = intr_on k;
     let k = intr_disable (k\<lparr>threads := (threads k)(t \<mapsto> th)\<rparr>);
     intr_set_level old_level (k\<lparr>all_list := all_list k @ [t]\<rparr>)
   }"

definition alloc_frame :: "addr \<Rightarrow> u32 \<Rightarrow> 'a sched_scheme \<Rightarrow> 'a sched_scheme option" where
  "alloc_frame t sz k = do {
     ASSERT (is_thread k t);
     ASSERT (sz mod 4 = 0);
     Some (upd_thread t (\<lambda>th. th\<lparr>stack := stack th - sz\<rparr>) k)
   }"

text \<open>
  \<open>thread_create\<close> up to the call of \<open>allocate_tid\<close>, whose lock may block; the page is what
  \<open>palloc_get_page\<close> returned, 0 for a null pointer, when the caller gets \<open>TID_ERROR\<close> and nothing
  changes. The tid it returns otherwise is that of the new thread. Its end sets up the frames for
  \<open>kernel_thread\<close>, \<open>switch_entry\<close> and \<open>switch_threads\<close> on the new stack.
\<close>

definition thread_create :: "addr \<Rightarrow> u8 list \<Rightarrow> int \<Rightarrow> entry \<Rightarrow> 'a sched_scheme \<Rightarrow> 'a sched_scheme option" where
  "thread_create page name prio e k =
     (if page = 0 then Some k
      else do {
        k \<leftarrow> init_thread page name prio k;
        Some (push_frames [Lock_Acquire Tid_Lock, Tid_Assign page, Create_Rest page e] k)
      })"

definition create_rest :: "addr \<Rightarrow> entry \<Rightarrow> 'a sched_scheme \<Rightarrow> 'a sched_scheme option" where
  "create_rest t e k = do {
     k \<leftarrow> alloc_frame t 12 k;
     k \<leftarrow> alloc_frame t 4 k;
     k \<leftarrow> alloc_frame t 28 k;
     thread_unblock t (upd_thread t (\<lambda>th. th\<lparr>frames := [Kernel_Thread e]\<rparr>) k)
   }"

text \<open>\<open>allocate_tid\<close> with its lock held, and the assignment of the result to the new thread.\<close>

definition tid_assign :: "addr \<Rightarrow> 'a sched_scheme \<Rightarrow> 'a sched_scheme" where
  "tid_assign t k = upd_thread t (\<lambda>th. th\<lparr>tid := next_tid k\<rparr>)
     (push_frames [Lock_Release Tid_Lock] (k\<lparr>next_tid := next_tid k + 1\<rparr>))"

text \<open>
  A thread function other than \<open>idle\<close> is what the thread does with an empty stack of return points;
  when it returns, the thread calls \<open>thread_exit\<close>.
\<close>

definition kernel_thread :: "entry \<Rightarrow> 'a sched_scheme \<Rightarrow> 'a sched_scheme option" where
  "kernel_thread e k = do {
     k \<leftarrow> intr_enable k;
     Some (case e of Entry_Idle s \<Rightarrow> push_frames [Idle_Start s] k | Entry_Fn f aux \<Rightarrow> k)
   }"

definition idle_start :: "semref \<Rightarrow> 'a sched_scheme \<Rightarrow> 'a sched_scheme option" where
  "idle_start s k = do {
     cur \<leftarrow> thread_current k;
     Some (push_frames [Sema_Up s, Idle_Loop] (k\<lparr>idle_thread := cur\<rparr>))
   }"

definition idle_block :: "'a sched_scheme \<Rightarrow> 'a sched_scheme option" where
  "idle_block k = thread_block (push_frames [Idle_Hlt] (intr_disable k))"

definition idle_hlt :: "'a sched_scheme \<Rightarrow> 'a sched_scheme" where
  "idle_hlt k = push_frames [Idle_Loop] (k\<lparr>intr_on := True\<rparr>)"

definition thread_set_priority :: "int \<Rightarrow> 'a sched_scheme \<Rightarrow> 'a sched_scheme option" where
  "thread_set_priority p k = do { cur \<leftarrow> thread_current k; Some (upd_thread cur (\<lambda>th. th\<lparr>priority := p\<rparr>) k) }"

definition thread_get_priority :: "'a sched_scheme \<Rightarrow> int option" where
  "thread_get_priority k = do { cur \<leftarrow> thread_current k; th \<leftarrow> threads k cur; Some (priority th) }"

definition thread_tid :: "'a sched_scheme \<Rightarrow> int option" where
  "thread_tid k = do { cur \<leftarrow> thread_current k; th \<leftarrow> threads k cur; Some (tid th) }"

definition thread_name :: "'a sched_scheme \<Rightarrow> u8 list option" where
  "thread_name k = do { cur \<leftarrow> thread_current k; th \<leftarrow> threads k cur; Some (tname th) }"

definition thread_foreach :: "(addr \<Rightarrow> 'a sched_scheme \<Rightarrow> 'a sched_scheme) \<Rightarrow> 'a sched_scheme \<Rightarrow> 'a sched_scheme option" where
  "thread_foreach f k = do { ASSERT (\<not> intr_on k); Some (fold f (all_list k) k) }"

text \<open>
  \<open>intr_handler\<close> for an external interrupt, with its registered handler. The acknowledgement to the
  interrupt controller is output to the device only.
\<close>

definition intr_handler :: "('a sched_scheme \<Rightarrow> 'a sched_scheme option) \<Rightarrow> 'a sched_scheme \<Rightarrow> 'a sched_scheme option" where
  "intr_handler handler k = do {
     ASSERT (\<not> intr_on k);
     ASSERT (\<not> in_external_intr k);
     k \<leftarrow> handler (k\<lparr>in_external_intr := True, yield_on_return := False\<rparr>);
     ASSERT (\<not> intr_on k);
     ASSERT (in_external_intr k);
     let k = k\<lparr>in_external_intr := False\<rparr>;
     if yield_on_return k then thread_yield k else Some k
   }"

end
