(* ===== verification/Timer.thy ===== *)
theory Timer
  imports Threads "HOL-Library.Signed_Division"
begin

text \<open>
  The timer (src/proj-pregame/src/devices/timer.c): ticks, sleeping, and the interrupt that preempts
  the running thread. \<open>timer_calibrate\<close>, which measures the processor against the clock, is not
  modelled; the number of loops it finds is a part of the state.
\<close>

subsection \<open>The C functions\<close>

definition TIMER_FREQ :: u64 where "TIMER_FREQ = 100"

definition timer_ticks :: "'a sched_scheme \<Rightarrow> (u64 \<times> 'a sched_scheme) option" where
  "timer_ticks k = do {
     let old_level = intr_on k;
     let k = intr_disable k;
     let t = ticks k;
     k \<leftarrow> intr_set_level old_level k;
     Some (t, k)
   }"

definition timer_elapsed :: "u64 \<Rightarrow> 'a sched_scheme \<Rightarrow> (u64 \<times> 'a sched_scheme) option" where
  "timer_elapsed since k = do { (t, k) \<leftarrow> timer_ticks k; Some (t - since, k) }"

text \<open>One round of the loop of \<open>timer_sleep\<close>, which comes back to it after \<open>thread_yield\<close>.\<close>

definition timer_loop :: "u64 \<Rightarrow> u64 \<Rightarrow> 'a sched_scheme \<Rightarrow> 'a sched_scheme option" where
  "timer_loop start n k = do {
     (e, k) \<leftarrow> timer_elapsed start k;
     if sint e < sint n then thread_yield (push_frames [Timer_Loop start n] k) else Some k
   }"

definition timer_sleep :: "u64 \<Rightarrow> 'a sched_scheme \<Rightarrow> 'a sched_scheme option" where
  "timer_sleep n k = do {
     (start, k) \<leftarrow> timer_ticks k;
     ASSERT (intr_on k);
     Some (push_frames [Timer_Loop start n] k)
   }"

text \<open>Signed division of the C language, which truncates.\<close>

definition div64 :: "u64 \<Rightarrow> u64 \<Rightarrow> u64" where
  "div64 a b = word_of_int (sint a sdiv sint b)"

function busy_wait :: "int \<Rightarrow> 'a sched_scheme \<Rightarrow> 'a sched_scheme" where
  "busy_wait loops k = (if 0 < loops then busy_wait (loops - 1) k else k)"
  by auto
termination by (relation "measure (\<lambda>(loops, _). nat loops)") auto

declare busy_wait.simps [simp del]

definition real_time_delay :: "u64 \<Rightarrow> u64 \<Rightarrow> 'a sched_scheme \<Rightarrow> 'a sched_scheme option" where
  "real_time_delay num denom k = do {
     ASSERT (sint denom mod 1000 = 0);
     Some (busy_wait (sint (div64 (div64 (ucast (loops_per_tick k) * num) 1000 * TIMER_FREQ) (div64 denom 1000))) k)
   }"

definition real_time_sleep :: "u64 \<Rightarrow> u64 \<Rightarrow> 'a sched_scheme \<Rightarrow> 'a sched_scheme option" where
  "real_time_sleep num denom k = do {
     let n = div64 (num * TIMER_FREQ) denom;
     ASSERT (intr_on k);
     if 0 < sint n then timer_sleep n k else real_time_delay num denom k
   }"

definition timer_msleep :: "u64 \<Rightarrow> 'a sched_scheme \<Rightarrow> 'a sched_scheme option" where
  "timer_msleep ms = real_time_sleep ms 1000"

definition timer_usleep :: "u64 \<Rightarrow> 'a sched_scheme \<Rightarrow> 'a sched_scheme option" where
  "timer_usleep us = real_time_sleep us (1000 * 1000)"

definition timer_nsleep :: "u64 \<Rightarrow> 'a sched_scheme \<Rightarrow> 'a sched_scheme option" where
  "timer_nsleep ns = real_time_sleep ns (1000 * 1000 * 1000)"

definition timer_mdelay :: "u64 \<Rightarrow> 'a sched_scheme \<Rightarrow> 'a sched_scheme option" where
  "timer_mdelay ms = real_time_delay ms 1000"

definition timer_udelay :: "u64 \<Rightarrow> 'a sched_scheme \<Rightarrow> 'a sched_scheme option" where
  "timer_udelay us = real_time_delay us (1000 * 1000)"

definition timer_ndelay :: "u64 \<Rightarrow> 'a sched_scheme \<Rightarrow> 'a sched_scheme option" where
  "timer_ndelay ns = real_time_delay ns (1000 * 1000 * 1000)"

definition timer_interrupt :: "'a sched_scheme \<Rightarrow> 'a sched_scheme option" where
  "timer_interrupt k = thread_tick (k\<lparr>ticks := ticks k + 1\<rparr>)"

text \<open>
  The processor turns interrupts off when it delivers the interrupt; the return from it turns them on
  again, and if \<open>intr_handler\<close> yields, that is left for when the thread runs again.
\<close>

definition timer_irq :: "'a sched_scheme \<Rightarrow> 'a sched_scheme option" where
  "timer_irq k = intr_handler timer_interrupt (push_frames [Set_Level True] (intr_disable k))"

subsection \<open>The number of ticks\<close>

lemma busy_wait_id [simp]: "busy_wait n k = k"
  by (induction n k rule: busy_wait.induct) (subst busy_wait.simps, simp)

lemma timer_ticks_eff: "timer_ticks k = Some (t, k') \<Longrightarrow> t = ticks k \<and> k' = k\<lparr>intr_on := intr_on k\<rparr>"
  by (auto simp: timer_ticks_def Let_def intr_set_level_def intr_enable_def intr_disable_def ASSERT_bind bind_Some_iff split: if_splits)

lemma timer_elapsed_eff: "timer_elapsed s k = Some (e, k') \<Longrightarrow> e = ticks k - s \<and> k' = k\<lparr>intr_on := intr_on k\<rparr>"
  by (auto simp: timer_elapsed_def bind_Some_iff dest: timer_ticks_eff)

lemma timer_ticks_run: "\<not> in_external_intr k \<Longrightarrow> timer_ticks k = Some (ticks k, k)"
  by (cases k) (simp add: timer_ticks_def Let_def intr_set_level_def intr_enable_def intr_disable_def)

lemma timer_elapsed_run: "\<not> in_external_intr k \<Longrightarrow> timer_elapsed s k = Some (ticks k - s, k)"
  by (simp add: timer_elapsed_def timer_ticks_run)

end
