(* ===== verification/Synch.thy ===== *)
theory Synch
  imports Timer
begin

text \<open>
  Semaphores, locks, condition variables and readers-writers locks
  (src/proj-pregame/src/threads/synch.c). A call that may sleep leaves return points on the stack
  of its thread (\<open>Threads\<close>); \<open>resume\<close> runs the first of them. What happens between two return
  points runs without another thread in between; the timer interrupt can come between them.
\<close>

subsection \<open>The C functions\<close>

record semaphore =
  svalue :: u32
  waiters :: "addr list"

text \<open>Counts of active and waiting readers and writers.\<close>

record rw_lock =
  AR :: int
  WR :: int
  AW :: int
  WW :: int

record kernel = sched +
  semas :: "semref \<Rightarrow> semaphore"
  holder :: "lockref \<Rightarrow> addr"
  cond_waiters :: "condref \<Rightarrow> semref list"
  rw_locks :: "addr \<Rightarrow> rw_lock"

definition sema_init :: "semref \<Rightarrow> u32 \<Rightarrow> kernel \<Rightarrow> kernel" where
  "sema_init s v k = k\<lparr>semas := (semas k)(s := \<lparr>svalue = v, waiters = []\<rparr>)\<rparr>"

definition set_svalue :: "semref \<Rightarrow> u32 \<Rightarrow> kernel \<Rightarrow> kernel" where
  "set_svalue s v k = k\<lparr>semas := (semas k)(s := (semas k s)\<lparr>svalue := v\<rparr>)\<rparr>"

definition set_waiters :: "semref \<Rightarrow> addr list \<Rightarrow> kernel \<Rightarrow> kernel" where
  "set_waiters s ws k = k\<lparr>semas := (semas k)(s := (semas k s)\<lparr>waiters := ws\<rparr>)\<rparr>"

text \<open>One round of the loop: sleep and come back to it, or take the semaphore.\<close>

definition sema_loop :: "semref \<Rightarrow> bool \<Rightarrow> kernel \<Rightarrow> kernel option" where
  "sema_loop s old_level k =
     (if svalue (semas k s) = 0 then do {
        cur \<leftarrow> thread_current k;
        let k = set_waiters s (waiters (semas k s) @ [cur]) k;
        thread_block (push_frames [Sema_Loop s old_level] k)
      }
      else intr_set_level old_level (set_svalue s (svalue (semas k s) - 1) k))"

definition sema_down :: "semref \<Rightarrow> kernel \<Rightarrow> kernel option" where
  "sema_down s k = do {
     ASSERT (\<not> in_external_intr k);
     sema_loop s (intr_on k) (intr_disable k)
   }"

definition sema_try_down :: "semref \<Rightarrow> kernel \<Rightarrow> (bool \<times> kernel) option" where
  "sema_try_down s k = do {
     let old_level = intr_on k;
     let k = intr_disable k;
     let (success, k) = (if svalue (semas k s) > 0 then (True, set_svalue s (svalue (semas k s) - 1) k) else (False, k));
     k \<leftarrow> intr_set_level old_level k;
     Some (success, k)
   }"

definition sema_up :: "semref \<Rightarrow> kernel \<Rightarrow> kernel option" where
  "sema_up s k = do {
     let old_level = intr_on k;
     let k = intr_disable k;
     k \<leftarrow> (case waiters (semas k s) of
              [] \<Rightarrow> Some k
            | t # ts \<Rightarrow> thread_unblock t (set_waiters s ts k));
     intr_set_level old_level (set_svalue s (svalue (semas k s) + 1) k)
   }"

definition lock_init :: "lockref \<Rightarrow> kernel \<Rightarrow> kernel" where
  "lock_init l k = sema_init (Lock_Sema l) 1 (k\<lparr>holder := (holder k)(l := 0)\<rparr>)"

definition lock_held_by_current_thread :: "lockref \<Rightarrow> kernel \<Rightarrow> bool option" where
  "lock_held_by_current_thread l k = do { cur \<leftarrow> thread_current k; Some (holder k l = cur) }"

definition lock_acquire :: "lockref \<Rightarrow> kernel \<Rightarrow> kernel option" where
  "lock_acquire l k = do {
     ASSERT (\<not> in_external_intr k);
     held \<leftarrow> lock_held_by_current_thread l k;
     ASSERT (\<not> held);
     Some (push_frames [Sema_Down (Lock_Sema l), Set_Holder l] k)
   }"

definition set_holder :: "lockref \<Rightarrow> kernel \<Rightarrow> kernel option" where
  "set_holder l k = do { cur \<leftarrow> thread_current k; Some (k\<lparr>holder := (holder k)(l := cur)\<rparr>) }"

definition lock_try_acquire :: "lockref \<Rightarrow> kernel \<Rightarrow> (bool \<times> kernel) option" where
  "lock_try_acquire l k = do {
     held \<leftarrow> lock_held_by_current_thread l k;
     ASSERT (\<not> held);
     (success, k) \<leftarrow> sema_try_down (Lock_Sema l) k;
     Some (success, if success then push_frames [Set_Holder l] k else k)
   }"

definition lock_release :: "lockref \<Rightarrow> kernel \<Rightarrow> kernel option" where
  "lock_release l k = do {
     held \<leftarrow> lock_held_by_current_thread l k;
     ASSERT held;
     Some (push_frames [Sema_Up (Lock_Sema l)] (k\<lparr>holder := (holder k)(l := 0)\<rparr>))
   }"

definition cond_init :: "condref \<Rightarrow> kernel \<Rightarrow> kernel" where
  "cond_init c k = k\<lparr>cond_waiters := (cond_waiters k)(c := [])\<rparr>"

definition cond_wait :: "condref \<Rightarrow> lockref \<Rightarrow> kernel \<Rightarrow> kernel option" where
  "cond_wait c l k = do {
     ASSERT (\<not> in_external_intr k);
     held \<leftarrow> lock_held_by_current_thread l k;
     ASSERT held;
     let w = Waiter_Sema (running_thread k);
     let k = sema_init w 0 k;
     let k = k\<lparr>cond_waiters := (cond_waiters k)(c := cond_waiters k c @ [w])\<rparr>;
     Some (push_frames [Lock_Release l, Sema_Down w, Lock_Acquire l] k)
   }"

definition cond_signal :: "condref \<Rightarrow> lockref \<Rightarrow> kernel \<Rightarrow> kernel option" where
  "cond_signal c l k = do {
     ASSERT (\<not> in_external_intr k);
     held \<leftarrow> lock_held_by_current_thread l k;
     ASSERT held;
     case cond_waiters k c of
       [] \<Rightarrow> Some k
     | w # ws \<Rightarrow> Some (push_frames [Sema_Up w] (k\<lparr>cond_waiters := (cond_waiters k)(c := ws)\<rparr>))
   }"

definition cond_broadcast :: "condref \<Rightarrow> lockref \<Rightarrow> kernel \<Rightarrow> kernel option" where
  "cond_broadcast c l k =
     (if cond_waiters k c \<noteq> [] then cond_signal c l (push_frames [Cond_Broadcast c l] k) else Some k)"

definition rw_lock_init :: "addr \<Rightarrow> kernel \<Rightarrow> kernel" where
  "rw_lock_init rw k = (let k = lock_init (Rw_Guard rw) k; k = cond_init (Rw_Read rw) k; k = cond_init (Rw_Write rw) k
     in k\<lparr>rw_locks := (rw_locks k)(rw := \<lparr>AR = 0, WR = 0, AW = 0, WW = 0\<rparr>)\<rparr>)"

definition upd_rw :: "addr \<Rightarrow> (rw_lock \<Rightarrow> rw_lock) \<Rightarrow> kernel \<Rightarrow> kernel" where
  "upd_rw rw f k = k\<lparr>rw_locks := (rw_locks k)(rw := f (rw_locks k rw))\<rparr>"

definition rw_lock_acquire :: "addr \<Rightarrow> bool \<Rightarrow> kernel \<Rightarrow> kernel" where
  "rw_lock_acquire rw reader k = push_frames [Lock_Acquire (Rw_Guard rw), Rw_Enter rw reader] k"

definition rw_enter :: "addr \<Rightarrow> bool \<Rightarrow> kernel \<Rightarrow> kernel option" where
  "rw_enter rw reader k = (let r = rw_locks k rw in
     if reader then
       if AW r + WW r > 0 then
         cond_wait (Rw_Read rw) (Rw_Guard rw) (push_frames [Rw_Woken rw reader] (upd_rw rw (\<lambda>r. r\<lparr>WR := WR r + 1\<rparr>) k))
       else Some (push_frames [Lock_Release (Rw_Guard rw)] (upd_rw rw (\<lambda>r. r\<lparr>AR := AR r + 1\<rparr>) k))
     else
       if AR r + AW r > 0 then
         cond_wait (Rw_Write rw) (Rw_Guard rw) (push_frames [Rw_Woken rw reader] (upd_rw rw (\<lambda>r. r\<lparr>WW := WW r + 1\<rparr>) k))
       else Some (push_frames [Lock_Release (Rw_Guard rw)] (upd_rw rw (\<lambda>r. r\<lparr>AW := AW r + 1\<rparr>) k)))"

definition rw_woken :: "addr \<Rightarrow> bool \<Rightarrow> kernel \<Rightarrow> kernel" where
  "rw_woken rw reader k = push_frames [Rw_Enter rw reader]
     (upd_rw rw (\<lambda>r. if reader then r\<lparr>WR := WR r - 1\<rparr> else r\<lparr>WW := WW r - 1\<rparr>) k)"

definition rw_lock_release :: "addr \<Rightarrow> bool \<Rightarrow> kernel \<Rightarrow> kernel" where
  "rw_lock_release rw reader k = push_frames [Lock_Acquire (Rw_Guard rw), Rw_Leave rw reader] k"

definition rw_leave :: "addr \<Rightarrow> bool \<Rightarrow> kernel \<Rightarrow> kernel option" where
  "rw_leave rw reader k =
     (if reader then
        let k = push_frames [Lock_Release (Rw_Guard rw)] (upd_rw rw (\<lambda>r. r\<lparr>AR := AR r - 1\<rparr>) k) in
        if AR (rw_locks k rw) = 0 \<and> WW (rw_locks k rw) > 0 then cond_signal (Rw_Write rw) (Rw_Guard rw) k else Some k
      else
        let k = push_frames [Lock_Release (Rw_Guard rw)] (upd_rw rw (\<lambda>r. r\<lparr>AW := AW r - 1\<rparr>) k) in
        if WW (rw_locks k rw) > 0 then cond_signal (Rw_Write rw) (Rw_Guard rw) k
        else if WR (rw_locks k rw) > 0 then cond_broadcast (Rw_Read rw) (Rw_Guard rw) k
        else Some k)"

text \<open>The running thread goes on at its first return point.\<close>

fun run_frame :: "frame \<Rightarrow> kernel \<Rightarrow> kernel option" where
  "run_frame (Kernel_Thread e) k = kernel_thread e k"
| "run_frame (Set_Level b) k = intr_set_level b k"
| "run_frame (Idle_Start s) k = idle_start s k"
| "run_frame Idle_Loop k = idle_block k"
| "run_frame Idle_Hlt k = Some (idle_hlt k)"
| "run_frame (Tid_Assign t) k = Some (tid_assign t k)"
| "run_frame (Create_Rest t e) k = create_rest t e k"
| "run_frame (Sema_Down s) k = sema_down s k"
| "run_frame (Sema_Loop s b) k = sema_loop s b k"
| "run_frame (Sema_Up s) k = sema_up s k"
| "run_frame (Lock_Acquire l) k = lock_acquire l k"
| "run_frame (Set_Holder l) k = set_holder l k"
| "run_frame (Lock_Release l) k = lock_release l k"
| "run_frame (Cond_Broadcast c l) k = cond_broadcast c l k"
| "run_frame (Rw_Enter rw b) k = rw_enter rw b k"
| "run_frame (Rw_Woken rw b) k = Some (rw_woken rw b k)"
| "run_frame (Rw_Leave rw b) k = rw_leave rw b k"
| "run_frame (Timer_Loop start n) k = timer_loop start n k"

definition resume :: "kernel \<Rightarrow> kernel option" where
  "resume k = (case threads k (running_thread k) of
       None \<Rightarrow> None
     | Some th \<Rightarrow> (case frames th of
         [] \<Rightarrow> None
       | f # fs \<Rightarrow> run_frame f (upd_thread (running_thread k) (\<lambda>th. th\<lparr>frames := fs\<rparr>) k)))"

text \<open>\<open>thread_init\<close> with the page the boot loader runs on, and \<open>thread_start\<close>.\<close>

definition thread_init :: "addr \<Rightarrow> kernel option" where
  "thread_init page = do {
     let k = \<lparr>threads = (\<lambda>_. None), fifo_ready_list = [], all_list = [], idle_thread = 0, initial_thread = page,
              running_thread = page, intr_on = False, in_external_intr = False, yield_on_return = False,
              thread_ticks = 0, idle_ticks = 0, kernel_ticks = 0, user_ticks = 0, next_tid = 1,
              active_sched_policy = SCHED_FIFO, ticks = 0, loops_per_tick = 0, semas = (\<lambda>_. \<lparr>svalue = 0, waiters = []\<rparr>), holder = (\<lambda>_. 0),
              cond_waiters = (\<lambda>_. []), rw_locks = (\<lambda>_. \<lparr>AR = 0, WR = 0, AW = 0, WW = 0\<rparr>)\<rparr>;
     let k = lock_init Tid_Lock k;
     k \<leftarrow> init_thread page (map of_char ''main'') PRI_DEFAULT k;
     let k = set_status page THREAD_RUNNING k;
     Some (push_frames [Lock_Acquire Tid_Lock, Tid_Assign page] k)
   }"

definition thread_start :: "addr \<Rightarrow> kernel \<Rightarrow> kernel option" where
  "thread_start idle_page k =
     thread_create idle_page (map of_char ''idle'') PRI_MIN (Entry_Idle (Sema 1))
       (push_frames [Set_Level True, Sema_Down (Sema 1)] (sema_init (Sema 1) 0 k))"

end
