(* ===== verification/Synch_Proofs.thy ===== *)
theory Synch_Proofs
  imports Synch
begin

text \<open>
  The kernel as a state machine: the running thread goes on at a return point, calls an operation of
  thread.c or synch.c, or is interrupted by the timer. The invariant of the reachable states: only a
  ready thread is on the ready list, only a blocked thread waits on a semaphore, and on one only; and
  a lock has at most one owner.
\<close>

subsection \<open>Steps\<close>

datatype kop =
    Op_Start addr | Op_Create addr "u8 list" int addr addr | Op_Yield | Op_Exit | Op_Set_Priority int
  | Op_Sema_Init addr u32 | Op_Sema_Down addr | Op_Sema_Try_Down addr | Op_Sema_Up addr
  | Op_Lock_Init addr | Op_Lock_Acquire addr | Op_Lock_Try_Acquire addr | Op_Lock_Release addr
  | Op_Cond_Init addr | Op_Cond_Wait addr addr | Op_Cond_Signal addr addr | Op_Cond_Broadcast addr addr
  | Op_Msleep u64 | Op_Usleep u64 | Op_Nsleep u64 | Op_Sleep u64
  | Op_Rw_Init addr | Op_Rw_Acquire addr bool | Op_Rw_Release addr bool

fun exec_op :: "kop \<Rightarrow> kernel \<Rightarrow> kernel option" where
  "exec_op (Op_Start p) k = thread_start p k"
| "exec_op (Op_Create p name prio f aux) k = thread_create p name prio (Entry_Fn f aux) k"
| "exec_op Op_Yield k = thread_yield k"
| "exec_op Op_Exit k = thread_exit k"
| "exec_op (Op_Set_Priority p) k = thread_set_priority p k"
| "exec_op (Op_Sema_Init a v) k = Some (sema_init (Sema a) v k)"
| "exec_op (Op_Sema_Down a) k = sema_down (Sema a) k"
| "exec_op (Op_Sema_Try_Down a) k = map_option snd (sema_try_down (Sema a) k)"
| "exec_op (Op_Sema_Up a) k = sema_up (Sema a) k"
| "exec_op (Op_Lock_Init a) k = Some (lock_init (Lock a) k)"
| "exec_op (Op_Lock_Acquire a) k = lock_acquire (Lock a) k"
| "exec_op (Op_Lock_Try_Acquire a) k = map_option snd (lock_try_acquire (Lock a) k)"
| "exec_op (Op_Lock_Release a) k = lock_release (Lock a) k"
| "exec_op (Op_Cond_Init a) k = Some (cond_init (Cond a) k)"
| "exec_op (Op_Cond_Wait a l) k = cond_wait (Cond a) (Lock l) k"
| "exec_op (Op_Cond_Signal a l) k = cond_signal (Cond a) (Lock l) k"
| "exec_op (Op_Cond_Broadcast a l) k = cond_broadcast (Cond a) (Lock l) k"
| "exec_op (Op_Sleep n) k = timer_sleep n k"
| "exec_op (Op_Msleep n) k = timer_msleep n k"
| "exec_op (Op_Usleep n) k = timer_usleep n k"
| "exec_op (Op_Nsleep n) k = timer_nsleep n k"
| "exec_op (Op_Rw_Init a) k = Some (rw_lock_init a k)"
| "exec_op (Op_Rw_Acquire a r) k = Some (rw_lock_acquire a r k)"
| "exec_op (Op_Rw_Release a r) k = Some (rw_lock_release a r k)"

definition st :: "kernel \<Rightarrow> addr \<Rightarrow> thread_status option" where
  "st k t = map_option status (threads k t)"

definition fr :: "kernel \<Rightarrow> addr \<Rightarrow> frame list" where
  "fr k t = (case threads k t of None \<Rightarrow> [] | Some th \<Rightarrow> frames th)"

text \<open>
  What a thread owns of a lock on its way in and out: it has taken the lock's semaphore and not yet
  entered itself as the holder, or it has removed itself and not yet returned the semaphore. Below a
  pending \<open>sema_down\<close> the entry as a holder is still to be earned.
\<close>

fun frame_token :: "lockref \<Rightarrow> frame \<Rightarrow> nat" where
  "frame_token l (Set_Holder l') = (if l' = l then 1 else 0)"
| "frame_token l (Sema_Up s) = (if s = Lock_Sema l then 1 else 0)"
| "frame_token l _ = 0"

fun downs :: "frame \<Rightarrow> semref option" where
  "downs (Sema_Down s) = Some s"
| "downs (Sema_Loop s b) = Some s"
| "downs _ = None"

fun tokens :: "lockref \<Rightarrow> frame list \<Rightarrow> nat" where
  "tokens l [] = 0"
| "tokens l (f # fs) =
     (case downs f of Some (Lock_Sema l') \<Rightarrow> tokens l (tl fs) | _ \<Rightarrow> frame_token l f + tokens l fs)"

text \<open>No thread is entering, holding or leaving a lock, and none waits for it.\<close>

definition lock_unused :: "kernel \<Rightarrow> lockref \<Rightarrow> bool" where
  "lock_unused k l \<longleftrightarrow> waiters (semas k (Lock_Sema l)) = [] \<and> holder k l = 0 \<and> (\<forall>t. tokens l (fr k t) = 0)"

text \<open>
  What the callers guarantee: a page from the page allocator is not in use, and objects are
  initialised when nobody uses them.
\<close>

fun op_ok :: "kernel \<Rightarrow> kop \<Rightarrow> bool" where
  "op_ok k (Op_Start p) = (threads k p = None \<and> waiters (semas k (Sema 1)) = [])"
| "op_ok k (Op_Create p _ _ _ _) = (threads k p = None)"
| "op_ok k (Op_Sema_Init a v) = (waiters (semas k (Sema a)) = [])"
| "op_ok k (Op_Lock_Init a) = lock_unused k (Lock a)"
| "op_ok k (Op_Rw_Init a) = lock_unused k (Rw_Guard a)"
| "op_ok k _ = True"

inductive kstep :: "kernel \<Rightarrow> kernel \<Rightarrow> bool" where
  Resume: "resume k = Some k' \<Longrightarrow> kstep k k'"
| Op: "fr k (running_thread k) = [] \<Longrightarrow> running_thread k \<noteq> idle_thread k \<Longrightarrow> op_ok k op \<Longrightarrow>
    exec_op op k = Some k' \<Longrightarrow> kstep k k'"
| Timer: "intr_on k \<Longrightarrow> timer_irq k = Some k' \<Longrightarrow> kstep k k'"

inductive kreach :: "kernel \<Rightarrow> bool" where
  Init: "p \<noteq> 0 \<Longrightarrow> thread_init p = Some k \<Longrightarrow> kreach k"
| Step: "kreach k \<Longrightarrow> kstep k k' \<Longrightarrow> kreach k'"

subsection \<open>The invariant\<close>

text \<open>Return points of an idle thread, and what else can be on its stack.\<close>

fun is_idle :: "frame \<Rightarrow> bool" where
  "is_idle (Kernel_Thread (Entry_Idle s)) = True"
| "is_idle (Idle_Start s) = True"
| "is_idle Idle_Loop = True"
| "is_idle Idle_Hlt = True"
| "is_idle _ = False"

fun idle_ok :: "frame \<Rightarrow> bool" where
  "idle_ok (Kernel_Thread (Entry_Idle s)) = (\<exists>a. s = Sema a)"
| "idle_ok (Idle_Start s) = (\<exists>a. s = Sema a)"
| "idle_ok Idle_Loop = True"
| "idle_ok Idle_Hlt = True"
| "idle_ok (Set_Level b) = True"
| "idle_ok (Sema_Up s) = (\<exists>a. s = Sema a)"
| "idle_ok _ = False"

fun creates :: "frame \<Rightarrow> addr option" where
  "creates (Create_Rest t e) = Some t"
| "creates _ = None"

text \<open>A \<open>sema_down\<close> on the semaphore of a lock is part of \<open>lock_acquire\<close>; one on the semaphore of a
  waiter is by that waiter.\<close>

fun frames_wf :: "addr \<Rightarrow> frame list \<Rightarrow> bool" where
  "frames_wf t [] = True"
| "frames_wf t (f # fs) =
     ((case downs f of
         Some (Lock_Sema l) \<Rightarrow> fs \<noteq> [] \<and> hd fs = Set_Holder l
       | Some (Waiter_Sema w) \<Rightarrow> w = t
       | _ \<Rightarrow> True) \<and>
      (case f of Create_Rest p (Entry_Idle s) \<Rightarrow> (\<exists>a. s = Sema a) | _ \<Rightarrow> True) \<and> frames_wf t fs)"

definition ready_inv :: "kernel \<Rightarrow> bool" where
  "ready_inv k \<longleftrightarrow> distinct (fifo_ready_list k) \<and> (\<forall>t \<in> set (fifo_ready_list k). st k t = Some THREAD_READY)"

definition wait_inv :: "kernel \<Rightarrow> bool" where
  "wait_inv k \<longleftrightarrow> (\<forall>s. distinct (waiters (semas k s)) \<and>
     (\<forall>t \<in> set (waiters (semas k s)). st k t = Some THREAD_BLOCKED \<and> (\<exists>b fs. fr k t = Sema_Loop s b # fs)))"

definition thread_inv :: "kernel \<Rightarrow> bool" where
  "thread_inv k \<longleftrightarrow> (\<forall>t. st k t \<noteq> None \<longrightarrow> is_thread k t \<and> (st k t = Some THREAD_DYING \<longrightarrow> fr k t = []) \<and> frames_wf t (fr k t)) \<and>
     (idle_thread k = 0 \<or> st k (idle_thread k) \<noteq> None \<and> st k (idle_thread k) \<noteq> Some THREAD_DYING) \<and>
     (\<forall>t. t = idle_thread k \<or> (\<exists>f \<in> set (fr k t). is_idle f) \<longrightarrow> (\<forall>f \<in> set (fr k t). idle_ok f)) \<and>
     \<not> in_external_intr k \<and> active_sched_policy k = SCHED_FIFO"

definition all_inv :: "kernel \<Rightarrow> bool" where
  "all_inv k \<longleftrightarrow> distinct (all_list k) \<and> (\<forall>t. t \<in> set (all_list k) \<longleftrightarrow> st k t \<noteq> None \<and> st k t \<noteq> Some THREAD_DYING)"

definition create_inv :: "kernel \<Rightarrow> bool" where
  "create_inv k \<longleftrightarrow>
     (\<forall>c t. Some t \<in> creates ` set (fr k c) \<longrightarrow> st k t = Some THREAD_BLOCKED \<and> fr k t = [] \<and> t \<noteq> idle_thread k) \<and>
     (\<forall>c c' t. Some t \<in> creates ` set (fr k c) \<longrightarrow> Some t \<in> creates ` set (fr k c') \<longrightarrow> c = c') \<and>
     (\<forall>c. length (filter (\<lambda>f. creates f \<noteq> None) (fr k c)) \<le> 1)"

definition lock_inv :: "kernel \<Rightarrow> bool" where
  "lock_inv k \<longleftrightarrow> (\<forall>l.
     unat (svalue (semas k (Lock_Sema l))) \<le> 1 \<and>
     (svalue (semas k (Lock_Sema l)) \<noteq> 0 \<longrightarrow> holder k l = 0 \<and> (\<forall>t. tokens l (fr k t) = 0)) \<and>
     (holder k l \<noteq> 0 \<longrightarrow> (\<forall>t. tokens l (fr k t) = 0)) \<and>
     (\<forall>t. tokens l (fr k t) \<le> 1) \<and>
     (\<forall>t t'. t \<noteq> t' \<longrightarrow> tokens l (fr k t) = 0 \<or> tokens l (fr k t') = 0))"

definition run_inv :: "kernel \<Rightarrow> bool" where
  "run_inv k \<longleftrightarrow> (\<forall>t. st k t = Some THREAD_RUNNING \<longleftrightarrow> t = running_thread k)"

definition cond_inv :: "kernel \<Rightarrow> bool" where
  "cond_inv k \<longleftrightarrow> (\<forall>c. \<forall>w \<in> set (cond_waiters k c). \<exists>t. w = Waiter_Sema t)"

definition core_inv :: "kernel \<Rightarrow> bool" where
  "core_inv k \<longleftrightarrow> ready_inv k \<and> wait_inv k \<and> thread_inv k \<and> all_inv k \<and> create_inv k \<and> lock_inv k \<and> cond_inv k"

definition kinv :: "kernel \<Rightarrow> bool" where
  "kinv k \<longleftrightarrow> run_inv k \<and> core_inv k"


subsection \<open>Views of the state\<close>

named_theorems kview \<open>status, return points and validity of threads after an update\<close>

definition set_frames :: "frame list \<Rightarrow> kernel \<Rightarrow> kernel" where
  "set_frames fs k = upd_thread (running_thread k) (\<lambda>th. th\<lparr>frames := fs\<rparr>) k"

lemma view_cong: "threads k' = threads k \<Longrightarrow> st k' = st k \<and> fr k' = fr k \<and> is_thread k' = is_thread k"
  by (auto simp: st_def fr_def is_thread_def fun_eq_iff)

lemma create_invI:
  assumes "\<forall>c t. Some t \<in> creates ` set (fr k c) \<longrightarrow> st k t = Some THREAD_BLOCKED \<and> fr k t = [] \<and> t \<noteq> idle_thread k"
    "\<forall>c c' t. Some t \<in> creates ` set (fr k c) \<longrightarrow> Some t \<in> creates ` set (fr k c') \<longrightarrow> c = c'"
    "\<And>c. length (filter (\<lambda>f. creates f \<noteq> None) (fr k c)) \<le> 1"
  shows "create_inv k"
  unfolding create_inv_def by (intro conjI) (rule assms(1), rule assms(2), simp only: assms(3) simp_thms)

lemma view_fields [kview]:
  "st (k\<lparr>intr_on := b\<rparr>) = st k" "fr (k\<lparr>intr_on := b\<rparr>) = fr k" "is_thread (k\<lparr>intr_on := b\<rparr>) = is_thread k"
  "st (k\<lparr>idle_thread := t\<rparr>) = st k" "fr (k\<lparr>idle_thread := t\<rparr>) = fr k" "is_thread (k\<lparr>idle_thread := t\<rparr>) = is_thread k"
  "st (k\<lparr>holder := h\<rparr>) = st k" "fr (k\<lparr>holder := h\<rparr>) = fr k" "is_thread (k\<lparr>holder := h\<rparr>) = is_thread k"
  "st (k\<lparr>semas := sm\<rparr>) = st k" "fr (k\<lparr>semas := sm\<rparr>) = fr k" "is_thread (k\<lparr>semas := sm\<rparr>) = is_thread k"
  "st (k\<lparr>cond_waiters := cw\<rparr>) = st k" "fr (k\<lparr>cond_waiters := cw\<rparr>) = fr k" "is_thread (k\<lparr>cond_waiters := cw\<rparr>) = is_thread k"
  "st (k\<lparr>rw_locks := rw\<rparr>) = st k" "fr (k\<lparr>rw_locks := rw\<rparr>) = fr k" "is_thread (k\<lparr>rw_locks := rw\<rparr>) = is_thread k"
  "st (k\<lparr>next_tid := n\<rparr>) = st k" "fr (k\<lparr>next_tid := n\<rparr>) = fr k" "is_thread (k\<lparr>next_tid := n\<rparr>) = is_thread k"
  "st (k\<lparr>fifo_ready_list := r\<rparr>) = st k" "fr (k\<lparr>fifo_ready_list := r\<rparr>) = fr k" "is_thread (k\<lparr>fifo_ready_list := r\<rparr>) = is_thread k"
  "st (k\<lparr>all_list := r\<rparr>) = st k" "fr (k\<lparr>all_list := r\<rparr>) = fr k" "is_thread (k\<lparr>all_list := r\<rparr>) = is_thread k"
  by (simp_all add: st_def fr_def is_thread_def fun_eq_iff)

lemma view_upd:
  assumes "\<And>th. status (f th) = status th" "\<And>th. frames (f th) = frames th" "\<And>th. magic (f th) = magic th"
  shows "st (upd_thread t f k) = st k" "fr (upd_thread t f k) = fr k" "is_thread (upd_thread t f k) = is_thread k"
  using assms by (auto simp: st_def fr_def is_thread_def upd_thread_def fun_eq_iff option.map_comp comp_def split: option.splits)

lemma view_upd_fields [kview]:
  "st (upd_thread t (\<lambda>th. th\<lparr>tid := n\<rparr>) k) = st k" "fr (upd_thread t (\<lambda>th. th\<lparr>tid := n\<rparr>) k) = fr k"
  "is_thread (upd_thread t (\<lambda>th. th\<lparr>tid := n\<rparr>) k) = is_thread k"
  "st (upd_thread t (\<lambda>th. th\<lparr>priority := n\<rparr>) k) = st k" "fr (upd_thread t (\<lambda>th. th\<lparr>priority := n\<rparr>) k) = fr k"
  "is_thread (upd_thread t (\<lambda>th. th\<lparr>priority := n\<rparr>) k) = is_thread k"
  "st (upd_thread t (\<lambda>th. th\<lparr>stack := stack th - a\<rparr>) k) = st k" "fr (upd_thread t (\<lambda>th. th\<lparr>stack := stack th - a\<rparr>) k) = fr k"
  "is_thread (upd_thread t (\<lambda>th. th\<lparr>stack := stack th - a\<rparr>) k) = is_thread k"
  by (simp_all add: view_upd)

lemma view_set_frames [kview]:
  "st (set_frames fs k) = st k" "is_thread (set_frames fs k) = is_thread k"
  "st k (running_thread k) \<noteq> None \<Longrightarrow> fr (set_frames fs k) = (fr k)(running_thread k := fs)"
  by (auto simp: st_def fr_def is_thread_def set_frames_def upd_thread_def fun_eq_iff option.map_comp comp_def split: option.splits)

lemma view_set_status [kview]:
  "st k t \<noteq> None \<Longrightarrow> st (set_status t s k) = (st k)(t := Some s)" "fr (set_status t s k) = fr k" "is_thread (set_status t s k) = is_thread k"
  by (auto simp: st_def fr_def is_thread_def set_status_def upd_thread_def fun_eq_iff option.map_comp comp_def split: option.splits)

lemma push_frames_set: "push_frames gs k = set_frames (gs @ fr k (running_thread k)) k"
  by (auto simp: push_frames_def set_frames_def upd_thread_def fr_def intro!: arg_cong [where f = "\<lambda>m. k\<lparr>threads := m\<rparr>"]
      split: option.splits)

lemma upd_thread_fields [simp]:
  "running_thread (upd_thread t f k) = running_thread k" "fifo_ready_list (upd_thread t f k) = fifo_ready_list k"
  "all_list (upd_thread t f k) = all_list k" "idle_thread (upd_thread t f k) = idle_thread k"
  "in_external_intr (upd_thread t f k) = in_external_intr k" "intr_on (upd_thread t f k) = intr_on k"
  "active_sched_policy (upd_thread t f k) = active_sched_policy k" "initial_thread (upd_thread t f k) = initial_thread k"
  "yield_on_return (upd_thread t f k) = yield_on_return k" "thread_ticks (upd_thread t f k) = thread_ticks k"
  by (simp_all add: upd_thread_def)

lemma upd_thread_kernel [simp]:
  "semas (upd_thread t f k) = semas k" "holder (upd_thread t f k) = holder k"
  "cond_waiters (upd_thread t f k) = cond_waiters k" "rw_locks (upd_thread t f k) = rw_locks k"
  by (simp_all add: upd_thread_def)

lemma set_frames_fields [simp]:
  "running_thread (set_frames fs k) = running_thread k" "fifo_ready_list (set_frames fs k) = fifo_ready_list k"
  "all_list (set_frames fs k) = all_list k" "idle_thread (set_frames fs k) = idle_thread k"
  "in_external_intr (set_frames fs k) = in_external_intr k" "intr_on (set_frames fs k) = intr_on k"
  "active_sched_policy (set_frames fs k) = active_sched_policy k" "initial_thread (set_frames fs k) = initial_thread k"
  "semas (set_frames fs k) = semas k" "holder (set_frames fs k) = holder k"
  "cond_waiters (set_frames fs k) = cond_waiters k" "rw_locks (set_frames fs k) = rw_locks k"
  by (simp_all add: set_frames_def)

lemma set_status_fields [simp]:
  "running_thread (set_status t s k) = running_thread k" "fifo_ready_list (set_status t s k) = fifo_ready_list k"
  "all_list (set_status t s k) = all_list k" "idle_thread (set_status t s k) = idle_thread k"
  "in_external_intr (set_status t s k) = in_external_intr k" "intr_on (set_status t s k) = intr_on k"
  "active_sched_policy (set_status t s k) = active_sched_policy k" "initial_thread (set_status t s k) = initial_thread k"
  by (simp_all add: set_status_def)

lemma set_status_kernel [simp]:
  "semas (set_status t s k) = semas k" "holder (set_status t s k) = holder k"
  "cond_waiters (set_status t s k) = cond_waiters k" "rw_locks (set_status t s k) = rw_locks k"
  by (simp_all add: set_status_def)

lemma has_status_st: "has_status k t s \<longleftrightarrow> st k t = Some s"
  by (auto simp: has_status_def st_def split: option.splits)

subsection \<open>Steps that only concern the running thread\<close>

definition local_to :: "kernel \<Rightarrow> frame list \<Rightarrow> kernel \<Rightarrow> bool" where
  "local_to k fs k' \<longleftrightarrow> st k' = st k \<and> fr k' = (fr k)(running_thread k := fs) \<and> is_thread k' = is_thread k \<and>
     fifo_ready_list k' = fifo_ready_list k \<and> all_list k' = all_list k \<and> running_thread k' = running_thread k \<and>
     (\<forall>s. waiters (semas k' s) = waiters (semas k s)) \<and> in_external_intr k' = in_external_intr k \<and>
     active_sched_policy k' = active_sched_policy k"

lemma kinvD:
  assumes "kinv k"
  shows "st k (running_thread k) = Some THREAD_RUNNING" "ready_inv k" "wait_inv k" "thread_inv k" "all_inv k" "create_inv k" "lock_inv k"
    "run_inv k" "is_thread k (running_thread k)" "running_thread k \<noteq> 0" "\<not> in_external_intr k" "cond_inv k"
  using assms unfolding kinv_def core_inv_def run_inv_def thread_inv_def is_thread_def by auto

text \<open>A thread that can be made the target of a \<open>thread_create\<close> in progress.\<close>

definition fresh_thread :: "kernel \<Rightarrow> addr \<Rightarrow> bool" where
  "fresh_thread k t \<longleftrightarrow> st k t = Some THREAD_BLOCKED \<and> fr k t = [] \<and> t \<noteq> idle_thread k \<and>
     (\<forall>c. Some t \<notin> creates ` set (fr k c))"

lemma local_create_inv:
  assumes inv: "kinv k" and l: "local_to k fs k'" and wf: "frames_wf (running_thread k) fs"
    and idle: "idle_thread k' = idle_thread k \<or> idle_thread k' = running_thread k"
      "running_thread k = idle_thread k' \<or> (\<exists>f \<in> set fs. is_idle f) \<Longrightarrow> \<forall>f \<in> set fs. idle_ok f"
    and cr: "\<And>t. Some t \<in> creates ` set fs \<Longrightarrow> Some t \<in> creates ` set (fr k (running_thread k)) \<or> fresh_thread k t"
      "length (filter (\<lambda>f. creates f \<noteq> None) fs) \<le> 1" and lk: "lock_inv k'" "cond_inv k'"
  shows "kinv k'"
proof -
  let ?r = "running_thread k"
  note d = kinvD [OF inv]
  note L = l [unfolded local_to_def]
  have "ready_inv k'" using d(2) L by (simp add: ready_inv_def)
  moreover have "wait_inv k'"
    unfolding wait_inv_def
  proof (intro allI conjI ballI)
    fix s t assume "t \<in> set (waiters (semas k' s))"
    then have "st k t = Some THREAD_BLOCKED \<and> (\<exists>b fs. fr k t = Sema_Loop s b # fs)"
      using d(3) L by (simp add: wait_inv_def)
    moreover from this have "t \<noteq> ?r" using d(1) by auto
    ultimately show "st k' t = Some THREAD_BLOCKED" "\<exists>b fs. fr k' t = Sema_Loop s b # fs" using L by auto
  qed (use d(3) L in \<open>simp add: wait_inv_def\<close>)
  moreover have "thread_inv k'"
    using d(1,4) L wf idle unfolding thread_inv_def by auto
  moreover have "all_inv k'" using d(5) L by (simp add: all_inv_def)
  moreover have "create_inv k'"
  proof -
    note c0 = d(6) [unfolded create_inv_def]
    have sub: "Some t \<in> creates ` set (fr k c) \<or> c = ?r \<and> fresh_thread k t" if "Some t \<in> creates ` set (fr k' c)" for c t
      using L cr(1) [of t] that by (cases "c = ?r") simp_all
    have ok: "st k t = Some THREAD_BLOCKED \<and> fr k t = [] \<and> t \<noteq> idle_thread k \<and> t \<noteq> ?r" if "Some t \<in> creates ` set (fr k' c)" for c t
      using sub [OF that] c0 [THEN conjunct1] d(1) unfolding fresh_thread_def by (metis option.inject thread_status.distinct(3))
    have A: "\<forall>c t. Some t \<in> creates ` set (fr k' c) \<longrightarrow> st k' t = Some THREAD_BLOCKED \<and> fr k' t = [] \<and> t \<noteq> idle_thread k'"
      using ok L idle(1) by (metis fun_upd_other)
    have B: "\<forall>c c' t. Some t \<in> creates ` set (fr k' c) \<longrightarrow> Some t \<in> creates ` set (fr k' c') \<longrightarrow> c = c'"
      using sub c0 [THEN conjunct2, THEN conjunct1] unfolding fresh_thread_def by metis
    have C: "length (filter (\<lambda>f. creates f \<noteq> None) (fr k' c)) \<le> 1" for c
      using c0 [THEN conjunct2, THEN conjunct2] L cr(2) by simp
    show ?thesis by (rule create_invI [OF A B C])
  qed
  moreover have "run_inv k'" using d(8) L by (simp add: run_inv_def)
  ultimately show ?thesis using lk by (simp add: kinv_def core_inv_def)
qed

lemma local_inv:
  assumes "kinv k" "local_to k fs k'" "frames_wf (running_thread k) fs"
    "idle_thread k' = idle_thread k \<or> idle_thread k' = running_thread k"
    "running_thread k = idle_thread k' \<or> (\<exists>f \<in> set fs. is_idle f) \<Longrightarrow> \<forall>f \<in> set fs. idle_ok f"
    "set fs \<inter> {f. creates f \<noteq> None} \<subseteq> set (fr k (running_thread k))"
    "length (filter (\<lambda>f. creates f \<noteq> None) fs) \<le> 1" "lock_inv k'" "cond_inv k'"
  shows "kinv k'"
proof (rule local_create_inv [OF assms(1-5) _ assms(7-9)])
  fix t assume "Some t \<in> creates ` set fs"
  then show "Some t \<in> creates ` set (fr k (running_thread k)) \<or> fresh_thread k t" using assms(6) by force
qed

text \<open>When locks are not concerned, nor the tokens on the stack.\<close>

lemma lock_inv_local:
  assumes "lock_inv k" "fr k' = (fr k)(r := fs)" "\<And>l. tokens l fs = tokens l (fr k r)" "holder k' = holder k"
    "\<And>l. svalue (semas k' (Lock_Sema l)) = svalue (semas k (Lock_Sema l))"
  shows "lock_inv k'"
proof -
  have "tokens l (fr k' t) = tokens l (fr k t)" for l t using assms(2,3) by simp
  then have "lock_inv k' = lock_inv k" by (simp only: lock_inv_def assms(4,5))
  then show ?thesis using assms(1) by simp
qed

lemma cur_frames:
  assumes "kinv k"
  shows "frames_wf (running_thread k) (fr k (running_thread k))"
    "running_thread k = idle_thread k \<or> (\<exists>g \<in> set (fr k (running_thread k)). is_idle g) \<Longrightarrow>
     \<forall>g \<in> set (fr k (running_thread k)). idle_ok g"
proof -
  note T = kinvD(4) [OF assms, unfolded thread_inv_def]
  show "frames_wf (running_thread k) (fr k (running_thread k))"
    using T [THEN conjunct1] kinvD(1) [OF assms] by simp
  show "running_thread k = idle_thread k \<or> (\<exists>g \<in> set (fr k (running_thread k)). is_idle g) \<Longrightarrow>
     \<forall>g \<in> set (fr k (running_thread k)). idle_ok g"
    using T [THEN conjunct2, THEN conjunct2, THEN conjunct1] by blast
qed

text \<open>The first return point and the rest of the stack of the running thread.\<close>

lemma resume_frames:
  assumes "kinv k" "resume k = Some k'"
  obtains f fs where "fr k (running_thread k) = f # fs" "run_frame f (set_frames fs k) = Some k'"
    "frames_wf (running_thread k) (f # fs)"
    "running_thread k = idle_thread k \<or> (\<exists>g \<in> set (f # fs). is_idle g) \<Longrightarrow> \<forall>g \<in> set (f # fs). idle_ok g"
proof -
  note d = kinvD [OF assms(1)]
  from assms(2) obtain th f fs where t: "threads k (running_thread k) = Some th" "frames th = f # fs"
      "run_frame f (upd_thread (running_thread k) (\<lambda>th. th\<lparr>frames := fs\<rparr>) k) = Some k'"
    unfolding resume_def by (auto split: option.splits list.splits)
  have f: "fr k (running_thread k) = f # fs" using t by (simp add: fr_def)
  show ?thesis
    by (rule that [OF f]) (use t(3) cur_frames [OF assms(1)] f in \<open>simp_all add: set_frames_def\<close>)
qed

lemma create_len:
  assumes "kinv k" "fr k (running_thread k) = gs @ fs" "\<forall>g \<in> set hs. creates g = None"
  shows "length (filter (\<lambda>f. creates f \<noteq> None) (hs @ fs)) \<le> 1"
proof -
  have "filter (\<lambda>f. creates f \<noteq> None) hs = []" using assms(3) by (simp add: filter_empty_conv)
  moreover have "length (filter (\<lambda>f. creates f \<noteq> None) (gs @ fs)) \<le> 1"
    using kinvD(6) [OF assms(1)] assms(2) unfolding create_inv_def by metis
  ultimately show ?thesis by simp
qed

text \<open>
  The running thread replaces its first return point by others, and nothing else changes that the
  invariant speaks of.
\<close>

lemma replace_frame_inv:
  assumes inv: "kinv k" and f: "fr k (running_thread k) = gs @ fs"
    and l: "local_to k (hs @ fs) k'" and id: "idle_thread k' = idle_thread k"
    and wf: "frames_wf (running_thread k) (hs @ fs)"
    and ok: "\<forall>g \<in> set hs. creates g = None"
    and idle: "\<And>g. g \<in> set hs \<Longrightarrow> is_idle g \<or> running_thread k = idle_thread k \<or> (\<exists>x \<in> set fs. is_idle x) \<Longrightarrow>
      (\<forall>x \<in> set fs. idle_ok x) \<and> idle_ok g \<and> (\<forall>x \<in> set hs. idle_ok x)"
    and lk: "lock_inv k'" "cond_inv k'"
  shows "kinv k'"
proof (rule local_inv [OF inv l wf])
  have T: "running_thread k = idle_thread k \<or> (\<exists>g \<in> set (gs @ fs). is_idle g) \<Longrightarrow> \<forall>g \<in> set (gs @ fs). idle_ok g"
    using cur_frames(2) [OF inv] f by simp
  show "\<forall>f \<in> set (hs @ fs). idle_ok f" if "running_thread k = idle_thread k' \<or> (\<exists>f \<in> set (hs @ fs). is_idle f)"
    using that T idle id by (cases hs) auto
  show "set (hs @ fs) \<inter> {f. creates f \<noteq> None} \<subseteq> set (fr k (running_thread k))" using f ok by auto
  show "length (filter (\<lambda>f. creates f \<noteq> None) (hs @ fs)) \<le> 1" by (rule create_len [OF inv f ok])
qed (use id lk in auto)


subsection \<open>Switching threads\<close>

definition next_of :: "kernel \<Rightarrow> addr" where
  "next_of k = (case fifo_ready_list k of [] \<Rightarrow> idle_thread k | t # ts \<Rightarrow> t)"

definition freed :: "kernel \<Rightarrow> addr \<Rightarrow> bool" where
  "freed k t \<longleftrightarrow> t = running_thread k \<and> t \<noteq> next_of k \<and> st k t = Some THREAD_DYING \<and> t \<noteq> initial_thread k"

lemma schedule_eff:
  assumes s: "schedule k = Some k'" and fifo: "active_sched_policy k = SCHED_FIFO" and nz: "running_thread k \<noteq> 0"
  shows "is_thread k (next_of k)" "running_thread k' = next_of k" "fifo_ready_list k' = tl (fifo_ready_list k)"
    "st k' t = (if t = next_of k then Some THREAD_RUNNING else if freed k t then None else st k t)"
    "fr k' t = (if freed k t then [] else fr k t)" "is_thread k' t = (is_thread k t \<and> \<not> freed k t)"
    "all_list k' = all_list k \<and> idle_thread k' = idle_thread k \<and> semas k' = semas k \<and> holder k' = holder k \<and>
     cond_waiters k' = cond_waiters k \<and> rw_locks k' = rw_locks k \<and>
     in_external_intr k' = in_external_intr k \<and> active_sched_policy k' = active_sched_policy k \<and> \<not> intr_on k'"
proof -
  let ?k = "k\<lparr>fifo_ready_list := tl (fifo_ready_list k)\<rparr>"
  let ?n = "next_of k" and ?c = "running_thread k"
  have nx: "next_thread_to_run k = Some (?n, ?k)"
    using fifo by (cases "fifo_ready_list k") (simp_all add: next_thread_to_run_def next_of_def)
  have th: "is_thread k ?n" and sw: "thread_switch_tail (if ?c \<noteq> ?n then ?c else 0) (?k\<lparr>running_thread := ?n\<rparr>) = Some k'"
    using s by (auto simp: schedule_def nx Let_def ASSERT_bind is_thread_def split: if_splits)
  then obtain th where thn: "threads k ?n = Some th" by (auto simp: is_thread_def split: option.splits)
  let ?t = "(threads k)(?n \<mapsto> th\<lparr>status := THREAD_RUNNING\<rparr>)"
  have fd: "freed k ?c \<longleftrightarrow> ?c \<noteq> ?n \<and> has_status k ?c THREAD_DYING \<and> ?c \<noteq> initial_thread k"
    by (auto simp: freed_def has_status_st)
  have k': "k' = k\<lparr>fifo_ready_list := tl (fifo_ready_list k), running_thread := ?n, thread_ticks := 0,
      threads := if freed k ?c then ?t(?c := None) else ?t\<rparr> \<and> \<not> intr_on k"
    using sw thn nz unfolding fd
    by (auto simp: thread_switch_tail_def Let_def ASSERT_bind set_status_def upd_thread_def has_status_def split: if_splits)
  show "is_thread k (next_of k)" by fact
  show "running_thread k' = next_of k" "fifo_ready_list k' = tl (fifo_ready_list k)" using k' by simp_all
  have T: "threads k' t = (if freed k t then None else if t = ?n then Some (th\<lparr>status := THREAD_RUNNING\<rparr>) else threads k t)" for t
  proof (cases "freed k ?c")
    case True
    have "freed k t \<longleftrightarrow> t = ?c" using True by (auto simp: freed_def)
    then show ?thesis using k' True by simp
  next
    case False
    have "\<not> freed k t" using False by (auto simp: freed_def)
    then show ?thesis using k' False by simp
  qed
  have nf: "\<not> freed k ?n" by (simp add: freed_def)
  show "st k' t = (if t = next_of k then Some THREAD_RUNNING else if freed k t then None else st k t)"
    using nf by (simp add: st_def T)
  show "fr k' t = (if freed k t then [] else fr k t)" using nf thn by (simp add: fr_def T)
  show "is_thread k' t = (is_thread k t \<and> \<not> freed k t)" using nf thn by (simp add: is_thread_def T)
  show "all_list k' = all_list k \<and> idle_thread k' = idle_thread k \<and> semas k' = semas k \<and> holder k' = holder k \<and>
     cond_waiters k' = cond_waiters k \<and> rw_locks k' = rw_locks k \<and>
     in_external_intr k' = in_external_intr k \<and> active_sched_policy k' = active_sched_policy k \<and> \<not> intr_on k'"
    using k' by simp
qed

lemma st_is_thread: "is_thread k t \<Longrightarrow> st k t \<noteq> None"
  by (auto simp: is_thread_def st_def split: option.splits)

lemma next_of_cases:
  assumes "core_inv k" "is_thread k (next_of k)"
  shows "st k (next_of k) = Some THREAD_READY \<and> next_of k \<in> set (fifo_ready_list k) \<or>
    next_of k = idle_thread k \<and> fifo_ready_list k = [] \<and> st k (next_of k) \<noteq> None \<and> st k (next_of k) \<noteq> Some THREAD_DYING"
  using assms unfolding core_inv_def ready_inv_def thread_inv_def next_of_def is_thread_def
  by (cases "fifo_ready_list k") (auto split: option.splits)

lemma next_not_waiting:
  assumes "core_inv k" "is_thread k (next_of k)"
  shows "next_of k \<notin> set (waiters (semas k s))"
proof
  assume "next_of k \<in> set (waiters (semas k s))"
  then obtain b fs where w: "st k (next_of k) = Some THREAD_BLOCKED" "fr k (next_of k) = Sema_Loop s b # fs"
    using assms(1) unfolding core_inv_def wait_inv_def by meson
  then have "next_of k = idle_thread k" using next_of_cases [OF assms] by auto
  then have "\<forall>f \<in> set (fr k (next_of k)). idle_ok f"
    using assms(1) unfolding core_inv_def thread_inv_def by blast
  then show False using w(2) by simp
qed

lemma schedule_inv:
  assumes inv: "core_inv k" and nr: "\<And>t. st k t \<noteq> Some THREAD_RUNNING" and nz: "running_thread k \<noteq> 0"
    and s: "schedule k = Some k'"
  shows "kinv k'"
proof -
  have fifo: "active_sched_policy k = SCHED_FIFO" using inv by (simp add: core_inv_def thread_inv_def)
  note e = schedule_eff [OF s fifo nz]
  note nc = next_of_cases [OF inv e(1)]
  note I = inv [unfolded core_inv_def]
  have dy: "freed k t \<Longrightarrow> st k t = Some THREAD_DYING \<and> fr k t = []" for t
    using I unfolding thread_inv_def freed_def by (metis option.distinct(1))
  have fr: "fr k' = fr k" using e(5) dy by (auto simp: fun_eq_iff)
  have "ready_inv k'"
    unfolding ready_inv_def
  proof (intro conjI ballI)
    show "distinct (fifo_ready_list k')" using I e(3) by (simp add: ready_inv_def distinct_tl)
    fix t assume "t \<in> set (fifo_ready_list k')"
    then have t: "t \<in> set (tl (fifo_ready_list k))" using e(3) by simp
    then have "st k t = Some THREAD_READY" using I unfolding ready_inv_def by (metis list.set_sel(2) tl_Nil)
    moreover have "t \<noteq> next_of k" using t I by (cases "fifo_ready_list k") (auto simp: next_of_def ready_inv_def)
    ultimately show "st k' t = Some THREAD_READY" using e(4) [of t] dy [of t] by auto
  qed
  moreover have "wait_inv k'"
    unfolding wait_inv_def
  proof (intro allI conjI ballI)
    fix s t assume "t \<in> set (waiters (semas k' s))"
    then have t: "t \<in> set (waiters (semas k s))" using e(7) by simp
    then have w: "st k t = Some THREAD_BLOCKED \<and> (\<exists>b fs. fr k t = Sema_Loop s b # fs)" using I by (simp add: wait_inv_def)
    have "t \<noteq> next_of k" using t next_not_waiting [OF inv e(1)] by blast
    moreover have "\<not> freed k t" using w dy by fastforce
    ultimately show "st k' t = Some THREAD_BLOCKED" "\<exists>b fs. fr k' t = Sema_Loop s b # fs" using w e(4) fr by auto
  qed (use I e(7) in \<open>simp add: wait_inv_def\<close>)
  moreover have "thread_inv k'"
  proof -
    have "st k' (idle_thread k) \<noteq> None \<and> st k' (idle_thread k) \<noteq> Some THREAD_DYING" if "idle_thread k \<noteq> 0"
      using that I e(4) [of "idle_thread k"] dy [of "idle_thread k"] unfolding thread_inv_def by auto
    moreover have "st k t \<noteq> None \<and> \<not> freed k t \<and> (st k' t = Some THREAD_DYING \<longrightarrow> st k t = Some THREAD_DYING)" if "st k' t \<noteq> None" for t
      using that e(4) [of t] nc dy by (auto simp: freed_def split: if_splits)
    ultimately show ?thesis using I e(6,7) fr unfolding thread_inv_def by (simp del: not_None_eq) blast
  qed
  moreover have "all_inv k'"
    using I e(4,7) nc dy unfolding all_inv_def by (auto simp: freed_def split: if_splits)
  moreover have "create_inv k'"
  proof -
    have CI: "create_inv k" using I by blast
    have "st k' t = Some THREAD_BLOCKED \<and> fr k' t = [] \<and> t \<noteq> idle_thread k'" if c: "Some t \<in> creates ` set (fr k' c)" for c t
    proof -
      have t: "st k t = Some THREAD_BLOCKED" "fr k t = []" "t \<noteq> idle_thread k"
        using c CI [unfolded create_inv_def, THEN conjunct1] unfolding fr by metis+
      have "t \<noteq> next_of k" "\<not> freed k t" using t nc dy [of t] by auto
      then show ?thesis using t e(4,7) fr by simp
    qed
    then have A: "\<forall>c t. Some t \<in> creates ` set (fr k' c) \<longrightarrow> st k' t = Some THREAD_BLOCKED \<and> fr k' t = [] \<and> t \<noteq> idle_thread k'"
      by metis
    show ?thesis unfolding create_inv_def
      by (rule conjI [OF A]) (use CI [unfolded create_inv_def, THEN conjunct2] fr in simp)
  qed
  moreover have "lock_inv k'"
  proof -
    have se: "semas k' = semas k" "holder k' = holder k" using e(7) by simp_all
    have "lock_inv k' = lock_inv k" by (simp only: lock_inv_def fr se)
    then show ?thesis using I by simp
  qed
  moreover have "cond_inv k'" using I e(7) by (simp add: cond_inv_def)
  moreover have "run_inv k'" using e(2,4) nr by (auto simp: run_inv_def)
  ultimately show ?thesis by (simp add: kinv_def core_inv_def)
qed


text \<open>
  The running thread stops running: it becomes ready and goes to the end of the ready list (unless it
  is the idle thread), it is blocked, possibly at the end of the queue of the semaphore it waits for,
  or it dies.
\<close>

definition departs :: "kernel \<Rightarrow> thread_status \<Rightarrow> kernel \<Rightarrow> bool" where
  "departs k s k' \<longleftrightarrow> s \<noteq> THREAD_RUNNING \<and> st k' = (st k)(running_thread k := Some s) \<and> fr k' = fr k \<and> is_thread k' = is_thread k \<and>
     idle_thread k' = idle_thread k \<and> holder k' = holder k \<and> running_thread k' = running_thread k \<and>
     cond_waiters k' = cond_waiters k \<and> in_external_intr k' = in_external_intr k \<and> active_sched_policy k' = active_sched_policy k \<and>
     (\<forall>s'. svalue (semas k' s') = svalue (semas k s')) \<and>
     (fifo_ready_list k' = fifo_ready_list k \<or>
        s = THREAD_READY \<and> fifo_ready_list k' = fifo_ready_list k @ [running_thread k]) \<and>
     ((\<forall>s'. waiters (semas k' s') = waiters (semas k s')) \<or>
        s = THREAD_BLOCKED \<and> (\<exists>s0 b fs. fr k (running_thread k) = Sema_Loop s0 b # fs \<and>
          (\<forall>s'. waiters (semas k' s') = (if s' = s0 then waiters (semas k s0) @ [running_thread k] else waiters (semas k s'))))) \<and>
     (if s = THREAD_DYING then all_list k' = remove1 (running_thread k) (all_list k) \<and> fr k (running_thread k) = [] \<and>
        running_thread k \<noteq> idle_thread k else all_list k' = all_list k)"

lemma departs_inv:
  assumes inv: "kinv k" and dep: "departs k s k'"
  shows "core_inv k'" "st k' t \<noteq> Some THREAD_RUNNING" "running_thread k' \<noteq> 0"
proof -
  let ?r = "running_thread k"
  note d = kinvD [OF inv]
  note D = dep [unfolded departs_def]
  have out: "?r \<notin> set (fifo_ready_list k)" "\<And>s. ?r \<notin> set (waiters (semas k s))"
    using d(1-3) unfolding ready_inv_def wait_inv_def by fastforce+
  have st': "t \<noteq> ?r \<Longrightarrow> st k' t = st k t" "st k' ?r = Some s" for t using D by simp_all
  have R: "ready_inv k'"
  proof -
    have "st k' t = Some THREAD_READY" if "t \<in> set (fifo_ready_list k)" for t
      using d(2) out(1) that st' unfolding ready_inv_def by metis
    then show ?thesis using d(2) out(1) D st' unfolding ready_inv_def by auto
  qed
  have wq: "waiters (semas k' x) = waiters (semas k x) \<or> waiters (semas k' x) = waiters (semas k x) @ [?r] \<and>
      s = THREAD_BLOCKED \<and> (\<exists>b fs. fr k ?r = Sema_Loop x b # fs)" for x
  proof (cases "\<forall>s'. waiters (semas k' s') = waiters (semas k s')")
    case False
    then obtain s0 b fs where "s = THREAD_BLOCKED" "fr k ?r = Sema_Loop s0 b # fs"
        "\<forall>s'. waiters (semas k' s') = (if s' = s0 then waiters (semas k s0) @ [?r] else waiters (semas k s'))"
      using D by meson
    then show ?thesis by (cases "x = s0") simp_all
  qed simp
  have W: "wait_inv k'"
    unfolding wait_inv_def
  proof (intro allI conjI ballI)
    fix x
    have dx: "distinct (waiters (semas k x))" using d(3) by (simp add: wait_inv_def)
    show "distinct (waiters (semas k' x))" using wq [of x] dx out(2) [of x] by auto
    fix t assume t: "t \<in> set (waiters (semas k' x))"
    have "t = ?r \<and> s = THREAD_BLOCKED \<and> (\<exists>b fs. fr k ?r = Sema_Loop x b # fs) \<or>
        t \<noteq> ?r \<and> st k t = Some THREAD_BLOCKED \<and> (\<exists>b fs. fr k t = Sema_Loop x b # fs)"
      using t wq [of x] out(2) [of x] d(3) unfolding wait_inv_def by auto
    then show "st k' t = Some THREAD_BLOCKED" "\<exists>b fs. fr k' t = Sema_Loop x b # fs" using st' D by auto
  qed
  have dead: "s = THREAD_DYING \<Longrightarrow> fr k ?r = [] \<and> ?r \<noteq> idle_thread k" using D by simp
  have T: "thread_inv k'"
  proof -
    note t = d(4) [unfolded thread_inv_def]
    have "is_thread k' t \<and> (st k' t = Some THREAD_DYING \<longrightarrow> fr k' t = []) \<and> frames_wf t (fr k' t)" if "st k' t \<noteq> None" for t
    proof (cases "t = ?r")
      case True
      then show ?thesis using D dead d(9) cur_frames(1) [OF inv] by auto
    next
      case False
      then show ?thesis using t [THEN conjunct1] D st'(1) [OF False] that by simp
    qed
    moreover have "idle_thread k' = 0 \<or> st k' (idle_thread k') \<noteq> None \<and> st k' (idle_thread k') \<noteq> Some THREAD_DYING"
      using t D dead by auto
    ultimately show ?thesis using t D unfolding thread_inv_def by (simp del: not_None_eq)
  qed
  have al: "distinct (all_list k)" "?r \<in> set (all_list k)" using d(1,5) by (auto simp: all_inv_def)
  have A: "all_inv k'"
  proof (cases "s = THREAD_DYING")
    case True
    then have "all_list k' = remove1 ?r (all_list k)" "st k' = (st k)(?r := Some THREAD_DYING)" using D by simp_all
    then show ?thesis using d(5) al by (auto simp: all_inv_def)
  next
    case False
    then have "all_list k' = all_list k" "st k' = (st k)(?r := Some s)" using D by simp_all
    then show ?thesis using d(1,5) al False by (auto simp: all_inv_def)
  qed
  have C: "create_inv k'"
  proof -
    note c = d(6) [unfolded create_inv_def]
    have F: "fr k' = fr k" "idle_thread k' = idle_thread k" using D by simp_all
    have "st k' t = Some THREAD_BLOCKED \<and> fr k' t = [] \<and> t \<noteq> idle_thread k'" if x: "Some t \<in> creates ` set (fr k' c)" for c t
    proof -
      have "st k t = Some THREAD_BLOCKED \<and> fr k t = [] \<and> t \<noteq> idle_thread k" using x c [THEN conjunct1] unfolding F by metis
      moreover from this have "t \<noteq> ?r" using d(1) by auto
      ultimately show ?thesis using st'(1) F by simp
    qed
    then have "\<forall>c t. Some t \<in> creates ` set (fr k' c) \<longrightarrow> st k' t = Some THREAD_BLOCKED \<and> fr k' t = [] \<and> t \<noteq> idle_thread k'" by metis
    then show ?thesis unfolding create_inv_def by (rule conjI) (use c [THEN conjunct2] F in simp)
  qed
  have L: "lock_inv k'"
  proof -
    have F: "fr k' = fr k" "holder k' = holder k" "\<And>x. svalue (semas k' x) = svalue (semas k x)" using D by simp_all
    have "lock_inv k' = lock_inv k" by (simp only: lock_inv_def F)
    then show ?thesis using d(7) by simp
  qed
  have "cond_inv k'" using d(12) D by (simp add: cond_inv_def)
  then show "core_inv k'" using R W T A C L by (simp add: core_inv_def)
  show "st k' t \<noteq> Some THREAD_RUNNING" using D d(8) unfolding run_inv_def by auto
  show "running_thread k' \<noteq> 0" using D d(10) by simp
qed

lemma depart_schedule: "kinv k \<Longrightarrow> departs k s k1 \<Longrightarrow> schedule k1 = Some k' \<Longrightarrow> kinv k'"
  by (rule schedule_inv) (auto dest: departs_inv)


subsection \<open>Waking a thread\<close>

definition wakes :: "kernel \<Rightarrow> addr \<Rightarrow> frame list \<Rightarrow> kernel \<Rightarrow> bool" where
  "wakes k t gs k' \<longleftrightarrow> st k' = (st k)(t := Some THREAD_READY) \<and> fr k' = (fr k)(t := gs) \<and> is_thread k' = is_thread k \<and>
     fifo_ready_list k' = fifo_ready_list k @ [t] \<and> all_list k' = all_list k \<and> idle_thread k' = idle_thread k \<and>
     running_thread k' = running_thread k \<and> in_external_intr k' = in_external_intr k \<and>
     active_sched_policy k' = active_sched_policy k \<and> cond_waiters k' = cond_waiters k \<and>
     (\<forall>s. distinct (waiters (semas k' s)) \<and> set (waiters (semas k' s)) \<subseteq> set (waiters (semas k s)) - {t})"

lemma wakes_inv:
  assumes inv: "kinv k" and w: "wakes k t gs k'" and b: "st k t = Some THREAD_BLOCKED"
    and gs: "gs = fr k t \<or> frames_wf t gs \<and> (\<forall>f \<in> set gs. creates f = None) \<and> t \<noteq> idle_thread k \<and>
      ((\<exists>f \<in> set gs. is_idle f) \<longrightarrow> (\<forall>f \<in> set gs. idle_ok f))"
    and nt: "\<And>c. Some t \<notin> creates ` set (fr k c)" and lk: "lock_inv k'"
  shows "kinv k'"
proof -
  note d = kinvD [OF inv]
  note D = w [unfolded wakes_def]
  have tr: "t \<noteq> running_thread k" using b d(1) by auto
  have out: "t \<notin> set (fifo_ready_list k)" using b d(2) unfolding ready_inv_def by force
  have st': "x \<noteq> t \<Longrightarrow> st k' x = st k x" "st k' t = Some THREAD_READY" for x using D by simp_all
  have "ready_inv k'"
    using d(2) out D st' unfolding ready_inv_def by auto
  moreover have "wait_inv k'"
    unfolding wait_inv_def
  proof (intro allI conjI ballI)
    fix x y assume "y \<in> set (waiters (semas k' x))"
    then have y: "y \<in> set (waiters (semas k x))" "y \<noteq> t" using D by auto
    then have "st k y = Some THREAD_BLOCKED \<and> (\<exists>b fs. fr k y = Sema_Loop x b # fs)" using d(3) by (simp add: wait_inv_def)
    then show "st k' y = Some THREAD_BLOCKED" "\<exists>b fs. fr k' y = Sema_Loop x b # fs" using D y(2) by auto
  qed (use D in simp)
  moreover have "thread_inv k'"
  proof -
    note T = d(4) [unfolded thread_inv_def]
    have "is_thread k' x \<and> (st k' x = Some THREAD_DYING \<longrightarrow> fr k' x = []) \<and> frames_wf x (fr k' x)" if "st k' x \<noteq> None" for x
    proof (cases "x = t")
      case True
      then show ?thesis using D gs T [THEN conjunct1] b by auto
    next
      case False
      then show ?thesis using T [THEN conjunct1] D st'(1) [OF False] that by simp
    qed
    moreover have "idle_thread k' = 0 \<or> st k' (idle_thread k') \<noteq> None \<and> st k' (idle_thread k') \<noteq> Some THREAD_DYING"
      using T D by auto
    moreover have "\<forall>f \<in> set (fr k' x). idle_ok f" if "x = idle_thread k' \<or> (\<exists>f \<in> set (fr k' x). is_idle f)" for x
    proof (cases "x = t \<and> gs \<noteq> fr k t")
      case True
      then show ?thesis using that gs D by auto
    next
      case False
      then have "fr k' x = fr k x" using D by auto
      then show ?thesis using T [THEN conjunct2, THEN conjunct2, THEN conjunct1] that D by metis
    qed
    ultimately show ?thesis using T D unfolding thread_inv_def by (simp del: not_None_eq)
  qed
  moreover have "all_inv k'" using d(5) D b by (auto simp: all_inv_def)
  moreover have "create_inv k'"
  proof -
    note c = d(6) [unfolded create_inv_def]
    have sub: "Some x \<in> creates ` set (fr k' y) \<Longrightarrow> Some x \<in> creates ` set (fr k y)" for x y
      using D gs by (cases "y = t") (auto split: if_splits)
    have "st k' x = Some THREAD_BLOCKED \<and> fr k' x = [] \<and> x \<noteq> idle_thread k'" if x: "Some x \<in> creates ` set (fr k' y)" for x y
    proof -
      have "x \<noteq> t" using sub [OF x] nt by metis
      moreover have "st k x = Some THREAD_BLOCKED \<and> fr k x = [] \<and> x \<noteq> idle_thread k" using sub [OF x] c [THEN conjunct1] by metis
      ultimately show ?thesis using D by simp
    qed
    then have A: "\<forall>c t. Some t \<in> creates ` set (fr k' c) \<longrightarrow> st k' t = Some THREAD_BLOCKED \<and> fr k' t = [] \<and> t \<noteq> idle_thread k'" by metis
    have B: "\<forall>c c' t. Some t \<in> creates ` set (fr k' c) \<longrightarrow> Some t \<in> creates ` set (fr k' c') \<longrightarrow> c = c'"
      using sub c [THEN conjunct2, THEN conjunct1] by metis
    have "length (filter (\<lambda>f. creates f \<noteq> None) (fr k' y)) \<le> 1" for y
    proof (cases "y = t \<and> gs \<noteq> fr k t")
      case True
      then have "filter (\<lambda>f. creates f \<noteq> None) (fr k' y) = []" using gs D by (simp add: filter_empty_conv)
      then show ?thesis by simp
    next
      case False
      then have "fr k' y = fr k y" using D by auto
      then show ?thesis using c [THEN conjunct2, THEN conjunct2] by simp
    qed
    then show ?thesis by (rule create_invI [OF A B])
  qed
  moreover have "cond_inv k'" using d(12) D by (simp add: cond_inv_def)
  moreover have "run_inv k'" using d(8) D tr by (auto simp: run_inv_def)
  ultimately show ?thesis using lk by (simp add: kinv_def core_inv_def)
qed

lemma thread_unblock_eff:
  assumes "thread_unblock t k = Some k'"
  shows "st k t = Some THREAD_BLOCKED" "is_thread k t"
    "k' = (set_status t THREAD_READY k)\<lparr>fifo_ready_list := fifo_ready_list k @ [t], intr_on := intr_on k\<rparr>"
proof -
  show "st k t = Some THREAD_BLOCKED" "is_thread k t"
    using assms by (auto simp: thread_unblock_def ASSERT_bind has_status_st intr_disable_def kview Let_def split: if_splits)
  show "k' = (set_status t THREAD_READY k)\<lparr>fifo_ready_list := fifo_ready_list k @ [t], intr_on := intr_on k\<rparr>"
    using assms by (auto simp: thread_unblock_def thread_enqueue_def ASSERT_bind has_status_st intr_disable_def
        intr_set_level_def intr_enable_def set_status_def upd_thread_def Let_def split: if_splits)
qed

end
