(* ===== verification/Synch_Steps.thy ===== *)
theory Synch_Steps
  imports Synch_Proofs
begin

text \<open>
  Every step of the kernel (\<open>Synch_Proofs\<close>) preserves its invariant: the return points one by one,
  the operations, and the timer interrupt.
\<close>

subsection \<open>Return points that change the running thread only\<close>

lemma local_toI:
  assumes "kinv k" "st k' = st k" "fr k' = (fr k)(running_thread k := fs)" "is_thread k' = is_thread k"
    "fifo_ready_list k' = fifo_ready_list k" "all_list k' = all_list k" "running_thread k' = running_thread k"
    "\<And>s. waiters (semas k' s) = waiters (semas k s)" "in_external_intr k' = in_external_intr k"
    "active_sched_policy k' = active_sched_policy k"
  shows "local_to k fs k'"
  using assms by (simp add: local_to_def)

lemma cur_exists: "kinv k \<Longrightarrow> st k (running_thread k) \<noteq> None"
  by (simp add: kinvD(1))

lemma set_frames_again: "set_frames a (set_frames b k) = set_frames a k"
  by (auto simp: set_frames_def upd_thread_def option.map_comp comp_def)

lemma thread_current_kinv: "kinv k \<Longrightarrow> thread_current k = Some (running_thread k)"
  by (simp add: thread_current_def has_status_st kinvD(1,9))

lemma thread_current_cong: "st k' = st k \<Longrightarrow> is_thread k' = is_thread k \<Longrightarrow> running_thread k' = running_thread k \<Longrightarrow>
    thread_current k' = thread_current k"
  by (simp add: thread_current_def has_status_st)

text \<open>
  The usual case: the stack changes from \<open>gs @ fs\<close> to \<open>hs @ fs\<close> without locks being concerned, and
  the running thread is not idle.
\<close>

lemma busy_thread:
  assumes "kinv k" "fr k (running_thread k) = gs @ fs" "g \<in> set gs" "\<not> idle_ok g"
  shows "running_thread k \<noteq> idle_thread k" "\<forall>x \<in> set fs. \<not> is_idle x"
  using cur_frames(2) [OF assms(1)] assms(2-4) by auto

lemma busy_inv:
  assumes inv: "kinv k" and f: "fr k (running_thread k) = gs @ fs"
    and busy: "running_thread k \<noteq> idle_thread k" "\<forall>x \<in> set fs. \<not> is_idle x"
    and l: "local_to k (hs @ fs) k'" and id: "idle_thread k' = idle_thread k"
    and wf: "frames_wf (running_thread k) (hs @ fs)"
    and ok: "\<forall>g \<in> set hs. creates g = None \<and> \<not> is_idle g" and lk: "lock_inv k'" "cond_inv k'"
  shows "kinv k'"
  by (rule replace_frame_inv [OF inv f l id wf _ _ lk]) (use busy ok in auto)

lemma frames_wf_append: "frames_wf t (gs @ fs) \<Longrightarrow> frames_wf t fs"
  by (induction gs) auto

lemma cur_wf: "kinv k \<Longrightarrow> fr k (running_thread k) = gs @ fs \<Longrightarrow> frames_wf (running_thread k) fs"
  using cur_frames(1) [of k] by (auto dest: frames_wf_append)

text \<open>Popping return points that carry no token.\<close>

lemma pop_inv:
  assumes inv: "kinv k" and f: "fr k (running_thread k) = gs @ fs"
    and tk: "\<And>l. tokens l fs \<le> tokens l (gs @ fs)"
  shows "kinv (set_frames fs k)"
proof -
  have l: "local_to k ([] @ fs) (set_frames fs k)"
    by (rule local_toI [OF inv]) (simp_all add: kview cur_exists [OF inv])
  have F: "tokens l (fr (set_frames fs k) t) \<le> tokens l (fr k t)" for l t
    using tk f by (simp add: kview cur_exists [OF inv])
  note L = kinvD(7) [OF inv, unfolded lock_inv_def]
  have "lock_inv (set_frames fs k)"
    unfolding lock_inv_def set_frames_fields
  proof (intro allI conjI impI)
    fix x
    show "unat (svalue (semas k (Lock_Sema x))) \<le> 1" using L by blast
    show "holder k x = 0" if "svalue (semas k (Lock_Sema x)) \<noteq> 0" using that L by blast
    show "tokens x (fr (set_frames fs k) t) = 0" if "svalue (semas k (Lock_Sema x)) \<noteq> 0" for t
      using that L F [of x t] by (metis le_zero_eq)
    show "tokens x (fr (set_frames fs k) t) = 0" if "holder k x \<noteq> 0" for t
      using that L F [of x t] by (metis le_zero_eq)
    show "tokens x (fr (set_frames fs k) t) \<le> 1" for t using L F [of x t] by (meson order_trans)
    show "tokens x (fr (set_frames fs k) t) = 0 \<or> tokens x (fr (set_frames fs k) t') = 0" if "t \<noteq> t'" for t t'
      using that L F [of x t] F [of x t'] by (metis le_zero_eq)
  qed
  moreover have "cond_inv (set_frames fs k)" using kinvD(12) [OF inv] by (simp add: cond_inv_def)
  ultimately show ?thesis
    by (intro replace_frame_inv [OF inv f l]) (use cur_wf [OF inv f] in simp_all)
qed

lemma set_level_inv: "kinv k \<Longrightarrow> intr_set_level b k = Some k' \<Longrightarrow> kinv k' \<and> k' = k\<lparr>intr_on := b\<rparr>"
proof -
  assume k: "kinv k" "intr_set_level b k = Some k'"
  then have k': "k' = k\<lparr>intr_on := b\<rparr>"
    by (auto simp: intr_set_level_def intr_enable_def intr_disable_def ASSERT_bind split: if_splits)
  have "kinv (k\<lparr>intr_on := b\<rparr>) = kinv k"
    by (simp add: kinv_def core_inv_def run_inv_def ready_inv_def wait_inv_def thread_inv_def all_inv_def create_inv_def
        lock_inv_def cond_inv_def kview)
  then show ?thesis using k k' by simp
qed


subsection \<open>Sleeping, yielding and dying\<close>

lemma set_waiters_fields [simp]:
  "threads (set_waiters s ws k) = threads k" "running_thread (set_waiters s ws k) = running_thread k"
  "fifo_ready_list (set_waiters s ws k) = fifo_ready_list k" "all_list (set_waiters s ws k) = all_list k"
  "idle_thread (set_waiters s ws k) = idle_thread k" "in_external_intr (set_waiters s ws k) = in_external_intr k"
  "intr_on (set_waiters s ws k) = intr_on k" "active_sched_policy (set_waiters s ws k) = active_sched_policy k"
  "holder (set_waiters s ws k) = holder k" "cond_waiters (set_waiters s ws k) = cond_waiters k"
  "svalue (semas (set_waiters s ws k) x) = svalue (semas k x)"
  "waiters (semas (set_waiters s ws k) x) = (if x = s then ws else waiters (semas k x))"
  by (simp_all add: set_waiters_def)

lemma set_svalue_fields [simp]:
  "threads (set_svalue s v k) = threads k" "running_thread (set_svalue s v k) = running_thread k"
  "fifo_ready_list (set_svalue s v k) = fifo_ready_list k" "all_list (set_svalue s v k) = all_list k"
  "idle_thread (set_svalue s v k) = idle_thread k" "in_external_intr (set_svalue s v k) = in_external_intr k"
  "intr_on (set_svalue s v k) = intr_on k" "active_sched_policy (set_svalue s v k) = active_sched_policy k"
  "holder (set_svalue s v k) = holder k" "cond_waiters (set_svalue s v k) = cond_waiters k"
  "waiters (semas (set_svalue s v k) x) = waiters (semas k x)"
  "svalue (semas (set_svalue s v k) x) = (if x = s then v else svalue (semas k x))"
  by (simp_all add: set_svalue_def)

lemma view_semas [kview]:
  "st (set_waiters s ws k) = st k" "fr (set_waiters s ws k) = fr k" "is_thread (set_waiters s ws k) = is_thread k"
  "st (set_svalue s v k) = st k" "fr (set_svalue s v k) = fr k" "is_thread (set_svalue s v k) = is_thread k"
  "st (intr_disable k) = st k" "fr (intr_disable k) = fr k" "is_thread (intr_disable k) = is_thread k"
  by (simp_all add: set_waiters_def set_svalue_def intr_disable_def kview)

lemma intr_disable_fields [simp]:
  "running_thread (intr_disable k) = running_thread k" "fifo_ready_list (intr_disable k) = fifo_ready_list k"
  "all_list (intr_disable k) = all_list k" "idle_thread (intr_disable k) = idle_thread k"
  "in_external_intr (intr_disable k) = in_external_intr k" "active_sched_policy (intr_disable k) = active_sched_policy k"
  "\<not> intr_on (intr_disable k)" "threads (intr_disable k) = threads k"
  by (simp_all add: intr_disable_def)

lemma intr_disable_kernel [simp]:
  "semas (intr_disable k) = semas k" "holder (intr_disable k) = holder k" "cond_waiters (intr_disable k) = cond_waiters k"
  "rw_locks (intr_disable k) = rw_locks k"
  by (simp_all add: intr_disable_def)

text \<open>\<open>thread_block\<close> from a state that differs from \<open>k\<close> in interrupts and, possibly, in the queue of a semaphore.\<close>

lemma thread_block_inv:
  assumes inv: "kinv k" and tb: "thread_block k1 = Some k'"
    and v: "st k1 = st k" "fr k1 = fr k" "is_thread k1 = is_thread k" "idle_thread k1 = idle_thread k" "holder k1 = holder k"
      "running_thread k1 = running_thread k" "cond_waiters k1 = cond_waiters k" "in_external_intr k1 = in_external_intr k"
      "active_sched_policy k1 = active_sched_policy k" "\<And>x. svalue (semas k1 x) = svalue (semas k x)"
      "fifo_ready_list k1 = fifo_ready_list k" "all_list k1 = all_list k"
    and w: "(\<forall>x. waiters (semas k1 x) = waiters (semas k x)) \<or>
      (\<exists>s b fs. fr k (running_thread k) = Sema_Loop s b # fs \<and>
        (\<forall>x. waiters (semas k1 x) = (if x = s then waiters (semas k s) @ [running_thread k] else waiters (semas k x))))"
  shows "kinv k'"
proof -
  have "schedule (set_status (running_thread k) THREAD_BLOCKED k1) = Some k'"
    using tb thread_current_kinv [OF inv] thread_current_cong [OF v(1,3,6)]
    by (auto simp: thread_block_def ASSERT_bind split: if_splits)
  moreover have "departs k THREAD_BLOCKED (set_status (running_thread k) THREAD_BLOCKED k1)"
    unfolding departs_def using v w kinvD(1) [OF inv] by (simp add: kview)
  ultimately show ?thesis using depart_schedule [OF inv] by blast
qed

lemma thread_yield_inv:
  assumes inv: "kinv k" and ty: "thread_yield k = Some k'"
  shows "kinv k'"
proof -
  let ?r = "running_thread k"
  define k1 where "k1 = push_frames [Set_Level (intr_on k)] (intr_disable k)"
  have e: "k1 = (set_frames (Set_Level (intr_on k) # fr k ?r) k)\<lparr>intr_on := False\<rparr>"
    by (simp add: k1_def push_frames_set kview) (simp add: set_frames_def upd_thread_def intr_disable_def)
  have loc: "local_to k ([Set_Level (intr_on k)] @ fr k ?r) k1"
    by (rule local_toI [OF inv]) (simp_all add: e kview cur_exists [OF inv])
  have "lock_inv k1"
    by (rule lock_inv_local [OF kinvD(7) [OF inv], where r = ?r and fs = "Set_Level (intr_on k) # fr k ?r"])
      (simp_all add: e kview cur_exists [OF inv])
  moreover have "cond_inv k1" using kinvD(12) [OF inv] by (simp add: cond_inv_def e)
  ultimately have inv1: "kinv k1"
    by (intro replace_frame_inv [OF inv _ loc, where gs = "[]"])
      (use cur_frames [OF inv] in \<open>auto simp: e\<close>)
  have cur: "thread_current k = Some ?r" by (rule thread_current_kinv [OF inv])
  define k2 where "k2 = (if ?r = idle_thread k then k1 else k1\<lparr>fifo_ready_list := fifo_ready_list k @ [?r]\<rparr>)"
  have "schedule (set_status ?r THREAD_READY k2) = Some k'"
  proof -
    have "thread_enqueue ?r (intr_disable k) = Some ((intr_disable k)\<lparr>fifo_ready_list := fifo_ready_list k @ [?r]\<rparr>)" if "?r \<noteq> idle_thread k"
      using kinvD(4,9) [OF inv] by (simp add: thread_enqueue_def kview thread_inv_def)
    moreover have "push_frames [Set_Level (intr_on k)] ((intr_disable k)\<lparr>fifo_ready_list := fifo_ready_list k @ [?r]\<rparr>) =
        k1\<lparr>fifo_ready_list := fifo_ready_list k @ [?r]\<rparr>"
      by (simp add: k1_def push_frames_def upd_thread_def)
    ultimately show ?thesis using ty cur by (auto simp: thread_yield_def Let_def k2_def k1_def ASSERT_bind split: if_splits)
  qed
  moreover have "departs k1 THREAD_READY (set_status ?r THREAD_READY k2)"
    unfolding departs_def k2_def using kinvD(1) [OF inv] by (auto simp: kview e)
  ultimately show ?thesis using depart_schedule [OF inv1] by blast
qed

lemma thread_exit_inv:
  assumes inv: "kinv k" and te: "thread_exit k = Some k'" and f: "fr k (running_thread k) = []"
    and i: "running_thread k \<noteq> idle_thread k"
  shows "kinv k'"
proof -
  let ?r = "running_thread k"
  let ?k = "(intr_disable k)\<lparr>all_list := remove1 ?r (all_list k)\<rparr>"
  have "thread_current (intr_disable k) = Some ?r"
    using thread_current_kinv [OF inv] thread_current_cong [of "intr_disable k" k] by (simp add: kview)
  then have "schedule (set_status ?r THREAD_DYING ?k) = Some k'"
    using te by (auto simp: thread_exit_def Let_def ASSERT_bind split: if_splits)
  moreover have "departs k THREAD_DYING (set_status ?r THREAD_DYING ?k)"
    unfolding departs_def using f i kinvD(1) [OF inv] by (simp add: kview)
  ultimately show ?thesis using depart_schedule [OF inv] by blast
qed


subsection \<open>Semaphores\<close>

text \<open>The same state but for the stack of the running thread and the interrupt level.\<close>

definition only_frames :: "kernel \<Rightarrow> frame list \<Rightarrow> kernel \<Rightarrow> bool" where
  "only_frames k fs k' \<longleftrightarrow> local_to k fs k' \<and> idle_thread k' = idle_thread k \<and> holder k' = holder k \<and>
     semas k' = semas k \<and> cond_waiters k' = cond_waiters k"

lemma only_framesI: "kinv k \<Longrightarrow> only_frames k fs (set_frames fs k)" "kinv k \<Longrightarrow> only_frames k fs ((set_frames fs k)\<lparr>intr_on := b\<rparr>)"
  "kinv k \<Longrightarrow> only_frames k fs (intr_disable (set_frames fs k))"
  by (simp_all add: only_frames_def local_to_def kview cur_exists)

lemma only_frames_refl: "only_frames k (fr k (running_thread k)) k" "only_frames k (fr k (running_thread k)) (intr_disable k)"
  by (simp_all add: only_frames_def local_to_def kview)

lemma only_frames_set:
  "kinv k \<Longrightarrow> only_frames k fs k1 \<Longrightarrow> only_frames k gs (set_frames gs k1)"
  by (simp add: only_frames_def local_to_def kview cur_exists)

lemma only_frames_inv:
  assumes inv: "kinv k" and f: "fr k (running_thread k) = gs @ fs" and o: "only_frames k (hs @ fs) k'"
    and busy: "running_thread k \<noteq> idle_thread k" "\<forall>x \<in> set fs. \<not> is_idle x"
    and wf: "frames_wf (running_thread k) (hs @ fs)" and ok: "\<forall>g \<in> set hs. creates g = None \<and> \<not> is_idle g"
    and tk: "\<And>l. tokens l (hs @ fs) = tokens l (gs @ fs)"
  shows "kinv k'"
proof (rule busy_inv [OF inv f busy _ _ wf ok])
  note O = o [unfolded only_frames_def]
  show "local_to k (hs @ fs) k'" "idle_thread k' = idle_thread k" using O by simp_all
  show "lock_inv k'"
    by (rule lock_inv_local [OF kinvD(7) [OF inv], where r = "running_thread k" and fs = "hs @ fs"])
      (use O tk f in \<open>simp_all add: local_to_def\<close>)
  show "cond_inv k'" using O kinvD(12) [OF inv] by (simp add: cond_inv_def)
qed

lemma tokens_downs: "downs f = Some s \<Longrightarrow> tokens l (f # fs) = tokens l (Sema_Loop s b # fs)"
  by (cases f; cases s) auto

lemma frames_wf_downs: "downs f = Some s \<Longrightarrow> frames_wf t (f # fs) = frames_wf t (Sema_Loop s b # fs)"
  by (cases f) auto

text \<open>Where a \<open>sema_down\<close> may be called from.\<close>

definition down_site :: "kernel \<Rightarrow> semref \<Rightarrow> frame list \<Rightarrow> frame list \<Rightarrow> bool" where
  "down_site k s gs fs \<longleftrightarrow> fr k (running_thread k) = gs @ fs \<and> (gs = [] \<and> (\<exists>a. s = Sema a) \<or> (\<exists>f. gs = [f] \<and> downs f = Some s))"

lemma down_site_tokens: "down_site k s gs fs \<Longrightarrow> tokens l (Sema_Loop s b # fs) = tokens l (gs @ fs)"
  using tokens_downs by (fastforce simp: down_site_def)

lemma down_site_wf: "kinv k \<Longrightarrow> down_site k s gs fs \<Longrightarrow> frames_wf (running_thread k) (Sema_Loop s b # fs)"
  using cur_frames(1) [of k] frames_wf_downs [of _ s "running_thread k" fs b] by (auto simp: down_site_def)

text \<open>Taking the semaphore of a lock.\<close>

lemma take_lock_inv:
  assumes inv: "lock_inv k" and v: "svalue (semas k (Lock_Sema l)) \<noteq> 0"
    and tk: "\<And>x t. tokens x (fr k' t) = (if x = l \<and> t = r then 1 else tokens x (fr k t))"
    and h: "holder k' = holder k"
    and sv: "\<And>x. svalue (semas k' (Lock_Sema x)) = (if x = l then svalue (semas k (Lock_Sema l)) - 1 else svalue (semas k (Lock_Sema x)))"
  shows "lock_inv k'"
proof -
  note L = inv [unfolded lock_inv_def, THEN spec]
  have 1: "svalue (semas k (Lock_Sema l)) = 1"
  proof -
    have "unat (svalue (semas k (Lock_Sema l))) \<noteq> 0" using v by (simp add: unat_eq_0)
    then have "unat (svalue (semas k (Lock_Sema l))) = unat (1 :: u32)" using L [of l, THEN conjunct1] by simp
    then show ?thesis by (simp only: word_unat_eq_iff)
  qed
  show ?thesis
    unfolding lock_inv_def
  proof
    fix x
    show "unat (svalue (semas k' (Lock_Sema x))) \<le> 1 \<and>
       (svalue (semas k' (Lock_Sema x)) \<noteq> 0 \<longrightarrow> holder k' x = 0 \<and> (\<forall>t. tokens x (fr k' t) = 0)) \<and>
       (holder k' x \<noteq> 0 \<longrightarrow> (\<forall>t. tokens x (fr k' t) = 0)) \<and> (\<forall>t. tokens x (fr k' t) \<le> 1) \<and>
       (\<forall>t t'. t \<noteq> t' \<longrightarrow> tokens x (fr k' t) = 0 \<or> tokens x (fr k' t') = 0)"
    proof (cases "x = l")
      case True
      have "tokens l (fr k t) = 0" for t using L [of l] v by blast
      then have "tokens x (fr k' t) = (if t = r then 1 else 0)" for t using tk True by simp
      moreover have "svalue (semas k' (Lock_Sema x)) = 0" "holder k' x = 0" using sv h True 1 L [of l, THEN conjunct2, THEN conjunct1] v by simp_all
      ultimately show ?thesis by (simp del: split_paired_All)
    next
      case False
      then have E: "tokens x (fr k' t) = tokens x (fr k t)" "svalue (semas k' (Lock_Sema x)) = svalue (semas k (Lock_Sema x))" for t
        by (simp_all add: tk sv)
      show ?thesis unfolding h E by (rule L)
    qed
  qed
qed

lemma sema_loop_inv:
  assumes inv: "kinv k" and site: "down_site k s gs fs" and o: "only_frames k fs k1"
    and busy: "running_thread k \<noteq> idle_thread k" "\<forall>x \<in> set fs. \<not> is_idle x"
    and run: "sema_loop s b k1 = Some k'"
  shows "kinv k'"
proof -
  let ?r = "running_thread k"
  have f: "fr k ?r = gs @ fs" using site by (simp add: down_site_def)
  note O = o [unfolded only_frames_def local_to_def]
  show ?thesis
  proof (cases "svalue (semas k s) = 0")
    case True
    let ?k = "set_frames ([Sema_Loop s b] @ fs) k"
    have inv1: "kinv ?k"
      by (rule only_frames_inv [OF inv f only_framesI(1) [OF inv] busy])
        (use down_site_wf [OF inv site, of b] down_site_tokens [OF site, of _ b] in auto)
    have "thread_current k1 = Some ?r"
      using thread_current_kinv [OF inv] thread_current_cong [of k1 k] O by simp
    then have tb: "thread_block (push_frames [Sema_Loop s b] (set_waiters s (waiters (semas k s) @ [?r]) k1)) = Some k'"
      using run True O by (simp add: sema_loop_def Let_def)
    have fr1: "fr k1 ?r = fs" using O by simp
    show ?thesis
      by (rule thread_block_inv [OF inv1 tb])
        (use O fr1 cur_exists [OF inv] in \<open>auto simp: push_frames_set kview\<close>)
  next
    case False
    let ?k2 = "set_svalue s (svalue (semas k s) - 1) k1"
    have k': "k' = ?k2\<lparr>intr_on := b\<rparr>"
      using run False O by (auto simp: sema_loop_def intr_set_level_def intr_enable_def intr_disable_def ASSERT_bind split: if_splits)
    have l: "local_to k ([] @ fs) k'" using O by (simp add: local_to_def k' kview)
    have "lock_inv k'"
    proof (cases "\<exists>l. s = Lock_Sema l")
      case True
      then obtain l where s: "s = Lock_Sema l" by blast
      then obtain g where g: "gs = [g]" "downs g = Some (Lock_Sema l)" using site by (auto simp: down_site_def)
      have "frames_wf ?r (Sema_Loop s b # fs)" by (rule down_site_wf [OF inv site])
      then obtain fs' where fs: "fs = Set_Holder l # fs'" using s by (cases fs) auto
      have tk: "tokens x (fr k ?r) = tokens x fs'" for x using f g fs by simp
      have z: "tokens l (fr k ?r) = 0" using kinvD(7) [OF inv] False s unfolding lock_inv_def by blast
      have zz: "tokens l fs' = 0" using z tk by simp
      have "tokens x (fr k' t) = (if x = l \<and> t = ?r then 1 else tokens x (fr k t))" for x t
        using O tk [of x] zz by (auto simp: k' kview fs)
      then show ?thesis
        by (intro take_lock_inv [OF kinvD(7) [OF inv], of l k' ?r]) (use False s O in \<open>auto simp: k'\<close>)
    next
      case F: False
      have "tokens l fs = tokens l (gs @ fs)" for l
      proof (cases gs)
        case (Cons g gs')
        then have "downs g = Some s" "gs' = []" using site by (auto simp: down_site_def)
        then show ?thesis using F Cons by (cases s; cases g) auto
      qed simp
      then show ?thesis
        by (intro lock_inv_local [OF kinvD(7) [OF inv], where r = ?r and fs = fs]) (use O F f in \<open>auto simp: k' kview\<close>)
    qed
    moreover have "cond_inv k'" using kinvD(12) [OF inv] O by (simp add: cond_inv_def k')
    ultimately show ?thesis
      by (intro busy_inv [OF inv f busy l]) (use O cur_wf [OF inv f] in \<open>simp_all add: k'\<close>)
  qed
qed


text \<open>Steps that concern one lock.\<close>

lemma lock_inv_at:
  assumes inv: "lock_inv k"
    and other: "\<And>x t. x \<noteq> l \<Longrightarrow> tokens x (fr k' t) = tokens x (fr k t)" "\<And>x. x \<noteq> l \<Longrightarrow> holder k' x = holder k x"
      "\<And>x. x \<noteq> l \<Longrightarrow> svalue (semas k' (Lock_Sema x)) = svalue (semas k (Lock_Sema x))"
    and at: "unat (svalue (semas k' (Lock_Sema l))) \<le> 1"
      "svalue (semas k' (Lock_Sema l)) \<noteq> 0 \<Longrightarrow> holder k' l = 0 \<and> (\<forall>t. tokens l (fr k' t) = 0)"
      "holder k' l \<noteq> 0 \<Longrightarrow> \<forall>t. tokens l (fr k' t) = 0" "\<And>t. tokens l (fr k' t) \<le> 1"
      "\<And>t t'. t \<noteq> t' \<Longrightarrow> tokens l (fr k' t) = 0 \<or> tokens l (fr k' t') = 0"
  shows "lock_inv k'"
  unfolding lock_inv_def
proof
  fix x
  note L = inv [unfolded lock_inv_def, THEN spec, of x]
  show "unat (svalue (semas k' (Lock_Sema x))) \<le> 1 \<and>
       (svalue (semas k' (Lock_Sema x)) \<noteq> 0 \<longrightarrow> holder k' x = 0 \<and> (\<forall>t. tokens x (fr k' t) = 0)) \<and>
       (holder k' x \<noteq> 0 \<longrightarrow> (\<forall>t. tokens x (fr k' t) = 0)) \<and> (\<forall>t. tokens x (fr k' t) \<le> 1) \<and>
       (\<forall>t t'. t \<noteq> t' \<longrightarrow> tokens x (fr k' t) = 0 \<or> tokens x (fr k' t') = 0)"
  proof (cases "x = l")
    case True
    then show ?thesis using at by metis
  next
    case False
    show ?thesis using L unfolding other [OF False] by blast
  qed
qed

lemma token_owner:
  assumes inv: "lock_inv k" and t: "tokens l (fr k r) \<noteq> 0"
  shows "tokens l (fr k r) = 1" "svalue (semas k (Lock_Sema l)) = 0" "holder k l = 0" "t \<noteq> r \<Longrightarrow> tokens l (fr k t) = 0"
proof -
  note L = inv [unfolded lock_inv_def, THEN spec, of l]
  have "tokens l (fr k r) \<le> 1" using L by blast
  then show "tokens l (fr k r) = 1" using t by simp
  show "svalue (semas k (Lock_Sema l)) = 0" "holder k l = 0" "t \<noteq> r \<Longrightarrow> tokens l (fr k t) = 0" using L t by metis+
qed

definition lock_free_sema :: "kernel \<Rightarrow> semref \<Rightarrow> bool" where
  "lock_free_sema k s \<longleftrightarrow> (\<forall>l. s = Lock_Sema l \<longrightarrow> svalue (semas k s) = 0 \<and> holder k l = 0 \<and> (\<forall>t. tokens l (fr k t) = 0))"

lemma sema_up_locks:
  assumes inv: "lock_inv k" and free: "lock_free_sema k s"
    and same: "\<And>l t. tokens l (fr k' t) = tokens l (fr k t)" "holder k' = holder k"
      "\<And>x. svalue (semas k' x) = (if x = s then svalue (semas k s) + 1 else svalue (semas k x))"
  shows "lock_inv k'"
proof (cases "\<exists>l. s = Lock_Sema l")
  case True
  then obtain l where s: "s = Lock_Sema l" by blast
  have F: "svalue (semas k s) = 0" "holder k l = 0" "\<And>t. tokens l (fr k t) = 0" using free s by (auto simp: lock_free_sema_def)
  show ?thesis by (rule lock_inv_at [OF inv, of l]) (use F same s in simp_all)
next
  case False
  then have E: "svalue (semas k' (Lock_Sema x)) = svalue (semas k (Lock_Sema x))" for x using same(3) by auto
  have "lock_inv k' = lock_inv k" by (simp only: lock_inv_def same(1,2) E)
  then show ?thesis using inv by simp
qed

lemma sema_up_inv:
  assumes inv: "kinv k" and free: "lock_free_sema k s" and run: "sema_up s k = Some k'"
  shows "kinv k'"
proof (cases "waiters (semas k s)")
  case Nil
  have k': "k' = (set_svalue s (svalue (semas k s) + 1) k)\<lparr>intr_on := intr_on k\<rparr>"
    using run Nil by (auto simp: sema_up_def Let_def intr_set_level_def intr_enable_def intr_disable_def set_svalue_def
        ASSERT_bind split: if_splits)
  have l: "local_to k ([] @ fr k (running_thread k)) k'" by (simp add: local_to_def k' kview)
  have "lock_inv k'" by (rule sema_up_locks [OF kinvD(7) [OF inv] free]) (simp_all add: k' kview)
  moreover have "cond_inv k'" using kinvD(12) [OF inv] by (simp add: cond_inv_def k')
  ultimately show ?thesis
    by (intro replace_frame_inv [OF inv, where gs = "[]" and hs = "[]", OF _ l]) (use cur_frames [OF inv] in \<open>simp_all add: k'\<close>)
next
  case (Cons t ts)
  obtain k2 where ub: "thread_unblock t (set_waiters s ts (intr_disable k)) = Some k2"
    and e: "intr_set_level (intr_on k) (set_svalue s (svalue (semas k2 s) + 1) k2) = Some k'"
    using run Cons by (auto simp: sema_up_def Let_def bind_Some_iff)
  note U = thread_unblock_eff [OF ub]
  have k': "k' = (set_svalue s (svalue (semas k2 s) + 1) k2)\<lparr>intr_on := intr_on k\<rparr>"
    using e by (auto simp: intr_set_level_def intr_enable_def intr_disable_def ASSERT_bind split: if_splits)
  have w: "t \<in> set (waiters (semas k s))" "distinct (t # ts)" using Cons kinvD(3) [OF inv] by (auto simp: wait_inv_def) (metis distinct.simps(2))+
  obtain b fs where tf: "st k t = Some THREAD_BLOCKED" "fr k t = Sema_Loop s b # fs"
    using w(1) kinvD(3) [OF inv] unfolding wait_inv_def by blast
  have one: "t \<notin> set (waiters (semas k x))" if "x \<noteq> s" for x
    using that tf kinvD(3) [OF inv] unfolding wait_inv_def by fastforce
  have dist: "distinct (waiters (semas k x))" for x using kinvD(3) [OF inv] by (simp add: wait_inv_def)
  have wk: "wakes k t (fr k t) k'"
    unfolding wakes_def k' U(3) using tf w Cons one dist by (auto simp: kview)
  have lk: "lock_inv k'" by (rule sema_up_locks [OF kinvD(7) [OF inv] free]) (use tf in \<open>simp_all add: k' U(3) kview\<close>)
  have nt: "Some t \<notin> creates ` set (fr k c)" for c
    using tf kinvD(6) [OF inv, unfolded create_inv_def, THEN conjunct1] by (metis list.distinct(1))
  show ?thesis by (rule wakes_inv [OF inv wk tf(1) _ nt lk]) simp
qed

end
