(* ===== verification/Synch_Invariant.thy ===== *)
theory Synch_Invariant
  imports Synch_Steps
begin

text \<open>
  The invariant of the threads and their synchronisation (\<open>Synch_Proofs\<close>) holds in every reachable
  state, and what follows from it.
\<close>

subsection \<open>Return points of condition variables and readers-writers locks\<close>

text \<open>A change of the running thread's stack that may also change the queues of condition variables.\<close>

definition cond_frames :: "kernel \<Rightarrow> frame list \<Rightarrow> kernel \<Rightarrow> bool" where
  "cond_frames k fs k' \<longleftrightarrow> local_to k fs k' \<and> idle_thread k' = idle_thread k \<and> holder k' = holder k \<and>
     (\<forall>l. svalue (semas k' (Lock_Sema l)) = svalue (semas k (Lock_Sema l))) \<and> cond_inv k'"

lemma only_cond_frames: "kinv k \<Longrightarrow> only_frames k fs k' \<Longrightarrow> cond_frames k fs k'"
  using kinvD(12) [of k] by (simp add: only_frames_def cond_frames_def cond_inv_def)

lemma cond_frames_inv:
  assumes inv: "kinv k" and f: "fr k (running_thread k) = gs @ fs" and o: "cond_frames k (hs @ fs) k'"
    and busy: "running_thread k \<noteq> idle_thread k" "\<forall>x \<in> set fs. \<not> is_idle x"
    and wf: "frames_wf (running_thread k) (hs @ fs)" and ok: "\<forall>g \<in> set hs. creates g = None \<and> \<not> is_idle g"
    and tk: "\<And>l. tokens l (hs @ fs) = tokens l (gs @ fs)"
  shows "kinv k'"
proof (rule busy_inv [OF inv f busy _ _ wf ok])
  note O = o [unfolded cond_frames_def]
  show "local_to k (hs @ fs) k'" "idle_thread k' = idle_thread k" "cond_inv k'" using O by simp_all
  show "lock_inv k'"
    by (rule lock_inv_local [OF kinvD(7) [OF inv], where r = "running_thread k" and fs = "hs @ fs"])
      (use O tk f in \<open>simp_all add: local_to_def\<close>)
qed

lemma cond_frames_push:
  "kinv k \<Longrightarrow> cond_frames k fs k1 \<Longrightarrow> cond_frames k (gs @ fs) (push_frames gs k1)"
  by (simp add: cond_frames_def local_to_def push_frames_set kview cur_exists cond_inv_def)

lemma cond_frames_rw: "cond_frames k fs k1 \<Longrightarrow> cond_frames k fs (upd_rw rw f k1)"
  by (simp add: cond_frames_def local_to_def upd_rw_def kview cond_inv_def)

lemma cond_frames_current: "kinv k \<Longrightarrow> cond_frames k fs k1 \<Longrightarrow> thread_current k1 = Some (running_thread k)"
  using thread_current_kinv [of k] thread_current_cong [of k1 k] by (simp add: cond_frames_def local_to_def)

lemma cond_signal_frames:
  assumes inv: "kinv k" and c: "cond_frames k fs k1" and run: "cond_signal c l k1 = Some k'"
  shows "\<exists>hs. cond_frames k (hs @ fs) k' \<and> (hs = [] \<or> (\<exists>t. hs = [Sema_Up (Waiter_Sema t)]))"
proof (cases "cond_waiters k1 c")
  case Nil
  then have "k' = k1" using run by (auto simp: cond_signal_def lock_held_by_current_thread_def ASSERT_bind bind_Some_iff split: if_splits)
  then show ?thesis using c by (intro exI [of _ "[]"]) simp
next
  case (Cons w ws)
  then have k': "k' = push_frames [Sema_Up w] (k1\<lparr>cond_waiters := (cond_waiters k1)(c := ws)\<rparr>)"
    using run by (auto simp: cond_signal_def lock_held_by_current_thread_def ASSERT_bind bind_Some_iff split: if_splits)
  have ci: "cond_inv k1" using c by (simp add: cond_frames_def)
  then obtain t where "w = Waiter_Sema t" using Cons unfolding cond_inv_def by (metis list.set_intros(1))
  moreover have "\<forall>x \<in> set ws. \<exists>t. x = Waiter_Sema t"
    using ci [unfolded cond_inv_def, THEN spec, of c] Cons by simp
  then have "cond_inv (k1\<lparr>cond_waiters := (cond_waiters k1)(c := ws)\<rparr>)" using ci by (simp add: cond_inv_def)
  then have "cond_frames k fs (k1\<lparr>cond_waiters := (cond_waiters k1)(c := ws)\<rparr>)"
    using c by (simp add: cond_frames_def local_to_def kview)
  ultimately show ?thesis unfolding k' using cond_frames_push [OF inv, of fs _ "[Sema_Up w]"]
    by (intro exI [of _ "[Sema_Up w]"]) auto
qed

lemma cond_wait_frames:
  assumes inv: "kinv k" and c: "cond_frames k fs k1" and run: "cond_wait c l k1 = Some k'"
  shows "cond_frames k ([Lock_Release l, Sema_Down (Waiter_Sema (running_thread k)), Lock_Acquire l] @ fs) k'"
proof -
  let ?w = "Waiter_Sema (running_thread k)"
  note C = c [unfolded cond_frames_def local_to_def]
  define k2 where "k2 = (sema_init ?w 0 k1)\<lparr>cond_waiters := (cond_waiters k1)(c := cond_waiters k1 c @ [?w])\<rparr>"
  have k': "k' = push_frames [Lock_Release l, Sema_Down ?w, Lock_Acquire l] k2"
    using run C by (auto simp: cond_wait_def lock_held_by_current_thread_def ASSERT_bind bind_Some_iff k2_def sema_init_def
        Let_def split: if_splits)
  have "waiters (semas k ?w) = []"
  proof (rule ccontr)
    assume "waiters (semas k ?w) \<noteq> []"
    then obtain t where t: "t \<in> set (waiters (semas k ?w))" by (meson last_in_set)
    then obtain b gs where b: "st k t = Some THREAD_BLOCKED" "fr k t = Sema_Loop ?w b # gs"
      using kinvD(3) [OF inv] unfolding wait_inv_def by blast
    then have "frames_wf t (Sema_Loop ?w b # gs)"
      using kinvD(4) [OF inv, unfolded thread_inv_def, THEN conjunct1] by (metis option.distinct(1))
    then show False using b kinvD(1) [OF inv] by simp
  qed
  then have "cond_frames k fs k2"
    using C by (auto simp: cond_frames_def local_to_def k2_def sema_init_def kview cond_inv_def)
  then show ?thesis unfolding k' by (rule cond_frames_push [OF inv])
qed


lemma wf_waiter_call: "frames_wf t fs \<Longrightarrow> frames_wf t ([Lock_Release l, Sema_Down (Waiter_Sema t), Lock_Acquire l] @ fs)"
  by simp

lemma waiter_call_tokens: "tokens x ([Lock_Release l, Sema_Down (Waiter_Sema t), Lock_Acquire l] @ fs) = tokens x fs"
  by simp

lemma signal_frames: "hs = [] \<or> (\<exists>t. hs = [Sema_Up (Waiter_Sema t)]) \<Longrightarrow>
    (\<forall>g \<in> set hs. creates g = None \<and> \<not> is_idle g) \<and> tokens x (hs @ fs) = tokens x fs \<and> frames_wf t (hs @ fs) = frames_wf t fs"
  by auto

text \<open>A return point that carries no token, is no call of \<open>sema_down\<close> and not one of an idle thread.\<close>

definition plain_frame :: "frame \<Rightarrow> bool" where
  "plain_frame f \<longleftrightarrow> downs f = None \<and> (\<forall>l. frame_token l f = 0) \<and> \<not> idle_ok f"

lemma plain_tokens: "plain_frame f \<Longrightarrow> tokens l (f # fs) = tokens l fs"
  by (simp add: plain_frame_def)

lemma popped: "kinv k \<Longrightarrow> cond_frames k fs (set_frames fs k)"
  by (rule only_cond_frames [OF _ only_framesI(1)])

lemma plain_inv:
  assumes inv: "kinv k" and f: "fr k (running_thread k) = f # fs" and p: "plain_frame f" and o: "cond_frames k (hs @ fs) k'" and ok: "\<forall>g \<in> set hs. creates g = None \<and> \<not> is_idle g"
    and tk: "\<And>l. tokens l (hs @ fs) = tokens l fs" and wf: "frames_wf (running_thread k) (hs @ fs)"
  shows "kinv k'"
proof -
  have at: "fr k (running_thread k) = [f] @ fs" using f by simp
  have "\<not> idle_ok f" using p by (simp add: plain_frame_def)
  then have b: "running_thread k \<noteq> idle_thread k" "\<forall>x \<in> set fs. \<not> is_idle x" using busy_thread [OF inv at, of f] by auto
  show ?thesis by (rule cond_frames_inv [OF inv at o b wf ok]) (use p tk in \<open>simp add: plain_tokens del: tokens.simps\<close>)
qed

lemma idle_inv:
  assumes inv: "kinv k" and f: "fr k (running_thread k) = f # fs" and i: "idle_ok f" "is_idle f" and o: "only_frames k (hs @ fs) k'" and ok: "\<forall>g \<in> set hs. creates g = None \<and> idle_ok g"
    and tk: "\<And>l. tokens l (hs @ fs) = tokens l ([f] @ fs)" and wf: "frames_wf (running_thread k) (hs @ fs)"
  shows "kinv k'"
proof (rule replace_frame_inv [OF inv _ _ _ wf])
  show "fr k (running_thread k) = [f] @ fs" using f by simp
  note O = o [unfolded only_frames_def]
  have all: "\<forall>x \<in> set fs. idle_ok x" using cur_frames(2) [OF inv] f i by auto
  show "local_to k (hs @ fs) k'" "idle_thread k' = idle_thread k" "\<forall>g \<in> set hs. creates g = None" using O ok by simp_all
  show "(\<forall>x \<in> set fs. idle_ok x) \<and> idle_ok g \<and> (\<forall>x \<in> set hs. idle_ok x)" if "g \<in> set hs" for g using that ok all by blast
  show "lock_inv k'"
    by (rule lock_inv_local [OF kinvD(7) [OF inv], where r = "running_thread k" and fs = "hs @ fs"])
      (use O tk f in \<open>simp_all add: local_to_def\<close>)
  show "cond_inv k'" using O kinvD(12) [OF inv] by (simp add: cond_inv_def)
qed


subsection \<open>Locks\<close>

lemma set_holder_inv:
  assumes inv: "kinv k" and f: "fr k (running_thread k) = Set_Holder l # fs" and run: "set_holder l (set_frames fs k) = Some k'"
  shows "kinv k'"
proof -
  let ?r = "running_thread k"
  have at: "fr k ?r = [Set_Holder l] @ fs" using f by simp
  have "thread_current (set_frames fs k) = Some ?r" by (rule cond_frames_current [OF inv popped [OF inv]])
  then have k': "k' = (set_frames fs k)\<lparr>holder := (holder k)(l := ?r)\<rparr>" using run by (simp add: set_holder_def)
  have loc: "local_to k ([] @ fs) k'" by (simp add: local_to_def k' kview cur_exists [OF inv])
  have own: "tokens l (fr k ?r) \<noteq> 0" using f by simp
  note O = token_owner [OF kinvD(7) [OF inv] own]
  have z: "tokens l (fr k' t) = 0" for t using O(1,4) f by (simp add: k' kview cur_exists [OF inv])
  have "lock_inv k'"
    by (rule lock_inv_at [OF kinvD(7) [OF inv], of l]) (use z O f in \<open>simp_all add: k' kview cur_exists [OF inv]\<close>)
  moreover have "cond_inv k'" using kinvD(12) [OF inv] by (simp add: cond_inv_def k')
  ultimately show ?thesis
    by (intro busy_inv [OF inv at _ _ loc]) (use busy_thread [OF inv at] cur_wf [OF inv at] in \<open>simp_all add: k'\<close>)
qed

lemma lock_release_inv:
  assumes inv: "kinv k" and f: "fr k (running_thread k) = gs @ fs" and gs: "gs = [] \<or> gs = [Lock_Release l]"
    and o: "only_frames k fs k1" and busy: "running_thread k \<noteq> idle_thread k" "\<forall>x \<in> set fs. \<not> is_idle x"
    and run: "lock_release l k1 = Some k'"
  shows "kinv k'"
proof -
  let ?r = "running_thread k"
  note O = o [unfolded only_frames_def local_to_def]
  have cur: "thread_current k1 = Some ?r" by (rule cond_frames_current [OF inv only_cond_frames [OF inv o]])
  have h: "holder k l = ?r" and k': "k' = set_frames ([Sema_Up (Lock_Sema l)] @ fs) (k1\<lparr>holder := (holder k)(l := 0)\<rparr>)"
    using run cur O by (auto simp: lock_release_def lock_held_by_current_thread_def ASSERT_bind push_frames_set kview split: if_splits)
  have loc: "local_to k ([Sema_Up (Lock_Sema l)] @ fs) k'" using O cur_exists [OF inv] by (simp add: local_to_def k' kview)
  note L = kinvD(7) [OF inv, unfolded lock_inv_def, THEN spec, of l]
  have z: "tokens l (fr k t) = 0" "svalue (semas k (Lock_Sema l)) = 0" for t using L h kinvD(10) [OF inv] by metis+
  have tf: "tokens x fs = tokens x (fr k ?r)" for x using f gs by auto
  have tk: "tokens x (fr k' t) = (if t = ?r then (if x = l then 1 else 0) + tokens x (fr k ?r) else tokens x (fr k t))" for x t
    using O tf cur_exists [OF inv] by (simp add: k' kview)
  have "lock_inv k'"
    by (rule lock_inv_at [OF kinvD(7) [OF inv], of l]) (use z tk O in \<open>auto simp: k'\<close>)
  moreover have "cond_inv k'" using kinvD(12) [OF inv] O by (simp add: cond_inv_def k')
  ultimately show ?thesis
    by (intro busy_inv [OF inv f busy loc]) (use cur_wf [OF inv f] O in \<open>simp_all add: k'\<close>)
qed

lemma lock_acquire_frames:
  assumes inv: "kinv k" and c: "cond_frames k fs k1" and run: "lock_acquire l k1 = Some k'"
  shows "cond_frames k ([Sema_Down (Lock_Sema l), Set_Holder l] @ fs) k'"
proof -
  have "k' = push_frames [Sema_Down (Lock_Sema l), Set_Holder l] k1"
    using run by (auto simp: lock_acquire_def lock_held_by_current_thread_def ASSERT_bind bind_Some_iff split: if_splits)
  then show ?thesis using cond_frames_push [OF inv c, of "[Sema_Down (Lock_Sema l), Set_Holder l]"] by simp
qed

lemma sema_up_frame_inv:
  assumes inv: "kinv k" and f: "fr k (running_thread k) = Sema_Up s # fs" and run: "sema_up s (set_frames fs k) = Some k'"
  shows "kinv k'"
proof (rule sema_up_inv [OF _ _ run])
  show "kinv (set_frames fs k)" by (rule pop_inv [OF inv, of "[Sema_Up s]"]) (use f in simp_all)
  show "lock_free_sema (set_frames fs k) s"
    unfolding lock_free_sema_def
  proof (intro allI impI)
    fix l assume s: "s = Lock_Sema l"
    then have own: "tokens l (fr k (running_thread k)) \<noteq> 0" using f by simp
    note O = token_owner [OF kinvD(7) [OF inv] own]
    show "svalue (semas (set_frames fs k) s) = 0 \<and> holder (set_frames fs k) l = 0 \<and> (\<forall>t. tokens l (fr (set_frames fs k) t) = 0)"
      using O f s by (simp add: kview cur_exists [OF inv])
  qed
qed


subsection \<open>Every return point\<close>

lemma thread_unblock_views:
  assumes "thread_unblock t k = Some k'"
  shows "st k' = (st k)(t := Some THREAD_READY)" "fr k' = fr k" "is_thread k' = is_thread k"
    "fifo_ready_list k' = fifo_ready_list k @ [t]" "all_list k' = all_list k" "idle_thread k' = idle_thread k"
    "running_thread k' = running_thread k" "in_external_intr k' = in_external_intr k"
    "active_sched_policy k' = active_sched_policy k" "cond_waiters k' = cond_waiters k" "semas k' = semas k" "holder k' = holder k"
  using thread_unblock_eff(1) [OF assms] by (simp_all add: thread_unblock_eff(3) [OF assms] kview)

lemma create_rest_inv:
  assumes inv: "kinv k" and f: "fr k (running_thread k) = Create_Rest t e # fs" and run: "create_rest t e (set_frames fs k) = Some k'"
  shows "kinv k'"
proof -
  let ?r = "running_thread k"
  let ?k = "set_frames fs k"
  note C = kinvD(6) [OF inv, unfolded create_inv_def]
  have cin: "Some t \<in> creates ` set (fr k ?r)" using f by force
  have t: "st k t = Some THREAD_BLOCKED" "fr k t = []" "t \<noteq> idle_thread k" using C [THEN conjunct1] cin by metis+
  have tr: "t \<noteq> ?r" using t(1) kinvD(1) [OF inv] by auto
  have fr: "fr ?k = (fr k)(?r := fs)" by (simp add: kview cur_exists [OF inv])
  have inv1: "kinv ?k" by (rule pop_inv [OF inv, of "[Create_Rest t e]"]) (use f in simp_all)
  have nt: "Some t \<notin> creates ` set (fr ?k c)" for c
  proof (cases "c = ?r")
    case True
    have "length (filter (\<lambda>f. creates f \<noteq> None) (Create_Rest t e # fs)) \<le> 1" using C [THEN conjunct2, THEN conjunct2] f by metis
    then have "filter (\<lambda>f. creates f \<noteq> None) fs = []" by simp
    then show ?thesis using True fr by (auto simp: filter_empty_conv)
  next
    case False
    then show ?thesis using fr cin C [THEN conjunct2, THEN conjunct1] by (metis fun_upd_other)
  qed
  obtain k1 where ub: "thread_unblock t (upd_thread t (\<lambda>th. th\<lparr>frames := [Kernel_Thread e]\<rparr>) k1) = Some k'"
    and k1: "k1 = upd_thread t (\<lambda>th. th\<lparr>stack := stack th - 28\<rparr>) (upd_thread t (\<lambda>th. th\<lparr>stack := stack th - 4\<rparr>)
      (upd_thread t (\<lambda>th. th\<lparr>stack := stack th - 12\<rparr>) ?k))"
    using run by (auto simp: create_rest_def alloc_frame_def ASSERT_bind bind_Some_iff split: if_splits)
  let ?k2 = "upd_thread t (\<lambda>th. th\<lparr>frames := [Kernel_Thread e]\<rparr>) k1"
  have v1: "st k1 = st ?k" "fr k1 = fr ?k" "is_thread k1 = is_thread ?k" by (simp_all add: k1 kview)
  have v2: "st ?k2 = st k1" "is_thread ?k2 = is_thread k1" "st k1 t \<noteq> None \<Longrightarrow> fr ?k2 = (fr k1)(t := [Kernel_Thread e])"
    by (auto simp: st_def fr_def is_thread_def upd_thread_def fun_eq_iff option.map_comp comp_def split: option.splits)
  have s2: "st ?k2 = st k" "is_thread ?k2 = is_thread k" "fr ?k2 = (fr ?k)(t := [Kernel_Thread e])"
    using v1 v2 t(1) by (simp_all add: kview)
  note V = thread_unblock_views [OF ub]
  have fld0: "fifo_ready_list k1 = fifo_ready_list k" "all_list k1 = all_list k" "idle_thread k1 = idle_thread k"
      "running_thread k1 = ?r" "in_external_intr k1 = in_external_intr k" "active_sched_policy k1 = active_sched_policy k"
      "cond_waiters k1 = cond_waiters k" "semas k1 = semas k" "holder k1 = holder k" by (simp_all add: k1)
  have nw: "t \<notin> set (waiters (semas k s)) \<and> distinct (waiters (semas k s))" for s
    using t(2) kinvD(3) [OF inv] unfolding wait_inv_def by fastforce
  have w: "wakes ?k t [Kernel_Thread e] k'"
    unfolding wakes_def V s2 using nw by (auto simp: fld0 kview)
  have lk: "lock_inv k'"
    by (rule lock_inv_local [OF kinvD(7) [OF inv1], where r = t and fs = "[Kernel_Thread e]"])
      (use t fr tr in \<open>simp_all add: V s2 fld0\<close>)
  have "frames_wf ?r (Create_Rest t e # fs)" using cur_frames(1) [OF inv] f by simp
  then have e: "\<forall>s. e = Entry_Idle s \<longrightarrow> (\<exists>a. s = Sema a)" by (auto split: entry.splits)
  show ?thesis
    by (rule wakes_inv [OF inv1 w _ _ nt lk]) (use t e in \<open>auto simp: kview\<close>, (cases e; auto)+)
qed

end
