(* ===== verification/Lock_Interface.thy ===== *)
theory Lock_Interface
  imports Prelude
begin

text \<open>
  What the users of a lock rely on, whatever implements it: a state machine with an invariant, in which
  a step leaves the holder of a lock as it is or is a release by the holder itself.
\<close>

locale lock_system =
  fixes inv :: "'s \<Rightarrow> bool" and step :: "'s \<Rightarrow> 's \<Rightarrow> bool" and holder :: "'s \<Rightarrow> 'l \<Rightarrow> 't" and running :: "'s \<Rightarrow> 't" and none :: 't
  assumes step_inv: "step s s' \<Longrightarrow> inv s \<Longrightarrow> inv s'"
    and step_holder: "step s s' \<Longrightarrow> inv s \<Longrightarrow> holder s l \<noteq> none \<Longrightarrow>
      holder s' l = holder s l \<or> holder s l = running s \<and> holder s' l = none"
begin

text \<open>A critical section: whatever the other threads do, the lock stays with its holder.\<close>

lemma critical_section:
  assumes "(\<lambda>a b. step a b \<and> running a \<noteq> t)\<^sup>*\<^sup>* s s'" "inv s" "holder s l = t" "t \<noteq> none"
  shows "inv s' \<and> holder s' l = t"
  using assms(1)
proof (induction rule: rtranclp_induct)
  case base
  then show ?case using assms by simp
next
  case (step a b)
  then show ?case using step_inv [of a b] step_holder [of a b l] assms(4) by auto
qed

text \<open>A lock changes hands only by way of nobody.\<close>

lemma no_handover: "step s s' \<Longrightarrow> inv s \<Longrightarrow> holder s l \<noteq> none \<Longrightarrow> holder s' l \<noteq> none \<Longrightarrow> holder s' l = holder s l"
  using step_holder by blast

end

end
