(* ===== verification/Synch_Reach.thy ===== *)
theory Synch_Reach
  imports Synch_Invariant Lock_Interface
begin

text \<open>
  The invariant of the kernel holds in every reachable state: it is preserved by every return point,
  every operation and the timer interrupt. What the threads and the users of locks may rely on
  follows from it.
\<close>

subsection \<open>Return points\<close>

lemma only_frames_push: "kinv k \<Longrightarrow> only_frames k fs k1 \<Longrightarrow> only_frames k (gs @ fs) (push_frames gs k1)"
  using only_frames_set [of k fs k1 "gs @ fs"] by (simp add: push_frames_set only_frames_def local_to_def)

lemma kernel_thread_inv:
  assumes inv: "kinv k" and f: "fr k (running_thread k) = Kernel_Thread e # fs" and run: "kernel_thread e (set_frames fs k) = Some k'"
  shows "kinv k'"
proof -
  let ?k = "(set_frames fs k)\<lparr>intr_on := True\<rparr>"
  have k': "k' = (case e of Entry_Idle s \<Rightarrow> push_frames [Idle_Start s] ?k | Entry_Fn f aux \<Rightarrow> ?k)"
    using run by (auto simp: kernel_thread_def intr_enable_def ASSERT_bind split: if_splits)
  have wf: "frames_wf (running_thread k) fs" using cur_wf [OF inv, of "[Kernel_Thread e]"] f by simp
  show ?thesis
  proof (cases e)
    case (Entry_Idle s)
    have "only_frames k ([Idle_Start s] @ fs) k'"
      unfolding k' Entry_Idle using only_frames_push [OF inv only_framesI(2) [OF inv], of "[Idle_Start s]"] by simp
    moreover have "idle_ok (Kernel_Thread e)" using cur_frames(2) [OF inv] f Entry_Idle by auto
    ultimately show ?thesis by (intro idle_inv [OF inv f, where hs = "[Idle_Start s]"]) (use wf Entry_Idle in simp_all)
  next
    case (Entry_Fn g aux)
    have "cond_frames k ([] @ fs) k'" unfolding k' using only_cond_frames [OF inv only_framesI(2) [OF inv]] Entry_Fn by simp
    then show ?thesis by (intro plain_inv [OF inv f, where hs = "[]"]) (use wf Entry_Fn in \<open>simp_all add: plain_frame_def\<close>)
  qed
qed

lemma idle_start_inv:
  assumes inv: "kinv k" and f: "fr k (running_thread k) = Idle_Start s # fs" and run: "idle_start s (set_frames fs k) = Some k'"
  shows "kinv k'"
proof -
  let ?r = "running_thread k"
  have "thread_current (set_frames fs k) = Some ?r" by (rule cond_frames_current [OF inv popped [OF inv]])
  then have k': "k' = set_frames ([Sema_Up s, Idle_Loop] @ fs) ((set_frames fs k)\<lparr>idle_thread := ?r\<rparr>)"
    using run cur_exists [OF inv] by (simp add: idle_start_def push_frames_set kview)
  have ok: "\<forall>g \<in> set (Idle_Start s # fs). idle_ok g" using cur_frames(2) [OF inv] f by auto
  then obtain a where s: "s = Sema a" by auto
  have "frames_wf ?r fs" using cur_wf [OF inv, of "[Idle_Start s]"] f by simp
  then have wf: "frames_wf ?r ([Sema_Up s, Idle_Loop] @ fs)" by simp
  have fr: "fr k' = (fr k)(?r := [Sema_Up s, Idle_Loop] @ fs)" using cur_exists [OF inv] by (simp add: k' kview)
  have loc: "local_to k ([Sema_Up s, Idle_Loop] @ fs) k'" using fr cur_exists [OF inv] by (simp add: local_to_def k' kview)
  have lk: "lock_inv k'"
    by (rule lock_inv_local [OF kinvD(7) [OF inv] fr]) (use f s in \<open>simp_all add: k'\<close>)
  have cd: "cond_inv k'" using kinvD(12) [OF inv] by (simp add: cond_inv_def k')
  have len: "length (filter (\<lambda>f. creates f \<noteq> None) ([Sema_Up s, Idle_Loop] @ fs)) \<le> 1"
    by (rule create_len [OF inv, of "[Idle_Start s]"]) (use f in simp_all)
  show ?thesis by (rule local_inv [OF inv loc wf _ _ _ len lk cd]) (use ok f s in \<open>auto simp: k'\<close>)
qed

lemma idle_loop_inv:
  assumes inv: "kinv k" and f: "fr k (running_thread k) = Idle_Loop # fs" and run: "idle_block (set_frames fs k) = Some k'"
  shows "kinv k'"
proof -
  let ?k = "set_frames ([Idle_Hlt] @ fs) k"
  have wf: "frames_wf (running_thread k) fs" using cur_wf [OF inv, of "[Idle_Loop]"] f by simp
  have inv1: "kinv ?k" by (rule idle_inv [OF inv f _ _ only_framesI(1) [OF inv]]) (use wf in simp_all)
  show ?thesis
    by (rule thread_block_inv [OF inv1 run [unfolded idle_block_def]])
      (use cur_exists [OF inv] in \<open>auto simp: push_frames_set kview\<close>)
qed

lemma idle_hlt_inv:
  assumes inv: "kinv k" and f: "fr k (running_thread k) = Idle_Hlt # fs"
  shows "kinv (idle_hlt (set_frames fs k))"
proof -
  have wf: "frames_wf (running_thread k) fs" using cur_wf [OF inv, of "[Idle_Hlt]"] f by simp
  show ?thesis unfolding idle_hlt_def
    by (rule idle_inv [OF inv f _ _ only_frames_push [OF inv only_framesI(2) [OF inv]]]) (use wf in simp_all)
qed

lemma tid_assign_inv:
  assumes inv: "kinv k" and f: "fr k (running_thread k) = Tid_Assign t # fs"
  shows "kinv (tid_assign t (set_frames fs k))"
proof -
  have wf: "frames_wf (running_thread k) fs" using cur_wf [OF inv, of "[Tid_Assign t]"] f by simp
  have "only_frames k ([Lock_Release Tid_Lock] @ fs) (tid_assign t (set_frames fs k))"
    using cur_exists [OF inv] by (simp add: only_frames_def local_to_def tid_assign_def push_frames_set kview)
  then show ?thesis
    by (intro plain_inv [OF inv f _ only_cond_frames [OF inv], where hs = "[Lock_Release Tid_Lock]"]) (use wf in \<open>simp_all add: plain_frame_def\<close>)
qed

lemma sema_frame_inv:
  assumes inv: "kinv k" and f: "fr k (running_thread k) = f # fs" and d: "downs f = Some s"
    and o: "only_frames k fs k1" and run: "sema_loop s b k1 = Some k'"
  shows "kinv k'"
proof -
  have at: "fr k (running_thread k) = [f] @ fs" using f by simp
  have "\<not> idle_ok f" using d by (cases f) auto
  then have "running_thread k \<noteq> idle_thread k" "\<forall>x \<in> set fs. \<not> is_idle x" using busy_thread [OF inv at, of f] by auto
  then show ?thesis by (intro sema_loop_inv [OF inv _ o _ _ run, of "[f]"]) (use f d in \<open>auto simp: down_site_def\<close>)
qed

text \<open>Return points of the readers-writers lock and of \<open>cond_broadcast\<close>, all of which come down to these.\<close>

definition quiet_call :: "addr \<Rightarrow> frame list \<Rightarrow> bool" where
  "quiet_call t hs \<longleftrightarrow> (\<forall>fs l. tokens l (hs @ fs) = tokens l fs \<and> frames_wf t (hs @ fs) = frames_wf t fs) \<and>
     (\<forall>g \<in> set hs. creates g = None \<and> \<not> is_idle g)"

lemma quiet_calls:
  "quiet_call t []" "quiet_call t [Lock_Release l]" "quiet_call t [Rw_Enter rw r]" "quiet_call t [Cond_Broadcast c l]"
  "quiet_call t [Lock_Acquire l]" "quiet_call t [Rw_Woken rw r]" "quiet_call t [Rw_Leave rw r]"
  "quiet_call t [Lock_Release l, Sema_Down (Waiter_Sema t), Lock_Acquire l]" "quiet_call t [Sema_Up (Waiter_Sema w)]"
  "quiet_call t [Sema_Down (Lock_Sema l), Set_Holder l]" "quiet_call t [Set_Level b]" "quiet_call t [Timer_Loop s n]"
  by (simp_all add: quiet_call_def)

lemma quiet_append: "quiet_call t gs \<Longrightarrow> quiet_call t hs \<Longrightarrow> quiet_call t (gs @ hs)"
  by (auto simp: quiet_call_def)

lemma quiet_inv:
  assumes "kinv k" "fr k (running_thread k) = f # fs" "plain_frame f" "cond_frames k (hs @ fs) k'" "quiet_call (running_thread k) hs"
  shows "kinv k'"
  by (rule plain_inv [OF assms(1-4)]) (use assms(5) cur_wf [OF assms(1), of "[f]"] assms(2) in \<open>auto simp: quiet_call_def\<close>)

lemma cond_signal_quiet:
  assumes "kinv k" "cond_frames k (hs @ fs) k1" "quiet_call (running_thread k) hs" "cond_signal c l k1 = Some k'"
  shows "\<exists>hs. cond_frames k (hs @ fs) k' \<and> quiet_call (running_thread k) hs"
  using cond_signal_frames [OF assms(1,2,4)] assms(3) quiet_append [OF quiet_calls(9) assms(3)] by (metis append.assoc append_Nil)

lemma cond_broadcast_quiet:
  assumes "kinv k" "cond_frames k (hs @ fs) k1" "quiet_call (running_thread k) hs" "cond_broadcast c l k1 = Some k'"
  shows "\<exists>hs. cond_frames k (hs @ fs) k' \<and> quiet_call (running_thread k) hs"
proof (cases "cond_waiters k1 c = []")
  case False
  have "cond_frames k (([Cond_Broadcast c l] @ hs) @ fs) (push_frames [Cond_Broadcast c l] k1)"
    using cond_frames_push [OF assms(1,2), of "[Cond_Broadcast c l]"] by simp
  then show ?thesis
    by (rule cond_signal_quiet [OF assms(1) _ quiet_append [OF quiet_calls(4) assms(3)]])
      (use assms(4) False in \<open>simp add: cond_broadcast_def\<close>)
qed (use assms in \<open>auto simp: cond_broadcast_def\<close>)

lemma rw_enter_quiet:
  assumes inv: "kinv k" and c: "cond_frames k fs k1" and run: "rw_enter rw reader k1 = Some k'"
  shows "\<exists>hs. cond_frames k (hs @ fs) k' \<and> quiet_call (running_thread k) hs"
proof -
  let ?g = "Rw_Guard rw" and ?t = "running_thread k"
  have "(\<exists>c f. cond_wait c ?g (push_frames [Rw_Woken rw reader] (upd_rw rw f k1)) = Some k') \<or>
      (\<exists>f. k' = push_frames [Lock_Release ?g] (upd_rw rw f k1))"
    using run by (auto simp: rw_enter_def Let_def split: if_splits)
  then show ?thesis
  proof (elim disjE exE)
    fix c f assume w: "cond_wait c ?g (push_frames [Rw_Woken rw reader] (upd_rw rw f k1)) = Some k'"
    have "cond_frames k ([Lock_Release ?g, Sema_Down (Waiter_Sema ?t), Lock_Acquire ?g] @ [Rw_Woken rw reader] @ fs) k'"
      by (rule cond_wait_frames [OF inv cond_frames_push [OF inv cond_frames_rw [OF c]] w])
    then show ?thesis using quiet_append [OF quiet_calls(8) quiet_calls(6)] by (metis append.assoc)
  next
    fix f assume "k' = push_frames [Lock_Release ?g] (upd_rw rw f k1)"
    then show ?thesis using cond_frames_push [OF inv cond_frames_rw [OF c]] quiet_calls(2) by metis
  qed
qed

lemma rw_leave_quiet:
  assumes inv: "kinv k" and c: "cond_frames k fs k1" and run: "rw_leave rw reader k1 = Some k'"
  shows "\<exists>hs. cond_frames k (hs @ fs) k' \<and> quiet_call (running_thread k) hs"
proof -
  let ?g = "Rw_Guard rw" and ?t = "running_thread k"
  have "\<exists>f. let k2 = push_frames [Lock_Release ?g] (upd_rw rw f k1) in
      k' = k2 \<or> (\<exists>c. cond_signal c ?g k2 = Some k') \<or> (\<exists>c. cond_broadcast c ?g k2 = Some k')"
    using run by (auto simp: rw_leave_def Let_def split: if_splits)
  then obtain f where f: "let k2 = push_frames [Lock_Release ?g] (upd_rw rw f k1) in
      k' = k2 \<or> (\<exists>c. cond_signal c ?g k2 = Some k') \<or> (\<exists>c. cond_broadcast c ?g k2 = Some k')" ..
  have "cond_frames k ([Lock_Release ?g] @ fs) (push_frames [Lock_Release ?g] (upd_rw rw f k1))"
    by (rule cond_frames_push [OF inv cond_frames_rw [OF c]])
  then show ?thesis
    using f quiet_calls(2) [of ?t ?g] cond_signal_quiet [OF inv] cond_broadcast_quiet [OF inv] unfolding Let_def by metis
qed

lemma timer_loop_inv:
  assumes inv: "kinv k" and f: "fr k (running_thread k) = Timer_Loop s n # fs" and run: "timer_loop s n (set_frames fs k) = Some k'"
  shows "kinv k'"
proof -
  have p: "plain_frame (Timer_Loop s n)" by (simp add: plain_frame_def)
  have "kinv (set_frames fs k)" by (rule quiet_inv [OF inv f p _ quiet_calls(1)]) (simp add: popped [OF inv])
  moreover have "kinv (push_frames [Timer_Loop s n] (set_frames fs k))"
    by (rule quiet_inv [OF inv f p cond_frames_push [OF inv popped [OF inv]] quiet_calls(12)])
  moreover have "timer_elapsed s (set_frames fs k) = Some (ticks (set_frames fs k) - s, set_frames fs k)"
    by (rule timer_elapsed_run) (simp add: kinvD(11) [OF inv])
  ultimately show ?thesis using run thread_yield_inv by (auto simp: timer_loop_def split: if_splits)
qed

lemma resume_inv:
  assumes inv: "kinv k" and run: "resume k = Some k'"
  shows "kinv k'"
proof -
  obtain f fs where f: "fr k (running_thread k) = f # fs" and r: "run_frame f (set_frames fs k) = Some k'"
    using resume_frames [OF inv run] by metis
  note pop = popped [OF inv, of fs]
  have quiet: ?thesis if "plain_frame f" "\<exists>hs. cond_frames k (hs @ fs) k' \<and> quiet_call (running_thread k) hs"
    using quiet_inv [OF inv f that(1)] that(2) by blast
  show ?thesis
  proof (cases f)
    case (Kernel_Thread e)
    then show ?thesis using kernel_thread_inv [OF inv] f r by simp
  next
    case (Set_Level b)
    then have "kinv (set_frames fs k)" by (intro pop_inv [OF inv, of "[f]"]) (use f in simp_all)
    then show ?thesis using set_level_inv r Set_Level by simp
  next
    case (Idle_Start s)
    then show ?thesis using idle_start_inv [OF inv] f r by simp
  next
    case Idle_Loop
    then show ?thesis using idle_loop_inv [OF inv] f r by simp
  next
    case Idle_Hlt
    then show ?thesis using idle_hlt_inv [OF inv] f r by auto
  next
    case (Tid_Assign t)
    then show ?thesis using tid_assign_inv [OF inv] f r by auto
  next
    case (Create_Rest t e)
    then show ?thesis using create_rest_inv [OF inv] f r by simp
  next
    case (Sema_Down s)
    then show ?thesis using sema_frame_inv [OF inv f _ only_framesI(3) [OF inv]] r
      by (auto simp: sema_down_def ASSERT_bind split: if_splits)
  next
    case (Sema_Loop s b)
    then show ?thesis using sema_frame_inv [OF inv f _ only_framesI(1) [OF inv]] r by simp
  next
    case (Sema_Up s)
    then show ?thesis using sema_up_frame_inv [OF inv] f r by simp
  next
    case (Lock_Acquire l)
    then have "cond_frames k ([Sema_Down (Lock_Sema l), Set_Holder l] @ fs) k'" using lock_acquire_frames [OF inv pop] r by simp
    then show ?thesis using Lock_Acquire quiet_calls(10) by (intro quiet) (simp add: plain_frame_def, blast)
  next
    case (Set_Holder l)
    then show ?thesis using set_holder_inv [OF inv] f r by simp
  next
    case (Lock_Release l)
    have at: "fr k (running_thread k) = [Lock_Release l] @ fs" using f Lock_Release by simp
    show ?thesis
      by (rule lock_release_inv [OF inv at _ only_framesI(1) [OF inv]]) (use busy_thread [OF inv at] r Lock_Release in auto)
  next
    case (Cond_Broadcast c l)
    then show ?thesis using cond_broadcast_quiet [OF inv, of "[]", OF _ quiet_calls(1)] pop r
      by (intro quiet) (auto simp: plain_frame_def)
  next
    case (Rw_Enter rw b)
    then show ?thesis using rw_enter_quiet [OF inv pop] r by (intro quiet) (auto simp: plain_frame_def)
  next
    case (Rw_Woken rw b)
    then have "cond_frames k ([Rw_Enter rw b] @ fs) k'"
      using cond_frames_push [OF inv cond_frames_rw [OF pop], of "[Rw_Enter rw b]"] r by (auto simp: rw_woken_def)
    then show ?thesis using Rw_Woken quiet_calls(3) by (intro quiet) (simp add: plain_frame_def, blast)
  next
    case (Rw_Leave rw b)
    then show ?thesis using rw_leave_quiet [OF inv pop] r by (intro quiet) (auto simp: plain_frame_def)
  next
    case (Timer_Loop s n)
    then show ?thesis using timer_loop_inv [OF inv] f r by simp
  qed
qed

subsection \<open>Operations\<close>

lemma kinv_cong:
  assumes "threads k' = threads k" "fifo_ready_list k' = fifo_ready_list k" "all_list k' = all_list k" "idle_thread k' = idle_thread k"
    "running_thread k' = running_thread k" "in_external_intr k' = in_external_intr k" "active_sched_policy k' = active_sched_policy k"
    "semas k' = semas k" "holder k' = holder k" "cond_waiters k' = cond_waiters k"
  shows "kinv k' = kinv k"
proof -
  have v: "st k' = st k" "fr k' = fr k" "is_thread k' = is_thread k" using view_cong [OF assms(1)] by simp_all
  show ?thesis
    by (simp only: kinv_def core_inv_def run_inv_def ready_inv_def wait_inv_def thread_inv_def all_inv_def create_inv_def
        lock_inv_def cond_inv_def v assms(2-10))
qed

lemma call_inv:
  assumes inv: "kinv k" and f: "fr k (running_thread k) = []" and i: "running_thread k \<noteq> idle_thread k"
    and c: "cond_frames k hs k'" and q: "quiet_call (running_thread k) hs"
  shows "kinv k'"
  by (rule cond_frames_inv [OF inv, of "[]" "[]" hs])
    (use f i c q [unfolded quiet_call_def, THEN conjunct1, THEN spec, of "[]"] q in \<open>auto simp: quiet_call_def\<close>)

lemma init_thread_eff:
  assumes "init_thread t name prio k = Some k'" "threads k t = None"
  shows "t \<noteq> 0" "st k' = (st k)(t := Some THREAD_BLOCKED)" "fr k' = fr k" "is_thread k' = (is_thread k)(t := True)"
    "all_list k' = all_list k @ [t]" "fifo_ready_list k' = fifo_ready_list k" "idle_thread k' = idle_thread k"
    "running_thread k' = running_thread k" "in_external_intr k' = in_external_intr k"
    "active_sched_policy k' = active_sched_policy k" "semas k' = semas k" "holder k' = holder k" "cond_waiters k' = cond_waiters k"
  using assms by (auto simp: init_thread_def ASSERT_bind Let_def intr_set_level_def intr_enable_def intr_disable_def
      st_def fr_def is_thread_def fun_eq_iff THREAD_MAGIC_def split: if_splits)

lemma init_thread_inv:
  assumes inv: "kinv k" and run: "init_thread t name prio k = Some k'" and new: "threads k t = None"
  shows "kinv k'" "fresh_thread k' t" "running_thread k' = running_thread k" "fr k' = fr k" "idle_thread k' = idle_thread k"
proof -
  note e = init_thread_eff [OF run new]
  note d = kinvD [OF inv]
  have n: "st k t = None" "fr k t = []" using new by (simp_all add: st_def fr_def)
  have ne: "st k x \<noteq> None \<Longrightarrow> x \<noteq> t" for x using n by auto
  have ready: "ready_inv k'" using d(2) n by (auto simp: ready_inv_def e)
  have wait: "wait_inv k'" using d(3) n by (auto simp: wait_inv_def e)
  have thr: "thread_inv k'" using d(4) n e(1) unfolding thread_inv_def e by (auto simp del: not_None_eq)
  have al: "all_inv k'" using d(5) n by (auto simp: all_inv_def e)
  note c = d(6) [unfolded create_inv_def]
  have tgt: "st k x = Some THREAD_BLOCKED \<and> fr k x = [] \<and> x \<noteq> idle_thread k" if "Some x \<in> creates ` set (fr k y)" for x y
    using c [THEN conjunct1] that by metis
  then have nt: "Some t \<notin> creates ` set (fr k y)" for y using n by (metis option.distinct(1))
  have cr: "create_inv k'"
  proof (rule create_invI)
    show "\<forall>c x. Some x \<in> creates ` set (fr k' c) \<longrightarrow> st k' x = Some THREAD_BLOCKED \<and> fr k' x = [] \<and> x \<noteq> idle_thread k'"
      unfolding e using tgt by (metis fun_upd_apply)
    show "\<forall>c c' x. Some x \<in> creates ` set (fr k' c) \<longrightarrow> Some x \<in> creates ` set (fr k' c') \<longrightarrow> c = c'"
      unfolding e by (rule c [THEN conjunct2, THEN conjunct1])
    show "length (filter (\<lambda>f. creates f \<noteq> None) (fr k' x)) \<le> 1" for x
      unfolding e using c [THEN conjunct2, THEN conjunct2] by blast
  qed
  have lk: "lock_inv k'" using d(7) unfolding lock_inv_def e .
  have "t \<noteq> running_thread k" using d(1) n by auto
  then have "run_inv k'" using d(8) by (auto simp: run_inv_def e)
  then show "kinv k'" using ready wait thr al cr lk d(12) by (simp add: kinv_def core_inv_def cond_inv_def e)
  have "t \<noteq> idle_thread k" using d(4) n e(1) by (auto simp: thread_inv_def)
  then show "fresh_thread k' t" using n nt by (simp add: fresh_thread_def e)
qed (simp_all add: init_thread_eff [OF run new])

lemma thread_create_inv:
  assumes inv: "kinv k" and run: "thread_create p name prio e k = Some k'" and new: "threads k p = None"
    and busy: "running_thread k \<noteq> idle_thread k" and fs: "\<forall>g \<in> set (fr k (running_thread k)). \<not> is_idle g \<and> creates g = None"
    and e: "\<forall>s. e = Entry_Idle s \<longrightarrow> (\<exists>a. s = Sema a)"
  shows "kinv k'"
proof (cases "p = 0")
  case False
  let ?gs = "[Lock_Acquire Tid_Lock, Tid_Assign p, Create_Rest p e]"
  obtain k1 where i: "init_thread p name prio k = Some k1" and k': "k' = push_frames ?gs k1"
    using run False by (auto simp: thread_create_def bind_Some_iff)
  note I = init_thread_inv [OF inv i new]
  let ?r = "running_thread k" and ?fs = "?gs @ fr k (running_thread k)"
  have o: "only_frames k1 ?fs k'"
    unfolding k' using only_frames_push [OF I(1) only_frames_refl(1), of ?gs] I(3,4) by simp
  note O = o [unfolded only_frames_def]
  have wf: "frames_wf (running_thread k1) ?fs" using cur_frames(1) [OF inv] e I(3) by (auto split: entry.splits)
  have lk: "lock_inv k'"
    by (rule lock_inv_local [OF kinvD(7) [OF I(1)], where r = ?r and fs = ?fs]) (use O I(3,4) in \<open>simp_all add: local_to_def\<close>)
  have cd: "cond_inv k'" using O kinvD(12) [OF I(1)] by (simp add: cond_inv_def)
  have "filter (\<lambda>f. creates f \<noteq> None) (fr k ?r) = []" using fs by (simp add: filter_empty_conv)
  then have len: "length (filter (\<lambda>f. creates f \<noteq> None) ?fs) \<le> 1" by simp
  show ?thesis
    by (rule local_create_inv [OF I(1) _ wf _ _ _ len lk cd]) (use O I(2,3,5) busy fs in auto)
qed (use run inv in \<open>simp add: thread_create_def\<close>)

lemma lock_init_inv:
  assumes inv: "kinv k" and u: "lock_unused k l"
  shows "kinv (lock_init l k)"
proof -
  let ?k = "lock_init l k" and ?r = "running_thread k"
  have fld: "fr ?k = fr k" "holder ?k = (holder k)(l := 0)" "idle_thread ?k = idle_thread k" "cond_waiters ?k = cond_waiters k"
      "\<And>x. svalue (semas ?k x) = (if x = Lock_Sema l then 1 else svalue (semas k x))"
    by (simp_all add: lock_init_def sema_init_def kview)
  have loc: "local_to k ([] @ fr k ?r) ?k"
    using u by (simp add: local_to_def lock_init_def sema_init_def kview lock_unused_def)
  have "lock_inv ?k"
    by (rule lock_inv_at [OF kinvD(7) [OF inv], of l]) (use u in \<open>simp_all add: fld lock_unused_def\<close>)
  moreover have "cond_inv ?k" using kinvD(12) [OF inv] by (simp add: cond_inv_def fld)
  ultimately show ?thesis
    by (intro replace_frame_inv [OF inv, where gs = "[]" and hs = "[]", OF _ loc]) (use cur_frames [OF inv] in \<open>simp_all add: fld\<close>)
qed

lemma lock_try_acquire_inv:
  assumes inv: "kinv k" and f: "fr k (running_thread k) = []" and i: "running_thread k \<noteq> idle_thread k"
    and run: "lock_try_acquire l k = Some (b, k')"
  shows "kinv k'"
proof (cases "svalue (semas k (Lock_Sema l)) = 0")
  case True
  have "cond_frames k [] k'"
    using run True only_cond_frames [OF inv only_frames_refl(1)] f kinvD(12) [OF inv]
    by (auto simp: lock_try_acquire_def lock_held_by_current_thread_def sema_try_down_def ASSERT_bind bind_Some_iff Let_def
        intr_set_level_def intr_enable_def intr_disable_def cond_frames_def local_to_def kview cond_inv_def split: if_splits)
  then show ?thesis by (rule call_inv [OF inv f i _ quiet_calls(1)])
next
  case False
  let ?r = "running_thread k"
  have "0 < svalue (semas k (Lock_Sema l))" using False by (simp add: word_gt_0)
  then obtain lv where k': "k' = set_frames [Set_Holder l] ((set_svalue (Lock_Sema l) (svalue (semas k (Lock_Sema l)) - 1) k)\<lparr>intr_on := lv\<rparr>)"
    using run f by (auto simp: lock_try_acquire_def lock_held_by_current_thread_def sema_try_down_def ASSERT_bind bind_Some_iff Let_def
        intr_set_level_def intr_enable_def intr_disable_def set_svalue_def push_frames_set kview split: if_splits)
  have fr: "fr k' = (fr k)(?r := [Set_Holder l])" using cur_exists [OF inv] by (simp add: k' kview)
  have loc: "local_to k ([Set_Holder l] @ []) k'" using fr cur_exists [OF inv] by (simp add: local_to_def k' kview)
  have "lock_inv k'"
    by (rule take_lock_inv [OF kinvD(7) [OF inv] False, of k' ?r]) (use f in \<open>auto simp: fr, simp_all add: k'\<close>)
  moreover have "cond_inv k'" using kinvD(12) [OF inv] by (simp add: cond_inv_def k')
  ultimately show ?thesis by (intro busy_inv [OF inv _ i _ loc, where gs = "[]"]) (use f in \<open>simp_all add: k'\<close>)
qed

lemma sema_init_frames:
  assumes "kinv k" "waiters (semas k (Sema a)) = []"
  shows "cond_frames k (fr k (running_thread k)) (sema_init (Sema a) v k)"
  using assms kinvD(12) [of k] by (simp add: cond_frames_def local_to_def sema_init_def kview cond_inv_def)

lemma thread_start_inv:
  assumes inv: "kinv k" and f: "fr k (running_thread k) = []" and i: "running_thread k \<noteq> idle_thread k"
    and new: "threads k p = None" and w: "waiters (semas k (Sema 1)) = []" and run: "thread_start p k = Some k'"
  shows "kinv k'"
proof -
  let ?gs = "[Set_Level True, Sema_Down (Sema 1)]"
  let ?k = "push_frames ?gs (sema_init (Sema 1) 0 k)"
  have c: "cond_frames k ?gs ?k" using cond_frames_push [OF inv sema_init_frames [OF inv w], of ?gs 0] f by simp
  have inv1: "kinv ?k" by (rule call_inv [OF inv f i c]) (simp add: quiet_call_def)
  note C = c [unfolded cond_frames_def local_to_def]
  have "st ?k p = None" using C new by (simp add: st_def)
  then have n: "threads ?k p = None" by (simp add: st_def)
  show ?thesis by (rule thread_create_inv [OF inv1 run [unfolded thread_start_def] n]) (use C i in auto)
qed

lemma set_priority_inv:
  assumes inv: "kinv k" and run: "thread_set_priority p k = Some k'"
    and f: "fr k (running_thread k) = []" and i: "running_thread k \<noteq> idle_thread k"
  shows "kinv k'"
proof -
  have "k' = upd_thread (running_thread k) (\<lambda>th. th\<lparr>priority := p\<rparr>) k"
    using run thread_current_kinv [OF inv] by (simp add: thread_set_priority_def)
  then have "cond_frames k [] k'"
    using f kinvD(12) [OF inv] by (auto simp: cond_frames_def local_to_def kview cond_inv_def fun_eq_iff)
  then show ?thesis by (rule call_inv [OF inv f i _ quiet_calls(1)])
qed

lemma sema_op_inv:
  assumes inv: "kinv k" and f: "fr k (running_thread k) = []" and i: "running_thread k \<noteq> idle_thread k"
  shows "waiters (semas k (Sema a)) = [] \<Longrightarrow> kinv (sema_init (Sema a) v k)"
    "sema_down (Sema a) k = Some k' \<Longrightarrow> kinv k'" "sema_try_down (Sema a) k = Some (b, k') \<Longrightarrow> kinv k'"
    "sema_up (Sema a) k = Some k' \<Longrightarrow> kinv k'"
proof -
  show "kinv (sema_init (Sema a) v k)" if "waiters (semas k (Sema a)) = []"
    using sema_init_frames [OF inv that] call_inv [OF inv f i _ quiet_calls(1)] f by simp
  show "kinv k'" if "sema_down (Sema a) k = Some k'"
    by (rule sema_loop_inv [OF inv, of "Sema a" "[]" "[]" "intr_disable k"])
      (use that f i only_frames_refl(2) [of k] in \<open>auto simp: down_site_def sema_down_def ASSERT_bind split: if_splits\<close>)
  show "kinv k'" if "sema_try_down (Sema a) k = Some (b, k')"
  proof (rule call_inv [OF inv f i _ quiet_calls(1)])
    have "kinv k \<Longrightarrow> cond_inv k" by (rule kinvD(12))
    then show "cond_frames k [] k'"
      using that inv f by (auto simp: sema_try_down_def Let_def bind_Some_iff ASSERT_bind intr_set_level_def intr_enable_def
          intr_disable_def cond_frames_def local_to_def kview cond_inv_def set_svalue_def split: if_splits)
  qed
  show "kinv k'" if "sema_up (Sema a) k = Some k'"
    by (rule sema_up_inv [OF inv _ that]) (simp add: lock_free_sema_def)
qed

lemma lock_op_inv:
  assumes inv: "kinv k" and f: "fr k (running_thread k) = []" and i: "running_thread k \<noteq> idle_thread k"
  shows "lock_acquire l k = Some k' \<Longrightarrow> kinv k'" "lock_release l k = Some k' \<Longrightarrow> kinv k'"
    "cond_wait c l k = Some k' \<Longrightarrow> kinv k'" "cond_signal c l k = Some k' \<Longrightarrow> kinv k'"
    "cond_broadcast c l k = Some k' \<Longrightarrow> kinv k'" "kinv (cond_init c k)"
proof -
  have id: "cond_frames k [] k" using only_cond_frames [OF inv only_frames_refl(1)] f by simp
  note call = call_inv [OF inv f i]
  show "kinv k'" if "lock_acquire l k = Some k'" using lock_acquire_frames [OF inv id that] call quiet_calls(10) by simp
  show "kinv k'" if "lock_release l k = Some k'"
    by (rule lock_release_inv [OF inv, of "[]" "[]"]) (use that f i only_frames_refl(1) [of k] in auto)
  show "kinv k'" if "cond_wait c l k = Some k'" using cond_wait_frames [OF inv id that] call quiet_calls(8) by simp
  show "kinv k'" if "cond_signal c l k = Some k'"
    using cond_signal_quiet [OF inv, of "[]" "[]"] id that quiet_calls(1) call by fastforce
  show "kinv k'" if "cond_broadcast c l k = Some k'"
    using cond_broadcast_quiet [OF inv, of "[]" "[]"] id that quiet_calls(1) call by fastforce
  have "cond_frames k [] (cond_init c k)"
    using id by (simp add: cond_frames_def local_to_def cond_init_def kview cond_inv_def)
  then show "kinv (cond_init c k)" by (rule call [OF _ quiet_calls(1)])
qed

lemma rw_op_inv:
  assumes inv: "kinv k" and f: "fr k (running_thread k) = []" and i: "running_thread k \<noteq> idle_thread k"
  shows "lock_unused k (Rw_Guard a) \<Longrightarrow> kinv (rw_lock_init a k)" "kinv (rw_lock_acquire a r k)" "kinv (rw_lock_release a r k)"
proof -
  have id: "cond_frames k [] k" using only_cond_frames [OF inv only_frames_refl(1)] f by simp
  show "kinv (rw_lock_acquire a r k)" "kinv (rw_lock_release a r k)"
    unfolding rw_lock_acquire_def rw_lock_release_def
    by (rule call_inv [OF inv f i], rule cond_frames_push [OF inv id], simp add: quiet_call_def)+
  assume u: "lock_unused k (Rw_Guard a)"
  let ?k = "lock_init (Rw_Guard a) k"
  have inv1: "kinv ?k" by (rule lock_init_inv [OF inv u])
  have fld: "fr ?k = fr k" "running_thread ?k = running_thread k" "idle_thread ?k = idle_thread k"
    by (simp_all add: lock_init_def sema_init_def kview)
  have "cond_frames ?k [] (rw_lock_init a k)"
    using f kinvD(12) [OF inv1] fld
    by (auto simp: rw_lock_init_def Let_def cond_init_def cond_frames_def local_to_def kview cond_inv_def fun_eq_iff)
  then show "kinv (rw_lock_init a k)" by (intro call_inv [OF inv1 _ _ _ quiet_calls(1)]) (use f i fld in simp_all)
qed

lemma timer_op_inv:
  assumes inv: "kinv k" and f: "fr k (running_thread k) = []" and i: "running_thread k \<noteq> idle_thread k"
  shows "timer_sleep n k = Some k' \<Longrightarrow> kinv k'" "real_time_sleep n d k = Some k' \<Longrightarrow> kinv k'"
proof -
  have id: "cond_frames k [] k" using only_cond_frames [OF inv only_frames_refl(1)] f by simp
  have sl: "kinv k'" if "timer_sleep n k = Some k'" for n
  proof -
    have "k' = push_frames [Timer_Loop (ticks k) n] k"
      using that kinvD(11) [OF inv] by (auto simp: timer_sleep_def timer_ticks_run ASSERT_bind split: if_splits)
    then show ?thesis using call_inv [OF inv f i cond_frames_push [OF inv id], of "[Timer_Loop (ticks k) n]"] quiet_calls(12) by simp
  qed
  show "timer_sleep n k = Some k' \<Longrightarrow> kinv k'" by (rule sl)
  show "kinv k'" if "real_time_sleep n d k = Some k'"
    using that inv sl by (auto simp: real_time_sleep_def real_time_delay_def ASSERT_bind Let_def split: if_splits)
qed

lemma exec_op_inv:
  assumes inv: "kinv k" and f: "fr k (running_thread k) = []" and i: "running_thread k \<noteq> idle_thread k"
    and ok: "op_ok k op" and run: "exec_op op k = Some k'"
  shows "kinv k'"
proof (cases op)
  case (Op_Create p name prio g aux)
  then show ?thesis by (intro thread_create_inv [OF inv _ _ i, of p name prio "Entry_Fn g aux"]) (use run ok f in auto)
qed (use run ok sema_op_inv [OF inv f i] lock_op_inv [OF inv f i] rw_op_inv [OF inv f i] timer_op_inv [OF inv f i] lock_init_inv [OF inv]
      lock_try_acquire_inv [OF inv f i] thread_start_inv [OF inv f i] set_priority_inv [OF inv _ f i]
      thread_yield_inv [OF inv] thread_exit_inv [OF inv _ f i]
      in \<open>auto simp: timer_msleep_def timer_usleep_def timer_nsleep_def\<close>)


subsection \<open>The timer interrupt\<close>

lemma push_level_inv:
  assumes inv: "kinv k"
  shows "kinv (push_frames [Set_Level b] (intr_disable k))"
proof -
  let ?r = "running_thread k"
  have o: "only_frames k ([Set_Level b] @ fr k ?r) (push_frames [Set_Level b] (intr_disable k))"
    by (rule only_frames_push [OF inv only_frames_refl(2)])
  note O = o [unfolded only_frames_def]
  have "lock_inv (push_frames [Set_Level b] (intr_disable k))"
    by (rule lock_inv_local [OF kinvD(7) [OF inv], where r = ?r and fs = "[Set_Level b] @ fr k ?r"])
      (use O in \<open>simp_all add: local_to_def\<close>)
  moreover have "cond_inv (push_frames [Set_Level b] (intr_disable k))" using O kinvD(12) [OF inv] by (simp add: cond_inv_def)
  ultimately show ?thesis
    by (intro replace_frame_inv [OF inv, where gs = "[]" and hs = "[Set_Level b]" and fs = "fr k ?r"])
      (use O cur_frames [OF inv] in auto)
qed

lemma thread_tick_fields:
  assumes "thread_tick k = Some k'"
  shows "\<exists>a b c d e. k' = k\<lparr>idle_ticks := a, kernel_ticks := b, user_ticks := c, thread_ticks := d, yield_on_return := e\<rparr>"
proof -
  have same: "k = k\<lparr>idle_ticks := idle_ticks k, kernel_ticks := kernel_ticks k, user_ticks := user_ticks k,
      thread_ticks := thread_ticks k, yield_on_return := yield_on_return k\<rparr>" by simp
  obtain a b c where "k' = k\<lparr>idle_ticks := a, kernel_ticks := b, user_ticks := c, thread_ticks := thread_ticks k + 1\<rparr> \<or>
      k' = k\<lparr>idle_ticks := a, kernel_ticks := b, user_ticks := c, thread_ticks := thread_ticks k + 1, yield_on_return := True\<rparr>"
    using assms by (cases k) (auto simp: thread_tick_def intr_yield_on_return_def ASSERT_bind bind_Some_iff Let_def split: if_splits)
  then show ?thesis
    by (elim disjE) (intro exI [of _ a] exI [of _ b] exI [of _ c] exI [of _ "thread_ticks k + 1"] exI [of _ "yield_on_return k"]
        exI [of _ True]; simp)+
qed

lemma timer_inv:
  assumes inv: "kinv k" and run: "timer_irq k = Some k'"
  shows "kinv k'"
proof -
  let ?k = "push_frames [Set_Level True] (intr_disable k)"
  obtain k2 where t: "timer_interrupt (?k\<lparr>in_external_intr := True, yield_on_return := False\<rparr>) = Some k2"
    and y: "k' = k2\<lparr>in_external_intr := False\<rparr> \<or> thread_yield (k2\<lparr>in_external_intr := False\<rparr>) = Some k'"
    using run by (auto simp: timer_irq_def intr_handler_def ASSERT_bind bind_Some_iff Let_def split: if_splits)
  have inv1: "kinv ?k" by (rule push_level_inv [OF inv])
  obtain a b c d e m where "k2 = ?k\<lparr>in_external_intr := True, ticks := m, idle_ticks := a, kernel_ticks := b, user_ticks := c,
      thread_ticks := d, yield_on_return := e\<rparr>"
    using thread_tick_fields [OF t [unfolded timer_interrupt_def]] by auto
  then have "kinv (k2\<lparr>in_external_intr := False\<rparr>) = kinv ?k" by (intro kinv_cong) (use kinvD(11) [OF inv1] in simp_all)
  then show ?thesis using y inv1 thread_yield_inv by blast
qed


subsection \<open>Reachable states\<close>

lemma init_inv:
  assumes p: "p \<noteq> 0" and run: "thread_init p = Some k"
  shows "kinv k"
proof -
  have T: "threads k = [p \<mapsto> \<lparr>tid = 0, status = THREAD_RUNNING, tname = take 15 (map of_char ''main''), stack = p + PGSIZE,
      priority = PRI_DEFAULT, pcb = 0, magic = THREAD_MAGIC, frames = [Lock_Acquire Tid_Lock, Tid_Assign p]\<rparr>]"
    and k: "fifo_ready_list k = []" "all_list k = [p]" "idle_thread k = 0" "running_thread k = p" "\<not> in_external_intr k"
      "active_sched_policy k = SCHED_FIFO" "holder k = (\<lambda>_. 0)" "cond_waiters k = (\<lambda>_. [])"
      "semas k = (\<lambda>_. \<lparr>svalue = 0, waiters = []\<rparr>)(Lock_Sema Tid_Lock := \<lparr>svalue = 1, waiters = []\<rparr>)"
    using run by (auto simp: thread_init_def Let_def lock_init_def sema_init_def init_thread_def ASSERT_bind intr_set_level_def
        intr_disable_def set_status_def upd_thread_def push_frames_def bind_Some_iff split: if_splits)
  have st: "st k = [p \<mapsto> THREAD_RUNNING]" by (simp add: st_def T fun_eq_iff)
  have fr: "fr k = (\<lambda>t. if t = p then [Lock_Acquire Tid_Lock, Tid_Assign p] else [])" by (simp add: fr_def T fun_eq_iff)
  have th: "is_thread k p" using p by (simp add: is_thread_def T)
  have "thread_inv k" using th p unfolding thread_inv_def st fr by (auto simp: k)
  moreover have "create_inv k" by (rule create_invI) (auto simp: fr)
  moreover have "lock_inv k" by (simp add: lock_inv_def k fr)
  ultimately show ?thesis
    by (simp add: kinv_def core_inv_def run_inv_def ready_inv_def wait_inv_def all_inv_def cond_inv_def k st)
qed

lemma kstep_inv: "kstep k k' \<Longrightarrow> kinv k \<Longrightarrow> kinv k'"
  by (induction rule: kstep.induct) (auto intro: resume_inv exec_op_inv timer_inv)

lemma kreach_inv: "kreach k \<Longrightarrow> kinv k"
  by (induction rule: kreach.induct) (auto intro: init_inv kstep_inv)


subsection \<open>The holder of a lock\<close>

named_theorems keeps_holder \<open>steps that leave the holders of locks alone\<close>

lemma holder_switch [keeps_holder]:
  "schedule k = Some k' \<Longrightarrow> holder k' = holder k" "intr_set_level b k = Some k' \<Longrightarrow> holder k' = holder k"
  "thread_enqueue t k = Some k' \<Longrightarrow> holder k' = holder k"
proof -
  show "holder k' = holder k" if "schedule k = Some k'"
    using that by (cases "active_sched_policy k") (auto simp: schedule_def next_thread_to_run_def thread_switch_tail_def Let_def
        ASSERT_bind bind_Some_iff split: if_splits list.splits)
qed (auto simp: intr_set_level_def intr_enable_def thread_enqueue_def ASSERT_bind split: if_splits)

lemma holder_push [simp]: "holder (push_frames fs k) = holder k"
  by (simp add: push_frames_def)

lemma holder_thread [keeps_holder]:
  "thread_unblock t k = Some k' \<Longrightarrow> holder k' = holder k" "thread_block k = Some k' \<Longrightarrow> holder k' = holder k"
  "thread_exit k = Some k' \<Longrightarrow> holder k' = holder k" "thread_yield k = Some k' \<Longrightarrow> holder k' = holder k"
  "init_thread t name prio k = Some k' \<Longrightarrow> holder k' = holder k" "thread_set_priority p k = Some k' \<Longrightarrow> holder k' = holder k"
  "thread_tick k = Some k' \<Longrightarrow> holder k' = holder k" "timer_interrupt k = Some k' \<Longrightarrow> holder k' = holder k"
  by (auto simp: thread_unblock_def thread_block_def thread_exit_def thread_yield_def init_thread_def thread_set_priority_def
      timer_interrupt_def
      ASSERT_bind bind_Some_iff Let_def split: if_splits dest!: keeps_holder dest: thread_tick_fields)

lemma holder_create [keeps_holder]:
  "thread_create t name prio e k = Some k' \<Longrightarrow> holder k' = holder k" "create_rest t e k = Some k' \<Longrightarrow> holder k' = holder k"
  "kernel_thread e k = Some k' \<Longrightarrow> holder k' = holder k" "idle_start s k = Some k' \<Longrightarrow> holder k' = holder k"
  "idle_block k = Some k' \<Longrightarrow> holder k' = holder k"
  by (auto simp: thread_create_def create_rest_def alloc_frame_def kernel_thread_def intr_enable_def idle_start_def idle_block_def
      ASSERT_bind bind_Some_iff split: if_splits entry.splits dest!: holder_thread)

lemma holder_sema [keeps_holder]:
  "sema_loop s b k = Some k' \<Longrightarrow> holder k' = holder k" "sema_down s k = Some k' \<Longrightarrow> holder k' = holder k"
  "sema_try_down s k = Some (r, k') \<Longrightarrow> holder k' = holder k" "sema_up s k = Some k' \<Longrightarrow> holder k' = holder k"
proof -
  show loop: "holder k' = holder k" if "sema_loop s b k = Some k'" for b k
    using that by (auto simp: sema_loop_def Let_def bind_Some_iff split: if_splits dest!: holder_thread holder_switch)
  show "holder k' = holder k" if "sema_down s k = Some k'"
    using that loop by (auto simp: sema_down_def ASSERT_bind split: if_splits)
qed (auto simp: sema_try_down_def sema_up_def Let_def bind_Some_iff split: if_splits list.splits dest!: holder_thread holder_switch)

lemma holder_lock [keeps_holder]:
  "lock_acquire l k = Some k' \<Longrightarrow> holder k' = holder k" "lock_try_acquire l k = Some (r, k') \<Longrightarrow> holder k' = holder k"
  "cond_wait c l k = Some k' \<Longrightarrow> holder k' = holder k" "cond_signal c l k = Some k' \<Longrightarrow> holder k' = holder k"
  "cond_broadcast c l k = Some k' \<Longrightarrow> holder k' = holder k"
proof -
  show sig: "holder k' = holder k" if "cond_signal c l k = Some k'" for k
    using that by (auto simp: cond_signal_def ASSERT_bind bind_Some_iff split: if_splits list.splits)
  show "holder k' = holder k" if "cond_broadcast c l k = Some k'"
    using that sig by (auto simp: cond_broadcast_def split: if_splits)
qed (auto simp: lock_acquire_def lock_try_acquire_def cond_wait_def sema_init_def ASSERT_bind bind_Some_iff Let_def
    split: if_splits dest!: holder_sema)

lemma holder_rw [keeps_holder]:
  "rw_enter rw r k = Some k' \<Longrightarrow> holder k' = holder k" "rw_leave rw r k = Some k' \<Longrightarrow> holder k' = holder k"
  by (auto simp: rw_enter_def rw_leave_def upd_rw_def Let_def split: if_splits dest!: holder_lock)

lemma holder_timer [keeps_holder]:
  "timer_loop s n k = Some k' \<Longrightarrow> holder k' = holder k" "timer_sleep n k = Some k' \<Longrightarrow> holder k' = holder k"
  "real_time_sleep n d k = Some k' \<Longrightarrow> holder k' = holder k"
proof -
  show sl: "holder k' = holder k" if "timer_sleep n k = Some k'" for n
    using that by (auto simp: timer_sleep_def ASSERT_bind bind_Some_iff split: if_splits dest!: timer_ticks_eff)
  show "holder k' = holder k" if "real_time_sleep n d k = Some k'"
    using that sl by (auto simp: real_time_sleep_def real_time_delay_def ASSERT_bind Let_def split: if_splits)
qed (auto simp: timer_loop_def bind_Some_iff split: if_splits dest!: holder_thread timer_elapsed_eff)

lemma resume_holder:
  assumes inv: "kinv k" and run: "resume k = Some k'" and h: "holder k l \<noteq> 0"
  shows "holder k' l = holder k l \<or> holder k l = running_thread k \<and> holder k' l = 0"
proof -
  obtain f fs where f: "fr k (running_thread k) = f # fs" and r: "run_frame f (set_frames fs k) = Some k'"
    using resume_frames [OF inv run] by metis
  show ?thesis
  proof (cases f)
    case (Set_Holder l')
    then have "tokens l' (fr k (running_thread k)) \<noteq> 0" using f by simp
    then have "l' \<noteq> l" using token_owner(3) [OF kinvD(7) [OF inv]] h by metis
    then show ?thesis using r Set_Holder by (auto simp: set_holder_def bind_Some_iff)
  next
    case (Lock_Release l')
    have "thread_current (set_frames fs k) = Some (running_thread k)" by (rule cond_frames_current [OF inv popped [OF inv]])
    then show ?thesis using r Lock_Release
      by (auto simp: lock_release_def lock_held_by_current_thread_def ASSERT_bind split: if_splits)
  qed (use r in \<open>auto simp: idle_hlt_def tid_assign_def rw_woken_def upd_rw_def dest!: keeps_holder\<close>)
qed

lemma op_holder:
  assumes inv: "kinv k" and ok: "op_ok k op" and run: "exec_op op k = Some k'" and h: "holder k l \<noteq> 0"
  shows "holder k' l = holder k l \<or> holder k l = running_thread k \<and> holder k' l = 0"
proof (cases op)
  case (Op_Lock_Release a)
  then show ?thesis using run thread_current_kinv [OF inv]
    by (auto simp: lock_release_def lock_held_by_current_thread_def ASSERT_bind split: if_splits)
qed (use run ok h in \<open>auto simp: thread_start_def sema_init_def lock_init_def cond_init_def rw_lock_init_def rw_lock_acquire_def
    rw_lock_release_def lock_unused_def timer_msleep_def timer_usleep_def timer_nsleep_def Let_def split: if_splits
    dest!: keeps_holder\<close>)

lemma timer_holder: "timer_irq k = Some k' \<Longrightarrow> holder k' = holder k"
  by (auto simp: timer_irq_def intr_handler_def ASSERT_bind bind_Some_iff Let_def split: if_splits dest!: holder_thread)

lemma kstep_holder: "kstep k k' \<Longrightarrow> kinv k \<Longrightarrow> holder k l \<noteq> 0 \<Longrightarrow>
    holder k' l = holder k l \<or> holder k l = running_thread k \<and> holder k' l = 0"
  by (induction rule: kstep.induct) (auto dest: resume_holder op_holder timer_holder)

interpretation locks: lock_system kinv kstep holder running_thread 0
  by unfold_locales (auto intro: kstep_inv dest: kstep_holder)

end
