(* ===== verification/Synch_Frames.thy ===== *)
theory Synch_Frames
  imports Synch_Reach
begin

text \<open>
  A step of the kernel leaves the return points of every thread in place: it takes the first one off
  the stack of the running thread, or none, and adds some. So a call that may sleep returns only by
  its own return point; for \<open>timer_sleep\<close> that is not before its time.
\<close>

subsection \<open>Stacks only change at the top\<close>

definition grows :: "kernel \<Rightarrow> kernel \<Rightarrow> bool" where
  "grows k k' \<longleftrightarrow> (\<forall>t. fr k t = [] \<or> (\<exists>gs. fr k' t = gs @ fr k t))"

named_theorems grow \<open>steps after which every stack is on top of the old one\<close>

lemma grows_same: "fr k' = fr k \<Longrightarrow> grows k k'"
  by (simp add: grows_def)

lemma grows_trans: "grows a b \<Longrightarrow> grows b c \<Longrightarrow> grows a c"
  unfolding grows_def by (metis append.assoc append_is_Nil_conv)

lemma grows_push: "grows k (push_frames gs k)"
  by (auto simp: grows_def fr_def push_frames_def upd_thread_def split: option.splits)

lemma grows_push_same: "fr k1 = fr k \<Longrightarrow> grows k (push_frames gs k1)"
  using grows_push [of k1 gs] by (simp add: grows_def)

definition sane :: "kernel \<Rightarrow> bool" where
  "sane k \<longleftrightarrow> active_sched_policy k = SCHED_FIFO \<and> running_thread k \<noteq> 0"

lemma kinv_sane: "kinv k \<Longrightarrow> sane k"
  using kinvD(4,10) [of k] by (simp add: sane_def thread_inv_def)

lemma sane_cong: "active_sched_policy k' = active_sched_policy k \<Longrightarrow> running_thread k' = running_thread k \<Longrightarrow> sane k' = sane k"
  by (simp add: sane_def)

lemma sane_simps [simp]:
  "sane (upd_thread t f k) = sane k" "sane (set_frames fs k) = sane k" "sane (push_frames fs k) = sane k"
  "sane (intr_disable k) = sane k" "sane (set_waiters s ws k) = sane k" "sane (k\<lparr>intr_on := b\<rparr>) = sane k"
  "sane (k\<lparr>in_external_intr := b\<rparr>) = sane k"
  by (simp_all add: sane_def push_frames_def)

lemma view_interrupt [kview]:
  "fr (k\<lparr>in_external_intr := b\<rparr>) = fr k" "fr (k\<lparr>yield_on_return := b\<rparr>) = fr k" "fr (k\<lparr>ticks := n\<rparr>) = fr k"
  by (simp_all add: fr_def fun_eq_iff)

lemma sane_interrupt [simp]: "sane (k\<lparr>yield_on_return := b\<rparr>) = sane k" "sane (k\<lparr>ticks := n\<rparr>) = sane k"
  by (simp_all add: sane_def)

lemma schedule_fr: "sane k \<Longrightarrow> st k (running_thread k) \<noteq> Some THREAD_DYING \<Longrightarrow> schedule k = Some k' \<Longrightarrow> fr k' = fr k"
  using schedule_eff(5) [of k k'] by (auto simp: sane_def freed_def fun_eq_iff)

lemma current_exists: "thread_current k = Some t \<Longrightarrow> t = running_thread k \<and> st k t \<noteq> None"
  by (auto simp: thread_current_def ASSERT_bind dest: st_is_thread split: if_splits)

lemma thread_block_fr:
  assumes s: "sane k" and run: "thread_block k = Some k'"
  shows "fr k' = fr k"
proof -
  obtain t where t: "thread_current k = Some t" and sc: "schedule (set_status t THREAD_BLOCKED k) = Some k'"
    using run by (auto simp: thread_block_def ASSERT_bind bind_Some_iff split: if_splits)
  note c = current_exists [OF t]
  have "fr k' = fr (set_status t THREAD_BLOCKED k)"
    by (rule schedule_fr [OF _ _ sc]) (use s c in \<open>auto simp: kview sane_def\<close>)
  then show ?thesis by (simp add: kview)
qed

lemma thread_yield_grows:
  assumes s: "sane k" and run: "thread_yield k = Some k'"
  shows "grows k k'"
proof -
  obtain t k1 where t: "thread_current k = Some t"
    and k1: "k1 = intr_disable k \<or> k1 = (intr_disable k)\<lparr>fifo_ready_list := fifo_ready_list k @ [t]\<rparr>"
    and sc: "schedule (set_status t THREAD_READY (push_frames [Set_Level (intr_on k)] k1)) = Some k'"
    using run by (auto simp: thread_yield_def thread_enqueue_def ASSERT_bind bind_Some_iff Let_def split: if_splits)
  note c = current_exists [OF t]
  have v: "st k1 = st k" "fr k1 = fr k" "running_thread k1 = running_thread k" "active_sched_policy k1 = active_sched_policy k"
    using k1 by (auto simp: kview)
  let ?k = "push_frames [Set_Level (intr_on k)] k1"
  have "fr k' = fr (set_status t THREAD_READY ?k)"
    by (rule schedule_fr [OF _ _ sc]) (use s c v in \<open>auto simp: kview sane_def push_frames_set\<close>)
  then show ?thesis using grows_push_same [OF v(2), of "[Set_Level (intr_on k)]"] by (simp add: kview grows_def)
qed

lemma set_level_fr: "intr_set_level b k = Some k' \<Longrightarrow> fr k' = fr k"
  by (auto simp: intr_set_level_def intr_enable_def intr_disable_def ASSERT_bind kview split: if_splits)

lemma tick_fr: "thread_tick k = Some k' \<Longrightarrow> fr k' = fr k \<and> sane k' = sane k"
  by (auto dest!: thread_tick_fields simp: sane_def fr_def)

lemma init_thread_fr: "init_thread t name prio k = Some k' \<Longrightarrow> threads k t = None \<Longrightarrow> fr k' = fr k"
  by (rule init_thread_eff(3))


subsection \<open>Return points\<close>

lemma create_rest_grows:
  assumes inv: "kinv k" and f: "fr k (running_thread k) = Create_Rest t e # fs" and run: "create_rest t e (set_frames fs k) = Some k'"
  shows "grows (set_frames fs k) k'"
proof -
  let ?k = "set_frames fs k"
  have t: "fr k t = []"
    using kinvD(6) [OF inv, unfolded create_inv_def, THEN conjunct1, rule_format, of t "running_thread k"] f by force
  have tr: "t \<noteq> running_thread k" using t f by auto
  obtain k1 where ub: "thread_unblock t (upd_thread t (\<lambda>th. th\<lparr>frames := [Kernel_Thread e]\<rparr>) k1) = Some k'" and k1: "fr k1 = fr ?k"
    using run by (auto simp: create_rest_def alloc_frame_def ASSERT_bind bind_Some_iff kview split: if_splits)
  have "fr k' x = fr k1 x" if "x \<noteq> t" for x
    using that thread_unblock_views(2) [OF ub] by (simp add: fr_def upd_thread_def)
  moreover have "fr ?k t = []" using t tr cur_exists [OF inv] by (simp add: kview)
  ultimately show ?thesis unfolding grows_def using k1 by (metis append_Nil)
qed

lemma sema_up_fr: "sema_up s k = Some k' \<Longrightarrow> fr k' = fr k"
proof -
  assume "sema_up s k = Some k'"
  then obtain k1 where c: "(case waiters (semas k s) of [] \<Rightarrow> Some (intr_disable k) | t # ts \<Rightarrow> thread_unblock t (set_waiters s ts (intr_disable k))) = Some k1"
    and l: "intr_set_level (intr_on k) (set_svalue s (svalue (semas k1 s) + 1) k1) = Some k'"
    by (auto simp: sema_up_def Let_def bind_Some_iff)
  have "fr k1 = fr k" using c by (auto split: list.splits dest: thread_unblock_views(2) simp: kview)
  then show ?thesis using set_level_fr [OF l] by (simp add: kview)
qed

lemma sema_loop_grows:
  assumes s: "sane k" and run: "sema_loop s b k = Some k'"
  shows "grows k k'"
proof (cases "svalue (semas k s) = 0")
  case True
  then obtain c where "thread_block (push_frames [Sema_Loop s b] (set_waiters s (waiters (semas k s) @ [c]) k)) = Some k'"
    using run by (auto simp: sema_loop_def bind_Some_iff)
  from thread_block_fr [OF _ this] have "fr k' = fr (push_frames [Sema_Loop s b] (set_waiters s (waiters (semas k s) @ [c]) k))"
    using s by simp
  then show ?thesis
    using grows_push_same [of "set_waiters s (waiters (semas k s) @ [c]) k" k "[Sema_Loop s b]"] by (simp add: kview grows_def)
next
  case False
  then show ?thesis using run set_level_fr by (auto simp: sema_loop_def kview intro!: grows_same)
qed

lemma cond_frames_grows:
  assumes "kinv k" "cond_frames k (hs @ fs) k'"
  shows "grows (set_frames fs k) k'"
  using assms cur_exists [OF assms(1)] by (auto simp: grows_def cond_frames_def local_to_def kview)

lemma timer_loop_grows:
  assumes s: "sane k" and run: "timer_loop since n k = Some k'"
  shows "grows k k'"
proof -
  obtain e k1 where e: "timer_elapsed since k = Some (e, k1)" and r: "(if sint e < sint n then thread_yield (push_frames [Timer_Loop since n] k1) else Some k1) = Some k'"
    using run by (auto simp: timer_loop_def bind_Some_iff)
  have k1: "fr k1 = fr k" "sane k1" using timer_elapsed_eff [OF e] s by (simp_all add: kview)
  show ?thesis
  proof (cases "sint e < sint n")
    case True
    then have "thread_yield (push_frames [Timer_Loop since n] k1) = Some k'" using r by simp
    then have "grows (push_frames [Timer_Loop since n] k1) k'" using k1(2) by (intro thread_yield_grows) simp
    then show ?thesis using grows_trans [OF grows_push_same [OF k1(1)]] by blast
  next
    case False
    then show ?thesis using r k1(1) by (auto intro: grows_same)
  qed
qed

lemma run_frame_grows:
  assumes inv: "kinv k" and f: "fr k (running_thread k) = f # fs" and run: "run_frame f (set_frames fs k) = Some k'"
  shows "grows (set_frames fs k) k'"
proof -
  let ?k = "set_frames fs k"
  have s: "sane ?k" using kinv_sane [OF inv] by simp
  note pop = popped [OF inv, of fs]
  have quiet: ?thesis if "\<exists>hs. cond_frames k (hs @ fs) k' \<and> quiet_call (running_thread k) hs" using cond_frames_grows [OF inv] that by blast
  show ?thesis
  proof (cases f)
    case (Kernel_Thread e)
    then show ?thesis using run by (auto simp: kernel_thread_def intr_enable_def ASSERT_bind kview
        intro!: grows_push_same intro: grows_same split: if_splits entry.splits)
  next
    case (Idle_Start s)
    then show ?thesis using run by (auto simp: idle_start_def bind_Some_iff kview intro!: grows_push_same)
  next
    case Idle_Loop
    then have tb: "thread_block (push_frames [Idle_Hlt] (intr_disable ?k)) = Some k'" using run by (simp add: idle_block_def)
    have "fr k' = fr (push_frames [Idle_Hlt] (intr_disable ?k))" by (rule thread_block_fr [OF _ tb]) (use s in simp)
    then show ?thesis using grows_push_same [of "intr_disable ?k" ?k "[Idle_Hlt]"] by (simp add: kview grows_def)
  next
    case (Tid_Assign t)
    then have "k' = tid_assign t ?k" using run by simp
    then have "fr k' = fr (push_frames [Lock_Release Tid_Lock] (?k\<lparr>next_tid := next_tid ?k + 1\<rparr>))"
      by (simp add: tid_assign_def kview)
    then show ?thesis using grows_push_same [of "?k\<lparr>next_tid := next_tid ?k + 1\<rparr>" ?k "[Lock_Release Tid_Lock]"]
      by (simp add: kview grows_def)
  next
    case (Create_Rest t e)
    then show ?thesis using create_rest_grows [OF inv] f run by simp
  next
    case (Sema_Down x)
    then have "sema_loop x (intr_on ?k) (intr_disable ?k) = Some k'" using run by (auto simp: sema_down_def ASSERT_bind split: if_splits)
    then have "grows (intr_disable ?k) k'" using s by (intro sema_loop_grows) simp_all
    then show ?thesis by (simp add: grows_def kview)
  next
    case (Cond_Broadcast c l)
    then show ?thesis using cond_broadcast_quiet [OF inv, of "[]", OF _ quiet_calls(1)] pop run by (intro quiet) simp
  next
    case (Rw_Enter rw b)
    then show ?thesis using rw_enter_quiet [OF inv pop] run by (intro quiet) simp
  next
    case (Rw_Leave rw b)
    then show ?thesis using rw_leave_quiet [OF inv pop] run by (intro quiet) simp
  qed (use run s in \<open>auto simp: idle_hlt_def lock_acquire_def set_holder_def lock_release_def rw_woken_def upd_rw_def ASSERT_bind
      bind_Some_iff kview intro!: grows_push_same intro: grows_same split: if_splits
      dest: set_level_fr sema_up_fr intro: sema_loop_grows timer_loop_grows\<close>)
qed


subsection \<open>Operations\<close>

lemma thread_exit_grows:
  assumes s: "sane k" and f: "fr k (running_thread k) = []" and run: "thread_exit k = Some k'"
  shows "grows k k'"
proof -
  obtain t where t: "thread_current (intr_disable k) = Some t"
    and sc: "schedule (set_status t THREAD_DYING ((intr_disable k)\<lparr>all_list := remove1 t (all_list k)\<rparr>)) = Some k'"
    using run by (auto simp: thread_exit_def ASSERT_bind bind_Some_iff Let_def split: if_splits)
  let ?k = "set_status t THREAD_DYING ((intr_disable k)\<lparr>all_list := remove1 t (all_list k)\<rparr>)"
  have "fr k' x = (if freed ?k x then [] else fr ?k x)" for x
    by (rule schedule_eff(5) [OF sc]) (use s in \<open>simp_all add: sane_def\<close>)
  moreover have "freed ?k x \<Longrightarrow> fr k x = []" for x using f by (auto simp: freed_def)
  moreover have "fr ?k = fr k" by (simp add: kview)
  ultimately show ?thesis unfolding grows_def by auto
qed

lemma thread_create_grows:
  assumes "threads k p = None" "thread_create p name prio e k = Some k'"
  shows "grows k k'"
  using assms by (auto simp: thread_create_def bind_Some_iff intro!: grows_push_same intro: grows_same split: if_splits dest!: init_thread_fr)

lemma thread_start_grows:
  assumes n: "threads k p = None" and run: "thread_start p k = Some k'"
  shows "grows k k'"
proof -
  let ?k = "push_frames [Set_Level True, Sema_Down (Sema 1)] (sema_init (Sema 1) 0 k)"
  have "threads ?k p = None" using n by (auto simp: push_frames_def upd_thread_def sema_init_def)
  then have "grows ?k k'" by (rule thread_create_grows [OF _ run [unfolded thread_start_def]])
  moreover have "grows k ?k" by (rule grows_push_same) (simp add: sema_init_def kview)
  ultimately show ?thesis using grows_trans by blast
qed

lemma timer_sleep_grows: "timer_sleep n k = Some k' \<Longrightarrow> grows k k'"
  by (auto simp: timer_sleep_def ASSERT_bind bind_Some_iff kview intro!: grows_push_same split: if_splits dest!: timer_ticks_eff)

lemma real_time_sleep_grows: "real_time_sleep n d k = Some k' \<Longrightarrow> grows k k'"
  by (auto simp: real_time_sleep_def real_time_delay_def ASSERT_bind Let_def split: if_splits intro: timer_sleep_grows grows_same)

lemma cond_op_grows:
  "cond_wait c l k = Some k' \<Longrightarrow> grows k k'" "cond_signal c l k = Some k' \<Longrightarrow> grows k k'" "cond_broadcast c l k = Some k' \<Longrightarrow> grows k k'"
proof -
  show sig: "grows k k'" if "cond_signal c l k = Some k'" for k
    using that by (auto simp: cond_signal_def ASSERT_bind bind_Some_iff kview intro!: grows_push_same intro: grows_same split: if_splits list.splits)
  show "grows k k'" if "cond_broadcast c l k = Some k'"
    using that sig [of "push_frames [Cond_Broadcast c l] k"] grows_trans [OF grows_push]
    by (auto simp: cond_broadcast_def intro: grows_same split: if_splits)
qed (auto simp: cond_wait_def sema_init_def ASSERT_bind bind_Some_iff Let_def kview intro!: grows_push_same split: if_splits)

lemma sema_try_down_fr: "sema_try_down s k = Some (r, k') \<Longrightarrow> fr k' = fr k"
  by (auto simp: sema_try_down_def Let_def bind_Some_iff kview split: if_splits dest!: set_level_fr)

lemma op_grows:
  assumes inv: "kinv k" and f: "fr k (running_thread k) = []" and ok: "op_ok k op" and run: "exec_op op k = Some k'"
  shows "grows k k'"
proof (cases op)
  case (Op_Sema_Down a)
  then have "sema_loop (Sema a) (intr_on k) (intr_disable k) = Some k'" using run by (auto simp: sema_down_def ASSERT_bind split: if_splits)
  then have "grows (intr_disable k) k'" using kinv_sane [OF inv] by (intro sema_loop_grows) simp_all
  then show ?thesis by (simp add: grows_def kview)
next
  case (Op_Lock_Try_Acquire a)
  then show ?thesis using run
    by (auto simp: lock_try_acquire_def ASSERT_bind bind_Some_iff intro!: grows_push_same intro: grows_same split: if_splits dest!: sema_try_down_fr)
next
  case (Op_Set_Priority p)
  then show ?thesis using run by (auto simp: thread_set_priority_def bind_Some_iff kview intro!: grows_same)
qed (use run ok f kinv_sane [OF inv] in \<open>auto simp: sema_init_def lock_init_def cond_init_def rw_lock_init_def rw_lock_acquire_def
    rw_lock_release_def lock_acquire_def lock_release_def timer_msleep_def timer_usleep_def timer_nsleep_def ASSERT_bind bind_Some_iff
    Let_def kview intro!: grows_push_same intro: grows_same split: if_splits dest: sema_up_fr sema_try_down_fr
    intro: thread_start_grows thread_create_grows thread_yield_grows thread_exit_grows timer_sleep_grows real_time_sleep_grows
      cond_op_grows\<close>)

lemma timer_irq_grows:
  assumes inv: "kinv k" and run: "timer_irq k = Some k'"
  shows "grows k k'"
proof -
  let ?k = "push_frames [Set_Level True] (intr_disable k)"
  obtain k2 where t: "thread_tick (?k\<lparr>in_external_intr := True, yield_on_return := False, ticks := ticks ?k + 1\<rparr>) = Some k2"
    and y: "k' = k2\<lparr>in_external_intr := False\<rparr> \<or> thread_yield (k2\<lparr>in_external_intr := False\<rparr>) = Some k'"
    using run by (auto simp: timer_irq_def intr_handler_def timer_interrupt_def ASSERT_bind bind_Some_iff Let_def split: if_splits)
  have k2: "fr (k2\<lparr>in_external_intr := False\<rparr>) = fr ?k" "sane k2"
    using tick_fr [OF t] kinv_sane [OF inv] by (simp_all add: kview)
  have a: "grows k ?k" by (rule grows_push_same) (simp add: kview)
  have b: "grows (k2\<lparr>in_external_intr := False\<rparr>) k'" using y k2(2) thread_yield_grows by (auto intro: grows_same)
  show ?thesis using grows_trans [OF a] b k2(1) by (simp add: grows_def)
qed


subsection \<open>Sleeping\<close>

text \<open>What a step does to a stack of which \<open>g\<close> is not the top.\<close>

lemma resume_stack:
  assumes inv: "kinv k" and run: "resume k = Some k'" and t: "fr k t = gs @ g # fs" "gs \<noteq> [] \<or> t \<noteq> running_thread k"
  shows "\<exists>gs'. fr k' t = gs' @ g # fs"
proof -
  obtain f rest where f: "fr k (running_thread k) = f # rest" and r: "run_frame f (set_frames rest k) = Some k'"
    using resume_frames [OF inv run] by metis
  have "\<exists>hs. fr (set_frames rest k) t = hs @ g # fs"
    using t f cur_exists [OF inv] by (cases gs) (auto simp: kview)
  then obtain hs where "fr (set_frames rest k) t = hs @ g # fs" ..
  then show ?thesis using run_frame_grows [OF inv f r] unfolding grows_def by (metis append.assoc append_is_Nil_conv list.distinct(1))
qed

lemma kstep_stack:
  assumes step: "kstep k k'" and inv: "kinv k" and t: "fr k t = gs @ g # fs"
  shows "(\<exists>gs'. fr k' t = gs' @ g # fs) \<or> gs = [] \<and> t = running_thread k \<and> resume k = Some k'"
  using step
proof cases
  case Resume
  then show ?thesis using resume_stack [OF inv _ t] by blast
next
  case (Op op)
  then show ?thesis using op_grows [OF inv] t unfolding grows_def by (metis append.assoc append_is_Nil_conv list.distinct(1))
next
  case Timer
  then show ?thesis using timer_irq_grows [OF inv] t unfolding grows_def by (metis append.assoc append_is_Nil_conv list.distinct(1))
qed

lemma timer_stack:
  assumes step: "kstep k k'" and inv: "kinv k" and t: "fr k t = gs @ Timer_Loop s n # fs"
  shows "(\<exists>gs'. fr k' t = gs' @ Timer_Loop s n # fs) \<or>
    t = running_thread k \<and> sint n \<le> sint (ticks k - s) \<and> fr k' t = fs \<and> running_thread k' = t"
proof (cases "\<exists>gs'. fr k' t = gs' @ Timer_Loop s n # fs")
  case False
  then have g: "gs = []" "t = running_thread k" "resume k = Some k'" using kstep_stack [OF step inv t] by auto
  let ?k = "set_frames fs k"
  have r: "timer_loop s n ?k = Some k'"
    using resume_frames [OF inv g(3)] t g(1,2) by (metis append_Nil list.inject run_frame.simps(18))
  have tk: "ticks ?k = ticks k" by (simp add: set_frames_def upd_thread_def)
  have e: "timer_elapsed s ?k = Some (ticks k - s, ?k)" using timer_elapsed_run [of ?k s] kinvD(11) [OF inv] tk by simp
  have "\<not> sint (ticks k - s) < sint n"
  proof
    assume "sint (ticks k - s) < sint n"
    then have "thread_yield (push_frames [Timer_Loop s n] ?k) = Some k'" using r e by (simp add: timer_loop_def)
    then have "grows (push_frames [Timer_Loop s n] ?k) k'" using kinv_sane [OF inv] by (intro thread_yield_grows) simp
    moreover have "fr (push_frames [Timer_Loop s n] ?k) t = Timer_Loop s n # fs"
      using g(2) cur_exists [OF inv] by (simp add: push_frames_set kview)
    ultimately show False using False unfolding grows_def by (metis list.distinct(1))
  qed
  moreover from this have "k' = ?k" using r e by (simp add: timer_loop_def)
  ultimately show ?thesis using g(2) cur_exists [OF inv] by (simp add: kview)
qed simp

end
