(* ===== verification/Synch_Properties.thy ===== *)
theory Synch_Properties
  imports Synch_Frames
begin

text \<open>
  What threads and the users of locks rely on, in every reachable state of the kernel: the queues of
  threads, mutual exclusion, and the order in which ready threads run.
\<close>

subsection \<open>Yielding\<close>

primrec yields :: "nat \<Rightarrow> kernel \<Rightarrow> kernel option" where
  "yields 0 k = Some k"
| "yields (Suc n) k = Option.bind (thread_yield k) (yields n)"

lemma schedule_total:
  assumes "active_sched_policy k = SCHED_FIFO" "\<not> intr_on k" "\<not> has_status k (running_thread k) THREAD_RUNNING"
    "is_thread k (next_of k)"
  shows "\<exists>k'. schedule k = Some k'"
proof -
  let ?k = "k\<lparr>fifo_ready_list := tl (fifo_ready_list k)\<rparr>"
  have nx: "next_thread_to_run k = Some (next_of k, ?k)"
    using assms(1) by (cases "fifo_ready_list k") (simp_all add: next_thread_to_run_def next_of_def)
  show ?thesis using assms(2-4)
    by (auto simp: schedule_def nx Let_def ASSERT_bind thread_switch_tail_def has_status_st kview is_thread_def)
qed

text \<open>The running thread goes to the end of the ready list, if it is not the idle thread, and the first one runs.\<close>

lemma thread_yield_total:
  assumes inv: "kinv k"
  defines "q \<equiv> fifo_ready_list k @ (if running_thread k = idle_thread k then [] else [running_thread k])"
  shows "\<exists>k'. thread_yield k = Some k' \<and> running_thread k' = hd (q @ [idle_thread k]) \<and> fifo_ready_list k' = tl q \<and>
    idle_thread k' = idle_thread k"
proof -
  let ?r = "running_thread k"
  define k1 where "k1 = push_frames [Set_Level (intr_on k)] ((intr_disable k)\<lparr>fifo_ready_list := q\<rparr>)"
  let ?k = "set_status ?r THREAD_READY k1"
  note d = kinvD [OF inv]
  have fifo: "active_sched_policy k = SCHED_FIFO" using d(4) by (simp add: thread_inv_def)
  have fld: "running_thread ?k = ?r" "fifo_ready_list ?k = q" "idle_thread ?k = idle_thread k" "active_sched_policy ?k = SCHED_FIFO"
      "\<not> intr_on ?k" "is_thread ?k = is_thread k" "st ?k ?r = Some THREAD_READY"
    using fifo d(1) by (simp_all add: k1_def push_frames_set kview intr_disable_def)
  have y: "thread_yield k = schedule ?k"
    using thread_current_kinv [OF inv] d(9,11) fifo
    by (simp add: thread_yield_def ASSERT_bind Let_def thread_enqueue_def kview k1_def q_def intr_disable_def)
  have nx: "next_of ?k = hd (q @ [idle_thread k])" unfolding next_of_def fld(2,3) by (cases q) simp_all
  have ready: "\<forall>t \<in> set (fifo_ready_list k). is_thread k t"
    using d(2,4) unfolding ready_inv_def thread_inv_def by (metis option.distinct(1))
  have "is_thread k (hd (q @ [idle_thread k]))"
  proof (cases q)
    case Nil
    then show ?thesis using d(9) by (simp add: q_def split: if_splits)
  next
    case (Cons t ts)
    then have "t \<in> set q" by simp
    then show ?thesis using Cons ready d(9) by (auto simp: q_def split: if_splits)
  qed
  then obtain k' where k': "schedule ?k = Some k'"
    using schedule_total [of ?k] fld nx by (auto simp: has_status_st)
  have nz: "running_thread ?k \<noteq> 0" using d(10) fld by simp
  note e = schedule_eff [OF k' fld(4) nz]
  have "running_thread k' = hd (q @ [idle_thread k])" "fifo_ready_list k' = tl q" "idle_thread k' = idle_thread k"
    using e(2,3,7) nx fld by simp_all
  then show ?thesis using y k' by simp
qed

lemma yields_runs:
  "kinv k \<Longrightarrow> n < length (fifo_ready_list k) \<Longrightarrow>
   \<exists>k'. yields (Suc n) k = Some k' \<and> running_thread k' = fifo_ready_list k ! n"
proof (induction n arbitrary: k)
  case 0
  then show ?case using thread_yield_total [OF 0(1)] by (cases "fifo_ready_list k") auto
next
  case (Suc n)
  let ?e = "if running_thread k = idle_thread k then [] else [running_thread k]"
  obtain k1 where k1: "thread_yield k = Some k1" "fifo_ready_list k1 = tl (fifo_ready_list k @ ?e)"
    using thread_yield_total [OF Suc.prems(1)] by blast
  obtain t ts where q: "fifo_ready_list k = t # ts" using Suc.prems(2) by (cases "fifo_ready_list k") auto
  have n: "n < length (fifo_ready_list k1)" "fifo_ready_list k1 ! n = fifo_ready_list k ! Suc n"
    using k1(2) q Suc.prems(2) by (auto simp: nth_append)
  show ?case using Suc.IH [OF thread_yield_inv [OF Suc.prems(1) k1(1)] n(1)] k1(1) n(2) by simp
qed


subsection \<open>Evaluated runs\<close>

primrec resumes :: "nat \<Rightarrow> kernel \<Rightarrow> kernel option" where
  "resumes 0 k = Some k"
| "resumes (Suc n) k = Option.bind (resume k) (resumes n)"

lemma resumes_reach: "kreach k \<Longrightarrow> resumes n k = Some k' \<Longrightarrow> kreach k'"
  by (induction n arbitrary: k) (auto simp: bind_Some_iff dest: kstep.Resume kreach.Step)

lemma case_Some: "case x of None \<Rightarrow> False | Some y \<Rightarrow> P y \<Longrightarrow> \<exists>y. x = Some y \<and> P y"
  by (cases x) auto

text \<open>The initial thread after \<open>thread_init\<close>; and the kernel after \<open>thread_start\<close>, when the idle thread is ready.\<close>

definition ready_to_start :: "kernel option" where
  "ready_to_start = Option.bind (thread_init 0x1000) (resumes 6)"

definition booted :: "kernel option" where
  "booted = do { k \<leftarrow> ready_to_start; k \<leftarrow> thread_start 0x2000 k; resumes 7 k }"

lemma ready_to_start_eval:
  "case ready_to_start of None \<Rightarrow> False
   | Some k \<Rightarrow> fr k (running_thread k) = [] \<and> running_thread k \<noteq> idle_thread k \<and> op_ok k (Op_Start 0x2000)"
  by code_simp

lemma booted_eval:
  "case booted of None \<Rightarrow> False | Some k \<Rightarrow> fifo_ready_list k = [0x2000] \<and> running_thread k = 0x1000"
  by code_simp

lemma booted_reach: "\<exists>k. booted = Some k \<and> kreach k \<and> fifo_ready_list k = [0x2000]"
proof -
  obtain k0 where k0: "ready_to_start = Some k0" "fr k0 (running_thread k0) = []" "running_thread k0 \<noteq> idle_thread k0"
      "op_ok k0 (Op_Start 0x2000)" using case_Some [OF ready_to_start_eval] by blast
  obtain k where k: "booted = Some k" "fifo_ready_list k = [0x2000]" using case_Some [OF booted_eval] by blast
  obtain i where i: "thread_init 0x1000 = Some i" "resumes 6 i = Some k0"
    using k0(1) by (auto simp: ready_to_start_def bind_Some_iff)
  then have "kreach k0" by (intro resumes_reach [OF kreach.Init [OF _ i(1)] i(2)]) simp
  moreover obtain k1 where k1: "exec_op (Op_Start 0x2000) k0 = Some k1" "resumes 7 k1 = Some k"
    using k(1) unfolding booted_def k0(1) by (auto simp: bind_Some_iff)
  moreover have "kstep k0 k1" by (rule kstep.Op [OF k0(2-4) k1(1)])
  ultimately have "kreach k" by (blast intro: kreach.Step resumes_reach)
  then show ?thesis using k by blast
qed

lemma lock_taken_eval:
  "case Option.bind (thread_init 0x1000) (resumes 3) of None \<Rightarrow> False
   | Some k \<Rightarrow> holder k Tid_Lock = 0x1000 \<and> running_thread k = 0x1000 \<and> resume k \<noteq> None"
  by code_simp

lemma lock_taken_reach: "\<exists>k k'. kreach k \<and> kstep k k' \<and> holder k Tid_Lock = 0x1000 \<and> running_thread k = 0x1000"
proof -
  obtain k0 k k' where k: "thread_init 0x1000 = Some k0" "resumes 3 k0 = Some k" "resume k = Some k'" "holder k Tid_Lock = 0x1000"
      "running_thread k = 0x1000" using case_Some [OF lock_taken_eval] by (auto simp: bind_Some_iff)
  have "kreach k" by (rule resumes_reach [OF kreach.Init [OF _ k(1)] k(2)]) simp
  then show ?thesis using k kstep.Resume by blast
qed

text \<open>The initial thread in \<open>timer_sleep\<close>, when the idle thread has started.\<close>

definition started :: "kernel option" where
  "started = Option.bind booted (resumes 7)"

lemma started_eval:
  "case started of None \<Rightarrow> False
   | Some k \<Rightarrow> fr k (running_thread k) = [] \<and> running_thread k \<noteq> idle_thread k \<and> op_ok k (Op_Sleep 2) \<and>
     (case exec_op (Op_Sleep 2) k of None \<Rightarrow> False
      | Some k \<Rightarrow> fr k 0x1000 = [Timer_Loop 0 2] \<and> resume k \<noteq> None)"
  by code_simp

lemma started_reach:
  "\<exists>k k'. kreach k \<and> kstep k k' \<and> fr k 0x1000 = [Timer_Loop 0 2]"
proof -
  obtain k0 where k0: "started = Some k0" "fr k0 (running_thread k0) = []" "running_thread k0 \<noteq> idle_thread k0"
      "op_ok k0 (Op_Sleep 2)" and s: "case exec_op (Op_Sleep 2) k0 of None \<Rightarrow> False
      | Some k \<Rightarrow> fr k 0x1000 = [Timer_Loop 0 2] \<and> resume k \<noteq> None"
    using case_Some [OF started_eval] by blast
  obtain b where b: "booted = Some b" "kreach b" using booted_reach by auto
  have "resumes 7 b = Some k0" using k0(1) unfolding started_def b(1) by simp
  then have r: "kreach k0" by (rule resumes_reach [OF b(2)])
  obtain k where k: "exec_op (Op_Sleep 2) k0 = Some k" "fr k 0x1000 = [Timer_Loop 0 2]" "resume k \<noteq> None"
    using case_Some [OF s] by blast
  have "kreach k" by (rule kreach.Step [OF r kstep.Op [OF k0(2-4) k(1)]])
  then show ?thesis using k(2,3) by (auto intro: kstep.Resume)
qed

lemma lock_errors_inv:
  assumes inv: "kinv k"
  shows "lock_acquire l k = None \<longleftrightarrow> holder k l = running_thread k" "lock_try_acquire l k = None \<longleftrightarrow> holder k l = running_thread k"
    "lock_release l k = None \<longleftrightarrow> holder k l \<noteq> running_thread k" "cond_wait c l k = None \<longleftrightarrow> holder k l \<noteq> running_thread k"
    "cond_signal c l k = None \<longleftrightarrow> holder k l \<noteq> running_thread k"
  using thread_current_kinv [OF inv] kinvD(11) [OF inv]
  by (auto simp: lock_acquire_def lock_try_acquire_def lock_release_def cond_wait_def cond_signal_def lock_held_by_current_thread_def
      sema_try_down_def intr_set_level_def intr_enable_def ASSERT_bind Let_def split: list.splits)


subsection \<open>Properties\<close>

lemma queue_facts:
  assumes "kreach k"
  shows "\<forall>t. has_status k t THREAD_RUNNING = (t = running_thread k)"
    "distinct (fifo_ready_list k)" "\<forall>t \<in> set (fifo_ready_list k). has_status k t THREAD_READY"
    "\<forall>s. distinct (waiters (semas k s))" "\<forall>s. \<forall>t \<in> set (waiters (semas k s)). has_status k t THREAD_BLOCKED"
    "\<forall>s s'. s \<noteq> s' \<longrightarrow> set (waiters (semas k s)) \<inter> set (waiters (semas k s')) = {}"
    "\<forall>t. threads k t \<noteq> None \<longrightarrow> is_thread k t"
proof -
  note d = kinvD [OF kreach_inv [OF assms]]
  show "\<forall>t. has_status k t THREAD_RUNNING = (t = running_thread k)" using d(8) by (simp add: run_inv_def has_status_st)
  show "distinct (fifo_ready_list k)" "\<forall>t \<in> set (fifo_ready_list k). has_status k t THREAD_READY"
    using d(2) by (simp_all add: ready_inv_def has_status_st)
  show "\<forall>s. distinct (waiters (semas k s))" "\<forall>s. \<forall>t \<in> set (waiters (semas k s)). has_status k t THREAD_BLOCKED"
    using d(3) by (simp_all add: wait_inv_def has_status_st)
  show "\<forall>s s'. s \<noteq> s' \<longrightarrow> set (waiters (semas k s)) \<inter> set (waiters (semas k s')) = {}"
  proof (intro allI impI)
    fix s s' :: semref assume ne: "s \<noteq> s'"
    have at: "\<exists>b fs. fr k t = Sema_Loop x b # fs" if "t \<in> set (waiters (semas k x))" for t x
      using d(3) that by (simp add: wait_inv_def)
    show "set (waiters (semas k s)) \<inter> set (waiters (semas k s')) = {}" using at [of _ s] at [of _ s'] ne by fastforce
  qed
  show "\<forall>t. threads k t \<noteq> None \<longrightarrow> is_thread k t" using d(4) by (simp add: thread_inv_def st_def)
qed

text \<open>
  C2. In every reachable state exactly the thread whose stack the processor uses is running; every
  thread on the ready list is ready, and no thread is on it twice; every thread that waits on a
  semaphore is blocked, and waits on that one only and once; and every thread has its magic number.
  So a thread's list element is on one queue at a time, as thread.h demands.
\<close>

theorem thread_queues:
  assumes "kreach k"
  shows "(\<forall>t. has_status k t THREAD_RUNNING = (t = running_thread k)) \<and>
    distinct (fifo_ready_list k) \<and> (\<forall>t \<in> set (fifo_ready_list k). has_status k t THREAD_READY) \<and>
    (\<forall>s. distinct (waiters (semas k s)) \<and> (\<forall>t \<in> set (waiters (semas k s)). has_status k t THREAD_BLOCKED)) \<and>
    (\<forall>s s'. s \<noteq> s' \<longrightarrow> set (waiters (semas k s)) \<inter> set (waiters (semas k s')) = {}) \<and>
    (\<forall>t. threads k t \<noteq> None \<longrightarrow> is_thread k t)"
  using queue_facts [OF assms] by (intro conjI allI) (simp_all del: not_None_eq)

theorem thread_queues_witness:
  "\<exists>k. kreach k \<and> fifo_ready_list k = [0x2000] \<and> has_status k 0x2000 THREAD_READY \<and> is_thread k 0x2000"
proof -
  obtain k where k: "kreach k" "fifo_ready_list k = [0x2000]" using booted_reach by auto
  have "has_status k 0x2000 THREAD_READY" using thread_queues [OF k(1)] k(2) by simp
  moreover from this have "is_thread k 0x2000" using queue_facts(7) [OF k(1)] by (auto simp: has_status_def split: option.splits)
  ultimately show ?thesis using k by blast
qed

text \<open>
  C1. Mutual exclusion: in a reachable state, whatever step is taken next, by the thread that holds a
  lock, by another thread or by the timer, the holder of the lock stays the same, unless it is the
  running thread and releases the lock. Along any run in which the holder does not run, it stays the
  holder.
\<close>

theorem mutual_exclusion:
  assumes "kreach k" "holder k l \<noteq> 0"
  shows "(kstep k k' \<longrightarrow> holder k' l = holder k l \<or> holder k l = running_thread k \<and> holder k' l = 0) \<and>
    ((\<lambda>a b. kstep a b \<and> running_thread a \<noteq> holder k l)\<^sup>*\<^sup>* k k' \<longrightarrow> holder k' l = holder k l)"
  using locks.step_holder [OF _ kreach_inv [OF assms(1)] assms(2), of k']
    locks.critical_section [OF _ kreach_inv [OF assms(1)] refl assms(2), of k'] by blast

theorem mutual_exclusion_witness:
  "\<exists>k k'. kreach k \<and> kstep k k' \<and> holder k Tid_Lock = 0x1000 \<and>
     (holder k' Tid_Lock = 0x1000 \<or> running_thread k = 0x1000 \<and> holder k' Tid_Lock = 0)"
proof -
  obtain k k' where k: "kreach k" "kstep k k'" "holder k Tid_Lock = 0x1000" using lock_taken_reach by blast
  then show ?thesis using mutual_exclusion [OF k(1), of Tid_Lock k'] by auto
qed







end
