(* ===== verification/Pagedir.thy ===== *)
theory Pagedir
  imports Palloc Bytes
begin

text \<open>
  Page directories (src/proj-pregame/src/userprog/pagedir.c) and the format of their entries
  (src/proj-pregame/src/threads/pte.h). Directories and page tables are pages of the page allocator,
  so their entries are words of its byte memory. The processor's translation buffer is not part of
  the state; what empties it is the load of the register CR3, which is.
\<close>

subsection \<open>The C functions\<close>

definition load :: "memory \<Rightarrow> addr \<Rightarrow> u32" where
  "load m p = word_of_bytes [m p, m (p + 1), m (p + 2), m (p + 3)]"

definition store :: "memory \<Rightarrow> addr \<Rightarrow> u32 \<Rightarrow> memory" where
  "store m p w = m(p := le_bytes w ! 0, p + 1 := le_bytes w ! 1, p + 2 := le_bytes w ! 2, p + 3 := le_bytes w ! 3)"

definition PTSHIFT :: nat where "PTSHIFT = PGBITS"
definition PTBITS :: nat where "PTBITS = 10"
definition PTMASK :: u32 where "PTMASK = push_bit PTSHIFT (push_bit PTBITS 1 - 1)"
definition PDSHIFT :: nat where "PDSHIFT = PTSHIFT + PTBITS"
definition PTE_ADDR :: u32 where "PTE_ADDR = 0xfffff000"
definition PTE_P :: u32 where "PTE_P = 0x1"
definition PTE_W :: u32 where "PTE_W = 0x2"
definition PTE_U :: u32 where "PTE_U = 0x4"
definition PTE_A :: u32 where "PTE_A = 0x20"
definition PTE_D :: u32 where "PTE_D = 0x40"

definition pt_no :: "addr \<Rightarrow> u32" where
  "pt_no va = drop_bit PTSHIFT (va AND PTMASK)"

definition pd_no :: "addr \<Rightarrow> u32" where
  "pd_no va = drop_bit PDSHIFT va"

definition pde_create :: "addr \<Rightarrow> u32 option" where
  "pde_create pt = do { ASSERT (pg_ofs pt = 0); p \<leftarrow> vtop pt; Some (p OR PTE_U OR PTE_P OR PTE_W) }"

definition pde_get_pt :: "u32 \<Rightarrow> addr option" where
  "pde_get_pt pde = do { ASSERT (pde AND PTE_P \<noteq> 0); ptov (pde AND PTE_ADDR) }"

definition pte_create_kernel :: "addr \<Rightarrow> bool \<Rightarrow> u32 option" where
  "pte_create_kernel page writable = do {
     ASSERT (pg_ofs page = 0);
     p \<leftarrow> vtop page;
     Some (p OR PTE_P OR (if writable then PTE_W else 0))
   }"

definition pte_create_user :: "addr \<Rightarrow> bool \<Rightarrow> u32 option" where
  "pte_create_user page writable = do { e \<leftarrow> pte_create_kernel page writable; Some (e OR PTE_U) }"

definition pte_get_page :: "u32 \<Rightarrow> addr option" where
  "pte_get_page pte = ptov (pte AND PTE_ADDR)"

record mmu =
  pal :: palloc_state
  init_page_dir :: addr
  init_ram_pages :: u32
  cr3 :: u32

definition get :: "mmu \<Rightarrow> addr \<Rightarrow> u32" where
  "get s p = load (ram (pal s)) p"

definition put :: "mmu \<Rightarrow> addr \<Rightarrow> u32 \<Rightarrow> mmu" where
  "put s p w = s\<lparr>pal := (pal s)\<lparr>ram := store (ram (pal s)) p w\<rparr>\<rparr>"

definition pagedir_create :: "mmu \<Rightarrow> (addr \<times> mmu) option" where
  "pagedir_create s = do {
     (pd, a) \<leftarrow> palloc_get_page (pal s) 0;
     let a' = (if pd \<noteq> 0 then a\<lparr>ram := mem_copy (ram a) pd (init_page_dir s) PGSIZE\<rparr> else a);
     Some (pd, s\<lparr>pal := a'\<rparr>)
   }"

definition free_page :: "mmu \<Rightarrow> addr \<Rightarrow> mmu option" where
  "free_page s p = do { a \<leftarrow> palloc_free_page (pal s) p; Some (s\<lparr>pal := a\<rparr>) }"

text \<open>The loops of \<open>pagedir_destroy\<close> over the entries of a page table and of the directory.\<close>

fun destroy_ptes :: "nat \<Rightarrow> addr \<Rightarrow> mmu \<Rightarrow> mmu option" where
  "destroy_ptes 0 pte s = Some s"
| "destroy_ptes (Suc n) pte s = do {
     s \<leftarrow> (if get s pte AND PTE_P \<noteq> 0 then do { p \<leftarrow> pte_get_page (get s pte); free_page s p } else Some s);
     destroy_ptes n (pte + 4) s
   }"

fun destroy_pdes :: "nat \<Rightarrow> addr \<Rightarrow> mmu \<Rightarrow> mmu option" where
  "destroy_pdes 0 pde s = Some s"
| "destroy_pdes (Suc n) pde s = do {
     s \<leftarrow> (if get s pde AND PTE_P \<noteq> 0 then do {
             pt \<leftarrow> pde_get_pt (get s pde);
             s \<leftarrow> destroy_ptes 1024 pt s;
             free_page s pt
           } else Some s);
     destroy_pdes n (pde + 4) s
   }"

definition pagedir_destroy :: "mmu \<Rightarrow> addr \<Rightarrow> mmu option" where
  "pagedir_destroy s pd =
     (if pd = 0 then Some s
      else do {
        ASSERT (pd \<noteq> init_page_dir s);
        s \<leftarrow> destroy_pdes (unat (pd_no PHYS_BASE)) pd s;
        free_page s pd
      })"

definition lookup_page :: "mmu \<Rightarrow> addr \<Rightarrow> addr \<Rightarrow> bool \<Rightarrow> (addr \<times> mmu) option" where
  "lookup_page s pd vaddr create = do {
     ASSERT (pd \<noteq> 0);
     ASSERT (\<not> create \<or> is_user_vaddr vaddr);
     let pde = pd + 4 * pd_no vaddr;
     r \<leftarrow> (if get s pde = 0 then
             if create then do {
               (pt, a) \<leftarrow> palloc_get_page (pal s) PAL_ZERO;
               let s = s\<lparr>pal := a\<rparr>;
               if pt = 0 then Some (Inl s)
               else do { e \<leftarrow> pde_create pt; Some (Inr (put s pde e)) }
             } else Some (Inl s)
           else Some (Inr s));
     case r of
       Inl s \<Rightarrow> Some (0, s)
     | Inr s \<Rightarrow> do { pt \<leftarrow> pde_get_pt (get s pde); Some (pt + 4 * pt_no vaddr, s) }
   }"

definition pagedir_set_page :: "mmu \<Rightarrow> addr \<Rightarrow> addr \<Rightarrow> addr \<Rightarrow> bool \<Rightarrow> (bool \<times> mmu) option" where
  "pagedir_set_page s pd upage kpage writable = do {
     ASSERT (pg_ofs upage = 0);
     ASSERT (pg_ofs kpage = 0);
     ASSERT (is_user_vaddr upage);
     frame \<leftarrow> vtop kpage;
     ASSERT (drop_bit PTSHIFT frame < init_ram_pages s);
     ASSERT (pd \<noteq> init_page_dir s);
     (pte, s) \<leftarrow> lookup_page s pd upage True;
     if pte \<noteq> 0 then do {
       ASSERT (get s pte AND PTE_P = 0);
       e \<leftarrow> pte_create_user kpage writable;
       Some (True, put s pte e)
     } else Some (False, s)
   }"

definition pagedir_get_page :: "mmu \<Rightarrow> addr \<Rightarrow> addr \<Rightarrow> addr option" where
  "pagedir_get_page s pd uaddr = do {
     ASSERT (is_user_vaddr uaddr);
     (pte, _) \<leftarrow> lookup_page s pd uaddr False;
     if pte \<noteq> 0 \<and> get s pte AND PTE_P \<noteq> 0 then do { page \<leftarrow> pte_get_page (get s pte); Some (page + pg_ofs uaddr) }
     else Some 0
   }"

definition pagedir_activate :: "mmu \<Rightarrow> addr \<Rightarrow> mmu option" where
  "pagedir_activate s pd = do { p \<leftarrow> vtop (if pd = 0 then init_page_dir s else pd); Some (s\<lparr>cr3 := p\<rparr>) }"

definition active_pd :: "mmu \<Rightarrow> addr option" where
  "active_pd s = ptov (cr3 s)"

definition invalidate_pagedir :: "mmu \<Rightarrow> addr \<Rightarrow> mmu option" where
  "invalidate_pagedir s pd = do { a \<leftarrow> active_pd s; if a = pd then pagedir_activate s pd else Some s }"

definition pagedir_clear_page :: "mmu \<Rightarrow> addr \<Rightarrow> addr \<Rightarrow> mmu option" where
  "pagedir_clear_page s pd upage = do {
     ASSERT (pg_ofs upage = 0);
     ASSERT (is_user_vaddr upage);
     (pte, s) \<leftarrow> lookup_page s pd upage False;
     if pte \<noteq> 0 \<and> get s pte AND PTE_P \<noteq> 0 then invalidate_pagedir (put s pte (get s pte AND NOT PTE_P)) pd
     else Some s
   }"

definition pagedir_is_dirty :: "mmu \<Rightarrow> addr \<Rightarrow> addr \<Rightarrow> bool option" where
  "pagedir_is_dirty s pd vpage = do {
     (pte, s) \<leftarrow> lookup_page s pd vpage False;
     Some (pte \<noteq> 0 \<and> get s pte AND PTE_D \<noteq> 0)
   }"

definition pagedir_set_dirty :: "mmu \<Rightarrow> addr \<Rightarrow> addr \<Rightarrow> bool \<Rightarrow> mmu option" where
  "pagedir_set_dirty s pd vpage dirty = do {
     (pte, s) \<leftarrow> lookup_page s pd vpage False;
     if pte \<noteq> 0 then
       if dirty then Some (put s pte (get s pte OR PTE_D))
       else invalidate_pagedir (put s pte (get s pte AND NOT PTE_D)) pd
     else Some s
   }"

definition pagedir_is_accessed :: "mmu \<Rightarrow> addr \<Rightarrow> addr \<Rightarrow> bool option" where
  "pagedir_is_accessed s pd vpage = do {
     (pte, s) \<leftarrow> lookup_page s pd vpage False;
     Some (pte \<noteq> 0 \<and> get s pte AND PTE_A \<noteq> 0)
   }"

definition pagedir_set_accessed :: "mmu \<Rightarrow> addr \<Rightarrow> addr \<Rightarrow> bool \<Rightarrow> mmu option" where
  "pagedir_set_accessed s pd vpage accessed = do {
     (pte, s) \<leftarrow> lookup_page s pd vpage False;
     if pte \<noteq> 0 then
       if accessed then Some (put s pte (get s pte OR PTE_A))
       else invalidate_pagedir (put s pte (get s pte AND NOT PTE_A)) pd
     else Some s
   }"

subsection \<open>Words in memory\<close>

definition aligned :: "addr \<Rightarrow> bool" where
  "aligned p \<longleftrightarrow> unat p mod 4 = 0"

lemma unat_aligned_add: "aligned p \<Longrightarrow> i < 4 \<Longrightarrow> unat (p + of_nat i) = unat p + i"
proof -
  assume a: "aligned p" "i < 4"
  have "unat p < 2 ^ 32" using unsigned_less [of p, where 'a = nat] by simp
  then have "unat p + i < 2 ^ 32" using a by (auto simp: aligned_def)
  then show ?thesis using a by (simp add: unat_plus_if' unat_of_nat)
qed

lemma unat_word_bytes:
  assumes "aligned p"
  shows "unat (p + 1) = unat p + 1" "unat (p + 2) = unat p + 2" "unat (p + 3) = unat p + 3"
  using unat_aligned_add [OF assms, of 1] unat_aligned_add [OF assms, of 2] unat_aligned_add [OF assms, of 3] by simp_all

lemma load_store:
  assumes "aligned p" "aligned q"
  shows "load (store m p w) q = (if p = q then w else load m q)"
proof (cases "p = q")
  case True
  have "le_bytes w = [le_bytes w ! 0, le_bytes w ! 1, le_bytes w ! 2, le_bytes w ! 3]" by (simp add: le_bytes_def)
  then have "word_of_bytes [le_bytes w ! 0, le_bytes w ! 1, le_bytes w ! 2, le_bytes w ! 3] = w" by (metis word_of_le_bytes)
  then show ?thesis using True by (simp add: load_def store_def)
next
  case False
  have ne: "unat q div 4 \<noteq> unat p div 4" using False assms by (auto simp: aligned_def word_unat_eq_iff)
  have in4: "x div 4 = unat p div 4" if "x = unat p \<or> x = unat p + 1 \<or> x = unat p + 2 \<or> x = unat p + 3" for x
    using that assms(1) by (auto simp: aligned_def)
  have other: "store m p w x = m x" if "unat x div 4 \<noteq> unat p div 4" for x
    using that in4 [of "unat x"] by (auto simp: store_def word_unat_eq_iff unat_word_bytes [OF assms(1)])
  have q: "unat (q + 1) div 4 = unat q div 4" "unat (q + 2) div 4 = unat q div 4" "unat (q + 3) div 4 = unat q div 4"
    using assms(2) by (auto simp: unat_word_bytes [OF assms(2)] aligned_def)
  show ?thesis using False ne q by (simp add: load_def other)
qed


subsection \<open>Pages of entries\<close>

definition slot :: "addr \<Rightarrow> u32 \<Rightarrow> addr" where
  "slot p i = p + 4 * i"

lemma unat_slot:
  assumes "pg_ofs p = 0" "unat i < 1024"
  shows "unat (slot p i) = unat p + 4 * unat i"
proof -
  have "unat p mod 4096 = 0" using assms(1) unat_pg_ofs [of p] by simp
  then obtain k where k: "unat p = 4096 * k" by auto
  moreover have "unat p < 2 ^ 32" using unsigned_less [of p, where 'a = nat] by simp
  ultimately have "unat p + 4 * unat i < 2 ^ 32" using assms(2) by simp
  moreover have "unat (4 * i) = 4 * unat i" using assms(2) by (simp add: unat_word_ariths)
  ultimately show ?thesis by (simp add: slot_def unat_plus_if')
qed

lemma slot_page:
  assumes "pg_ofs p = 0" "unat i < 1024"
  shows "aligned (slot p i)" "pg_no (slot p i) = pg_no p"
proof -
  have "unat p mod 4096 = 0" using assms(1) unat_pg_ofs [of p] by simp
  then obtain k where k: "unat p = 4096 * k" by auto
  then show "aligned (slot p i)" by (simp add: aligned_def unat_slot [OF assms] mod_mult2_eq [of _ 4 1024])
  have "(4096 * k + 4 * unat i) div 4096 = k" using assms(2) by simp
  then show "pg_no (slot p i) = pg_no p" using k by (simp add: word_unat_eq_iff unat_pg_no unat_slot [OF assms])
qed

lemma page_eq: "pg_ofs p = 0 \<Longrightarrow> pg_ofs q = 0 \<Longrightarrow> pg_no p = pg_no q \<Longrightarrow> p = q"
  by (metis page_addr_pg_no)

lemma slot_eq:
  assumes "pg_ofs p = 0" "pg_ofs q = 0" "unat i < 1024" "unat j < 1024"
  shows "slot p i = slot q j \<longleftrightarrow> p = q \<and> i = j"
proof
  assume e: "slot p i = slot q j"
  then have "pg_no p = pg_no q" using slot_page(2) assms by metis
  then have "p = q" using page_eq assms(1,2) by blast
  moreover from this e have "unat i = unat j" using unat_slot [OF assms(1,3)] unat_slot [OF assms(2,4)] by simp
  ultimately show "p = q \<and> i = j" by (simp add: word_unat_eq_iff)
qed simp

lemma get_put: "aligned p \<Longrightarrow> aligned q \<Longrightarrow> get (put s p w) q = (if p = q then w else get s q)"
  by (simp add: get_def put_def load_store)

lemma put_fields [simp]:
  "init_page_dir (put s p w) = init_page_dir s" "init_ram_pages (put s p w) = init_ram_pages s" "cr3 (put s p w) = cr3 s"
  "palloc_used (pal (put s p w)) = palloc_used (pal s)" "palloc_inv (pal (put s p w)) = palloc_inv (pal s)"
  "kernel_pool (pal (put s p w)) = kernel_pool (pal s)" "user_pool (pal (put s p w)) = user_pool (pal s)"
  by (simp_all add: put_def palloc_used_def palloc_inv_def)

text \<open>Clearing a page.\<close>

lemma in_page: "pg_ofs p = 0 \<Longrightarrow> x - p < PGSIZE \<longleftrightarrow> pg_no x = pg_no p"
proof -
  assume "pg_ofs p = 0"
  then have "unat p mod 4096 = 0" using unat_pg_ofs [of p] by simp
  then obtain k where k: "unat p = 4096 * k" by auto
  moreover have "unat p < 2 ^ 32" using unsigned_less [of p, where 'a = nat] by simp
  ultimately have "unat p + unat PGSIZE \<le> 2 ^ 32" by (simp add: PG_simps)
  then have "x - p < PGSIZE \<longleftrightarrow> unat x \<in> span_of p 4096" using in_span [of p PGSIZE x] by (simp add: PG_simps)
  also have "\<dots> \<longleftrightarrow> unat x div 4096 = k" using k by (auto simp: span_of_def)
  also have "\<dots> \<longleftrightarrow> pg_no x = pg_no p" using k by (simp add: word_unat_eq_iff unat_pg_no)
  finally show ?thesis .
qed

lemma load_fill:
  assumes "pg_ofs p = 0" "aligned q"
  shows "load (mem_fill m p 0 PGSIZE) q = (if pg_no q = pg_no p then 0 else load m q)"
proof -
  have "(unat q + i) div 4096 = unat q div 4096" if "i < 4" for i
  proof -
    obtain k where k: "unat q = 4 * k" using assms(2) by (auto simp: aligned_def)
    have "(4 * k + i) div 4 = k" using that by simp
    then have "(4 * k + i) div 4096 = k div 1024" using div_mult2_eq [of "4 * k + i" 4 1024] by simp
    then show ?thesis using k div_mult2_eq [of "4 * k" 4 1024] by simp
  qed
  note d = this [of 1] this [of 2] this [of 3]
  have q: "pg_no (q + 1) = pg_no q" "pg_no (q + 2) = pg_no q" "pg_no (q + 3) = pg_no q"
    using d by (simp_all add: word_unat_eq_iff unat_pg_no unat_word_bytes [OF assms(2)])
  show ?thesis by (simp add: load_def mem_fill_def in_page [OF assms(1)] q word_of_bytes_def)
qed

text \<open>The indices of an address.\<close>

lemma unat_pd_no: "unat (pd_no va) = unat va div 4194304"
  using unat_drop_bit [of 22 va] by (simp add: pd_no_def PDSHIFT_def PTSHIFT_def PTBITS_def PGBITS_def)

lemma unat_pt_no: "unat (pt_no va) = unat va div 4096 mod 1024"
proof -
  have "pt_no va = take_bit 10 (drop_bit 12 va)"
  proof -
    have m: "PTMASK = push_bit 12 (mask 10)" by (simp add: PTMASK_def PTSHIFT_def PTBITS_def PGBITS_def mask_eq_exp_minus_1)
    show ?thesis unfolding pt_no_def PTSHIFT_def PGBITS_def m by (intro bit_eqI) (auto simp: bit_simps)
  qed
  then show ?thesis using unat_drop_bit [of 12 va] by (simp add: take_bit_eq_mod unat_mod)
qed

lemma pt_no_less [simp]: "unat (pt_no va) < 1024"
  by (simp add: unat_pt_no)

lemma pd_no_less [simp]: "unat (pd_no va) < 1024"
  using unsigned_less [of va, where 'a = nat] by (simp add: unat_pd_no less_mult_imp_div_less)

lemma same_page:
  assumes "pg_ofs u = 0"
  shows "pd_no va = pd_no u \<and> pt_no va = pt_no u \<longleftrightarrow> pg_round_down va = u"
proof -
  have d: "x div 4194304 = x div 4096 div 1024" for x :: nat using div_mult2_eq [of x 4096 1024] by simp
  have "pd_no va = pd_no u \<and> pt_no va = pt_no u \<longleftrightarrow> unat va div 4096 = unat u div 4096"
    unfolding word_unat_eq_iff unat_pd_no unat_pt_no d by (metis div_mult_mod_eq)
  also have "\<dots> \<longleftrightarrow> pg_round_down va = u"
    using assms unat_pg_ofs [of u] by (auto simp: word_unat_eq_iff unat_pg_round_down)
  finally show ?thesis .
qed


subsection \<open>The mapping of a directory\<close>

definition pt_of :: "u32 \<Rightarrow> addr" where
  "pt_of e = (e AND PTE_ADDR) + PHYS_BASE"

text \<open>The page table entry of an address, 0 where there is no page table.\<close>

definition pte_at :: "mmu \<Rightarrow> addr \<Rightarrow> addr \<Rightarrow> u32" where
  "pte_at s pd va = (let e = get s (slot pd (pd_no va)) in if e = 0 then 0 else get s (slot (pt_of e) (pt_no va)))"

definition entry_ok :: "u32 \<Rightarrow> bool" where
  "entry_ok e \<longleftrightarrow> e AND PTE_ADDR < 0x40000000"

definition table_pages :: "palloc_state \<Rightarrow> nat set" where
  "table_pages a = palloc_used a \<inter> pool_pages (kernel_pool a)"

text \<open>
  The page tables of a directory are pages of the kernel pool in use, all different and not the
  directory itself; the kernel pool is in kernel memory.
\<close>

definition pd_ok :: "mmu \<Rightarrow> addr \<Rightarrow> bool" where
  "pd_ok s pd \<longleftrightarrow> palloc_inv (pal s) \<and> pg_ofs pd = 0 \<and> PHYS_BASE \<le> pd \<and> unat (pg_no pd) \<in> table_pages (pal s) \<and>
     (\<forall>p \<in> pool_pages (kernel_pool (pal s)). 0xc0000 \<le> p) \<and> cr3 s < 0x40000000 \<and>
     (\<forall>va. is_user_vaddr va \<longrightarrow> (let e = get s (slot pd (pd_no va)) in
        e \<noteq> 0 \<longrightarrow> e AND PTE_P \<noteq> 0 \<and> entry_ok e \<and> unat (pg_no (pt_of e)) \<in> table_pages (pal s) \<and> pt_of e \<noteq> pd)) \<and>
     (\<forall>va vb. is_user_vaddr va \<and> is_user_vaddr vb \<and> get s (slot pd (pd_no va)) \<noteq> 0 \<and> get s (slot pd (pd_no vb)) \<noteq> 0 \<and>
        pt_of (get s (slot pd (pd_no va))) = pt_of (get s (slot pd (pd_no vb))) \<longrightarrow> pd_no va = pd_no vb) \<and>
     (\<forall>va. is_user_vaddr va \<and> pte_at s pd va AND PTE_P \<noteq> 0 \<longrightarrow> entry_ok (pte_at s pd va))"

lemma table_pages_put [simp]: "table_pages (pal (put s p w)) = table_pages (pal s)"
  by (simp add: table_pages_def)

lemma pd_okD:
  assumes "pd_ok s pd"
  shows "palloc_inv (pal s)" "pg_ofs pd = 0" "PHYS_BASE \<le> pd" "unat (pg_no pd) \<in> table_pages (pal s)"
    "\<forall>p \<in> pool_pages (kernel_pool (pal s)). 0xc0000 \<le> p" "cr3 s < 0x40000000"
    "is_user_vaddr va \<Longrightarrow> get s (slot pd (pd_no va)) \<noteq> 0 \<Longrightarrow>
       get s (slot pd (pd_no va)) AND PTE_P \<noteq> 0 \<and> entry_ok (get s (slot pd (pd_no va))) \<and>
       unat (pg_no (pt_of (get s (slot pd (pd_no va))))) \<in> table_pages (pal s) \<and> pt_of (get s (slot pd (pd_no va))) \<noteq> pd"
    "is_user_vaddr va \<Longrightarrow> is_user_vaddr vb \<Longrightarrow> get s (slot pd (pd_no va)) \<noteq> 0 \<Longrightarrow> get s (slot pd (pd_no vb)) \<noteq> 0 \<Longrightarrow>
       pt_of (get s (slot pd (pd_no va))) = pt_of (get s (slot pd (pd_no vb))) \<Longrightarrow> pd_no va = pd_no vb"
    "is_user_vaddr va \<Longrightarrow> pte_at s pd va AND PTE_P \<noteq> 0 \<Longrightarrow> entry_ok (pte_at s pd va)"
  using assms unfolding pd_ok_def Let_def by metis+

lemma PTE_ADDR_mask: "PTE_ADDR = NOT (mask 12)"
  by (simp add: PTE_ADDR_def mask_eq_exp_minus_1)

lemma pt_of_aligned [simp]: "pg_ofs (pt_of e) = 0"
proof -
  have "e AND PTE_ADDR = pg_round_down e" by (simp add: PTE_ADDR_mask pg_round_down_def PGMASK_mask)
  then obtain k where k: "unat (e AND PTE_ADDR) = 4096 * k" by (simp add: unat_pg_round_down)
  have "unat (pt_of e) = (unat (e AND PTE_ADDR) + 3221225472) mod 4294967296" by (simp add: pt_of_def PHYS_BASE_def unat_word_ariths)
  also have "\<dots> = (4096 * (k + 786432)) mod 4294967296" using k by simp
  finally have "unat (pg_ofs (pt_of e)) = 0"
    unfolding unat_pg_ofs using mod_mod_cancel [of 4096 4294967296 "4096 * (k + 786432)"] by simp
  then show ?thesis by (simp add: unat_eq_zero)
qed

lemma ptov_entry: "entry_ok e \<Longrightarrow> ptov (e AND PTE_ADDR) = Some (pt_of e)"
  by (simp add: ptov_def entry_ok_def pt_of_def PHYS_BASE_def word_less_nat_alt)

lemma pt_of_kernel: "entry_ok e \<Longrightarrow> PHYS_BASE \<le> pt_of e"
proof -
  assume "entry_ok e"
  then have "unat (pt_of e) = unat (e AND PTE_ADDR) + unat PHYS_BASE"
    by (simp add: pt_of_def entry_ok_def PHYS_BASE_def unat_word_ariths word_less_nat_alt)
  then show ?thesis by (simp add: word_le_nat_alt)
qed

lemma slot_nonzero: "PHYS_BASE \<le> p \<Longrightarrow> pg_ofs p = 0 \<Longrightarrow> unat i < 1024 \<Longrightarrow> slot p i \<noteq> 0"
  using unat_slot [of p i] by (auto simp: word_le_nat_alt PHYS_BASE_def)


lemma lookup_present:
  assumes ok: "pd_ok s pd" and u: "is_user_vaddr va" and p: "get s (slot pd (pd_no va)) \<noteq> 0"
  shows "lookup_page s pd va create = Some (slot (pt_of (get s (slot pd (pd_no va)))) (pt_no va), s)"
    "slot (pt_of (get s (slot pd (pd_no va)))) (pt_no va) \<noteq> 0"
proof -
  note d = pd_okD [OF ok]
  note e = d(7) [OF u p]
  have "pd \<noteq> 0" using d(3) by (auto simp: PHYS_BASE_def)
  then show "lookup_page s pd va create = Some (slot (pt_of (get s (slot pd (pd_no va)))) (pt_no va), s)"
    using p e u ptov_entry by (simp add: lookup_page_def slot_def Let_def pde_get_pt_def)
  show "slot (pt_of (get s (slot pd (pd_no va)))) (pt_no va) \<noteq> 0"
    using slot_nonzero [OF pt_of_kernel] e by simp
qed

lemma lookup_absent:
  assumes ok: "pd_ok s pd" and p: "get s (slot pd (pd_no va)) = 0"
  shows "lookup_page s pd va False = Some (0, s)"
proof -
  have "pd \<noteq> 0" using pd_okD(3) [OF ok] by (auto simp: PHYS_BASE_def)
  then show ?thesis using p by (simp add: lookup_page_def slot_def Let_def)
qed

lemma get_page_pte:
  assumes ok: "pd_ok s pd" and u: "is_user_vaddr va"
  shows "pagedir_get_page s pd va = Some (if pte_at s pd va AND PTE_P \<noteq> 0 then pt_of (pte_at s pd va) + pg_ofs va else 0)"
proof (cases "get s (slot pd (pd_no va)) = 0")
  case True
  then show ?thesis using u lookup_absent [OF ok True] by (simp add: pagedir_get_page_def pte_at_def)
next
  case False
  note l = lookup_present [OF ok u False]
  have pa: "pte_at s pd va = get s (slot (pt_of (get s (slot pd (pd_no va)))) (pt_no va))" using False by (simp add: pte_at_def Let_def)
  show ?thesis
    using u l pd_okD(9) [OF ok u] ptov_entry [of "pte_at s pd va"] by (auto simp: pagedir_get_page_def pte_get_page_def pa)
qed

text \<open>Changing one page table entry.\<close>

lemma put_pte:
  assumes ok: "pd_ok s pd" and u: "is_user_vaddr va" and p: "get s (slot pd (pd_no va)) \<noteq> 0"
    and w: "w AND PTE_P \<noteq> 0 \<Longrightarrow> entry_ok w"
  defines "s' \<equiv> put s (slot (pt_of (get s (slot pd (pd_no va)))) (pt_no va)) w"
  shows "pd_ok s' pd" "is_user_vaddr vb \<Longrightarrow> pte_at s' pd vb = (if pd_no vb = pd_no va \<and> pt_no vb = pt_no va then w else pte_at s pd vb)"
proof -
  note d = pd_okD [OF ok]
  let ?pt = "pt_of (get s (slot pd (pd_no va)))"
  have pds: "get s' (slot pd (pd_no vb)) = get s (slot pd (pd_no vb))" for vb
    using d(2) d(7) [OF u p] slot_page(1) slot_eq [of ?pt pd "pt_no va" "pd_no vb"] by (simp add: s'_def get_put)
  have pts: "pte_at s' pd vb = (if pd_no vb = pd_no va \<and> pt_no vb = pt_no va then w else pte_at s pd vb)" if v: "is_user_vaddr vb" for vb
  proof (cases "get s (slot pd (pd_no vb)) = 0")
    case True
    then show ?thesis using p pds by (auto simp: pte_at_def)
  next
    case False
    let ?qt = "pt_of (get s (slot pd (pd_no vb)))"
    have "slot ?pt (pt_no va) = slot ?qt (pt_no vb) \<longleftrightarrow> ?pt = ?qt \<and> pt_no va = pt_no vb" by (simp add: slot_eq)
    also have "\<dots> \<longleftrightarrow> pd_no vb = pd_no va \<and> pt_no vb = pt_no va" using d(8) [OF u v p False] by metis
    finally show ?thesis
      using False pds [of vb] slot_page(1) by (auto simp: pte_at_def Let_def s'_def get_put)
  qed
  then show "is_user_vaddr vb \<Longrightarrow> pte_at s' pd vb = (if pd_no vb = pd_no va \<and> pt_no vb = pt_no va then w else pte_at s pd vb)" .
  have "entry_ok (pte_at s' pd vb)" if "is_user_vaddr vb" "pte_at s' pd vb AND PTE_P \<noteq> 0" for vb
    using that pts [OF that(1)] w d(9) [OF that(1)] by (auto split: if_splits)
  then show "pd_ok s' pd"
    unfolding pd_ok_def Let_def pds using d by (simp add: s'_def)
qed


subsection \<open>New entries\<close>

lemma frame_addr:
  assumes "pg_ofs p = 0" "PHYS_BASE \<le> p"
  shows "(p - PHYS_BASE) AND PTE_ADDR = p - PHYS_BASE" "p - PHYS_BASE < 0x40000000"
proof -
  let ?x = "p - PHYS_BASE"
  have ux: "unat ?x = unat p - 3221225472" using assms(2) by (simp add: unat_sub PHYS_BASE_def)
  have "unat p mod 4096 = 0" using assms(1) unat_pg_ofs [of p] by simp
  moreover have "3221225472 \<le> unat p" using assms(2) by (simp add: word_le_nat_alt PHYS_BASE_def)
  ultimately have "unat ?x div 4096 * 4096 = unat ?x" unfolding ux by (auto elim!: dvdE simp: mod_eq_0_iff_dvd)
  then have "pg_round_down ?x = ?x" by (simp add: word_unat_eq_iff unat_pg_round_down)
  then show "?x AND PTE_ADDR = ?x" by (simp add: PTE_ADDR_mask pg_round_down_def PGMASK_mask)
  have "unat p < 2 ^ 32" using unsigned_less [of p, where 'a = nat] by simp
  then show "?x < 0x40000000" unfolding word_less_nat_alt ux by simp
qed

lemma new_entry:
  assumes "pg_ofs p = 0" "PHYS_BASE \<le> p" "f AND PTE_ADDR = 0"
  shows "pt_of ((p - PHYS_BASE) OR f) = p" "entry_ok ((p - PHYS_BASE) OR f)"
proof -
  let ?x = "p - PHYS_BASE"
  have e: "(?x OR f) AND PTE_ADDR = ?x" using assms(3) frame_addr(1) [OF assms(1,2)] by (simp add: bit.conj_disj_distrib2)
  then show "pt_of (?x OR f) = p" by (simp add: pt_of_def)
  show "entry_ok (?x OR f)" using e frame_addr(2) [OF assms(1,2)] by (simp add: entry_ok_def)
qed

lemma pde_create_eq:
  assumes "pg_ofs p = 0" "PHYS_BASE \<le> p"
  shows "\<exists>e. pde_create p = Some e \<and> pt_of e = p \<and> entry_ok e \<and> e AND PTE_P \<noteq> 0 \<and> e \<noteq> 0"
proof -
  let ?e = "(p - PHYS_BASE) OR (PTE_U OR PTE_P OR PTE_W)"
  have f: "(PTE_U OR PTE_P OR PTE_W) AND PTE_ADDR = 0" by (simp add: PTE_U_def PTE_P_def PTE_W_def PTE_ADDR_def)
  have b: "bit ?e 0" by (simp add: bit_simps PTE_U_def PTE_P_def PTE_W_def)
  then have p: "?e AND PTE_P \<noteq> 0" by (simp add: PTE_P_def and_one_eq odd_iff_mod_2_eq_one bit_0)
  have "pde_create p = Some ?e"
    using assms by (simp add: pde_create_def vtop_def is_kernel_vaddr_def ac_simps)
  then show ?thesis using new_entry [OF assms f] p b by (intro exI [of _ ?e]) auto
qed

lemma pte_create_eq:
  assumes "pg_ofs p = 0" "PHYS_BASE \<le> p"
  shows "\<exists>e. pte_create_user p w = Some e \<and> pt_of e = p \<and> entry_ok e \<and> e AND PTE_P \<noteq> 0 \<and> (e AND PTE_W \<noteq> 0 \<longleftrightarrow> w)"
proof -
  let ?f = "PTE_P OR (if w then PTE_W else 0) OR PTE_U"
  let ?e = "(p - PHYS_BASE) OR ?f"
  have f: "?f AND PTE_ADDR = 0" by (simp add: PTE_U_def PTE_P_def PTE_W_def PTE_ADDR_def)
  have b: "bit ?e 0" by (simp add: bit_simps PTE_U_def PTE_P_def PTE_W_def)
  then have p: "?e AND PTE_P \<noteq> 0" by (simp add: PTE_P_def and_one_eq odd_iff_mod_2_eq_one bit_0)
  have "PTE_ADDR AND PTE_W = 0" by (simp add: PTE_ADDR_def PTE_W_def)
  then have "(p - PHYS_BASE) AND PTE_W = 0" using frame_addr(1) [OF assms] by (metis and.assoc bit.conj_zero_right)
  then have pw: "?e AND PTE_W \<noteq> 0 \<longleftrightarrow> w" by (auto simp: bit.conj_disj_distrib2 PTE_U_def PTE_P_def PTE_W_def)
  have "pte_create_user p w = Some ?e"
    using assms by (simp add: pte_create_user_def pte_create_kernel_def vtop_def is_kernel_vaddr_def ac_simps)
  then show ?thesis using new_entry [OF assms f] p pw by (intro exI [of _ ?e]) auto
qed


subsection \<open>New page tables\<close>

lemma kernel_page:
  assumes "pg_ofs p = 0" "0xc0000 \<le> unat (pg_no p)"
  shows "PHYS_BASE \<le> p"
proof -
  have "0xc0000 \<le> unat p div 4096" using assms(2) by (simp add: unat_pg_no)
  then have "0xc0000 * 4096 \<le> unat p" by simp
  then show ?thesis by (simp add: PHYS_BASE_def word_le_nat_alt)
qed

text \<open>A page table in a fresh page of zeros changes no mapping.\<close>

lemma add_table:
  assumes ok: "pd_ok s pd" and u: "is_user_vaddr va" and z: "get s (slot pd (pd_no va)) = 0"
    and pt: "pg_ofs pt = 0" "unat (pg_no pt) \<notin> palloc_used (pal s)" "unat (pg_no pt) \<in> pool_pages (kernel_pool (pal s))"
    and a: "palloc_inv a" "palloc_used a = insert (unat (pg_no pt)) (palloc_used (pal s))"
      "pool_pages (kernel_pool a) = pool_pages (kernel_pool (pal s))" "ram a = mem_fill (ram (pal s)) pt 0 PGSIZE"
    and e: "pt_of e = pt" "entry_ok e" "e AND PTE_P \<noteq> 0" "e \<noteq> 0"
  defines "s' \<equiv> put (s\<lparr>pal := a\<rparr>) (slot pd (pd_no va)) e"
  shows "pd_ok s' pd" "get s' (slot pd (pd_no va)) = e" "is_user_vaddr vb \<Longrightarrow> pte_at s' pd vb = pte_at s pd vb"
proof -
  note d = pd_okD [OF ok]
  have npd: "pg_no pd \<noteq> pg_no pt" "pt \<noteq> pd" using d(4) pt(2) by (auto simp: table_pages_def)
  have g: "get s' (slot p i) = (if slot p i = slot pd (pd_no va) then e else if p = pt then 0 else get s (slot p i))"
    if "pg_ofs p = 0" "unat i < 1024" for p i
  proof -
    have "get (s\<lparr>pal := a\<rparr>) (slot p i) = (if pg_no p = pg_no pt then 0 else get s (slot p i))"
      using load_fill [OF pt(1) slot_page(1) [OF that]] slot_page(2) [OF that] by (simp add: get_def a(4))
    moreover have "pg_no p = pg_no pt \<longleftrightarrow> p = pt" using page_eq [OF that(1) pt(1)] by auto
    ultimately show ?thesis
      using get_put [of "slot pd (pd_no va)" "slot p i" "s\<lparr>pal := a\<rparr>" e] slot_page(1) [OF that] slot_page(1) [OF d(2), of "pd_no va"]
      by (auto simp: s'_def)
  qed
  have gd: "get s' (slot pd (pd_no vb)) = (if pd_no vb = pd_no va then e else get s (slot pd (pd_no vb)))" for vb
    using g [OF d(2), of "pd_no vb"] npd(2) slot_eq [OF d(2,2), of "pd_no vb" "pd_no va"] by simp
  then show "get s' (slot pd (pd_no va)) = e" by simp
  have old: "pt_of (get s (slot pd (pd_no vb))) \<noteq> pt" if "is_user_vaddr vb" "get s (slot pd (pd_no vb)) \<noteq> 0" for vb
    using d(7) [OF that] pt(2) by (auto simp: table_pages_def)
  have np: "slot p i \<noteq> slot pd (pd_no va)" if "pg_ofs p = 0" "unat i < 1024" "p \<noteq> pd" for p i
    using slot_eq [OF that(1) d(2) that(2)] that(3) by simp
  have pte: "pte_at s' pd vb = pte_at s pd vb" if v: "is_user_vaddr vb" for vb
  proof (cases "pd_no vb = pd_no va")
    case True
    then show ?thesis using z gd [of vb] e g [OF pt(1), of "pt_no vb"] np [OF pt(1), of "pt_no vb"] npd(2) by (simp add: pte_at_def)
  next
    case F: False
    show ?thesis
    proof (cases "get s (slot pd (pd_no vb)) = 0")
      case False
      let ?q = "pt_of (get s (slot pd (pd_no vb)))"
      have "get s' (slot ?q (pt_no vb)) = get s (slot ?q (pt_no vb))"
        using g [of ?q "pt_no vb"] old [OF v False] np [of ?q "pt_no vb"] d(7) [OF v False] by simp
      then show ?thesis using F gd [of vb] by (simp add: pte_at_def Let_def)
    qed (use F gd [of vb] in \<open>simp add: pte_at_def\<close>)
  qed
  then show "is_user_vaddr vb \<Longrightarrow> pte_at s' pd vb = pte_at s pd vb" .
  have fld: "palloc_inv (pal s')" "table_pages (pal s') = insert (unat (pg_no pt)) (table_pages (pal s))"
      "pool_pages (kernel_pool (pal s')) = pool_pages (kernel_pool (pal s))" "cr3 s' = cr3 s"
    using a pt(3) by (auto simp: s'_def table_pages_def)
  have 1: "\<forall>vb. is_user_vaddr vb \<longrightarrow> (let f = get s' (slot pd (pd_no vb)) in
        f \<noteq> 0 \<longrightarrow> f AND PTE_P \<noteq> 0 \<and> entry_ok f \<and> unat (pg_no (pt_of f)) \<in> table_pages (pal s') \<and> pt_of f \<noteq> pd)"
    unfolding gd fld(2) using e npd(2) d(7) by (auto simp: Let_def)
  have 2: "\<forall>vb vc. is_user_vaddr vb \<and> is_user_vaddr vc \<and> get s' (slot pd (pd_no vb)) \<noteq> 0 \<and> get s' (slot pd (pd_no vc)) \<noteq> 0 \<and>
        pt_of (get s' (slot pd (pd_no vb))) = pt_of (get s' (slot pd (pd_no vc))) \<longrightarrow> pd_no vb = pd_no vc"
  proof (intro allI impI)
    fix vb vc
    assume "is_user_vaddr vb \<and> is_user_vaddr vc \<and> get s' (slot pd (pd_no vb)) \<noteq> 0 \<and> get s' (slot pd (pd_no vc)) \<noteq> 0 \<and>
        pt_of (get s' (slot pd (pd_no vb))) = pt_of (get s' (slot pd (pd_no vc)))"
    then show "pd_no vb = pd_no vc"
      unfolding gd using e(1) old [of vb] old [of vc] d(8) [of vb vc] by (auto split: if_splits)
  qed
  have 3: "\<forall>vb. is_user_vaddr vb \<and> pte_at s' pd vb AND PTE_P \<noteq> 0 \<longrightarrow> entry_ok (pte_at s' pd vb)"
    using pte d(9) by metis
  show "pd_ok s' pd" unfolding pd_ok_def using 1 2 3 fld d by simp
qed

lemma no_page_left:
  assumes "palloc_inv a" "\<not> has_room (sel_pool flags a) (unat (1 :: u32))"
  shows "pool_pages (sel_pool flags a) \<subseteq> palloc_used a"
proof
  fix p
  assume "p \<in> pool_pages (sel_pool flags a)"
  moreover have "\<not> {p ..< p + 1} \<subseteq> pool_pages (sel_pool flags a) - pool_used (sel_pool flags a)"
    using assms(2) by (metis has_room_def unat_1)
  ultimately show "p \<in> palloc_used a" by (auto simp: palloc_used_def sel_pool_def split: if_splits)
qed

lemma run_of_one: "unat (pg_no p) < 2 ^ 20 \<Longrightarrow> run_of (pg_no p, 1) = {unat (pg_no p)}"
  by (auto simp: run_of_def)

text \<open>What creating a page table and filling it may change: one page of the kernel pool is taken, and memory outside this pool stays.\<close>

definition tables_only :: "mmu \<Rightarrow> mmu \<Rightarrow> bool" where
  "tables_only s s' \<longleftrightarrow> init_page_dir s' = init_page_dir s \<and> init_ram_pages s' = init_ram_pages s \<and> cr3 s' = cr3 s \<and>
     pool_pages (kernel_pool (pal s')) = pool_pages (kernel_pool (pal s)) \<and> pool_pages (user_pool (pal s')) = pool_pages (user_pool (pal s)) \<and>
     (\<exists>P \<subseteq> pool_pages (kernel_pool (pal s)). card P \<le> 1 \<and> palloc_used (pal s') = palloc_used (pal s) \<union> P) \<and>
     (\<forall>x. unat (pg_no x) \<notin> pool_pages (kernel_pool (pal s)) \<longrightarrow> ram (pal s') x = ram (pal s) x)"

lemma tables_only_refl [simp]: "tables_only s s"
  by (auto simp: tables_only_def intro!: exI [of _ "{}"])

lemma store_outside:
  assumes "aligned p" "pg_no x \<noteq> pg_no p"
  shows "store m p w x = m x"
proof -
  obtain k where k: "unat p = 4 * k" using assms(1) by (auto simp: aligned_def)
  have "(4 * k + i) div 4096 = unat p div 4096" if "i < 4" for i
    using that k div_mult2_eq [of "4 * k + i" 4 1024] div_mult2_eq [of "4 * k" 4 1024] by simp
  from this [of 1] this [of 2] this [of 3]
  have "pg_no (p + 1) = pg_no p" "pg_no (p + 2) = pg_no p" "pg_no (p + 3) = pg_no p"
    using k by (simp_all add: word_unat_eq_iff unat_pg_no unat_word_bytes [OF assms(1)])
  then show ?thesis using assms(2) by (auto simp: store_def)
qed

lemma tables_only_put:
  assumes "tables_only s s'" "pg_ofs p = 0" "unat i < 1024" "unat (pg_no p) \<in> pool_pages (kernel_pool (pal s))"
  shows "tables_only s (put s' (slot p i) w)"
proof -
  have "ram (pal (put s' (slot p i) w)) x = ram (pal s') x" if "unat (pg_no x) \<notin> pool_pages (kernel_pool (pal s))" for x
    using store_outside [OF slot_page(1) [OF assms(2,3)], of x] slot_page(2) [OF assms(2,3)] that assms(4) by (fastforce simp: put_def)
  then show ?thesis using assms(1) by (simp add: tables_only_def)
qed

text \<open>\<open>lookup_page\<close> when it may create a page table.\<close>

lemma lookup_create:
  assumes ok: "pd_ok s pd" and u: "is_user_vaddr va"
  shows "lookup_page s pd va True = Some (0, s) \<and> pool_pages (kernel_pool (pal s)) \<subseteq> palloc_used (pal s) \<or>
    (\<exists>s'. tables_only s s' \<and> lookup_page s pd va True = Some (slot (pt_of (get s' (slot pd (pd_no va)))) (pt_no va), s') \<and> pd_ok s' pd \<and>
       get s' (slot pd (pd_no va)) \<noteq> 0 \<and> (\<forall>vb. is_user_vaddr vb \<longrightarrow> pte_at s' pd vb = pte_at s pd vb))"
proof (cases "get s (slot pd (pd_no va)) = 0")
  case False
  then show ?thesis using lookup_present(1) [OF ok u False, of True] ok by (intro disjI2 exI [of _ s]) simp
next
  case True
  note d = pd_okD [OF ok]
  have pd0: "pd \<noteq> 0" using d(3) by (auto simp: PHYS_BASE_def)
  have sel: "sel_pool PAL_ZERO (pal s) = kernel_pool (pal s)" by (simp add: sel_pool_def PAL_ZERO_def PAL_USER_def)
  show ?thesis
  proof (cases "has_room (sel_pool PAL_ZERO (pal s)) (unat (1 :: u32))")
    case F: False
    have "palloc_get_page (pal s) PAL_ZERO = Some (0, pal s)"
      using palloc_get_no_room [OF d(1) _ F] by (simp add: palloc_get_page_def PAL_ASSERT_def PAL_ZERO_def)
    then show ?thesis using True pd0 u no_page_left [OF d(1) F, unfolded sel] by (simp add: lookup_page_def slot_def Let_def)
  next
    case T: True
    obtain pt a where g: "palloc_get_page (pal s) PAL_ZERO = Some (pt, a)" "pt \<noteq> 0" "pg_ofs pt = 0"
        "run_of (pg_no pt, 1) \<subseteq> pool_pages (kernel_pool (pal s))" "run_of (pg_no pt, 1) \<inter> palloc_used (pal s) = {}"
        "palloc_used a = palloc_used (pal s) \<union> run_of (pg_no pt, 1)" "palloc_inv a"
        "pool_pages (kernel_pool a) = pool_pages (kernel_pool (pal s))" "ram a = mem_fill (ram (pal s)) pt 0 PGSIZE"
        "pool_pages (user_pool a) = pool_pages (user_pool (pal s))"
      using palloc_get_room [OF d(1) _ T] unfolding sel by (auto simp: palloc_get_page_def PAL_ZERO_def)
    have r: "run_of (pg_no pt, 1) = {unat (pg_no pt)}" by (rule run_of_one [OF pg_no_less])
    have k: "PHYS_BASE \<le> pt" by (rule kernel_page [OF g(3)]) (use g(4) r d(5) in auto)
    obtain e where e: "pde_create pt = Some e" "pt_of e = pt" "entry_ok e" "e AND PTE_P \<noteq> 0" "e \<noteq> 0"
      using pde_create_eq [OF g(3) k] by auto
    let ?s = "put (s\<lparr>pal := a\<rparr>) (slot pd (pd_no va)) e"
    have pu: "unat (pg_no pt) \<notin> palloc_used (pal s)" "palloc_used a = insert (unat (pg_no pt)) (palloc_used (pal s))"
        "unat (pg_no pt) \<in> pool_pages (kernel_pool (pal s))"
      using g(4,5,6) r by auto
    note N = add_table [OF ok u True g(3) pu(1,3) g(7) pu(2) g(8,9) e(2-5)]
    have "mem_fill (ram (pal s)) pt 0 PGSIZE x = ram (pal s) x" if "unat (pg_no x) \<notin> pool_pages (kernel_pool (pal s))" for x
      using that pu(3) in_page [OF g(3), of x] by (auto simp: mem_fill_def)
    then have "tables_only s (s\<lparr>pal := a\<rparr>)"
      using pu g(8-10) by (auto simp: tables_only_def intro!: exI [of _ "{unat (pg_no pt)}"])
    then have to: "tables_only s ?s" using tables_only_put d(2,4) by (simp add: table_pages_def)
    have "lookup_page s pd va True = Some (slot (pt_of (get ?s (slot pd (pd_no va)))) (pt_no va), ?s)"
      using True pd0 u g(1,2) e N(2) ptov_entry [OF e(3)] by (simp add: lookup_page_def Let_def pde_get_pt_def slot_def [symmetric])
    then show ?thesis using N e(5) to by (intro disjI2 exI [of _ ?s] conjI allI impI) simp_all
  qed
qed


subsection \<open>Mapping and unmapping\<close>

lemma unmapped_iff:
  assumes "pd_ok s pd" "is_user_vaddr va"
  shows "pagedir_get_page s pd va = Some 0 \<longleftrightarrow> pte_at s pd va AND PTE_P = 0"
proof -
  have "pt_of (pte_at s pd va) + pg_ofs va \<noteq> 0" if p: "pte_at s pd va AND PTE_P \<noteq> 0"
  proof -
    let ?p = "pt_of (pte_at s pd va)"
    have "PHYS_BASE \<le> ?p" by (rule pt_of_kernel [OF pd_okD(9) [OF assms p]])
    moreover have "unat ?p mod 4096 = 0" using unat_pg_ofs [of ?p] by simp
    moreover have "unat ?p < 2 ^ 32" using unsigned_less [of ?p, where 'a = nat] by simp
    moreover have "unat (pg_ofs va) < 4096" by (simp add: unat_pg_ofs)
    ultimately have "unat (?p + pg_ofs va) \<noteq> 0"
      by (auto simp: unat_plus_if' word_le_nat_alt PHYS_BASE_def)
    then show ?thesis by (metis unat_0)
  qed
  then show ?thesis using get_page_pte [OF assms] by auto
qed

lemma invalidate_same:
  assumes "pd_ok s pd"
  shows "invalidate_pagedir s pd = Some s"
proof -
  have c: "cr3 s < PHYS_BASE" using pd_okD(6) [OF assms] by (simp add: PHYS_BASE_def word_less_nat_alt)
  have "pd = cr3 s + PHYS_BASE \<Longrightarrow> pagedir_activate s pd = Some s"
    using pd_okD(3) [OF assms] by (auto simp: pagedir_activate_def vtop_def is_kernel_vaddr_def PHYS_BASE_def)
  then show ?thesis using c by (auto simp: invalidate_pagedir_def active_pd_def ptov_def)
qed

lemma pte_at_page: "pg_ofs u = 0 \<Longrightarrow> pg_round_down va = u \<Longrightarrow> pte_at s pd va = pte_at s pd u"
  using same_page [of u va] by (simp add: pte_at_def Let_def)

lemma set_page_ptes:
  assumes ok: "pd_ok s pd" and pre: "pd \<noteq> init_page_dir s" "pg_ofs upage = 0" "is_user_vaddr upage" "pg_ofs kpage = 0"
      "is_kernel_vaddr kpage" "drop_bit PTSHIFT (kpage - PHYS_BASE) < init_ram_pages s" and un: "pte_at s pd upage AND PTE_P = 0"
  shows "\<exists>ok s'. pagedir_set_page s pd upage kpage w = Some (ok, s') \<and> pd_ok s' pd \<and> tables_only s s' \<and>
    (\<not> ok \<longrightarrow> s' = s \<and> pool_pages (kernel_pool (pal s)) \<subseteq> palloc_used (pal s)) \<and>
    (\<exists>e. pt_of e = kpage \<and> entry_ok e \<and> e AND PTE_P \<noteq> 0 \<and> (e AND PTE_W \<noteq> 0 \<longleftrightarrow> w) \<and>
      (\<forall>va. is_user_vaddr va \<longrightarrow> pte_at s' pd va = (if ok \<and> pg_round_down va = upage then e else pte_at s pd va)))"
proof -
  obtain e where e: "pte_create_user kpage w = Some e" "pt_of e = kpage" "entry_ok e" "e AND PTE_P \<noteq> 0" "e AND PTE_W \<noteq> 0 \<longleftrightarrow> w"
    using pte_create_eq [OF pre(4), of w] pre(5) by (auto simp: is_kernel_vaddr_def)
  have run: "pagedir_set_page s pd upage kpage w = Option.bind (lookup_page s pd upage True) (\<lambda>(pte, s).
      if pte \<noteq> 0 then do { ASSERT (get s pte AND PTE_P = 0); Some (True, put s pte e) } else Some (False, s))"
    using pre e(1) by (simp add: pagedir_set_page_def vtop_def cong: if_cong)
  from lookup_create [OF ok pre(3)] show ?thesis
  proof (elim disjE exE conjE)
    assume "lookup_page s pd upage True = Some (0, s)" "pool_pages (kernel_pool (pal s)) \<subseteq> palloc_used (pal s)"
    then show ?thesis using ok e by (intro exI [of _ False] exI [of _ s]) (auto simp: run)
  next
    fix s1
    let ?p = "slot (pt_of (get s1 (slot pd (pd_no upage)))) (pt_no upage)"
    assume to: "tables_only s s1" and l: "lookup_page s pd upage True = Some (?p, s1)" and ok1: "pd_ok s1 pd" and nz: "get s1 (slot pd (pd_no upage)) \<noteq> 0"
      and same: "\<forall>vb. is_user_vaddr vb \<longrightarrow> pte_at s1 pd vb = pte_at s pd vb"
    have p0: "?p \<noteq> 0" by (rule lookup_present(2) [OF ok1 pre(3) nz])
    have "get s1 ?p = pte_at s1 pd upage" using nz by (simp add: pte_at_def Let_def)
    then have free: "get s1 ?p AND PTE_P = 0" using same pre(3) un by simp
    note P = put_pte [OF ok1 pre(3) nz e(3)]
    have "pte_at (put s1 ?p e) pd va = (if pg_round_down va = upage then e else pte_at s pd va)" if "is_user_vaddr va" for va
      using P(2) [OF that] same that by (simp add: same_page [OF pre(2)])
    moreover have "pagedir_set_page s pd upage kpage w = Some (True, put s1 ?p e)" using l p0 free by (simp add: run)
    moreover have "tables_only s (put s1 ?p e)"
      using pd_okD(7) [OF ok1 pre(3) nz] to by (intro tables_only_put) (simp_all add: table_pages_def tables_only_def)
    ultimately show ?thesis using P(1) e by (intro exI [of _ True] exI [of _ "put s1 ?p e"]) auto
  qed
qed

lemma clear_page_ptes:
  assumes ok: "pd_ok s pd" and pre: "pg_ofs upage = 0" "is_user_vaddr upage"
  shows "\<exists>s'. pagedir_clear_page s pd upage = Some s' \<and> pd_ok s' pd \<and>
    (\<forall>va. is_user_vaddr va \<longrightarrow> pte_at s' pd va = (if pg_round_down va = upage then pte_at s pd va AND NOT PTE_P else pte_at s pd va))"
proof -
  have np: "x AND NOT PTE_P = x" if "x AND PTE_P = 0" for x :: u32
  proof -
    have "x = (x AND PTE_P) OR (x AND NOT PTE_P)" by (intro bit_eqI) (auto simp: bit_simps)
    then show ?thesis using that by simp
  qed
  note same = pte_at_page [OF pre(1), where s = s and pd = pd]
  show ?thesis
  proof (cases "pte_at s pd upage AND PTE_P = 0")
    case True
    have "pagedir_clear_page s pd upage = Some s"
    proof (cases "get s (slot pd (pd_no upage)) = 0")
      case T: True
      then show ?thesis using pre lookup_absent [OF ok T] by (simp add: pagedir_clear_page_def)
    next
      case False
      then show ?thesis using pre True lookup_present [OF ok pre(2) False] by (simp add: pagedir_clear_page_def pte_at_def Let_def)
    qed
    then show ?thesis using ok same np [OF True] by (intro exI [of _ s]) auto
  next
    case False
    then have nz: "get s (slot pd (pd_no upage)) \<noteq> 0" by (auto simp: pte_at_def)
    let ?p = "slot (pt_of (get s (slot pd (pd_no upage)))) (pt_no upage)"
    have g: "get s ?p = pte_at s pd upage" using nz by (simp add: pte_at_def Let_def)
    let ?w = "pte_at s pd upage AND NOT PTE_P"
    have w: "?w AND PTE_P = 0" by (simp add: and.assoc)
    note P = put_pte [OF ok pre(2) nz, of ?w]
    have ok': "pd_ok (put s ?p ?w) pd" using P(1) w by simp
    have "pagedir_clear_page s pd upage = Some (put s ?p ?w)"
      using pre lookup_present [OF ok pre(2) nz] False g invalidate_same [OF ok'] by (simp add: pagedir_clear_page_def)
    moreover have "pte_at (put s ?p ?w) pd va = (if pg_round_down va = upage then pte_at s pd va AND NOT PTE_P else pte_at s pd va)"
      if "is_user_vaddr va" for va
      using P(2) [OF _ that] w same [of va] by (simp add: same_page [OF pre(1)])
    ultimately show ?thesis using ok' by blast
  qed
qed


subsection \<open>Property\<close>

text \<open>
  C10. A page directory is a partial map from user pages to frames. \<open>pagedir_set_page\<close> on a page that
  is not mapped returns true and maps exactly this page to the frame, wherever in it an address lies,
  and keeps the mapping of all other user addresses, also when it takes a new page for a page table;
  when there is none, it returns false and nothing changes. \<open>pagedir_clear_page\<close> undoes it.
\<close>

theorem pagedir_map_correct:
  assumes "pd_ok s pd" "pd \<noteq> init_page_dir s" "pg_ofs upage = 0" "is_user_vaddr upage" "pg_ofs kpage = 0" "is_kernel_vaddr kpage"
    "drop_bit PTSHIFT (kpage - PHYS_BASE) < init_ram_pages s" "pagedir_get_page s pd upage = Some 0"
  shows "\<exists>ok s' s''. pagedir_set_page s pd upage kpage w = Some (ok, s') \<and> pd_ok s' pd \<and> (\<not> ok \<longrightarrow> s' = s) \<and>
    (\<forall>va. is_user_vaddr va \<longrightarrow> pagedir_get_page s' pd va =
       (if ok \<and> pg_round_down va = upage then Some (kpage + pg_ofs va) else pagedir_get_page s pd va)) \<and>
    pagedir_clear_page s' pd upage = Some s'' \<and> pd_ok s'' pd \<and>
    (\<forall>va. is_user_vaddr va \<longrightarrow> pagedir_get_page s'' pd va = pagedir_get_page s pd va)"
proof -
  have un: "pte_at s pd upage AND PTE_P = 0" using assms(8) unmapped_iff [OF assms(1,4)] by simp
  obtain ok s' e where r: "pagedir_set_page s pd upage kpage w = Some (ok, s')" "pd_ok s' pd" "\<not> ok \<longrightarrow> s' = s"
    and e: "pt_of e = kpage" "e AND PTE_P \<noteq> 0"
      "\<And>va. is_user_vaddr va \<Longrightarrow> pte_at s' pd va = (if ok \<and> pg_round_down va = upage then e else pte_at s pd va)"
    using set_page_ptes [OF assms(1-7) un, of w] by metis
  obtain s'' where c: "pagedir_clear_page s' pd upage = Some s''" "pd_ok s'' pd"
      "\<And>va. is_user_vaddr va \<Longrightarrow> pte_at s'' pd va = (if pg_round_down va = upage then pte_at s' pd va AND NOT PTE_P else pte_at s' pd va)"
    using clear_page_ptes [OF r(2) assms(3,4)] by metis
  have same: "pte_at s pd va AND PTE_P = 0" if "pg_round_down va = upage" for va
    using un pte_at_page [OF assms(3) that] by simp
  have g1: "pagedir_get_page s' pd va = (if ok \<and> pg_round_down va = upage then Some (kpage + pg_ofs va) else pagedir_get_page s pd va)"
    if "is_user_vaddr va" for va
    using that e by (simp add: get_page_pte [OF r(2)] get_page_pte [OF assms(1)])
  have g2: "pagedir_get_page s'' pd va = pagedir_get_page s pd va" if "is_user_vaddr va" for va
    using that e c(3) same [of va] by (auto simp: get_page_pte [OF c(2)] get_page_pte [OF assms(1)] and.assoc)
  show ?thesis using r c(1,2) g1 g2 by blast
qed

text \<open>A machine with three pages in each pool; the first page of the kernel pool is an empty directory.\<close>

definition small_machine :: mmu where
  "small_machine = \<lparr>pal = \<lparr>kernel_pool = \<lparr>used_map = \<lparr>bit_cnt = 3, bits = [1]\<rparr>, base = 0xc0100000\<rparr>,
       user_pool = \<lparr>used_map = \<lparr>bit_cnt = 3, bits = [0]\<rparr>, base = 0xc0200000\<rparr>, ram = (\<lambda>_. 0)\<rparr>,
     init_page_dir = 0xc0001000, init_ram_pages = 1024, cr3 = 0x1000\<rparr>"

lemma small_machine_get: "get small_machine p = 0"
  by (simp add: get_def small_machine_def load_def word_of_bytes_def)

lemma small_machine_ok: "pd_ok small_machine 0xc0100000"
proof -
  have n: "unat (pg_no 0xc0100000) = 0xc0100" "unat (pg_no 0xc0200000) = 0xc0200" by (simp_all add: unat_pg_no)
  have o: "pg_ofs 0xc0100000 = 0" "pg_ofs 0xc0200000 = 0" by (simp_all add: word_unat_eq_iff unat_pg_ofs)
  have u: "0 \<in> bm_used \<lparr>bit_cnt = 3, bits = [1]\<rparr>" by (simp add: bm_used_def bm_bits_def bm_bit_def)
  have "palloc_inv (pal small_machine)"
    using n o by (auto simp: palloc_inv_def pool_inv_def small_machine_def bm_wf_def pool_pages_def word_gt_0 simp flip: unat_gt_0)
  moreover have "0xc0100 \<in> palloc_used (pal small_machine)"
    using u n by (force simp: palloc_used_def pool_used_def small_machine_def)
  moreover have "\<forall>p \<in> pool_pages (kernel_pool (pal small_machine)). 0xc0000 \<le> p"
    using n by (simp add: pool_pages_def small_machine_def)
  moreover have "cr3 small_machine < 0x40000000" by (simp add: small_machine_def)
  moreover have "0xc0100 \<in> pool_pages (kernel_pool (pal small_machine))"
    using n by (simp add: pool_pages_def small_machine_def)
  ultimately show ?thesis
    using n o by (simp add: pd_ok_def small_machine_get pte_at_def PHYS_BASE_def table_pages_def)
qed

theorem pagedir_map_correct_witness:
  "\<exists>ok s'. pagedir_set_page small_machine 0xc0100000 0x8000000 0xc0200000 True = Some (ok, s') \<and> pd_ok s' 0xc0100000 \<and>
     pagedir_get_page s' 0xc0100000 0x8000123 = Some (if ok then 0xc0200123 else 0)"
proof -
  note ok = small_machine_ok
  have u: "is_user_vaddr 0x8000000" "is_user_vaddr 0x8000123" "is_kernel_vaddr 0xc0200000"
    by (simp_all add: is_user_vaddr_def is_kernel_vaddr_def PHYS_BASE_def)
  have o: "pg_ofs 0x8000000 = 0" "pg_ofs 0xc0200000 = 0" "pg_ofs 0x8000123 = 0x123" "pg_round_down 0x8000123 = 0x8000000"
    by (simp_all add: pg_ofs_def pg_round_down_def PG_simps)
  have e: "pagedir_get_page small_machine 0xc0100000 va = Some 0" if "is_user_vaddr va" for va
    using get_page_pte [OF ok that] by (simp add: pte_at_def small_machine_get)
  have i: "(0xc0100000 :: addr) \<noteq> init_page_dir small_machine" "drop_bit PTSHIFT (0xc0200000 - PHYS_BASE) < init_ram_pages small_machine"
    by (simp_all add: small_machine_def PHYS_BASE_def PTSHIFT_def PGBITS_def)
  from pagedir_map_correct [OF ok i(1) o(1) u(1) o(2) u(3) i(2) e [OF u(1)], of True]
  show ?thesis using u(2) o(3,4) e [OF u(2)] by fastforce
qed

end
