(* ===== verification/Block_Device.thy ===== *)
theory Block_Device
  imports Bytes
begin

text \<open>
  Block devices (src/proj-pregame/src/devices/block.c). A registered device is its position in
  \<open>all_blocks\<close>, in the order of registration; the driver behind \<open>ops\<close> and \<open>aux\<close> is the disk
  itself, a map from sector numbers to their 512 bytes. C strings are lists of bytes without the
  terminating null. Panics are \<open>None\<close>; printing is left out.
\<close>

subsection \<open>The C functions\<close>

type_synonym disk = "u32 \<Rightarrow> u8 list"

definition BLOCK_SECTOR_SIZE :: int where "BLOCK_SECTOR_SIZE = 512"

datatype block_type = BLOCK_KERNEL | BLOCK_FILESYS | BLOCK_SCRATCH | BLOCK_SWAP | BLOCK_RAW | BLOCK_FOREIGN

record block =
  b_name :: "u8 list"
  b_type :: block_type
  b_size :: u32
  aux :: disk
  read_cnt :: u64
  write_cnt :: u64

record devices =
  all_blocks :: "block list"
  block_by_role :: "block_type \<Rightarrow> nat option"

fun block_type_name :: "block_type \<Rightarrow> string" where
  "block_type_name BLOCK_KERNEL = ''kernel''"
| "block_type_name BLOCK_FILESYS = ''filesys''"
| "block_type_name BLOCK_SCRATCH = ''scratch''"
| "block_type_name BLOCK_SWAP = ''swap''"
| "block_type_name BLOCK_RAW = ''raw''"
| "block_type_name BLOCK_FOREIGN = ''foreign''"

definition is_role :: "block_type \<Rightarrow> bool" where
  "is_role t \<longleftrightarrow> t \<noteq> BLOCK_RAW \<and> t \<noteq> BLOCK_FOREIGN"

definition block_get_role :: "devices \<Rightarrow> block_type \<Rightarrow> nat option option" where
  "block_get_role ds role = do { ASSERT (is_role role); Some (block_by_role ds role) }"

definition block_set_role :: "devices \<Rightarrow> block_type \<Rightarrow> nat option \<Rightarrow> devices option" where
  "block_set_role ds role b = do {
     ASSERT (is_role role);
     Some (ds\<lparr>block_by_role := (block_by_role ds)(role := b)\<rparr>)
   }"

definition list_elem_to_block :: "devices \<Rightarrow> nat \<Rightarrow> nat option" where
  "list_elem_to_block ds i = (if i \<noteq> length (all_blocks ds) then Some i else None)"

definition block_first :: "devices \<Rightarrow> nat option" where
  "block_first ds = list_elem_to_block ds 0"

definition block_next :: "devices \<Rightarrow> nat \<Rightarrow> nat option" where
  "block_next ds i = list_elem_to_block ds (Suc i)"

fun block_get_by_name_loop :: "block list \<Rightarrow> nat \<Rightarrow> u8 list \<Rightarrow> nat option" where
  "block_get_by_name_loop [] i name = None"
| "block_get_by_name_loop (b # bs) i name =
     (if name = b_name b then Some i else block_get_by_name_loop bs (Suc i) name)"

definition block_get_by_name :: "devices \<Rightarrow> u8 list \<Rightarrow> nat option" where
  "block_get_by_name ds name = block_get_by_name_loop (all_blocks ds) 0 name"

definition check_sector :: "block \<Rightarrow> u32 \<Rightarrow> unit option" where
  "check_sector b sector = (if sector \<ge> b_size b then None else Some ())"

definition block_read :: "block \<Rightarrow> u32 \<Rightarrow> (u8 list \<times> block) option" where
  "block_read b sector = do {
     check_sector b sector;
     Some (aux b sector, b\<lparr>read_cnt := read_cnt b + 1\<rparr>)
   }"

definition block_write :: "block \<Rightarrow> u32 \<Rightarrow> u8 list \<Rightarrow> block option" where
  "block_write b sector buffer = do {
     check_sector b sector;
     ASSERT (b_type b \<noteq> BLOCK_FOREIGN);
     Some (b\<lparr>aux := (aux b)(sector := buffer), write_cnt := write_cnt b + 1\<rparr>)
   }"

text \<open>\<open>strlcpy\<close> into an array of \<open>n\<close> bytes keeps the first \<open>n - 1\<close> bytes of a string.\<close>

definition block_register :: "bool \<Rightarrow> devices \<Rightarrow> u8 list \<Rightarrow> block_type \<Rightarrow> u32 \<Rightarrow> disk \<Rightarrow> (nat \<times> devices) option" where
  "block_register mem ds name type sz dsk = do {
     ASSERT mem;
     let b = \<lparr>b_name = take 15 name, b_type = type, b_size = sz, aux = dsk, read_cnt = 0, write_cnt = 0\<rparr>;
     Some (length (all_blocks ds), ds\<lparr>all_blocks := all_blocks ds @ [b]\<rparr>)
   }"

subsection \<open>Devices by name and reading back\<close>

lemma block_get_by_name_loop_Some:
  "block_get_by_name_loop bs i name = Some j \<Longrightarrow> i \<le> j \<and> j - i < length bs \<and> b_name (bs ! (j - i)) = name"
proof (induction bs arbitrary: i)
  case (Cons b bs)
  show ?case
  proof (cases "name = b_name b")
    case False
    then have "Suc i \<le> j \<and> j - Suc i < length bs \<and> b_name (bs ! (j - Suc i)) = name"
      using Cons.IH [of "Suc i"] Cons.prems by simp
    then show ?thesis by (auto simp: nth_Cons split: nat.splits) (metis Suc_diff_Suc Suc_le_lessD old.nat.inject)
  qed (use Cons.prems in simp)
qed simp

lemma block_get_by_name_loop_None: "block_get_by_name_loop bs i name = None \<longleftrightarrow> name \<notin> b_name ` set bs"
  by (induction bs arbitrary: i) auto

lemma block_register_found:
  assumes "block_register True ds name type sz dsk = Some (i, ds')" "length name \<le> 15" "name \<notin> b_name ` set (all_blocks ds)"
  shows "\<exists>j. block_get_by_name ds' name = Some j \<and> b_name (all_blocks ds' ! j) = name"
proof -
  have "name \<in> b_name ` set (all_blocks ds')" using assms(1,2) by (auto simp: block_register_def panic_simps Let_def)
  then obtain j where "block_get_by_name ds' name = Some j"
    using block_get_by_name_loop_None [of "all_blocks ds'" 0 name] by (auto simp: block_get_by_name_def)
  then show ?thesis using block_get_by_name_loop_Some [of "all_blocks ds'" 0 name j] by (simp add: block_get_by_name_def)
qed

lemma block_read_write:
  "block_write b sector buf = Some b' \<Longrightarrow>
   \<exists>b''. block_read b' s = Some (if s = sector then buf else aux b s, b'') \<or> block_read b s = None"
  by (auto simp: block_read_def block_write_def check_sector_def panic_simps split: if_splits)

end
