(* ===== verification/Inode_Data.thy ===== *)
theory Inode_Data
  imports Bitmap Block_Device "HOL-Library.Signed_Division"
begin

text \<open>
  The state of the file system and the bytes of a file: \<open>inode_read_at\<close> and \<open>inode_write_at\<close> of
  src/proj-pregame/src/filesys/inode.c. A pointer to an open inode is the number of the sector that
  holds the inode on disk; \<open>open_inodes\<close> never has two inodes for one sector, because \<open>inode_open\<close>
  looks there first. \<open>off_t\<close> is an integer: no operation leaves its range for sizes and offsets
  within it. Requests to \<open>malloc\<close> are numbered, and \<open>avail\<close> says which of them succeed.
\<close>

subsection \<open>The C functions\<close>

definition INODE_MAGIC :: u32 where "INODE_MAGIC = 0x494e4f44"

record inode_disk =
  start :: u32
  dlength :: int
  magic :: u32
  unused :: "u8 list"

record inode =
  sector :: u32
  open_cnt :: int
  removed :: bool
  deny_write_cnt :: int
  idata :: inode_disk

record ofile =
  finode :: u32
  fpos :: int
  deny_write :: bool

record fs =
  fs_device :: block
  open_inodes :: "inode list"
  free_map :: bitmap
  free_map_file :: "ofile option"
  avail :: "nat \<Rightarrow> bool"
  reqs :: nat

definition mem_request :: "fs \<Rightarrow> bool \<times> fs" where
  "mem_request s = (avail s (reqs s), s\<lparr>reqs := Suc (reqs s)\<rparr>)"

definition bytes_to_sectors :: "int \<Rightarrow> u32" where
  "bytes_to_sectors sz = word_of_int ((sz + BLOCK_SECTOR_SIZE - 1) sdiv BLOCK_SECTOR_SIZE)"

definition byte_to_sector :: "inode_disk \<Rightarrow> int \<Rightarrow> u32" where
  "byte_to_sector d pos = (if pos < dlength d then start d + word_of_int (pos sdiv BLOCK_SECTOR_SIZE) else - 1)"

text \<open>The size of the next chunk; it is not positive when the loops are to stop.\<close>

definition chunk_at :: "inode_disk \<Rightarrow> int \<Rightarrow> int \<Rightarrow> int" where
  "chunk_at d sz offset = (
     let sector_ofs = offset smod BLOCK_SECTOR_SIZE;
         inode_left = dlength d - offset;
         sector_left = BLOCK_SECTOR_SIZE - sector_ofs;
         min_left = (if inode_left < sector_left then inode_left else sector_left)
     in if sz < min_left then sz else min_left)"

text \<open>The bytes read so far are \<open>buf\<close>; \<open>bounce\<close> tells whether the bounce buffer has been allocated.\<close>

function inode_read_loop :: "inode_disk \<Rightarrow> bool \<Rightarrow> int \<Rightarrow> int \<Rightarrow> u8 list \<Rightarrow> fs \<Rightarrow> (u8 list \<times> fs) option" where
  "inode_read_loop d bounce sz offset buf s =
     (if sz \<le> 0 \<or> chunk_at d sz offset \<le> 0 then Some (buf, s)
      else let sector_idx = byte_to_sector d offset;
               sector_ofs = offset smod BLOCK_SECTOR_SIZE;
               chunk_size = chunk_at d sz offset
        in if sector_ofs = 0 \<and> chunk_size = BLOCK_SECTOR_SIZE then do {
             (bs, dv) \<leftarrow> block_read (fs_device s) sector_idx;
             inode_read_loop d bounce (sz - chunk_size) (offset + chunk_size) (buf @ bs) (s\<lparr>fs_device := dv\<rparr>)
           }
           else let (ok, s1) = (if bounce then (True, s) else mem_request s)
             in if \<not> ok then Some (buf, s1)
                else do {
                  (bs, dv) \<leftarrow> block_read (fs_device s1) sector_idx;
                  inode_read_loop d True (sz - chunk_size) (offset + chunk_size)
                    (buf @ take (nat chunk_size) (drop (nat sector_ofs) bs)) (s1\<lparr>fs_device := dv\<rparr>)
                })"
  by pat_completeness auto

termination by (relation "measure (\<lambda>(d, b, sz, ofs, buf, s). nat sz)") auto

text \<open>Here \<open>buf\<close> is what is left to write, \<open>n\<close> the number of bytes written.\<close>

function inode_write_loop :: "inode_disk \<Rightarrow> bool \<Rightarrow> int \<Rightarrow> int \<Rightarrow> u8 list \<Rightarrow> int \<Rightarrow> fs \<Rightarrow> (int \<times> fs) option" where
  "inode_write_loop d bounce sz offset buf n s =
     (if sz \<le> 0 \<or> chunk_at d sz offset \<le> 0 then Some (n, s)
      else let sector_idx = byte_to_sector d offset;
               sector_ofs = offset smod BLOCK_SECTOR_SIZE;
               sector_left = BLOCK_SECTOR_SIZE - sector_ofs;
               chunk_size = chunk_at d sz offset;
               chunk = take (nat chunk_size) buf
        in if sector_ofs = 0 \<and> chunk_size = BLOCK_SECTOR_SIZE then do {
             dv \<leftarrow> block_write (fs_device s) sector_idx chunk;
             inode_write_loop d bounce (sz - chunk_size) (offset + chunk_size) (drop (nat chunk_size) buf)
               (n + chunk_size) (s\<lparr>fs_device := dv\<rparr>)
           }
           else let (ok, s1) = (if bounce then (True, s) else mem_request s)
             in if \<not> ok then Some (n, s1)
                else do {
                  (bs, dv) \<leftarrow> (if sector_ofs > 0 \<or> chunk_size < sector_left then block_read (fs_device s1) sector_idx
                              else Some (replicate 512 0, fs_device s1));
                  dv' \<leftarrow> block_write dv sector_idx (splice_at bs (nat sector_ofs) chunk);
                  inode_write_loop d True (sz - chunk_size) (offset + chunk_size) (drop (nat chunk_size) buf)
                    (n + chunk_size) (s1\<lparr>fs_device := dv'\<rparr>)
                })"
  by pat_completeness auto

termination by (relation "measure (\<lambda>(d, b, sz, ofs, buf, n, s). nat sz)") auto

definition get_inode :: "fs \<Rightarrow> u32 \<Rightarrow> inode option" where
  "get_inode s i = find (\<lambda>n. sector n = i) (open_inodes s)"

definition inode_length :: "fs \<Rightarrow> u32 \<Rightarrow> int option" where
  "inode_length s i = do { n \<leftarrow> get_inode s i; Some (dlength (idata n)) }"

definition inode_read_at :: "fs \<Rightarrow> u32 \<Rightarrow> int \<Rightarrow> int \<Rightarrow> (u8 list \<times> fs) option" where
  "inode_read_at s i sz offset = do {
     n \<leftarrow> get_inode s i;
     inode_read_loop (idata n) False sz offset [] s
   }"

definition inode_write_at :: "fs \<Rightarrow> u32 \<Rightarrow> u8 list \<Rightarrow> int \<Rightarrow> int \<Rightarrow> (int \<times> fs) option" where
  "inode_write_at s i buffer sz offset = do {
     n \<leftarrow> get_inode s i;
     if deny_write_cnt n \<noteq> 0 then Some (0, s)
     else inode_write_loop (idata n) False sz offset buffer 0 s
   }"

text \<open>The functions of file.c that the free map needs.\<close>

definition file_read_at :: "fs \<Rightarrow> ofile \<Rightarrow> int \<Rightarrow> int \<Rightarrow> (u8 list \<times> fs) option" where
  "file_read_at s f sz file_ofs = inode_read_at s (finode f) sz file_ofs"

definition file_write_at :: "fs \<Rightarrow> ofile \<Rightarrow> u8 list \<Rightarrow> int \<Rightarrow> int \<Rightarrow> (int \<times> fs) option" where
  "file_write_at s f buffer sz file_ofs = inode_write_at s (finode f) buffer sz file_ofs"

subsection \<open>The contents of a file\<close>

text \<open>The sectors of a file, its bytes, and when an inode describes a file on a device.\<close>

definition nsectors :: "inode_disk \<Rightarrow> nat" where
  "nsectors d = (nat (dlength d) + 511) div 512"

definition data_sectors :: "inode_disk \<Rightarrow> u32 set" where
  "data_sectors d = (\<lambda>k. start d + of_nat k) ` {..< nsectors d}"

definition content :: "disk \<Rightarrow> inode_disk \<Rightarrow> u8 list" where
  "content dk d = map (\<lambda>k. dk (start d + of_nat (k div 512)) ! (k mod 512)) [0..<nat (dlength d)]"

definition disk_ok :: "disk \<Rightarrow> bool" where
  "disk_ok dk \<longleftrightarrow> (\<forall>i. length (dk i) = 512)"

definition on_device :: "block \<Rightarrow> inode_disk \<Rightarrow> bool" where
  "on_device b d \<longleftrightarrow> 0 \<le> dlength d \<and> dlength d < 2 ^ 31 \<and> unat (start d) + nsectors d \<le> unat (b_size b) \<and>
     disk_ok (aux b) \<and> b_type b \<noteq> BLOCK_FOREIGN"

lemma length_content [simp]: "length (content dk d) = nat (dlength d)"
  by (simp add: content_def)

lemma sdiv_nonneg: "0 \<le> k \<Longrightarrow> k sdiv BLOCK_SECTOR_SIZE = k div 512" for k :: int
  by (cases "k = 0") (simp_all add: BLOCK_SECTOR_SIZE_def signed_divide_int_def)

lemma smod_nonneg: "0 \<le> k \<Longrightarrow> k smod BLOCK_SECTOR_SIZE = k mod 512" for k :: int
  by (cases "k = 0") (simp_all add: BLOCK_SECTOR_SIZE_def signed_modulo_int_def)

text \<open>The chunk at a position of the file, in natural numbers.\<close>

lemma chunk_facts:
  assumes "0 \<le> offset" "0 < sz"
  shows "chunk_at d sz offset \<le> 0 \<longleftrightarrow> dlength d \<le> offset"
    "chunk_at d sz offset \<le> sz" "chunk_at d sz offset \<le> dlength d - offset"
    "nat offset mod 512 + nat (chunk_at d sz offset) \<le> 512"
proof -
  have m: "0 \<le> offset mod 512" "offset mod 512 < 512" by simp_all
  have c: "chunk_at d sz offset = min sz (min (dlength d - offset) (512 - offset mod 512))"
    unfolding chunk_at_def Let_def smod_nonneg [OF assms(1)] by (auto simp: min_def BLOCK_SECTOR_SIZE_def)
  show "chunk_at d sz offset \<le> 0 \<longleftrightarrow> dlength d \<le> offset"
    "chunk_at d sz offset \<le> sz" "chunk_at d sz offset \<le> dlength d - offset"
    unfolding c using m assms by auto
  have "chunk_at d sz offset \<le> 512 - offset mod 512" unfolding c by simp
  moreover have "nat (offset mod 512) = nat offset mod 512" using assms(1) by (simp add: nat_mod_distrib)
  ultimately show "nat offset mod 512 + nat (chunk_at d sz offset) \<le> 512" using m by linarith
qed

lemma sector_of:
  assumes "0 \<le> offset" "offset < dlength d"
  shows "byte_to_sector d offset = start d + of_nat (nat offset div 512)" "nat offset div 512 < nsectors d"
proof -
  have "word_of_int (offset div 512) = (of_nat (nat offset div 512) :: u32)"
  proof -
    have "offset div 512 = int (nat offset div 512)" using assms(1) by (simp add: zdiv_int)
    then show ?thesis by simp
  qed
  then show "byte_to_sector d offset = start d + of_nat (nat offset div 512)"
    using assms by (simp add: byte_to_sector_def sdiv_nonneg)
  have "nat offset < nat (dlength d)" using assms by simp
  then show "nat offset div 512 < nsectors d" unfolding nsectors_def by linarith
qed

lemma sector_bound:
  assumes "on_device b d" "k < nsectors d"
  shows "unat (start d + of_nat k) = unat (start d) + k" "start d + of_nat k < b_size b"
proof -
  have l: "unat (start d) + k < unat (b_size b)" using assms by (simp add: on_device_def)
  have "unat (b_size b) < 2 ^ 32" using unsigned_less [of "b_size b", where 'a = nat] by simp
  then have "unat (of_nat k :: u32) = k" "unat (start d) + k < 2 ^ 32" using l unat_of_nat_id [of k, where 'a = 32] by simp_all
  then show u: "unat (start d + of_nat k) = unat (start d) + k" by (simp add: unat_plus_if')
  show "start d + of_nat k < b_size b" using u l by (simp add: word_less_nat_alt)
qed

lemma same_sector:
  assumes "(p :: nat) mod 512 + i < 512"
  shows "(p + i) div 512 = p div 512 \<and> (p + i) mod 512 = p mod 512 + i"
proof
  have "p + i = (p mod 512 + i) + 512 * (p div 512)" by simp
  then have "(p + i) div 512 = (p mod 512 + i) div 512 + p div 512" by (metis add.commute div_mult_self2 zero_neq_numeral)
  then show "(p + i) div 512 = p div 512" using assms by simp
  have "(p + i) mod 512 = (p mod 512 + i) mod 512" by (simp add: mod_add_left_eq)
  then show "(p + i) mod 512 = p mod 512 + i" using assms by simp
qed

lemma content_chunk:
  assumes "disk_ok dk" "p + c \<le> nat (dlength d)" "p mod 512 + c \<le> 512"
  shows "take c (drop p (content dk d)) = take c (drop (p mod 512) (dk (start d + of_nat (p div 512))))"
proof (rule nth_equalityI)
  show "length (take c (drop p (content dk d))) = length (take c (drop (p mod 512) (dk (start d + of_nat (p div 512)))))"
    using assms by (simp add: disk_ok_def)
  fix i assume "i < length (take c (drop p (content dk d)))"
  then have i: "i < c" "p + i < nat (dlength d)" using assms(2) by simp_all
  have "(p + i) div 512 = p div 512" "(p + i) mod 512 = p mod 512 + i"
    using same_sector [of p i] i(1) assms(3) by simp_all
  then show "take c (drop p (content dk d)) ! i = take c (drop (p mod 512) (dk (start d + of_nat (p div 512)))) ! i"
    using i assms by (simp add: content_def disk_ok_def)
qed

subsection \<open>Reading\<close>

text \<open>A state that differs only in the counters of memory requests and of sectors read.\<close>

definition same_static :: "fs \<Rightarrow> fs \<Rightarrow> bool" where
  "same_static s s' \<longleftrightarrow> open_inodes s' = open_inodes s \<and> free_map s' = free_map s \<and> free_map_file s' = free_map_file s \<and>
     avail s' = avail s \<and> b_name (fs_device s') = b_name (fs_device s) \<and> b_type (fs_device s') = b_type (fs_device s) \<and>
     b_size (fs_device s') = b_size (fs_device s)"

definition idle :: "fs \<Rightarrow> fs \<Rightarrow> bool" where
  "idle s s' \<longleftrightarrow> same_static s s' \<and> aux (fs_device s') = aux (fs_device s) \<and> write_cnt (fs_device s') = write_cnt (fs_device s)"

lemma idle_refl [simp]: "idle s s"
  by (simp add: idle_def same_static_def)

lemma idle_trans: "idle s t \<Longrightarrow> idle t u \<Longrightarrow> idle s u"
  by (simp add: idle_def same_static_def)

lemma idle_same:
  assumes "idle s s'"
  shows "aux (fs_device s') = aux (fs_device s)" "b_size (fs_device s') = b_size (fs_device s)"
    "b_type (fs_device s') = b_type (fs_device s)" "open_inodes s' = open_inodes s" "free_map s' = free_map s"
    "free_map_file s' = free_map_file s" "avail s' = avail s" "on_device (fs_device s') d = on_device (fs_device s) d"
    "get_inode s' i = get_inode s i"
  using assms by (auto simp: idle_def same_static_def on_device_def get_inode_def)

lemma block_read_ok: "sec < b_size b \<Longrightarrow> block_read b sec = Some (aux b sec, b\<lparr>read_cnt := read_cnt b + 1\<rparr>)"
  by (simp add: block_read_def check_sector_def)

lemma idle_read: "idle (s\<lparr>fs_device := (fs_device s)\<lparr>read_cnt := k\<rparr>\<rparr>) s' \<Longrightarrow> idle s s'"
  by (simp add: idle_def same_static_def)

lemma idle_read_mem: "idle (s\<lparr>reqs := r, fs_device := (fs_device s)\<lparr>read_cnt := k\<rparr>\<rparr>) s' \<Longrightarrow> idle s s'"
  by (simp add: idle_def same_static_def)

lemma idle_reqs: "idle s (s\<lparr>reqs := r\<rparr>)"
  by (simp add: idle_def same_static_def)

lemma bounce_step:
  assumes "(if bounce then (True, s) else mem_request s) = (ok, s1)"
  shows "idle s s1" "fs_device s1 = fs_device s" "avail s1 = avail s" "ok \<longleftrightarrow> bounce \<or> avail s (reqs s)"
  using assms idle_reqs by (auto simp: mem_request_def split: if_splits)

declare inode_read_loop.simps [simp del] inode_write_loop.simps [simp del]

lemma inode_read_loop_ok:
  assumes "on_device (fs_device s) d" "0 \<le> offset"
  shows "\<exists>n s'. inode_read_loop d bounce sz offset buf s =
      Some (buf @ take n (drop (nat offset) (content (aux (fs_device s)) d)), s') \<and>
    n \<le> nat sz \<and> (bounce \<or> avail s (reqs s) \<longrightarrow> n = nat sz) \<and> idle s s'"
  using assms
proof (induction "nat sz" arbitrary: bounce sz offset buf s rule: less_induct)
  case less
  note od = less.prems(1) and pos = less.prems(2)
  let ?dk = "aux (fs_device s)"
  let ?c = "chunk_at d sz offset"
  show ?case
  proof (cases "sz \<le> 0 \<or> dlength d \<le> offset")
    case True
    then have "sz \<le> 0 \<or> ?c \<le> 0" using chunk_facts(1) [OF pos, of sz d] by linarith
    then have "inode_read_loop d bounce sz offset buf s = Some (buf, s)"
      by (subst inode_read_loop.simps) simp
    moreover have "take (nat sz) (drop (nat offset) (content ?dk d)) = []" using True pos by auto
    ultimately show ?thesis by (intro exI [of _ "nat sz"]) auto
  next
    case False
    then have sz: "0 < sz" and lt: "offset < dlength d" by simp_all
    note cf = chunk_facts [OF pos sz, of d]
    have c0: "0 < ?c" using cf(1) lt by linarith
    let ?k = "nat offset div 512"
    note so = sector_of [OF pos lt]
    note sb = sector_bound [OF od so(2)]
    have rd: "block_read (fs_device t) (byte_to_sector d offset) =
        Some (?dk (start d + of_nat ?k), (fs_device t)\<lparr>read_cnt := read_cnt (fs_device t) + 1\<rparr>)"
      if "fs_device t = fs_device s" for t
      using block_read_ok [of "byte_to_sector d offset" "fs_device s"] so(1) sb(2) that by simp
    have dok: "disk_ok ?dk" using od by (simp add: on_device_def)
    have mod: "offset smod BLOCK_SECTOR_SIZE = int (nat offset mod 512)"
      using smod_nonneg [OF pos] pos by (simp add: zmod_int)
    have cc: "take (nat ?c) (drop (nat offset) (content ?dk d)) = take (nat ?c) (drop (nat offset mod 512) (?dk (start d + of_nat ?k)))"
      using content_chunk [OF dok, of "nat offset" "nat ?c" d] cf(3,4) pos c0 by linarith
    have step: "nat (offset + ?c) = nat offset + nat ?c" using pos c0 by simp
    have glue: "take (nat ?c) (drop (nat offset) (content ?dk d)) @ take n (drop (nat (offset + ?c)) (content ?dk d)) =
        take (nat ?c + n) (drop (nat offset) (content ?dk d))" for n
      by (simp only: take_add drop_drop step) (simp add: add.commute)
    have nsz: "nat ?c + nat (sz - ?c) = nat sz" using cf(2) c0 by simp
    show ?thesis
    proof (cases "offset smod BLOCK_SECTOR_SIZE = 0 \<and> ?c = BLOCK_SECTOR_SIZE")
      case True
      let ?s = "s\<lparr>fs_device := (fs_device s)\<lparr>read_cnt := read_cnt (fs_device s) + 1\<rparr>\<rparr>"
      have full: "?dk (start d + of_nat ?k) = take (nat ?c) (drop (nat offset) (content ?dk d))"
        using cc True mod dok by (simp add: disk_ok_def BLOCK_SECTOR_SIZE_def)
      have unf: "inode_read_loop d bounce sz offset buf s =
          inode_read_loop d bounce (sz - ?c) (offset + ?c) (buf @ ?dk (start d + of_nat ?k)) ?s"
        using True sz c0 rd [of s] by (subst inode_read_loop.simps) simp
      obtain n s' where ih: "inode_read_loop d bounce (sz - ?c) (offset + ?c) (buf @ ?dk (start d + of_nat ?k)) ?s =
          Some ((buf @ ?dk (start d + of_nat ?k)) @ take n (drop (nat (offset + ?c)) (content ?dk d)), s')"
        "n \<le> nat (sz - ?c)" "bounce \<or> avail s (reqs s) \<longrightarrow> n = nat (sz - ?c)" "idle ?s s'"
        using less.hyps [of "sz - ?c" ?s "offset + ?c" bounce "buf @ ?dk (start d + of_nat ?k)"] od pos sz c0 by (auto simp: on_device_def)
      have eq: "inode_read_loop d bounce sz offset buf s =
          Some (buf @ take (nat ?c + n) (drop (nat offset) (content ?dk d)), s')"
        using unf ih(1) full glue [of n] by simp
      show ?thesis
        using eq ih(2,3) idle_read [OF ih(4)] nsz by (intro exI [of _ "nat ?c + n"] exI [of _ s']) linarith
    next
      case False
      obtain ok s1 where m: "(if bounce then (True, s) else mem_request s) = (ok, s1)" by force
      have s1: "idle s s1" "fs_device s1 = fs_device s" "avail s1 = avail s" "ok \<longleftrightarrow> bounce \<or> avail s (reqs s)"
        using bounce_step [OF m] by simp_all
      show ?thesis
      proof (cases ok)
        case False': False
        have "inode_read_loop d bounce sz offset buf s = Some (buf, s1)"
          using False sz c0 m False' by (subst inode_read_loop.simps) (auto simp: Let_def)
        then show ?thesis using s1 False' by (intro exI [of _ 0]) auto
      next
        case True
        let ?s = "s1\<lparr>fs_device := (fs_device s1)\<lparr>read_cnt := read_cnt (fs_device s1) + 1\<rparr>\<rparr>"
        let ?b = "buf @ take (nat ?c) (drop (nat (offset smod BLOCK_SECTOR_SIZE)) (?dk (start d + of_nat ?k)))"
        have part: "take (nat ?c) (drop (nat (offset smod BLOCK_SECTOR_SIZE)) (?dk (start d + of_nat ?k))) =
            take (nat ?c) (drop (nat offset) (content ?dk d))" using cc mod by simp
        have unf: "inode_read_loop d bounce sz offset buf s = inode_read_loop d True (sz - ?c) (offset + ?c) ?b ?s"
          using False sz c0 m True rd [OF s1(2)] by (subst inode_read_loop.simps) (auto simp: Let_def)
        obtain n s' where ih: "inode_read_loop d True (sz - ?c) (offset + ?c) ?b ?s =
            Some (?b @ take n (drop (nat (offset + ?c)) (content ?dk d)), s')" "n = nat (sz - ?c)" "idle ?s s'"
          using less.hyps [of "sz - ?c" ?s "offset + ?c" True ?b] od pos sz c0 s1(2) by (auto simp: on_device_def)
        have "idle s s'" using idle_trans [OF s1(1) idle_read [OF ih(3)]] .
        then show ?thesis
          using unf ih(1,2) part glue [of n] nsz by (intro exI [of _ "nat sz"] exI [of _ s']) simp
      qed
    qed
  qed
qed

subsection \<open>Writing\<close>

text \<open>A state that differs from \<open>s\<close> in the counters and in the sectors \<open>D\<close> of the disk.\<close>

definition wrote :: "fs \<Rightarrow> u32 set \<Rightarrow> fs \<Rightarrow> bool" where
  "wrote s D s' \<longleftrightarrow> same_static s s' \<and> (\<forall>i. i \<notin> D \<longrightarrow> aux (fs_device s') i = aux (fs_device s) i) \<and>
     (disk_ok (aux (fs_device s)) \<longrightarrow> disk_ok (aux (fs_device s')))"

lemma wrote_idle: "idle s s' \<Longrightarrow> wrote s D s'"
  by (simp add: idle_def wrote_def)

lemma wrote_refl [simp]: "wrote s D s"
  by (rule wrote_idle) simp

lemma wrote_trans: "wrote s D t \<Longrightarrow> wrote t D u \<Longrightarrow> wrote s D u"
  by (simp add: wrote_def same_static_def)

lemma wrote_mono: "wrote s D t \<Longrightarrow> D \<subseteq> E \<Longrightarrow> wrote s E t"
  by (auto simp: wrote_def)

lemma wrote_same:
  assumes "wrote s D s'"
  shows "b_size (fs_device s') = b_size (fs_device s)" "b_type (fs_device s') = b_type (fs_device s)"
    "open_inodes s' = open_inodes s" "free_map s' = free_map s" "free_map_file s' = free_map_file s" "avail s' = avail s"
    "on_device (fs_device s) d \<Longrightarrow> on_device (fs_device s') d" "get_inode s' i = get_inode s i"
    "i \<notin> D \<Longrightarrow> aux (fs_device s') i = aux (fs_device s) i"
  using assms by (auto simp: wrote_def same_static_def on_device_def get_inode_def)

lemma content_outside: "wrote s D s' \<Longrightarrow> data_sectors d \<inter> D = {} \<Longrightarrow> content (aux (fs_device s')) d = content (aux (fs_device s)) d"
proof -
  assume w: "wrote s D s'" and dis: "data_sectors d \<inter> D = {}"
  have "start d + of_nat (k div 512) \<notin> D" if "k < nat (dlength d)" for k
  proof -
    have "k div 512 < nsectors d" using that unfolding nsectors_def by linarith
    then show ?thesis using dis by (auto simp: data_sectors_def)
  qed
  then show ?thesis using wrote_same(9) [OF w] by (simp add: content_def)
qed

text \<open>One sector is overwritten in part: the file changes at the same place.\<close>

lemma content_write:
  assumes dok: "disk_ok dk" and k: "unat (start d) + nsectors d \<le> 2 ^ 32"
    and c: "p + length ys \<le> nat (dlength d)" "p mod 512 + length ys \<le> 512" "ys \<noteq> []"
  shows "content (dk(start d + of_nat (p div 512) := splice_at (dk (start d + of_nat (p div 512))) (p mod 512) ys)) d =
    splice_at (content dk d) p ys"
    (is "content ?dk d = _")
proof (rule nth_equalityI)
  show "length (content ?dk d) = length (splice_at (content dk d) p ys)" using c by simp
  fix i assume "i < length (content ?dk d)"
  then have i: "i < nat (dlength d)" by simp
  have "0 < length ys" using c(3) by simp
  then have ks: "i div 512 < nsectors d" "p div 512 < nsectors d"
    using i c(1) unfolding nsectors_def by linarith+
  have u: "unat (start d + of_nat q) = unat (start d) + q" if "q < nsectors d" for q
  proof -
    have "q < 2 ^ LENGTH(32)" "unat (start d) + q < 2 ^ 32" using that k by simp_all
    then show ?thesis using unat_of_nat_id [of q, where 'a = 32] by (simp add: unat_plus_if')
  qed
  have same: "start d + of_nat (i div 512) = start d + of_nat (p div 512) \<longleftrightarrow> i div 512 = p div 512"
    using u [OF ks(1)] u [OF ks(2)] by (metis add_left_cancel)
  have len: "length (dk (start d + of_nat (p div 512))) = 512" using dok by (simp add: disk_ok_def)
  show "content ?dk d ! i = splice_at (content dk d) p ys ! i"
  proof (cases "i div 512 = p div 512")
    case True
    have im: "i = 512 * (p div 512) + i mod 512" "p = 512 * (p div 512) + p mod 512" using True mult_div_mod_eq by metis+
    then have rng: "p mod 512 \<le> i mod 512 \<and> i mod 512 < p mod 512 + length ys \<longleftrightarrow> p \<le> i \<and> i < p + length ys"
      "i mod 512 - p mod 512 = i - p" by linarith+
    show ?thesis
      using i c True rng len by (simp add: content_def nth_splice_at)
  next
    case False
    have "\<not> (p \<le> i \<and> i < p + length ys)"
    proof
      assume h: "p \<le> i \<and> i < p + length ys"
      then have "p mod 512 + (i - p) < 512" using c(2) by linarith
      then have "(p + (i - p)) div 512 = p div 512" using same_sector by blast
      then show False using False h by simp
    qed
    then show ?thesis using i c False same by (auto simp: content_def nth_splice_at)
  qed
qed

lemma block_write_ok:
  "sec < b_size b \<Longrightarrow> b_type b \<noteq> BLOCK_FOREIGN \<Longrightarrow>
   block_write b sec buf = Some (b\<lparr>aux := (aux b)(sec := buf), write_cnt := write_cnt b + 1\<rparr>)"
  by (simp add: block_write_def check_sector_def)

lemma wrote_step:
  assumes "idle s t" "length buf = 512" "sec \<in> D"
    "u = t\<lparr>fs_device := (fs_device t)\<lparr>read_cnt := j, aux := (aux (fs_device t))(sec := buf), write_cnt := k\<rparr>\<rparr>"
  shows "wrote s D u" "aux (fs_device u) = (aux (fs_device s))(sec := buf)" "avail u = avail s" "reqs u = reqs t"
  using assms by (auto simp: idle_def wrote_def same_static_def disk_ok_def)

text \<open>What one call of the loop has to establish, and how a chunk extends it.\<close>

definition written :: "inode_disk \<Rightarrow> int \<Rightarrow> int \<Rightarrow> u8 list \<Rightarrow> bool \<Rightarrow> fs \<Rightarrow> nat \<Rightarrow> fs \<Rightarrow> bool" where
  "written d sz offset buf mem s m s' \<longleftrightarrow> m \<le> nat sz \<and> m \<le> nat (dlength d - offset) \<and>
     (mem \<longrightarrow> m = min (nat sz) (nat (dlength d - offset))) \<and> wrote s (data_sectors d) s' \<and>
     content (aux (fs_device s')) d = splice_at (content (aux (fs_device s)) d) (nat offset) (take m buf)"

lemma written_step:
  assumes pos: "0 \<le> offset" "0 < c" "c \<le> sz" "c \<le> dlength d - offset" "nat sz \<le> length buf"
    and st: "wrote s (data_sectors d) u"
      "content (aux (fs_device u)) d = splice_at (content (aux (fs_device s)) d) (nat offset) (take (nat c) buf)"
    and rest: "written d (sz - c) (offset + c) (drop (nat c) buf) mem u m s'"
  shows "written d sz offset buf mem s (nat c + m) s'"
proof -
  have len: "length (take (nat c) buf) = nat c" using pos by simp
  have m: "m \<le> nat (sz - c)" "m \<le> nat (dlength d - (offset + c))" using rest by (auto simp: written_def)
  have fit: "nat offset + nat c + m \<le> nat (dlength d)" using m(2) pos by linarith
  have "content (aux (fs_device s')) d =
      splice_at (splice_at (content (aux (fs_device s)) d) (nat offset) (take (nat c) buf))
        (nat offset + length (take (nat c) buf)) (take m (drop (nat c) buf))"
    using rest st(2) pos len by (simp add: written_def nat_add_distrib)
  also have "\<dots> = splice_at (content (aux (fs_device s)) d) (nat offset) (take (nat c) buf @ take m (drop (nat c) buf))"
    using fit m(1) pos len by (intro splice_at_append) simp
  also have "take (nat c) buf @ take m (drop (nat c) buf) = take (nat c + m) buf" by (simp only: take_add)
  finally have "content (aux (fs_device s')) d = splice_at (content (aux (fs_device s)) d) (nat offset) (take (nat c + m) buf)" .
  moreover have "wrote s (data_sectors d) s'" using rest st(1) wrote_trans by (auto simp: written_def)
  moreover have "mem \<longrightarrow> nat c + m = min (nat sz) (nat (dlength d - offset))"
    using rest pos by (auto simp: written_def min_def)
  ultimately show ?thesis using m pos by (simp add: written_def) linarith
qed

lemma inode_write_loop_ok:
  assumes "on_device (fs_device s) d" "0 \<le> offset" "nat sz \<le> length buf"
  shows "\<exists>m s'. inode_write_loop d bounce sz offset buf n s = Some (n + int m, s') \<and>
    written d sz offset buf (bounce \<or> avail s (reqs s)) s m s'"
  using assms
proof (induction "nat sz" arbitrary: bounce sz offset buf n s rule: less_induct)
  case less
  note od = less.prems(1) and pos = less.prems(2) and buf = less.prems(3)
  let ?dk = "aux (fs_device s)"
  let ?c = "chunk_at d sz offset"
  show ?case
  proof (cases "sz \<le> 0 \<or> dlength d \<le> offset")
    case True
    then have "sz \<le> 0 \<or> ?c \<le> 0" using chunk_facts(1) [OF pos, of sz d] by linarith
    then have "inode_write_loop d bounce sz offset buf n s = Some (n, s)"
      by (subst inode_write_loop.simps) simp
    then show ?thesis using True by (intro exI [of _ 0]) (auto simp: written_def)
  next
    case False
    then have sz: "0 < sz" and lt: "offset < dlength d" by simp_all
    note cf = chunk_facts [OF pos sz, of d]
    have c0: "0 < ?c" using cf(1) lt by linarith
    let ?sec = "start d + of_nat (nat offset div 512)"
    let ?ys = "take (nat ?c) buf"
    have ys: "length ?ys = nat ?c" "?ys \<noteq> []" using c0 cf(2) buf by auto
    note so = sector_of [OF pos lt]
    note sb = sector_bound [OF od so(2)]
    have dok: "disk_ok ?dk" and foreign: "b_type (fs_device s) \<noteq> BLOCK_FOREIGN" using od by (simp_all add: on_device_def)
    have own: "?sec \<in> data_sectors d" using so(2) by (simp add: data_sectors_def)
    have mod: "nat (offset smod BLOCK_SECTOR_SIZE) = nat offset mod 512"
      using smod_nonneg [OF pos] pos by (simp add: nat_mod_distrib)
    have "unat (b_size (fs_device s)) < 2 ^ 32" using unsigned_less [of "b_size (fs_device s)", where 'a = nat] by simp
    then have lim: "unat (start d) + nsectors d \<le> 2 ^ 32" using od by (simp add: on_device_def)
    let ?new = "splice_at (?dk ?sec) (nat offset mod 512) ?ys"
    have cw: "content (?dk(?sec := ?new)) d = splice_at (content ?dk d) (nat offset) ?ys"
      using content_write [OF dok lim, of "nat offset" ?ys] ys cf(3,4) pos c0 by simp
    have lnew: "length ?new = 512" using dok cf(4) ys(1) by (simp add: disk_ok_def)
    have upd: "\<exists>m s'. inode_write_loop d b' (sz - ?c) (offset + ?c) (drop (nat ?c) buf) (n + ?c) u = Some (n + int m, s') \<and>
        written d sz offset buf mem s m s'"
      if u: "idle s t" "u = t\<lparr>fs_device := (fs_device t)\<lparr>read_cnt := j, aux := (aux (fs_device t))(?sec := ?new), write_cnt := k\<rparr>\<rparr>"
        "mem = (b' \<or> avail s (reqs t))" for b' t u j k mem
    proof -
      note ws = wrote_step [OF u(1) lnew own u(2)]
      have lb: "nat (sz - ?c) \<le> length (drop (nat ?c) buf)" using buf c0 cf(2) by simp
      obtain m s' where ih: "inode_write_loop d b' (sz - ?c) (offset + ?c) (drop (nat ?c) buf) (n + ?c) u = Some (n + ?c + int m, s')"
        "written d (sz - ?c) (offset + ?c) (drop (nat ?c) buf) mem u m s'"
        using less.hyps [of "sz - ?c" u "offset + ?c" "drop (nat ?c) buf" b' "n + ?c"] wrote_same(7) [OF ws(1) od] pos c0 sz lb ws(3,4) u(3)
        by auto
      have "written d sz offset buf mem s (nat ?c + m) s'"
        using written_step [OF pos c0 cf(2,3) buf ws(1) _ ih(2)] ws(2) cw by simp
      then show ?thesis using ih(1) c0 by (intro exI [of _ "nat ?c + m"]) simp
    qed
    show ?thesis
    proof (cases "offset smod BLOCK_SECTOR_SIZE = 0 \<and> ?c = BLOCK_SECTOR_SIZE")
      case True
      have "?new = ?ys" using True mod dok ys(1) by (simp add: splice_at_def disk_ok_def BLOCK_SECTOR_SIZE_def)
      then have "block_write (fs_device s) (byte_to_sector d offset) ?ys =
          Some ((fs_device s)\<lparr>read_cnt := read_cnt (fs_device s), aux := ?dk(?sec := ?new), write_cnt := write_cnt (fs_device s) + 1\<rparr>)"
        using block_write_ok [of ?sec "fs_device s" ?ys] sb(2) foreign so(1) by simp
      then have "inode_write_loop d bounce sz offset buf n s =
          inode_write_loop d bounce (sz - ?c) (offset + ?c) (drop (nat ?c) buf) (n + ?c)
            (s\<lparr>fs_device := (fs_device s)\<lparr>read_cnt := read_cnt (fs_device s), aux := ?dk(?sec := ?new), write_cnt := write_cnt (fs_device s) + 1\<rparr>\<rparr>)"
        using True sz c0 by (subst inode_write_loop.simps) (simp add: Let_def)
      then show ?thesis using upd [OF idle_refl refl refl, where b' = bounce and j = "read_cnt (fs_device s)" and k = "write_cnt (fs_device s) + 1"] by simp
    next
      case False
      obtain ok s1 where m: "(if bounce then (True, s) else mem_request s) = (ok, s1)" by force
      note s1 = bounce_step [OF m]
      show ?thesis
      proof (cases ok)
        case nomem: False
        have "inode_write_loop d bounce sz offset buf n s = Some (n, s1)"
          using False sz c0 m nomem by (subst inode_write_loop.simps) (auto simp: Let_def)
        then show ?thesis using s1 nomem by (intro exI [of _ 0]) (auto simp: written_def idle_same wrote_idle)
      next
        case True
        let ?dv = "(fs_device s1)\<lparr>read_cnt := read_cnt (fs_device s1) + 1\<rparr>"
        let ?u = "s1\<lparr>fs_device := (fs_device s1)\<lparr>read_cnt := read_cnt (fs_device s1) + 1,
            aux := (aux (fs_device s1))(?sec := ?new), write_cnt := write_cnt (fs_device s1) + 1\<rparr>\<rparr>"
        have part: "0 < offset smod BLOCK_SECTOR_SIZE \<or> ?c < BLOCK_SECTOR_SIZE - offset smod BLOCK_SECTOR_SIZE"
        proof -
          have "0 \<le> offset mod 512" by simp
          then have "offset mod 512 = 0 \<and> ?c = 512 \<or> 0 < offset mod 512 \<or> ?c < 512"
            using cf(4) c0 by linarith
          then show ?thesis using False by (auto simp: smod_nonneg [OF pos]) (auto simp: BLOCK_SECTOR_SIZE_def)
        qed
        have rd: "block_read (fs_device s1) (byte_to_sector d offset) = Some (?dk ?sec, ?dv)"
          using block_read_ok [of ?sec "fs_device s"] sb(2) so(1) s1(2) by simp
        have wr: "block_write ?dv (byte_to_sector d offset) (splice_at (?dk ?sec) (nat (offset smod BLOCK_SECTOR_SIZE)) ?ys) =
            Some (?dv\<lparr>aux := (aux ?dv)(?sec := ?new), write_cnt := write_cnt ?dv + 1\<rparr>)"
          using block_write_ok [of ?sec ?dv ?new] sb(2) foreign so(1) s1(2) mod by simp
        have "inode_write_loop d bounce sz offset buf n s =
            inode_write_loop d True (sz - ?c) (offset + ?c) (drop (nat ?c) buf) (n + ?c) ?u"
          using False sz c0 m True part rd wr by (subst inode_write_loop.simps) (auto simp: Let_def)
        then show ?thesis using upd [OF s1(1) refl refl, where b' = True and j = "read_cnt (fs_device s1) + 1" and k = "write_cnt (fs_device s1) + 1"] s1(4) True by simp
      qed
    qed
  qed
qed

subsection \<open>Properties\<close>

definition file_bytes :: "fs \<Rightarrow> u32 \<Rightarrow> u8 list" where
  "file_bytes s i = (case get_inode s i of Some n \<Rightarrow> content (aux (fs_device s)) (idata n) | None \<Rightarrow> [])"

definition file_ok :: "fs \<Rightarrow> u32 \<Rightarrow> bool" where
  "file_ok s i \<longleftrightarrow> (case get_inode s i of Some n \<Rightarrow> on_device (fs_device s) (idata n) | None \<Rightarrow> False)"

definition file_sectors :: "fs \<Rightarrow> u32 \<Rightarrow> u32 set" where
  "file_sectors s i = (case get_inode s i of Some n \<Rightarrow> data_sectors (idata n) | None \<Rightarrow> {})"

definition may_write :: "fs \<Rightarrow> u32 \<Rightarrow> bool" where
  "may_write s i \<longleftrightarrow> (case get_inode s i of Some n \<Rightarrow> deny_write_cnt n = 0 | None \<Rightarrow> False)"

lemma inode_read_at_ok:
  assumes "file_ok s i" "0 \<le> offset"
  shows "\<exists>n s'. inode_read_at s i sz offset = Some (take n (drop (nat offset) (file_bytes s i)), s') \<and>
    n \<le> nat sz \<and> (avail s (reqs s) \<longrightarrow> n = nat sz) \<and> idle s s'"
proof -
  obtain n where n: "get_inode s i = Some n" "on_device (fs_device s) (idata n)"
    using assms(1) by (auto simp: file_ok_def split: option.splits)
  then show ?thesis
    using inode_read_loop_ok [OF n(2) assms(2), of False sz "[]"] by (simp add: inode_read_at_def file_bytes_def)
qed

lemma inode_write_at_ok:
  assumes "file_ok s i" "0 \<le> offset" "nat sz \<le> length buf" "may_write s i"
  shows "\<exists>m s'. inode_write_at s i buf sz offset = Some (int m, s') \<and> m \<le> nat sz \<and>
    m \<le> length (file_bytes s i) - nat offset \<and>
    (avail s (reqs s) \<longrightarrow> m = min (nat sz) (length (file_bytes s i) - nat offset)) \<and>
    wrote s (file_sectors s i) s' \<and> file_bytes s' i = splice_at (file_bytes s i) (nat offset) (take m buf)"
proof -
  obtain n where n: "get_inode s i = Some n" "on_device (fs_device s) (idata n)" "deny_write_cnt n = 0"
    using assms(1,4) by (auto simp: file_ok_def may_write_def split: option.splits)
  obtain m s' where w: "inode_write_loop (idata n) False sz offset buf 0 s = Some (int m, s')"
    "written (idata n) sz offset buf (avail s (reqs s)) s m s'"
    using inode_write_loop_ok [OF n(2) assms(2,3), of False 0] by auto
  have len: "nat (dlength (idata n) - offset) = nat (dlength (idata n)) - nat offset" using assms(2) by simp
  have g: "get_inode s' i = Some n" using wrote_same(8) [of s "data_sectors (idata n)" s' i] w(2) n(1) by (simp add: written_def)
  show ?thesis
    using w n g len by (intro exI [of _ m] exI [of _ s']) (auto simp: inode_write_at_def written_def file_bytes_def file_sectors_def)
qed

text \<open>
  C23. \<open>inode_read_at\<close> on an open inode whose sectors lie on the device never panics and returns the
  bytes of the file from the offset on, up to the size asked for or the end of the file; when no
  memory is left for the bounce buffer it returns a shorter prefix of them. It changes nothing
  but statistics.
\<close>

theorem inode_read_at_correct:
  assumes "file_ok s i" "0 \<le> offset"
  shows "\<exists>n s'. inode_read_at s i sz offset = Some (take n (drop (nat offset) (file_bytes s i)), s') \<and>
    n \<le> nat sz \<and> (avail s (reqs s) \<longrightarrow> n = nat sz) \<and> idle s s'"
  by (rule inode_read_at_ok [OF assms])

text \<open>A device of six sectors with one open inode of 600 bytes in sectors 2 and 3, and one in sector 4.\<close>

definition demo_fs :: fs where
  "demo_fs = \<lparr>fs_device = \<lparr>b_name = [], b_type = BLOCK_FILESYS, b_size = 6, aux = (\<lambda>_. replicate 512 7), read_cnt = 0, write_cnt = 0\<rparr>,
     open_inodes = [\<lparr>sector = 0, open_cnt = 1, removed = False, deny_write_cnt = 0,
        idata = \<lparr>start = 2, dlength = 600, magic = INODE_MAGIC, unused = []\<rparr>\<rparr>,
       \<lparr>sector = 1, open_cnt = 1, removed = False, deny_write_cnt = 0,
        idata = \<lparr>start = 4, dlength = 100, magic = INODE_MAGIC, unused = []\<rparr>\<rparr>],
     free_map = \<lparr>bit_cnt = 6, bits = [31]\<rparr>, free_map_file = None, avail = (\<lambda>_. True), reqs = 0\<rparr>"

lemma demo_fs_ok: "file_ok demo_fs 0" "file_ok demo_fs 1" "may_write demo_fs 0"
  "length (file_bytes demo_fs 0) = 600" "avail demo_fs n" "file_sectors demo_fs 0 = {2, 3}" "file_sectors demo_fs 1 = {4}"
proof -
  have "{..<2 :: nat} = {0, 1}" "{..<1 :: nat} = {0}" by auto
  then show "file_ok demo_fs 0" "file_ok demo_fs 1" "may_write demo_fs 0" "length (file_bytes demo_fs 0) = 600" "avail demo_fs n"
    "file_sectors demo_fs 0 = {2, 3}" "file_sectors demo_fs 1 = {4}"
    by (simp_all add: file_ok_def may_write_def file_bytes_def file_sectors_def demo_fs_def get_inode_def on_device_def
        nsectors_def disk_ok_def data_sectors_def)
qed

theorem inode_read_at_correct_witness:
  "\<exists>bs s'. inode_read_at demo_fs 0 1000 500 = Some (bs, s') \<and> length bs = 100"
  using inode_read_at_correct [OF demo_fs_ok(1), of 500 1000] demo_fs_ok(4,5) by auto

text \<open>
  C8. \<open>inode_write_at\<close> on an open inode that does not deny writes never panics; it overwrites the
  bytes of the file from the offset on, as many as were given and fit before the end of the file
  (or fewer, when no memory is left), returns their number, leaves all other bytes of the file
  as they were and touches no other sector of the disk, so that files in other sectors keep
  their contents. Reading the bytes back gives what was written.
\<close>

theorem inode_write_at_correct:
  assumes "file_ok s i" "0 \<le> offset" "nat sz \<le> length buf" "may_write s i"
  shows "\<exists>m s'. inode_write_at s i buf sz offset = Some (int m, s') \<and> m \<le> nat sz \<and>
    (avail s (reqs s) \<longrightarrow> m = min (nat sz) (length (file_bytes s i) - nat offset)) \<and>
    file_bytes s' i = splice_at (file_bytes s i) (nat offset) (take m buf) \<and>
    (\<forall>j. file_sectors s j \<inter> file_sectors s i = {} \<longrightarrow> file_bytes s' j = file_bytes s j) \<and>
    (avail s' (reqs s') \<longrightarrow> (\<exists>s''. inode_read_at s' i (int m) offset = Some (take m buf, s'')))"
proof -
  obtain m s' where w: "inode_write_at s i buf sz offset = Some (int m, s')" "m \<le> nat sz"
    "m \<le> length (file_bytes s i) - nat offset"
    "avail s (reqs s) \<longrightarrow> m = min (nat sz) (length (file_bytes s i) - nat offset)"
    "wrote s (file_sectors s i) s'" "file_bytes s' i = splice_at (file_bytes s i) (nat offset) (take m buf)"
    using inode_write_at_ok [OF assms] by blast
  have others: "file_bytes s' j = file_bytes s j" if "file_sectors s j \<inter> file_sectors s i = {}" for j
    using content_outside [OF w(5)] wrote_same(8) [OF w(5), of j] that
    by (auto simp: file_bytes_def file_sectors_def split: option.splits)
  have "file_ok s' i" using assms(1) wrote_same(7,8) [OF w(5)] by (auto simp: file_ok_def split: option.splits)
  then obtain n s'' where r: "inode_read_at s' i (int m) offset = Some (take n (drop (nat offset) (file_bytes s' i)), s'')"
    "avail s' (reqs s') \<longrightarrow> n = m" using inode_read_at_ok [OF _ assms(2), of s' i "int m"] by auto
  have "take m (drop (nat offset) (file_bytes s' i)) = take m buf"
  proof (cases "m = 0")
    case False
    then have "nat offset + length (take m buf) \<le> length (file_bytes s i)" using w(3) by simp
    from splice_at_read [OF this] show ?thesis using w(2,6) assms(3) by simp
  qed simp
  then have rb: "avail s' (reqs s') \<longrightarrow> (\<exists>s''. inode_read_at s' i (int m) offset = Some (take m buf, s''))" using r by auto
  show ?thesis using w(1,2,4,6) others rb by blast
qed

theorem inode_write_at_correct_witness:
  "\<exists>s'. inode_write_at demo_fs 0 (replicate 200 1) 200 450 = Some (150, s') \<and> file_bytes s' 1 = file_bytes demo_fs 1 \<and>
     file_bytes s' 0 = splice_at (file_bytes demo_fs 0) 450 (replicate 150 1)"
proof -
  obtain s' where "inode_write_at demo_fs 0 (replicate 200 1) 200 450 = Some (150, s')"
    "file_bytes s' 0 = splice_at (file_bytes demo_fs 0) 450 (replicate 150 1)"
    "\<forall>j. file_sectors demo_fs j \<inter> file_sectors demo_fs 0 = {} \<longrightarrow> file_bytes s' j = file_bytes demo_fs j"
    using inode_write_at_correct [OF demo_fs_ok(1), of 450 200 "replicate 200 1"] demo_fs_ok(3-5) by auto
  then show ?thesis using demo_fs_ok(6,7) by auto
qed

end
