(* ===== verification/Free_Map.thy ===== *)
theory Free_Map
  imports Inode_Data
begin

text \<open>
  The free map (src/proj-pregame/src/filesys/free-map.c): a bitmap of the sectors in use, kept in
  memory and written to a file of its own at every change, and the functions of bitmap.c that
  read and write a bitmap. Opening and creating the free map file is in \<open>Filesys\<close>.
\<close>

subsection \<open>The C functions\<close>

definition FREE_MAP_SECTOR :: u32 where "FREE_MAP_SECTOR = 0"
definition ROOT_DIR_SECTOR :: u32 where "ROOT_DIR_SECTOR = 1"

definition bitmap_file_size :: "bitmap \<Rightarrow> u32" where
  "bitmap_file_size b = byte_cnt (bit_cnt b)"

text \<open>The bytes read replace the first bytes of the array \<open>bits\<close>.\<close>

definition bitmap_read :: "fs \<Rightarrow> bitmap \<Rightarrow> ofile \<Rightarrow> (bool \<times> bitmap \<times> fs) option" where
  "bitmap_read s b f =
     (if bit_cnt b > 0 then do {
        let sz = sint (byte_cnt (bit_cnt b));
        (bs, s1) \<leftarrow> file_read_at s f sz 0;
        let b1 = b\<lparr>bits := words_of_bytes (splice_at (le_words (bits b)) 0 bs)\<rparr>;
        v \<leftarrow> elem_get b1 (elem_cnt (bit_cnt b) - 1);
        b2 \<leftarrow> elem_set b1 (elem_cnt (bit_cnt b) - 1) (v AND last_mask b);
        Some (int (length bs) = sz, b2, s1)
      } else Some (True, b, s))"

definition bitmap_write :: "fs \<Rightarrow> bitmap \<Rightarrow> ofile \<Rightarrow> (bool \<times> fs) option" where
  "bitmap_write s b f = do {
     let sz = sint (byte_cnt (bit_cnt b));
     (n, s1) \<leftarrow> file_write_at s f (le_words (bits b)) sz 0;
     Some (n = sz, s1)
   }"

definition free_map_init :: "bool \<Rightarrow> u32 list option \<Rightarrow> fs \<Rightarrow> fs option" where
  "free_map_init hdr_ok junk s = do {
     r \<leftarrow> bitmap_create hdr_ok junk (b_size (fs_device s));
     b \<leftarrow> r;
     b1 \<leftarrow> bitmap_mark b FREE_MAP_SECTOR;
     b2 \<leftarrow> bitmap_mark b1 ROOT_DIR_SECTOR;
     Some (s\<lparr>free_map := b2\<rparr>)
   }"

definition free_map_allocate :: "fs \<Rightarrow> u32 \<Rightarrow> (u32 option \<times> fs) option" where
  "free_map_allocate s cnt = do {
     (sec, b) \<leftarrow> bitmap_scan_and_flip (free_map s) 0 cnt False;
     let s1 = s\<lparr>free_map := b\<rparr>;
     if sec \<noteq> BITMAP_ERROR then
       (case free_map_file s1 of
          None \<Rightarrow> Some (Some sec, s1)
        | Some f \<Rightarrow> do {
            (ok, s2) \<leftarrow> bitmap_write s1 b f;
            if ok then Some (Some sec, s2)
            else do {
              b' \<leftarrow> bitmap_set_multiple (free_map s2) sec cnt False;
              Some (None, s2\<lparr>free_map := b'\<rparr>)
            }
          })
     else Some (None, s1)
   }"

definition free_map_release :: "fs \<Rightarrow> u32 \<Rightarrow> u32 \<Rightarrow> fs option" where
  "free_map_release s sec cnt = do {
     ok \<leftarrow> bitmap_all (free_map s) sec cnt;
     ASSERT ok;
     b \<leftarrow> bitmap_set_multiple (free_map s) sec cnt False;
     f \<leftarrow> free_map_file s;
     (ok', s1) \<leftarrow> bitmap_write (s\<lparr>free_map := b\<rparr>) b f;
     Some s1
   }"

subsection \<open>Writing and reading the map\<close>

text \<open>The sizes of the map agree, and its file has exactly the bytes of the map.\<close>

definition map_ok :: "bitmap \<Rightarrow> bool" where
  "map_ok b \<longleftrightarrow> bm_wf b \<and> length (bits b) = unat (elem_cnt (bit_cnt b)) \<and> unat (byte_cnt (bit_cnt b)) = 4 * length (bits b) \<and>
     4 * length (bits b) < 2 ^ 31"

definition map_file_ok :: "fs \<Rightarrow> ofile \<Rightarrow> bool" where
  "map_file_ok s f \<longleftrightarrow> file_ok s (finode f) \<and> may_write s (finode f) \<and>
     length (file_bytes s (finode f)) = 4 * length (bits (free_map s))"

lemma sint_small:
  assumes "unat (w :: u32) < 2 ^ 31"
  shows "sint w = int (unat w)"
proof -
  have "int (unat w) < int (2 ^ 31)" by (rule of_nat_less_iff [THEN iffD2, OF assms])
  then have "uint w < 2 ^ 31" by simp
  then have "signed_take_bit 31 (uint w) = uint w" by (intro signed_take_bit_int_eq_self) (simp_all add: order_trans [OF _ uint_ge_0])
  moreover have "LENGTH(32) - Suc 0 = (31 :: nat)" by simp
  ultimately have "sint w = uint w" using sint_uint [of w] by (simp only:)
  then show ?thesis by simp
qed

lemma bitmap_write_ok:
  assumes b: "map_ok b" and f: "file_ok s (finode f)" "may_write s (finode f)"
    "length (file_bytes s (finode f)) = 4 * length (bits b)"
  shows "\<exists>ok s'. bitmap_write s b f = Some (ok, s') \<and> (avail s (reqs s) \<longrightarrow> ok) \<and> wrote s (file_sectors s (finode f)) s' \<and>
    (ok \<longrightarrow> file_bytes s' (finode f) = le_words (bits b))"
proof -
  let ?n = "4 * length (bits b)"
  have sz: "sint (byte_cnt (bit_cnt b)) = int ?n" using b sint_small [of "byte_cnt (bit_cnt b)"] by (simp add: map_ok_def)
  obtain m s' where w: "inode_write_at s (finode f) (le_words (bits b)) (int ?n) 0 = Some (int m, s')"
    "avail s (reqs s) \<longrightarrow> m = ?n" "wrote s (file_sectors s (finode f)) s'"
    "file_bytes s' (finode f) = splice_at (file_bytes s (finode f)) 0 (take m (le_words (bits b)))"
    using inode_write_at_ok [OF f(1) _ _ f(2), of 0 "int ?n" "le_words (bits b)"] f(3) by (auto simp del: of_nat_mult)
  have "file_bytes s' (finode f) = le_words (bits b)" if "m = ?n" using w(4) that f(3) by (simp add: splice_at_def)
  then show ?thesis using w(1-3) sz by (auto simp: bitmap_write_def file_write_at_def simp del: of_nat_mult)
qed

lemma wrote_file_ok: "wrote s D s' \<Longrightarrow> file_ok s i \<Longrightarrow> file_ok s' i"
  using wrote_same(7,8) by (auto simp: file_ok_def split: option.splits)

lemma wrote_may_write: "wrote s D s' \<Longrightarrow> may_write s' i = may_write s i"
  using wrote_same(8) by (auto simp: may_write_def)

lemma wrote_file_length: "wrote s D s' \<Longrightarrow> length (file_bytes s' i) = length (file_bytes s i)"
  using wrote_same(8) by (auto simp: file_bytes_def split: option.splits)

lemma wrote_file_sectors: "wrote s D s' \<Longrightarrow> file_sectors s' i = file_sectors s i"
  using wrote_same(8) by (auto simp: file_sectors_def)

lemma wrote_file_bytes: "wrote s D s' \<Longrightarrow> file_sectors s i \<inter> D = {} \<Longrightarrow> file_bytes s' i = file_bytes s i"
  using content_outside wrote_same(8) by (auto simp: file_bytes_def file_sectors_def split: option.splits)

lemma with_free_map [simp]:
  "file_ok (s\<lparr>free_map := b\<rparr>) i = file_ok s i" "may_write (s\<lparr>free_map := b\<rparr>) i = may_write s i"
  "file_bytes (s\<lparr>free_map := b\<rparr>) i = file_bytes s i" "file_sectors (s\<lparr>free_map := b\<rparr>) i = file_sectors s i"
  by (simp_all add: file_ok_def may_write_def file_bytes_def file_sectors_def get_inode_def cong: option.case_cong)

subsection \<open>Allocation and release\<close>

text \<open>A change of the map to \<open>b\<close>, on disk too, that touches no sector but those of the map file.\<close>

definition map_saved :: "fs \<Rightarrow> bitmap \<Rightarrow> ofile \<Rightarrow> fs \<Rightarrow> bool" where
  "map_saved s b f s' \<longleftrightarrow> wrote (s\<lparr>free_map := b\<rparr>) (file_sectors s (finode f)) s' \<and> file_bytes s' (finode f) = le_words (bits b)"

lemma map_saved_ok:
  assumes "map_saved s b f s'" "map_file_ok s f" "map_ok (free_map s)" "map_ok b" "length (bits b) = length (bits (free_map s))"
  shows "free_map s' = b" "free_map_file s' = free_map_file s" "avail s' = avail s" "map_file_ok s' f"
    "b_size (fs_device s') = b_size (fs_device s)" "open_inodes s' = open_inodes s"
    "file_sectors s i \<inter> file_sectors s (finode f) = {} \<Longrightarrow> file_bytes s' i = file_bytes s i"
proof -
  have w: "wrote (s\<lparr>free_map := b\<rparr>) (file_sectors s (finode f)) s'" using assms(1) by (simp add: map_saved_def)
  show "free_map s' = b" "free_map_file s' = free_map_file s" "avail s' = avail s" "b_size (fs_device s') = b_size (fs_device s)"
    "open_inodes s' = open_inodes s"
    using wrote_same [OF w] by simp_all
  then show "map_file_ok s' f" using assms wrote_file_ok [OF w] wrote_may_write [OF w] by (simp add: map_file_ok_def map_saved_def)
  show "file_sectors s i \<inter> file_sectors s (finode f) = {} \<Longrightarrow> file_bytes s' i = file_bytes s i"
    using wrote_file_bytes [OF w, of i] by simp
qed

lemma free_map_allocate_cases:
  assumes s: "map_ok (free_map s)" "free_map_file s = Some f" "map_file_ok s f" "avail s (reqs s)" and c: "c \<noteq> 0"
  obtains "free_map_allocate s c = Some (None, s)" "bm_alloc (free_map s) c = Some (None, free_map s)"
  | i b s' where "free_map_allocate s c = Some (Some i, s')" "bm_alloc (free_map s) c = Some (Some i, b)" "map_ok b"
      "length (bits b) = length (bits (free_map s))" "bit_cnt b = bit_cnt (free_map s)" "map_saved s b f s'"
proof -
  have wf: "bm_wf (free_map s)" using s(1) by (simp add: map_ok_def)
  show thesis using wf c
  proof (cases rule: bm_alloc_cases)
    case 1
    then obtain j where j: "bitmap_scan_and_flip (free_map s) 0 c False = Some (j, free_map s)" "j = BITMAP_ERROR"
      by (auto simp: bm_alloc_def panic_simps split: if_splits)
    then have "free_map_allocate s c = Some (None, s)" by (simp add: free_map_allocate_def Let_def)
    then show thesis using that(1) 1(1) by simp
  next
    case (2 i b)
    have j: "bitmap_scan_and_flip (free_map s) 0 c False = Some (i, b)" "i \<noteq> BITMAP_ERROR"
      using 2(1) by (auto simp: bm_alloc_def panic_simps split: if_splits)
    have len: "length (bits b) = length (bits (free_map s))" using bitmap_scan_and_flip_length [OF j(1)] .
    have b: "map_ok b" using s(1) len 2(2,3) by (simp add: map_ok_def)
    obtain s' where w: "bitmap_write (s\<lparr>free_map := b\<rparr>) b f = Some (True, s')" "map_saved s b f s'"
      using bitmap_write_ok [OF b, of "s\<lparr>free_map := b\<rparr>" f] s(3,4) len by (auto simp: map_file_ok_def map_saved_def)
    then have "free_map_allocate s c = Some (Some i, s')" using j s(2) by (simp add: free_map_allocate_def Let_def)
    then show thesis using that(2) [OF _ 2(1) b len 2(3) w(2)] by simp
  qed
qed

lemma free_map_release_ok:
  assumes s: "map_ok (free_map s)" "free_map_file s = Some f" "map_file_ok s f" "avail s (reqs s)"
    and r: "bm_legal (i, c) (free_map s)" "run_of (i, c) \<subseteq> bm_used (free_map s)"
  shows "\<exists>b s'. free_map_release s i c = Some s' \<and> map_ok b \<and> length (bits b) = length (bits (free_map s)) \<and>
    bit_cnt b = bit_cnt (free_map s) \<and> bm_used b = bm_used (free_map s) - run_of (i, c) \<and> map_saved s b f s'"
proof -
  obtain b where b: "bm_release (free_map s) i c = Some b" "bm_wf b" "bit_cnt b = bit_cnt (free_map s)"
    "bm_used b = bm_used (free_map s) - run_of (i, c)" using bm_release_used [OF _ r] s(1) by (auto simp: map_ok_def)
  then have st: "bitmap_all (free_map s) i c = Some True" "bitmap_set_multiple (free_map s) i c False = Some b"
    by (auto simp: bm_release_def panic_simps split: if_splits)
  have len: "length (bits b) = length (bits (free_map s))" using bitmap_set_multiple_length [OF st(2)] .
  have mb: "map_ok b" using s(1) len b(2,3) by (simp add: map_ok_def)
  obtain s' where w: "bitmap_write (s\<lparr>free_map := b\<rparr>) b f = Some (True, s')" "map_saved s b f s'"
    using bitmap_write_ok [OF mb, of "s\<lparr>free_map := b\<rparr>" f] s(3,4) len by (auto simp: map_file_ok_def map_saved_def)
  then have "free_map_release s i c = Some s'" using st s(2) by (simp add: free_map_release_def)
  then show ?thesis using mb len b(3,4) w(2) by blast
qed

text \<open>The free map with its file open and memory available provides the contract of an allocator of runs.\<close>

definition map_inv :: "fs \<Rightarrow> bool" where
  "map_inv s \<longleftrightarrow> map_ok (free_map s) \<and> (\<forall>n. avail s n) \<and> (\<exists>f. free_map_file s = Some f \<and> map_file_ok s f)"

definition map_used :: "fs \<Rightarrow> nat set" where
  "map_used s = bm_used (free_map s)"

definition map_legal :: "u32 \<times> u32 \<Rightarrow> fs \<Rightarrow> bool" where
  "map_legal r s \<longleftrightarrow> bm_legal r (free_map s)"

interpretation fm: region_alloc map_inv map_used free_map_allocate free_map_release map_legal
proof
  fix s s' and c i :: u32 and r :: "u32 \<times> u32"
  assume inv: "map_inv s"
  then obtain f where f: "map_ok (free_map s)" "free_map_file s = Some f" "map_file_ok s f" "avail s (reqs s)" "\<forall>n. avail s n"
    by (auto simp: map_inv_def)
  have keep: "map_inv t \<and> map_used t = bm_used b \<and> (\<forall>r. map_legal r s \<longrightarrow> map_legal r t)"
    if "map_saved s b f t" "map_ok b" "length (bits b) = length (bits (free_map s))" "bit_cnt b = bit_cnt (free_map s)" for b t
    using map_saved_ok [OF that(1) f(3,1) that(2,3)] f(2,5) that by (auto simp: map_inv_def map_used_def map_legal_def bm_legal_def)
  show "\<exists>s'. free_map_release s i c = Some s' \<and> map_inv s' \<and> map_used s' = map_used s - run_of (i, c) \<and>
      (\<forall>r. map_legal r s \<longrightarrow> map_legal r s')" if "map_legal (i, c) s" "run_of (i, c) \<subseteq> map_used s"
    using free_map_release_ok [OF f(1-4), of i c] that keep by (fastforce simp: map_used_def map_legal_def)
  assume c: "c \<noteq> 0"
  show "\<exists>r s'. free_map_allocate s c = Some (r, s')" by (rule free_map_allocate_cases [OF f(1-4) c]) auto
  show "s' = s" if "free_map_allocate s c = Some (None, s')"
    by (rule free_map_allocate_cases [OF f(1-4) c]) (use that in auto)
  assume a: "free_map_allocate s c = Some (Some i, s')"
  obtain b where b: "bm_alloc (free_map s) c = Some (Some i, b)" "map_ok b" "length (bits b) = length (bits (free_map s))"
    "bit_cnt b = bit_cnt (free_map s)" "map_saved s b f s'"
    by (rule free_map_allocate_cases [OF f(1-4) c]) (use a in auto)
  have wf: "bm_wf (free_map s)" using f(1) by (simp add: map_ok_def)
  note k = keep [OF b(5,2-4)]
  show "run_of (i, c) \<inter> map_used s = {}" using bm.alloc_free [OF wf c b(1)] by (simp add: map_used_def)
  show "map_used s' = map_used s \<union> run_of (i, c)" using bm.alloc_used [OF wf c b(1)] k by (simp add: map_used_def)
  show "map_inv s' \<and> map_legal (i, c) s'"
    using bm.alloc_inv [OF wf c b(1)] k map_saved_ok(1) [OF b(5) f(3,1) b(2,3)] by (simp add: map_legal_def)
  show "map_legal r s \<Longrightarrow> map_legal r s'" using k by blast
qed

subsection \<open>Reading the map back\<close>

lemma ceil32:
  assumes "(n :: nat) mod 32 \<noteq> 0"
  shows "(n + 31) div 32 - 1 = n div 32"
proof -
  have "(n + 31) div 32 = n div 32 + (n mod 32 + 31) div 32" using div_add1_eq [of n 31 32] by simp
  moreover have "(n mod 32 + 31) div 32 = 1" by (rule div_nat_eqI) (use assms in simp_all)
  ultimately show ?thesis by simp
qed

lemma last_mask_bit:
  assumes "i < unat (bit_cnt b)" "i div 32 = (unat (bit_cnt b) + 31) div 32 - 1"
  shows "bit (last_mask b) (i mod 32)"
proof -
  let ?n = "unat (bit_cnt b)"
  have r: "unat (bit_cnt b mod ELEM_BITS) = ?n mod 32" by (simp add: ELEM_BITS_def unat_mod)
  show ?thesis
  proof (cases "?n mod 32 = 0")
    case True
    then have "bit_cnt b mod ELEM_BITS = 0" using r by (simp add: unat_eq_zero)
    then show ?thesis by (simp add: last_mask_def Let_def)
  next
    case False
    have "i mod 32 < ?n mod 32"
    proof -
      have "(?n + 31) div 32 - 1 = ?n div 32" by (rule ceil32 [OF False])
      then have "i div 32 = ?n div 32" using assms(2) by simp
      moreover have "i = 32 * (i div 32) + i mod 32" "?n = 32 * (?n div 32) + ?n mod 32" by simp_all
      ultimately show ?thesis using assms(1) by linarith
    qed
    moreover have "bit_cnt b mod ELEM_BITS \<noteq> 0" using r False by (metis unat_0)
    moreover have "push_bit (?n mod 32) 1 - 1 = (mask (?n mod 32) :: u32)" by (simp add: mask_eq_exp_minus_1 push_bit_eq_mult)
    ultimately show ?thesis using r by (simp add: last_mask_def Let_def bit_mask_iff)
  qed
qed

lemma elem_cnt_unat: "unat n \<le> 2 ^ 32 - 32 \<Longrightarrow> unat (elem_cnt n) = (unat n + 31) div 32"
  using unat_plus_le [of n 31 4294967295]
  by (simp add: elem_cnt_def DIV_ROUND_UP_def ELEM_BITS_def unat_div add_diff_eq [symmetric])

lemma bitmap_read_ok:
  assumes b: "map_ok b" "map_ok c" "bit_cnt c = bit_cnt b" "0 < bit_cnt b" "unat (bit_cnt b) \<le> 2 ^ 32 - 32"
    and f: "file_ok s (finode f)" "file_bytes s (finode f) = le_words (bits b)" "avail s (reqs s)"
  shows "\<exists>b' s'. bitmap_read s c f = Some (True, b', s') \<and> bit_cnt b' = bit_cnt b \<and> bm_bits b' = bm_bits b \<and> idle s s'"
proof -
  let ?n = "4 * length (bits b)"
  let ?e = "elem_cnt (bit_cnt b)"
  have len: "length (bits b) = unat ?e" "length (bits c) = unat ?e"
    using b(1,2) unfolding map_ok_def b(3) by blast+
  have e: "unat ?e = (unat (bit_cnt b) + 31) div 32" by (rule elem_cnt_unat [OF b(5)])
  have pos: "0 < unat (bit_cnt b)" using b(4) by (simp add: word_less_nat_alt)
  have e0: "0 < unat ?e" using e pos by (simp add: div_greater_zero_iff)
  have e1: "unat (?e - 1) = unat ?e - 1" using e0 by (intro unat_minus_one) auto
  have sz: "sint (byte_cnt (bit_cnt c)) = int ?n" using b(1,3) sint_small [of "byte_cnt (bit_cnt b)"] by (simp add: map_ok_def)
  obtain s' where r: "inode_read_at s (finode f) (int ?n) 0 = Some (le_words (bits b), s')" "idle s s'"
    using inode_read_at_ok [OF f(1), of 0 "int ?n"] f(2,3) by (auto simp del: of_nat_mult)
  have sp: "splice_at (le_words (bits c)) 0 (le_words (bits b)) = le_words (bits b)" using len by (simp add: splice_at_def)
  let ?v = "bits b ! (unat ?e - 1) AND last_mask c"
  let ?b = "c\<lparr>bits := (bits b)[unat ?e - 1 := ?v]\<rparr>"
  have i: "unat ?e - 1 < length (bits b)" using len e0 by simp
  have "bitmap_read s c f = Some (True, ?b, s')"
    using b(3,4) sz r(1) sp i e1 by (simp add: bitmap_read_def file_read_at_def elem_get_def elem_set_def del: of_nat_mult)
  moreover have "bm_bits ?b = bm_bits b"
  proof (rule nth_equalityI)
    show "length (bm_bits ?b) = length (bm_bits b)" using b(3) by simp
    fix j assume "j < length (bm_bits ?b)"
    then have j: "j < unat (bit_cnt b)" using b(3) by simp
    then have jl: "j div 32 < length (bits b)" using len e by linarith
    have "bm_bit ?b j = bm_bit b j"
    proof (cases "j div 32 = unat ?e - 1")
      case True
      then have "bit (last_mask c) (j mod 32)" using last_mask_bit [of j c] j b(3) e by simp
      then show ?thesis using True i by (simp add: bm_bit_def bit_and_iff)
    qed (simp add: bm_bit_def)
    then show "bm_bits ?b ! j = bm_bits b ! j" using j b(3) by simp
  qed
  ultimately show ?thesis using b(3) r(2) by (intro exI [of _ ?b] exI [of _ s']) simp
qed

subsection \<open>Properties\<close>

text \<open>
  C25. \<open>free_map_allocate\<close> with the free map file open: either no run of \<open>c\<close> free sectors exists
  and nothing changes, or it returns the first of \<open>c\<close> consecutive sectors of the device none of
  which was in use, marks exactly these, and leaves the new map in the free map file; no other
  file changes. \<open>free_map_release\<close> of the run restores the set of used sectors.
\<close>

theorem free_map_allocate_correct:
  assumes "map_inv s" "free_map_file s = Some f" "c \<noteq> 0"
  shows "(free_map_allocate s c = Some (None, s) \<and> (\<forall>i. \<not> range_all i (unat c) False (bm_bits (free_map s)))) \<or>
    (\<exists>i s' s''. free_map_allocate s c = Some (Some i, s') \<and> run_of (i, c) \<subseteq> {..< unat (bit_cnt (free_map s))} \<and>
      run_of (i, c) \<inter> map_used s = {} \<and> map_used s' = map_used s \<union> run_of (i, c) \<and>
      file_bytes s' (finode f) = le_words (bits (free_map s')) \<and>
      (\<forall>j. file_sectors s j \<inter> file_sectors s (finode f) = {} \<longrightarrow> file_bytes s' j = file_bytes s j) \<and>
      free_map_release s' i c = Some s'' \<and> map_used s'' = map_used s)"
proof -
  have s: "map_ok (free_map s)" "map_file_ok s f" "avail s (reqs s)" and wf: "bm_wf (free_map s)"
    using assms(1,2) by (auto simp: map_inv_def map_ok_def)
  show ?thesis
  proof (rule free_map_allocate_cases [OF s(1) assms(2) s(2,3) assms(3)])
    assume "free_map_allocate s c = Some (None, s)" "bm_alloc (free_map s) c = Some (None, free_map s)"
    moreover have "\<forall>i. \<not> range_all i (unat c) False (bm_bits (free_map s))"
      using wf assms(3) calculation(2) by (cases rule: bm_alloc_cases) auto
    ultimately show ?thesis by blast
  next
    fix i b s'
    assume a: "free_map_allocate s c = Some (Some i, s')" "bm_alloc (free_map s) c = Some (Some i, b)" "map_ok b"
      "length (bits b) = length (bits (free_map s))" "bit_cnt b = bit_cnt (free_map s)" "map_saved s b f s'"
    note sv = map_saved_ok [OF a(6) s(2,1) a(3,4)]
    note u = fm.alloc_free [OF assms(1,3) a(1)] fm.alloc_used [OF assms(1,3) a(1)]
    have i: "map_inv s'" "map_legal (i, c) s'" using fm.alloc_inv [OF assms(1,3) a(1)] by auto
    obtain s'' where r: "free_map_release s' i c = Some s''" "map_used s'' = map_used s' - run_of (i, c)"
      using fm.release_used [OF i] u(2) by auto
    have "run_of (i, c) \<subseteq> {..< unat (bit_cnt (free_map s))}" using i(2) sv(1) a(5) by (auto simp: map_legal_def bm_legal_def run_of_def)
    moreover have "map_used s'' = map_used s" using r(2) u by auto
    moreover have "file_bytes s' (finode f) = le_words (bits (free_map s'))" using a(6) sv(1) by (simp add: map_saved_def)
    ultimately show ?thesis using a(1) u r(1) sv(7) by blast
  qed
qed

text \<open>The demonstration device with the first inode as the free map file, which holds one word.\<close>

definition demo_map :: fs where
  "demo_map = demo_fs\<lparr>free_map_file := Some \<lparr>finode = 0, fpos = 0, deny_write = False\<rparr>, open_inodes :=
     [\<lparr>sector = 0, open_cnt = 1, removed = False, deny_write_cnt = 0,
        idata = \<lparr>start = 2, dlength = 4, magic = INODE_MAGIC, unused = []\<rparr>\<rparr>]\<rparr>"

lemma demo_map_inv: "map_inv demo_map"
proof -
  have "elem_cnt 6 = 1" "byte_cnt 6 = 4" by code_simp+
  then show ?thesis
    by (simp add: map_inv_def map_ok_def map_file_ok_def demo_map_def demo_fs_def bm_wf_def file_ok_def may_write_def
        file_bytes_def get_inode_def on_device_def nsectors_def disk_ok_def)
qed

theorem free_map_allocate_correct_witness:
  "\<exists>r s'. free_map_allocate demo_map 1 = Some (r, s') \<and> (r = None \<longrightarrow> s' = demo_map)"
  using free_map_allocate_correct [OF demo_map_inv, of "\<lparr>finode = 0, fpos = 0, deny_write = False\<rparr>" 1]
  by (auto simp: demo_map_def)

text \<open>
  C38. A free map written to its file and read back is the same map: after \<open>bitmap_write\<close>,
  \<open>bitmap_read\<close> into a bitmap of the same size succeeds and yields the bits that were written.
\<close>

theorem bitmap_file_roundtrip:
  assumes b: "map_ok b" "map_ok c" "bit_cnt c = bit_cnt b" "0 < bit_cnt b" "unat (bit_cnt b) \<le> 2 ^ 32 - 32"
    and f: "file_ok s (finode f)" "may_write s (finode f)" "length (file_bytes s (finode f)) = 4 * length (bits b)" "\<forall>n. avail s n"
  shows "\<exists>s1 c' s2. bitmap_write s b f = Some (True, s1) \<and> bitmap_read s1 c f = Some (True, c', s2) \<and>
    bit_cnt c' = bit_cnt b \<and> bm_bits c' = bm_bits b"
proof -
  obtain s1 where w: "bitmap_write s b f = Some (True, s1)" "wrote s (file_sectors s (finode f)) s1"
    "file_bytes s1 (finode f) = le_words (bits b)" using bitmap_write_ok [OF b(1) f(1-3)] f(4) by auto
  then show ?thesis
    using bitmap_read_ok [OF b wrote_file_ok [OF w(2) f(1)] w(3)] wrote_same(6) [OF w(2)] f(4) by auto
qed

theorem bitmap_file_roundtrip_witness:
  "\<exists>s1 c' s2. bitmap_write demo_map \<lparr>bit_cnt = 6, bits = [37]\<rparr> \<lparr>finode = 0, fpos = 0, deny_write = False\<rparr> = Some (True, s1) \<and>
     bitmap_read s1 \<lparr>bit_cnt = 6, bits = [0]\<rparr> \<lparr>finode = 0, fpos = 0, deny_write = False\<rparr> = Some (True, c', s2) \<and>
     bm_bits c' = bm_bits \<lparr>bit_cnt = 6, bits = [37]\<rparr>"
proof -
  have e: "elem_cnt 6 = 1" "byte_cnt 6 = 4" by code_simp+
  have ok: "map_ok \<lparr>bit_cnt = 6, bits = [v]\<rparr>" for v using e by (simp add: map_ok_def bm_wf_def)
  have "map_file_ok demo_map \<lparr>finode = 0, fpos = 0, deny_write = False\<rparr>" "\<forall>n. avail demo_map n" "length (bits (free_map demo_map)) = 1"
    using demo_map_inv by (auto simp: map_inv_def demo_map_def demo_fs_def)
  then obtain s1 c' s2 where "bitmap_write demo_map \<lparr>bit_cnt = 6, bits = [37]\<rparr> \<lparr>finode = 0, fpos = 0, deny_write = False\<rparr> = Some (True, s1)"
    "bitmap_read s1 \<lparr>bit_cnt = 6, bits = [0]\<rparr> \<lparr>finode = 0, fpos = 0, deny_write = False\<rparr> = Some (True, c', s2)"
    "bm_bits c' = bm_bits \<lparr>bit_cnt = 6, bits = [37]\<rparr>"
    using bitmap_file_roundtrip [OF ok [of 37] ok [of 0], of demo_map "\<lparr>finode = 0, fpos = 0, deny_write = False\<rparr>"] by (auto simp: map_file_ok_def)
  then show ?thesis by blast
qed

end
