(* ===== verification/Inode.thy ===== *)
theory Inode
  imports Free_Map
begin

text \<open>
  Inodes on disk and in memory: creation, opening and closing of the inodes of
  src/proj-pregame/src/filesys/inode.c. An inode on disk is 512 bytes, decoded and encoded field by
  field. A null pointer is \<open>None\<close>; an inode pointer that is not open makes an operation panic.
\<close>

subsection \<open>The C functions\<close>

definition inode_disk_bytes :: "inode_disk \<Rightarrow> u8 list" where
  "inode_disk_bytes d = le_bytes (start d) @ le_bytes (word_of_int (dlength d)) @ le_bytes (magic d) @ unused d"

definition inode_disk_of :: "u8 list \<Rightarrow> inode_disk" where
  "inode_disk_of bs = \<lparr>start = word_of_bytes (take 4 bs), dlength = sint (word_of_bytes (take 4 (drop 4 bs))),
     magic = word_of_bytes (take 4 (drop 8 bs)), unused = drop 12 bs\<rparr>"

definition inode_init :: "fs \<Rightarrow> fs" where
  "inode_init s = s\<lparr>open_inodes := []\<rparr>"

fun write_zeros :: "nat \<Rightarrow> u32 \<Rightarrow> block \<Rightarrow> block option" where
  "write_zeros 0 sec b = Some b"
| "write_zeros (Suc n) sec b = do {
     b' \<leftarrow> block_write b sec (replicate 512 0);
     write_zeros n (sec + 1) b'
   }"

definition inode_create :: "fs \<Rightarrow> u32 \<Rightarrow> int \<Rightarrow> (bool \<times> fs) option" where
  "inode_create s sec len = do {
     ASSERT (len \<ge> 0);
     let (mem, s1) = mem_request s;
     if mem then do {
       let sectors = bytes_to_sectors len;
       (r, s2) \<leftarrow> free_map_allocate s1 sectors;
       case r of
         Some st \<Rightarrow> do {
           dv \<leftarrow> block_write (fs_device s2) sec
             (inode_disk_bytes \<lparr>start = st, dlength = len, magic = INODE_MAGIC, unused = replicate 500 0\<rparr>);
           dv' \<leftarrow> write_zeros (unat sectors) st dv;
           Some (True, s2\<lparr>fs_device := dv'\<rparr>)
         }
       | None \<Rightarrow> Some (False, s2)
     } else Some (False, s1)
   }"

definition upd_inode :: "fs \<Rightarrow> u32 \<Rightarrow> (inode \<Rightarrow> inode) \<Rightarrow> fs" where
  "upd_inode s i f = s\<lparr>open_inodes := map (\<lambda>n. if sector n = i then f n else n) (open_inodes s)\<rparr>"

definition inode_reopen :: "fs \<Rightarrow> u32 option \<Rightarrow> (u32 option \<times> fs) option" where
  "inode_reopen s p =
     (case p of
        None \<Rightarrow> Some (None, s)
      | Some i \<Rightarrow> do {
          n \<leftarrow> get_inode s i;
          Some (p, upd_inode s i (\<lambda>n. n\<lparr>open_cnt := open_cnt n + 1\<rparr>))
        })"

definition inode_open :: "fs \<Rightarrow> u32 \<Rightarrow> (u32 option \<times> fs) option" where
  "inode_open s sec =
     (case get_inode s sec of
        Some n \<Rightarrow> inode_reopen s (Some sec)
      | None \<Rightarrow> (let (mem, s1) = mem_request s in
          if mem then do {
            (bs, dv) \<leftarrow> block_read (fs_device s1) sec;
            Some (Some sec, s1\<lparr>fs_device := dv, open_inodes :=
              \<lparr>sector = sec, open_cnt = 1, removed = False, deny_write_cnt = 0, idata = inode_disk_of bs\<rparr> # open_inodes s1\<rparr>)
          } else Some (None, s1)))"

definition inode_get_inumber :: "fs \<Rightarrow> u32 \<Rightarrow> u32 option" where
  "inode_get_inumber s i = do { n \<leftarrow> get_inode s i; Some (sector n) }"

definition inode_close :: "fs \<Rightarrow> u32 option \<Rightarrow> fs option" where
  "inode_close s p =
     (case p of
        None \<Rightarrow> Some s
      | Some i \<Rightarrow> do {
          n \<leftarrow> get_inode s i;
          if open_cnt n - 1 = 0 then do {
            let s1 = s\<lparr>open_inodes := filter (\<lambda>m. sector m \<noteq> i) (open_inodes s)\<rparr>;
            if removed n then do {
              s2 \<leftarrow> free_map_release s1 (sector n) 1;
              free_map_release s2 (start (idata n)) (bytes_to_sectors (dlength (idata n)))
            } else Some s1
          } else Some (upd_inode s i (\<lambda>n. n\<lparr>open_cnt := open_cnt n - 1\<rparr>))
        })"

definition inode_remove :: "fs \<Rightarrow> u32 \<Rightarrow> fs option" where
  "inode_remove s i = do {
     n \<leftarrow> get_inode s i;
     Some (upd_inode s i (\<lambda>n. n\<lparr>removed := True\<rparr>))
   }"

definition inode_deny_write :: "fs \<Rightarrow> u32 \<Rightarrow> fs option" where
  "inode_deny_write s i = do {
     n \<leftarrow> get_inode s i;
     ASSERT (deny_write_cnt n + 1 \<le> open_cnt n);
     Some (upd_inode s i (\<lambda>n. n\<lparr>deny_write_cnt := deny_write_cnt n + 1\<rparr>))
   }"

definition inode_allow_write :: "fs \<Rightarrow> u32 \<Rightarrow> fs option" where
  "inode_allow_write s i = do {
     n \<leftarrow> get_inode s i;
     ASSERT (deny_write_cnt n > 0);
     ASSERT (deny_write_cnt n \<le> open_cnt n);
     Some (upd_inode s i (\<lambda>n. n\<lparr>deny_write_cnt := deny_write_cnt n - 1\<rparr>))
   }"

end
