(* ===== verification/File_Ops.thy ===== *)
theory File_Ops
  imports Inode
begin

text \<open>
  Open files (src/proj-pregame/src/filesys/file.c). A \<open>struct file\<close> is passed and returned by
  value; a null pointer is \<open>None\<close>. \<open>file_read_at\<close> and \<open>file_write_at\<close> are in \<open>Inode_Data\<close>.
\<close>

subsection \<open>The C functions\<close>

definition file_open :: "fs \<Rightarrow> u32 option \<Rightarrow> (ofile option \<times> fs) option" where
  "file_open s p = (
     let (mem, s1) = mem_request s in
     case p of
       Some i \<Rightarrow> (if mem then Some (Some \<lparr>finode = i, fpos = 0, deny_write = False\<rparr>, s1)
                  else do { s2 \<leftarrow> inode_close s1 p; Some (None, s2) })
     | None \<Rightarrow> do { s2 \<leftarrow> inode_close s1 p; Some (None, s2) })"

definition file_reopen :: "fs \<Rightarrow> ofile \<Rightarrow> (ofile option \<times> fs) option" where
  "file_reopen s f = do { (p, s1) \<leftarrow> inode_reopen s (Some (finode f)); file_open s1 p }"

definition file_deny_write :: "fs \<Rightarrow> ofile \<Rightarrow> (ofile \<times> fs) option" where
  "file_deny_write s f =
     (if \<not> deny_write f then do {
        s1 \<leftarrow> inode_deny_write s (finode f);
        Some (f\<lparr>deny_write := True\<rparr>, s1)
      } else Some (f, s))"

definition file_allow_write :: "fs \<Rightarrow> ofile \<Rightarrow> (ofile \<times> fs) option" where
  "file_allow_write s f =
     (if deny_write f then do {
        s1 \<leftarrow> inode_allow_write s (finode f);
        Some (f\<lparr>deny_write := False\<rparr>, s1)
      } else Some (f, s))"

definition file_close :: "fs \<Rightarrow> ofile option \<Rightarrow> fs option" where
  "file_close s p =
     (case p of
        None \<Rightarrow> Some s
      | Some f \<Rightarrow> do {
          (f1, s1) \<leftarrow> file_allow_write s f;
          inode_close s1 (Some (finode f1))
        })"

definition file_get_inode :: "ofile \<Rightarrow> u32" where
  "file_get_inode f = finode f"

definition file_read :: "fs \<Rightarrow> ofile \<Rightarrow> int \<Rightarrow> (u8 list \<times> ofile \<times> fs) option" where
  "file_read s f sz = do {
     (bs, s1) \<leftarrow> inode_read_at s (finode f) sz (fpos f);
     Some (bs, f\<lparr>fpos := fpos f + int (length bs)\<rparr>, s1)
   }"

definition file_write :: "fs \<Rightarrow> ofile \<Rightarrow> u8 list \<Rightarrow> int \<Rightarrow> (int \<times> ofile \<times> fs) option" where
  "file_write s f buffer sz = do {
     (n, s1) \<leftarrow> inode_write_at s (finode f) buffer sz (fpos f);
     Some (n, f\<lparr>fpos := fpos f + n\<rparr>, s1)
   }"

definition file_length :: "fs \<Rightarrow> ofile \<Rightarrow> int option" where
  "file_length s f = inode_length s (finode f)"

definition file_seek :: "ofile \<Rightarrow> int \<Rightarrow> ofile option" where
  "file_seek f new_pos = do { ASSERT (new_pos \<ge> 0); Some (f\<lparr>fpos := new_pos\<rparr>) }"

definition file_tell :: "ofile \<Rightarrow> int" where
  "file_tell f = fpos f"

end
