(* ===== verification/Directory.thy ===== *)
theory Directory
  imports File_Ops
begin

text \<open>
  Directories (src/proj-pregame/src/filesys/directory.c). A directory is a file of entries of 20
  bytes: the sector of an inode, a name of at most 14 bytes with its terminating null, and a flag.
  The entry read or written is the list of its 20 bytes; \<open>junk\<close> is the uninitialised entry on
  the stack. Names are lists of bytes other than null.
\<close>

subsection \<open>The C functions\<close>

definition NAME_MAX :: nat where "NAME_MAX = 14"

record dir =
  dinode :: u32
  dpos :: int

record dir_entry =
  inode_sector :: u32
  ename :: "u8 list"
  in_use :: bool

definition dir_entry_of :: "u8 list \<Rightarrow> dir_entry" where
  "dir_entry_of bs = \<lparr>inode_sector = word_of_bytes (take 4 bs), ename = take 15 (drop 4 bs), in_use = (bs ! 19 \<noteq> 0)\<rparr>"

definition dir_entry_bytes :: "dir_entry \<Rightarrow> u8 list" where
  "dir_entry_bytes e = le_bytes (inode_sector e) @ ename e @ [if in_use e then 1 else 0]"

text \<open>The C string at the start of an array of bytes, and \<open>strlcpy\<close> into an array of 15 bytes.\<close>

definition c_str :: "u8 list \<Rightarrow> u8 list" where
  "c_str bs = takeWhile (\<lambda>c. c \<noteq> 0) bs"

definition copy_name :: "u8 list \<Rightarrow> u8 list \<Rightarrow> u8 list" where
  "copy_name arr name = splice_at arr 0 (take NAME_MAX name @ [0])"

definition dir_create :: "fs \<Rightarrow> u32 \<Rightarrow> u32 \<Rightarrow> (bool \<times> fs) option" where
  "dir_create s sec entry_cnt = inode_create s sec (sint (entry_cnt * 20))"

definition dir_open :: "fs \<Rightarrow> u32 option \<Rightarrow> (dir option \<times> fs) option" where
  "dir_open s p = (
     let (mem, s1) = mem_request s in
     case p of
       Some i \<Rightarrow> (if mem then Some (Some \<lparr>dinode = i, dpos = 0\<rparr>, s1)
                  else do { s2 \<leftarrow> inode_close s1 p; Some (None, s2) })
     | None \<Rightarrow> do { s2 \<leftarrow> inode_close s1 p; Some (None, s2) })"

definition dir_open_root :: "fs \<Rightarrow> (dir option \<times> fs) option" where
  "dir_open_root s = do { (p, s1) \<leftarrow> inode_open s ROOT_DIR_SECTOR; dir_open s1 p }"

definition dir_reopen :: "fs \<Rightarrow> dir \<Rightarrow> (dir option \<times> fs) option" where
  "dir_reopen s d = do { (p, s1) \<leftarrow> inode_reopen s (Some (dinode d)); dir_open s1 p }"

definition dir_close :: "fs \<Rightarrow> dir option \<Rightarrow> fs option" where
  "dir_close s p = (case p of None \<Rightarrow> Some s | Some d \<Rightarrow> inode_close s (Some (dinode d)))"

definition dir_get_inode :: "dir \<Rightarrow> u32" where
  "dir_get_inode d = dinode d"

partial_function (option) lookup_loop :: "fs \<Rightarrow> u32 \<Rightarrow> u8 list \<Rightarrow> int \<Rightarrow> ((dir_entry \<times> int) option \<times> fs) option" where
  [code]: "lookup_loop s i name ofs = do {
     (bs, s1) \<leftarrow> inode_read_at s i 20 ofs;
     if length bs = 20 then
       (let e = dir_entry_of bs in
        if in_use e \<and> name = c_str (ename e) then Some (Some (e, ofs), s1)
        else lookup_loop s1 i name (ofs + 20))
     else Some (None, s1)
   }"

definition lookup :: "fs \<Rightarrow> dir \<Rightarrow> u8 list \<Rightarrow> ((dir_entry \<times> int) option \<times> fs) option" where
  "lookup s d name = lookup_loop s (dinode d) name 0"

definition dir_lookup :: "fs \<Rightarrow> dir \<Rightarrow> u8 list \<Rightarrow> (u32 option \<times> fs) option" where
  "dir_lookup s d name = do {
     (r, s1) \<leftarrow> lookup s d name;
     case r of
       Some (e, ofs) \<Rightarrow> inode_open s1 (inode_sector e)
     | None \<Rightarrow> Some (None, s1)
   }"

text \<open>The search for a free slot: the bytes of the last entry read, and its offset.\<close>

partial_function (option) free_slot :: "fs \<Rightarrow> u32 \<Rightarrow> int \<Rightarrow> u8 list \<Rightarrow> (u8 list \<times> int \<times> fs) option" where
  [code]: "free_slot s i ofs e = do {
     (bs, s1) \<leftarrow> inode_read_at s i 20 ofs;
     let e1 = splice_at e 0 bs;
     if length bs = 20 then
       (if \<not> in_use (dir_entry_of e1) then Some (e1, ofs, s1) else free_slot s1 i (ofs + 20) e1)
     else Some (e1, ofs, s1)
   }"

definition dir_add :: "u8 list \<Rightarrow> fs \<Rightarrow> dir \<Rightarrow> u8 list \<Rightarrow> u32 \<Rightarrow> (bool \<times> fs) option" where
  "dir_add junk s d name sec =
     (if name = [] \<or> length name > NAME_MAX then Some (False, s)
      else do {
        (r, s1) \<leftarrow> lookup s d name;
        if r \<noteq> None then Some (False, s1)
        else do {
          (e, ofs, s2) \<leftarrow> free_slot s1 (dinode d) 0 junk;
          let e1 = \<lparr>inode_sector = sec, ename = copy_name (take 15 (drop 4 e)) name, in_use = True\<rparr>;
          (n, s3) \<leftarrow> inode_write_at s2 (dinode d) (dir_entry_bytes e1) 20 ofs;
          Some (n = 20, s3)
        }
      })"

definition dir_remove :: "fs \<Rightarrow> dir \<Rightarrow> u8 list \<Rightarrow> (bool \<times> fs) option" where
  "dir_remove s d name = do {
     (r, s1) \<leftarrow> lookup s d name;
     case r of
       None \<Rightarrow> Some (False, s1)
     | Some (e, ofs) \<Rightarrow> do {
         (p, s2) \<leftarrow> inode_open s1 (inode_sector e);
         case p of
           None \<Rightarrow> Some (False, s2)
         | Some i \<Rightarrow> do {
             (n, s3) \<leftarrow> inode_write_at s2 (dinode d) (dir_entry_bytes (e\<lparr>in_use := False\<rparr>)) 20 ofs;
             if n \<noteq> 20 then do { s4 \<leftarrow> inode_close s3 p; Some (False, s4) }
             else do {
               s4 \<leftarrow> inode_remove s3 i;
               s5 \<leftarrow> inode_close s4 p;
               Some (True, s5)
             }
           }
       }
   }"

partial_function (option) dir_readdir :: "fs \<Rightarrow> dir \<Rightarrow> (u8 list option \<times> dir \<times> fs) option" where
  [code]: "dir_readdir s d = do {
     (bs, s1) \<leftarrow> inode_read_at s (dinode d) 20 (dpos d);
     if length bs = 20 then
       (let d1 = d\<lparr>dpos := dpos d + 20\<rparr>; e = dir_entry_of bs in
        if in_use e then Some (Some (take NAME_MAX (c_str (ename e))), d1, s1) else dir_readdir s1 d1)
     else Some (None, d, s1)
   }"

subsection \<open>Slots\<close>

text \<open>The slots of the bytes of a directory, and the slot a name is in.\<close>

definition nslots :: "u8 list \<Rightarrow> nat" where
  "nslots bs = length bs div 20"

definition slot :: "u8 list \<Rightarrow> nat \<Rightarrow> dir_entry" where
  "slot bs k = dir_entry_of (take 20 (drop (20 * k) bs))"

definition holds :: "u8 list \<Rightarrow> dir_entry \<Rightarrow> bool" where
  "holds name e \<longleftrightarrow> in_use e \<and> name = c_str (ename e)"

definition slot_of :: "u8 list \<Rightarrow> u8 list \<Rightarrow> nat option" where
  "slot_of bs name = find (\<lambda>k. holds name (slot bs k)) [0..<nslots bs]"

definition dir_find :: "u8 list \<Rightarrow> u8 list \<Rightarrow> u32 option" where
  "dir_find bs name = map_option (\<lambda>k. inode_sector (slot bs k)) (slot_of bs name)"

text \<open>No two entries in use have the same name.\<close>

definition dir_wf :: "u8 list \<Rightarrow> bool" where
  "dir_wf bs \<longleftrightarrow> (\<forall>j k name. j < nslots bs \<longrightarrow> k < nslots bs \<longrightarrow> holds name (slot bs j) \<longrightarrow> holds name (slot bs k) \<longrightarrow> j = k)"

definition name_ok :: "u8 list \<Rightarrow> bool" where
  "name_ok name \<longleftrightarrow> name \<noteq> [] \<and> length name \<le> NAME_MAX \<and> 0 \<notin> set name"

lemma slot_of_Some: "dir_wf bs \<Longrightarrow> slot_of bs name = Some k \<longleftrightarrow> k < nslots bs \<and> holds name (slot bs k)"
proof
  assume "slot_of bs name = Some k"
  then show "k < nslots bs \<and> holds name (slot bs k)" by (auto simp: slot_of_def dest: find_SomeD)
next
  assume wf: "dir_wf bs" and k: "k < nslots bs \<and> holds name (slot bs k)"
  then have "slot_of bs name \<noteq> None" by (auto simp: slot_of_def find_eq_None)
  then obtain j where j: "slot_of bs name = Some j" by blast
  then have "j < nslots bs" "holds name (slot bs j)" by (auto simp: slot_of_def dest: find_SomeD)
  then show "slot_of bs name = Some k" using wf k j unfolding dir_wf_def by blast
qed

lemma slot_of_None: "slot_of bs name = None \<longleftrightarrow> (\<forall>k < nslots bs. \<not> holds name (slot bs k))"
  by (auto simp: slot_of_def find_eq_None)

lemma slot_bytes: "k < nslots bs \<longleftrightarrow> length (take 20 (drop (20 * k) bs)) = 20"
  unfolding nslots_def by (simp add: min_def) linarith

lemma slot_name_length: "k < nslots bs \<Longrightarrow> length (ename (slot bs k)) = 15"
  using slot_bytes [of k bs] by (simp add: slot_def dir_entry_of_def)

text \<open>An entry that is written replaces its slot.\<close>

lemma slot_splice:
  assumes "length e = 20" "k < nslots bs" "j < nslots bs"
  shows "slot (splice_at bs (20 * k) e) j = (if j = k then dir_entry_of e else slot bs j)"
proof -
  have fit: "20 * k + length e \<le> length bs" "20 * j + 20 \<le> length bs" using assms by (auto simp: nslots_def)
  show ?thesis
  proof (cases "j = k")
    case True
    then show ?thesis using splice_at_read [OF fit(1)] assms(1) by (simp add: slot_def)
  next
    case False
    then have "20 * j + 20 \<le> 20 * k \<or> 20 * k + length e \<le> 20 * j" using assms(1) by linarith
    then show ?thesis using splice_at_outside [OF fit(1) _ fit(2)] False by (simp add: slot_def)
  qed
qed

lemma nslots_splice: "20 * k + length e \<le> length bs \<Longrightarrow> nslots (splice_at bs (20 * k) e) = nslots bs"
  by (simp add: nslots_def)

lemma tail_splice:
  assumes "20 * nslots bs + length e \<le> length bs" "j < nslots bs"
  shows "slot (splice_at bs (20 * nslots bs) e) j = slot bs j"
proof -
  have "20 * j + 20 \<le> 20 * nslots bs" using assms(2) by linarith
  moreover have "20 * j + 20 \<le> length bs" using assms(2) by (simp add: nslots_def)
  ultimately show ?thesis using splice_at_outside [OF assms(1), of "20 * j" 20] by (simp add: slot_def)
qed

lemma c_str_copy: "name_ok name \<Longrightarrow> length arr = 15 \<Longrightarrow> c_str (copy_name arr name) = name"
proof -
  assume n: "name_ok name" and a: "length arr = 15"
  have "copy_name arr name = name @ 0 # drop (Suc (length name)) arr"
    using n by (simp add: copy_name_def splice_at_def name_ok_def)
  moreover have "takeWhile (\<lambda>c. c \<noteq> 0) (name @ 0 # ys) = name" for ys
    using n by (subst takeWhile_append2) (auto simp: name_ok_def)
  ultimately show ?thesis by (simp add: c_str_def)
qed

lemma length_copy_name: "name_ok name \<Longrightarrow> length arr = 15 \<Longrightarrow> length (copy_name arr name) = 15"
  by (simp add: copy_name_def name_ok_def NAME_MAX_def)

lemma entry_of_bytes: "length (ename e) = 15 \<Longrightarrow> dir_entry_of (dir_entry_bytes e) = e"
  by (cases e) (simp add: dir_entry_of_def dir_entry_bytes_def nth_append)

lemma length_entry_bytes: "length (ename e) = 15 \<Longrightarrow> length (dir_entry_bytes e) = 20"
  by (simp add: dir_entry_bytes_def)

subsection \<open>Searching\<close>

lemma idle_file:
  assumes "idle s s'"
  shows "file_ok s' i = file_ok s i" "may_write s' i = may_write s i" "file_bytes s' i = file_bytes s i"
    "file_sectors s' i = file_sectors s i" "avail s' = avail s"
  using idle_same [OF assms] by (auto simp: file_ok_def may_write_def file_bytes_def file_sectors_def split: option.splits)

lemma read_slot:
  assumes "file_ok s i" "\<forall>n. avail s n"
  shows "\<exists>s'. inode_read_at s i 20 (int (20 * k)) = Some (take 20 (drop (20 * k) (file_bytes s i)), s') \<and> idle s s'"
  using inode_read_at_ok [OF assms(1), of "int (20 * k)" 20] assms(2) by (auto simp del: of_nat_mult)

lemma next_ofs: "int (20 * k) + 20 = int (20 * Suc k)"
  by simp

lemma lookup_loop_ok:
  assumes "file_ok s i" "\<forall>n. avail s n" "bs = file_bytes s i" "k \<le> nslots bs"
  shows "\<exists>s'. lookup_loop s i name (int (20 * k)) =
      Some (map_option (\<lambda>j. (slot bs j, int (20 * j))) (find (\<lambda>j. holds name (slot bs j)) [k..<nslots bs]), s') \<and> idle s s'"
  using assms
proof (induction "nslots bs - k" arbitrary: k s)
  case 0
  then have k: "k = nslots bs" by simp
  then have "length (take 20 (drop (20 * k) bs)) \<noteq> 20" using slot_bytes [of k bs] by simp
  then show ?case using read_slot [OF 0(2,3), of k] 0(4) k by (subst lookup_loop.simps) auto
next
  case (Suc m)
  then have k: "k < nslots bs" by simp
  obtain s1 where r: "inode_read_at s i 20 (int (20 * k)) = Some (take 20 (drop (20 * k) bs), s1)" "idle s s1"
    using read_slot [OF Suc(3,4), of k] Suc(5) by auto
  have upt: "[k..<nslots bs] = k # [Suc k..<nslots bs]" using k by (simp add: upt_conv_Cons)
  have l20: "length (take 20 (drop (20 * k) bs)) = 20" using slot_bytes [of k bs] k by simp
  have next_prems: "file_ok s1 i" "\<forall>n. avail s1 n" "bs = file_bytes s1 i" "Suc k \<le> nslots bs" "m = nslots bs - Suc k"
    using Suc(2-5) k idle_file [OF r(2)] by auto
  show ?case
  proof (cases "holds name (slot bs k)")
    case True
    then have "lookup_loop s i name (int (20 * k)) = Some (Some (slot bs k, int (20 * k)), s1)"
      using r(1) l20 by (subst lookup_loop.simps) (simp add: Let_def slot_def holds_def del: of_nat_mult)
    then show ?thesis using upt True r(2) by simp
  next
    case False
    then have "lookup_loop s i name (int (20 * k)) = lookup_loop s1 i name (int (20 * Suc k))"
      using r(1) l20 by (subst lookup_loop.simps) (auto simp: Let_def slot_def holds_def next_ofs simp del: of_nat_mult)
    moreover obtain s' where "lookup_loop s1 i name (int (20 * Suc k)) =
        Some (map_option (\<lambda>j. (slot bs j, int (20 * j))) (find (\<lambda>j. holds name (slot bs j)) [Suc k..<nslots bs]), s')" "idle s1 s'"
      using Suc(1) [OF _ next_prems(1-4)] next_prems(5) by blast
    ultimately show ?thesis using idle_trans [OF r(2)] upt False by auto
  qed
qed

lemma lookup_ok:
  assumes "file_ok s (dinode d)" "\<forall>n. avail s n"
  shows "\<exists>s'. lookup s d name = Some (map_option (\<lambda>j. (slot (file_bytes s (dinode d)) j, int (20 * j)))
      (slot_of (file_bytes s (dinode d)) name), s') \<and> idle s s'"
  using lookup_loop_ok [OF assms refl, of 0 name] by (simp add: lookup_def slot_of_def)

text \<open>The first free slot, or the position behind the last one.\<close>

definition free_at :: "u8 list \<Rightarrow> nat \<Rightarrow> nat" where
  "free_at bs k = (case find (\<lambda>j. \<not> in_use (slot bs j)) [k..<nslots bs] of Some j \<Rightarrow> j | None \<Rightarrow> nslots bs)"

lemma free_slot_ok:
  assumes "file_ok s i" "\<forall>n. avail s n" "bs = file_bytes s i" "k \<le> nslots bs" "length e = 20"
  shows "\<exists>e' s'. free_slot s i (int (20 * k)) e = Some (e', int (20 * free_at bs k), s') \<and> length e' = 20 \<and> idle s s'"
  using assms
proof (induction "nslots bs - k" arbitrary: k s e)
  case 0
  then have k: "k = nslots bs" by simp
  let ?r = "take 20 (drop (20 * k) bs)"
  obtain s1 where r: "inode_read_at s i 20 (int (20 * k)) = Some (?r, s1)" "idle s s1"
    using read_slot [OF 0(2,3), of k] 0(4) by auto
  have l: "length ?r \<noteq> 20" "length (splice_at e 0 ?r) = 20" using slot_bytes [of k bs] k 0(6) by simp_all
  have "free_slot s i (int (20 * k)) e = Some (splice_at e 0 ?r, int (20 * k), s1)"
    using r(1) l(1) by (subst free_slot.simps) (simp add: Let_def del: of_nat_mult length_take)
  then show ?case using l(2) r(2) k by (auto simp: free_at_def)
next
  case (Suc m)
  then have k: "k < nslots bs" by simp
  let ?r = "take 20 (drop (20 * k) bs)"
  obtain s1 where r: "inode_read_at s i 20 (int (20 * k)) = Some (?r, s1)" "idle s s1"
    using read_slot [OF Suc(3,4), of k] Suc(5) by auto
  have l20: "length ?r = 20" using slot_bytes [of k bs] k by simp
  then have sp: "splice_at e 0 ?r = ?r" using Suc(7) by (simp add: splice_at_def)
  have upt: "[k..<nslots bs] = k # [Suc k..<nslots bs]" using k by (simp add: upt_conv_Cons)
  have next_prems: "file_ok s1 i" "\<forall>n. avail s1 n" "bs = file_bytes s1 i" "Suc k \<le> nslots bs" "m = nslots bs - Suc k"
    using Suc(2-5) k idle_file [OF r(2)] by auto
  show ?case
  proof (cases "in_use (slot bs k)")
    case False
    then have "free_slot s i (int (20 * k)) e = Some (?r, int (20 * k), s1)"
      using r(1) l20 sp by (subst free_slot.simps) (simp add: Let_def slot_def del: of_nat_mult)
    then show ?thesis using upt False r(2) l20 by (auto simp: free_at_def)
  next
    case True
    then have "free_slot s i (int (20 * k)) e = free_slot s1 i (int (20 * Suc k)) ?r"
      using r(1) l20 sp by (subst free_slot.simps) (auto simp: Let_def slot_def next_ofs simp del: of_nat_mult)
    moreover have "free_at bs k = free_at bs (Suc k)" using upt True by (simp add: free_at_def)
    moreover obtain e' s' where "free_slot s1 i (int (20 * Suc k)) ?r = Some (e', int (20 * free_at bs (Suc k)), s')" "length e' = 20" "idle s1 s'"
      using Suc(1) [OF _ next_prems(1-4) l20] next_prems(5) by blast
    ultimately show ?thesis using idle_trans [OF r(2)] by auto
  qed
qed

lemma free_at_cases:
  "free_at bs 0 < nslots bs \<and> \<not> in_use (slot bs (free_at bs 0)) \<or> free_at bs 0 = nslots bs \<and> (\<forall>k < nslots bs. in_use (slot bs k))"
  by (auto simp: free_at_def find_eq_None dest: find_SomeD split: option.splits)

subsection \<open>Adding and removing entries\<close>

lemma dir_find_eqI:
  "slot_of bs' nm = slot_of bs nm \<Longrightarrow> (\<And>j. slot_of bs nm = Some j \<Longrightarrow> inode_sector (slot bs' j) = inode_sector (slot bs j)) \<Longrightarrow>
   dir_find bs' nm = dir_find bs nm"
  by (cases "slot_of bs nm") (simp_all add: dir_find_def)

lemma nslots_le: "20 * nslots bs \<le> length bs"
  by (simp add: nslots_def)

lemma dir_cong:
  assumes "nslots bs' = nslots bs" "\<And>j. j < nslots bs \<Longrightarrow> slot bs' j = slot bs j"
  shows "dir_wf bs' = dir_wf bs" "dir_find bs' name = dir_find bs name"
proof -
  show "dir_wf bs' = dir_wf bs" using assms by (auto simp: dir_wf_def)
  have "slot_of bs' name = slot_of bs name"
    unfolding slot_of_def assms(1) by (rule find_cong) (use assms(2) in auto)
  then show "dir_find bs' name = dir_find bs name"
    by (rule dir_find_eqI) (use assms(2) in \<open>auto simp: slot_of_def dest: find_SomeD\<close>)
qed

text \<open>A new entry in a free slot, under a name that is not in the directory.\<close>

lemma dir_put:
  assumes wf: "dir_wf bs" and k: "k < nslots bs" "\<not> in_use (slot bs k)" and new: "slot_of bs name = None"
    and bs': "nslots bs' = nslots bs" "\<And>j. j < nslots bs \<Longrightarrow> slot bs' j = (if j = k then e else slot bs j)"
    and e: "in_use e" "c_str (ename e) = name"
  shows "dir_wf bs'" "dir_find bs' nm = (if nm = name then Some (inode_sector e) else dir_find bs nm)"
proof -
  have h: "holds m (slot bs' j) \<longleftrightarrow> (if j = k then m = name else holds m (slot bs j))" if "j < nslots bs" for m j
    using bs'(2) [OF that] e by (auto simp: holds_def)
  have nh: "\<not> holds name (slot bs j)" if "j < nslots bs" for j using new that by (simp add: slot_of_None)
  show wf': "dir_wf bs'"
    unfolding dir_wf_def bs'(1)
  proof (intro allI impI)
    fix j l m assume "j < nslots bs" "l < nslots bs" "holds m (slot bs' j)" "holds m (slot bs' l)"
    then show "j = l" using h nh wf unfolding dir_wf_def by (metis (full_types))
  qed
  show "dir_find bs' nm = (if nm = name then Some (inode_sector e) else dir_find bs nm)"
  proof (cases "nm = name")
    case True
    then have "slot_of bs' nm = Some k" using slot_of_Some [OF wf'] h [OF k(1)] k(1) bs'(1) by simp
    then show ?thesis using True bs'(2) [OF k(1)] by (simp add: dir_find_def)
  next
    case False
    have "slot_of bs' nm = slot_of bs nm"
      unfolding slot_of_def bs'(1)
      by (rule find_cong) (use h False k(2) in \<open>auto simp: holds_def\<close>)
    moreover have "inode_sector (slot bs' j) = inode_sector (slot bs j)" if "slot_of bs nm = Some j" for j
      using slot_of_Some [OF wf] that k(2) bs'(2) [of j] by (auto simp: holds_def split: if_splits)
    ultimately show ?thesis using False dir_find_eqI [of bs' nm bs] by simp
  qed
qed

lemma dir_erase:
  assumes wf: "dir_wf bs" and k: "slot_of bs name = Some k"
    and bs': "nslots bs' = nslots bs" "\<And>j. j < nslots bs \<Longrightarrow> slot bs' j = (if j = k then e else slot bs j)"
    and e: "\<not> in_use e"
  shows "dir_wf bs'" "dir_find bs' nm = (if nm = name then None else dir_find bs nm)"
proof -
  have kk: "k < nslots bs" "holds name (slot bs k)" using k slot_of_Some [OF wf] by auto
  have h: "holds m (slot bs' j) \<longleftrightarrow> j \<noteq> k \<and> holds m (slot bs j)" if "j < nslots bs" for m j
    using bs'(2) [OF that] e by (auto simp: holds_def)
  show wf': "dir_wf bs'" using wf h bs'(1) unfolding dir_wf_def by metis
  show "dir_find bs' nm = (if nm = name then None else dir_find bs nm)"
  proof (cases "nm = name")
    case True
    have "slot_of bs' nm = None" using True h kk wf bs'(1) by (auto simp: slot_of_None dir_wf_def)
    then show ?thesis using True by (simp add: dir_find_def)
  next
    case False
    have "\<not> holds nm (slot bs k)" using kk(2) False by (auto simp: holds_def)
    then have "slot_of bs' nm = slot_of bs nm"
      unfolding slot_of_def bs'(1) by (intro find_cong) (use h in auto)
    moreover have "slot bs' j = slot bs j" if "slot_of bs nm = Some j" for j
      using slot_of_Some [OF wf] that \<open>\<not> holds nm (slot bs k)\<close> bs'(2) [of j] by (auto split: if_splits)
    ultimately show ?thesis using False dir_find_eqI [of bs' nm bs] by simp
  qed
qed

lemma write_slot:
  assumes "file_ok s i" "may_write s i" "\<forall>n. avail s n" "length e = 20" "k \<le> nslots (file_bytes s i)"
  shows "\<exists>n s'. inode_write_at s i e 20 (int (20 * k)) = Some (n, s') \<and> wrote s (file_sectors s i) s' \<and>
    (n = 20 \<longleftrightarrow> k < nslots (file_bytes s i)) \<and> nslots (file_bytes s' i) = nslots (file_bytes s i) \<and>
    (\<forall>j < nslots (file_bytes s i). slot (file_bytes s' i) j = (if j = k then dir_entry_of e else slot (file_bytes s i) j))"
proof -
  let ?b = "file_bytes s i"
  obtain m s' where w: "inode_write_at s i e 20 (int (20 * k)) = Some (int m, s')"
    "m = min 20 (length ?b - 20 * k)" "wrote s (file_sectors s i) s'" "file_bytes s' i = splice_at ?b (20 * k) (take m e)"
    using inode_write_at_ok [OF assms(1) _ _ assms(2), of "int (20 * k)" 20 e] assms(3,4) by (auto simp del: of_nat_mult)
  have m: "m = 20 \<longleftrightarrow> k < nslots ?b" using w(2) slot_bytes [of k ?b] by auto
  have fit: "20 * k + length (take m e) \<le> length ?b"
    using w(2) assms(5) nslots_le [of ?b] by simp
  have ns: "nslots (file_bytes s' i) = nslots ?b" using nslots_splice [OF fit] w(4) by simp
  have "slot (file_bytes s' i) j = (if j = k then dir_entry_of e else slot ?b j)" if "j < nslots ?b" for j
  proof (cases "k < nslots ?b")
    case True
    then show ?thesis using slot_splice [OF assms(4) True that] w(4) m assms(4) by simp
  next
    case False
    then have "k = nslots ?b" using assms(5) by simp
    then show ?thesis using tail_splice [of ?b "take m e" j] fit that w(4) by simp
  qed
  moreover have "int m = 20 \<longleftrightarrow> k < nslots ?b" using m by linarith
  ultimately show ?thesis using w(1,3) ns by blast
qed

lemma dir_add_ok:
  assumes s: "file_ok s (dinode d)" "may_write s (dinode d)" "\<forall>n. avail s n" and wf: "dir_wf (file_bytes s (dinode d))"
    and n: "name_ok name" and j: "length junk = 20"
  shows "\<exists>ok s'. dir_add junk s d name sec = Some (ok, s') \<and>
    ok = (dir_find (file_bytes s (dinode d)) name = None \<and> (\<exists>k < nslots (file_bytes s (dinode d)). \<not> in_use (slot (file_bytes s (dinode d)) k))) \<and>
    dir_wf (file_bytes s' (dinode d)) \<and> wrote s (file_sectors s (dinode d)) s' \<and>
    (\<forall>nm. dir_find (file_bytes s' (dinode d)) nm = (if ok \<and> nm = name then Some sec else dir_find (file_bytes s (dinode d)) nm))"
proof -
  let ?i = "dinode d"
  let ?b = "file_bytes s ?i"
  have nm: "name \<noteq> []" "\<not> length name > NAME_MAX" using n by (auto simp: name_ok_def)
  obtain s1 where l: "lookup s d name = Some (map_option (\<lambda>j. (slot ?b j, int (20 * j))) (slot_of ?b name), s1)" "idle s s1"
    using lookup_ok [OF s(1,3)] by blast
  note i1 = idle_file [OF l(2)]
  show ?thesis
  proof (cases "slot_of ?b name")
    case (Some k)
    then have "dir_add junk s d name sec = Some (False, s1)" using nm l(1) by (simp add: dir_add_def)
    moreover have "dir_find ?b name \<noteq> None" using Some by (simp add: dir_find_def)
    ultimately show ?thesis using i1(3) wf wrote_idle [OF l(2)] by auto
  next
    case None
    let ?k = "free_at ?b 0"
    obtain e s2 where f: "free_slot s1 ?i 0 junk = Some (e, int (20 * ?k), s2)" "length e = 20" "idle s1 s2"
      using free_slot_ok [of s1 ?i ?b 0 junk] i1 s j by auto
    note i2 = idle_file [OF f(3)]
    let ?e = "\<lparr>inode_sector = sec, ename = copy_name (take 15 (drop 4 e)) name, in_use = True\<rparr>"
    have e15: "length (take 15 (drop 4 e)) = 15" using f(2) by simp
    have le: "length (ename ?e) = 15" using length_copy_name [OF n e15] by simp
    have kle: "?k \<le> nslots ?b" using free_at_cases [of ?b] by auto
    obtain m s3 where w: "inode_write_at s2 ?i (dir_entry_bytes ?e) 20 (int (20 * ?k)) = Some (m, s3)"
      "wrote s2 (file_sectors s ?i) s3" "m = 20 \<longleftrightarrow> ?k < nslots ?b" "nslots (file_bytes s3 ?i) = nslots ?b"
      "\<forall>j < nslots ?b. slot (file_bytes s3 ?i) j = (if j = ?k then ?e else slot ?b j)"
      using write_slot [of s2 ?i "dir_entry_bytes ?e" ?k] i1 i2 s length_entry_bytes [OF le] entry_of_bytes [OF le] kle by auto
    have add: "dir_add junk s d name sec = Some (m = 20, s3)"
      using nm l(1) None f(1) w(1) by (simp add: dir_add_def Let_def del: of_nat_mult)
    have wr: "wrote s (file_sectors s ?i) s3" using wrote_trans [OF wrote_idle [OF idle_trans [OF l(2) f(3)]] w(2)] .
    have ok: "m = 20 \<longleftrightarrow> dir_find ?b name = None \<and> (\<exists>k < nslots ?b. \<not> in_use (slot ?b k))"
      using w(3) free_at_cases [of ?b] None by (auto simp: dir_find_def)
    show ?thesis
    proof (cases "?k < nslots ?b")
      case True
      then have free: "\<not> in_use (slot ?b ?k)" using free_at_cases [of ?b] by auto
      have "in_use ?e" "c_str (ename ?e) = name" using c_str_copy [OF n e15] by simp_all
      note p = dir_put [OF wf True free None w(4) w(5) [rule_format] this]
      show ?thesis using add wr ok p w(3) True by (intro exI [of _ True] exI [of _ s3]) auto
    next
      case False
      have "slot (file_bytes s3 ?i) j = slot ?b j" if "j < nslots ?b" for j using w(5) that False by auto
      note c = dir_cong [OF w(4) this]
      show ?thesis using add wr ok c w(3) wf False by (intro exI [of _ False] exI [of _ s3]) auto
    qed
  qed
qed

text \<open>Changes of an open inode that keep its sector, its data and its writers.\<close>

lemma get_inode_upd:
  assumes "\<And>n. sector (f n) = sector n"
  shows "get_inode (upd_inode s i f) j = (if j = i then map_option f (get_inode s i) else get_inode s j)"
proof -
  have "find (\<lambda>n. sector n = j) (map (\<lambda>n. if sector n = i then f n else n) xs) =
      (if j = i then map_option f (find (\<lambda>n. sector n = i) xs) else find (\<lambda>n. sector n = j) xs)" for xs
    by (induction xs) (auto simp: assms)
  then show ?thesis by (simp add: get_inode_def upd_inode_def)
qed

lemma upd_inode_simps [simp]:
  "fs_device (upd_inode s i f) = fs_device s" "avail (upd_inode s i f) = avail s" "free_map (upd_inode s i f) = free_map s"
  "free_map_file (upd_inode s i f) = free_map_file s" "reqs (upd_inode s i f) = reqs s"
  by (simp_all add: upd_inode_def)

lemma upd_inode_file:
  assumes "\<And>n. sector (f n) = sector n" "\<And>n. idata (f n) = idata n" "\<And>n. deny_write_cnt (f n) = deny_write_cnt n"
  shows "file_ok (upd_inode s i f) j = file_ok s j" "may_write (upd_inode s i f) j = may_write s j"
    "file_bytes (upd_inode s i f) j = file_bytes s j" "file_sectors (upd_inode s i f) j = file_sectors s j"
  using get_inode_upd [of f s i j, OF assms(1)] assms(2,3)
  by (auto simp: file_ok_def may_write_def file_bytes_def file_sectors_def split: option.splits)

lemma dir_remove_ok:
  assumes s: "file_ok s (dinode d)" "may_write s (dinode d)" "\<forall>n. avail s n" and wf: "dir_wf (file_bytes s (dinode d))"
    and k: "slot_of (file_bytes s (dinode d)) name = Some k" "t = inode_sector (slot (file_bytes s (dinode d)) k)"
    and t: "get_inode s t = Some n" "0 < open_cnt n"
  shows "\<exists>s'. dir_remove s d name = Some (True, s') \<and> dir_wf (file_bytes s' (dinode d)) \<and>
    (\<forall>nm. dir_find (file_bytes s' (dinode d)) nm = (if nm = name then None else dir_find (file_bytes s (dinode d)) nm)) \<and>
    get_inode s' t = Some (n\<lparr>removed := True\<rparr>) \<and>
    (\<forall>j. file_sectors s j \<inter> file_sectors s (dinode d) = {} \<longrightarrow> file_bytes s' j = file_bytes s j)"
proof -
  let ?i = "dinode d"
  let ?b = "file_bytes s ?i"
  let ?e = "slot ?b k"
  have kk: "k < nslots ?b" "holds name ?e" using slot_of_Some [OF wf] k(1) by auto
  obtain s1 where l: "lookup s d name = Some (Some (?e, int (20 * k)), s1)" "idle s s1"
    using lookup_ok [OF s(1,3), of name] k(1) by auto
  note i1 = idle_file [OF l(2)]
  let ?inc = "\<lambda>n :: inode. n\<lparr>open_cnt := open_cnt n + 1\<rparr>" and ?dec = "\<lambda>n :: inode. n\<lparr>open_cnt := open_cnt n - 1\<rparr>"
    and ?rem = "\<lambda>n :: inode. n\<lparr>removed := True\<rparr>"
  let ?s2 = "upd_inode s1 t ?inc"
  have g1: "get_inode s1 t = Some n" using idle_same(9) [OF l(2)] t(1) by simp
  have opn: "inode_open s1 t = Some (Some t, ?s2)" using g1 by (simp add: inode_open_def inode_reopen_def)
  have f2: "file_ok ?s2 j = file_ok s j" "may_write ?s2 j = may_write s j" "file_bytes ?s2 j = file_bytes s j"
    "file_sectors ?s2 j = file_sectors s j" for j
    using upd_inode_file [of ?inc s1 t j] i1 by simp_all
  let ?x = "?e\<lparr>in_use := False\<rparr>"
  have le: "length (ename ?x) = 15" using slot_name_length [OF kk(1)] by simp
  obtain m s3 where w: "inode_write_at ?s2 ?i (dir_entry_bytes ?x) 20 (int (20 * k)) = Some (20, s3)"
    "wrote ?s2 (file_sectors s ?i) s3" "nslots (file_bytes s3 ?i) = nslots ?b"
    "\<forall>j < nslots ?b. slot (file_bytes s3 ?i) j = (if j = k then ?x else slot ?b j)"
    using write_slot [of ?s2 ?i "dir_entry_bytes ?x" k] f2 i1(5) s length_entry_bytes [OF le] entry_of_bytes [OF le] kk(1) by auto
  have g3: "get_inode s3 t = Some (?inc n)"
    using wrote_same(8) [OF w(2), of t] get_inode_upd [of ?inc s1 t t] g1 by simp
  let ?s4 = "upd_inode s3 t ?rem"
  let ?s5 = "upd_inode ?s4 t ?dec"
  have g4: "get_inode ?s4 t = Some (?rem (?inc n))" using get_inode_upd [of ?rem s3 t t] g3 by simp
  have cl: "inode_close ?s4 (Some t) = Some ?s5" using g4 t(2) by (simp add: inode_close_def)
  have "dir_remove s d name = Some (True, ?s5)"
    using l(1) k(2) opn w(1) g3 cl by (simp add: dir_remove_def inode_remove_def del: of_nat_mult)
  moreover have f5: "file_bytes ?s5 j = file_bytes s3 j" for j
    using upd_inode_file(3) [of ?rem s3 t j] upd_inode_file(3) [of ?dec ?s4 t j] by simp
  have "get_inode ?s5 t = Some (n\<lparr>removed := True\<rparr>)" using get_inode_upd [of ?dec ?s4 t t] g4 by simp
  moreover have "file_bytes ?s5 j = file_bytes s j" if "file_sectors s j \<inter> file_sectors s ?i = {}" for j
    using wrote_file_bytes [OF w(2), of j] that f2 f5 by simp
  moreover have "\<not> in_use ?x" by simp
  note er = dir_erase [OF wf k(1) w(3) w(4) [rule_format] this]
  ultimately show ?thesis using er f5 by (intro exI [of _ ?s5]) auto
qed

subsection \<open>Properties\<close>

text \<open>
  C9. A directory is a finite map from names to inode sectors: \<open>lookup\<close> finds the entry in use with
  the name (and its offset) exactly when there is one; \<open>dir_add\<close> of a valid name never panics,
  succeeds exactly when the name is not there and some entry is free, and then adds exactly this
  name; when it fails no lookup changes. Names stay unique, and no other file is touched.
\<close>

theorem dir_add_correct:
  assumes "file_ok s (dinode d)" "may_write s (dinode d)" "\<forall>n. avail s n" "dir_wf (file_bytes s (dinode d))"
    "name_ok name" "length junk = 20"
  shows "\<exists>r s0 ok s'. lookup s d name = Some (r, s0) \<and>
    map_option (\<lambda>(e, ofs). inode_sector e) r = dir_find (file_bytes s (dinode d)) name \<and>
    dir_add junk s d name sec = Some (ok, s') \<and>
    ok = (r = None \<and> (\<exists>k < nslots (file_bytes s (dinode d)). \<not> in_use (slot (file_bytes s (dinode d)) k))) \<and>
    dir_wf (file_bytes s' (dinode d)) \<and>
    (\<forall>nm. dir_find (file_bytes s' (dinode d)) nm = (if ok \<and> nm = name then Some sec else dir_find (file_bytes s (dinode d)) nm)) \<and>
    (\<forall>j. file_sectors s j \<inter> file_sectors s (dinode d) = {} \<longrightarrow> file_bytes s' j = file_bytes s j)"
proof -
  obtain s0 where l: "lookup s d name = Some (map_option (\<lambda>j. (slot (file_bytes s (dinode d)) j, int (20 * j)))
      (slot_of (file_bytes s (dinode d)) name), s0)" using lookup_ok [OF assms(1,3)] by blast
  obtain ok s' where a: "dir_add junk s d name sec = Some (ok, s')"
    "ok = (dir_find (file_bytes s (dinode d)) name = None \<and> (\<exists>k < nslots (file_bytes s (dinode d)). \<not> in_use (slot (file_bytes s (dinode d)) k)))"
    "dir_wf (file_bytes s' (dinode d))" "wrote s (file_sectors s (dinode d)) s'"
    "\<forall>nm. dir_find (file_bytes s' (dinode d)) nm = (if ok \<and> nm = name then Some sec else dir_find (file_bytes s (dinode d)) nm)"
    using dir_add_ok [OF assms, of sec] by blast
  show ?thesis
  proof (intro exI conjI)
    show "map_option (\<lambda>(e, ofs). inode_sector e) (map_option (\<lambda>j. (slot (file_bytes s (dinode d)) j, int (20 * j)))
      (slot_of (file_bytes s (dinode d)) name)) = dir_find (file_bytes s (dinode d)) name"
      by (simp add: dir_find_def option.map_comp comp_def)
    show "ok = (map_option (\<lambda>j. (slot (file_bytes s (dinode d)) j, int (20 * j))) (slot_of (file_bytes s (dinode d)) name) = None \<and>
        (\<exists>k < nslots (file_bytes s (dinode d)). \<not> in_use (slot (file_bytes s (dinode d)) k)))"
      using a(2) by (simp add: dir_find_def)
    show "\<forall>j. file_sectors s j \<inter> file_sectors s (dinode d) = {} \<longrightarrow> file_bytes s' j = file_bytes s j"
      using wrote_file_bytes [OF a(4)] by blast
  qed (use l a in auto)
qed

text \<open>A directory with five empty slots in the second file of the demonstration device.\<close>

definition demo_dir :: fs where
  "demo_dir = demo_fs\<lparr>fs_device := (fs_device demo_fs)\<lparr>aux := (\<lambda>_. replicate 512 0)\<rparr>\<rparr>"

lemma demo_dir_ok: "file_ok demo_dir 1" "may_write demo_dir 1" "\<forall>n. avail demo_dir n" "file_bytes demo_dir 1 = replicate 100 0"
  by (simp_all add: file_ok_def may_write_def demo_dir_def demo_fs_def get_inode_def on_device_def nsectors_def disk_ok_def
      file_bytes_def content_def map_replicate_const [symmetric] list_eq_iff_nth_eq)

lemma demo_dir_free: "k < 5 \<Longrightarrow> \<not> in_use (slot (replicate 100 0) k)"
  by (simp add: slot_def dir_entry_of_def)

lemma demo_dir_empty:
  "dir_find (replicate 100 0) nm = None" "dir_wf (replicate 100 0)"
  "\<exists>k < nslots (replicate 100 0). \<not> in_use (slot (replicate 100 0) k)"
proof -
  show "dir_find (replicate 100 0) nm = None" "dir_wf (replicate 100 0)"
    using demo_dir_free by (auto simp: dir_find_def slot_of_None dir_wf_def nslots_def holds_def)
  show "\<exists>k < nslots (replicate 100 0). \<not> in_use (slot (replicate 100 0) k)"
    using demo_dir_free [of 0] by (intro exI [of _ 0]) (simp add: nslots_def)
qed

theorem dir_add_correct_witness:
  "\<exists>s'. dir_add (replicate 20 0) demo_dir \<lparr>dinode = 1, dpos = 0\<rparr> [97, 98] 42 = Some (True, s') \<and>
     dir_find (file_bytes s' 1) [97, 98] = Some 42 \<and> dir_find (file_bytes s' 1) [97] = None"
proof -
  have wf: "dir_wf (file_bytes demo_dir 1)" using demo_dir_empty(2) demo_dir_ok(4) by simp
  have di: "dinode \<lparr>dinode = 1, dpos = 0\<rparr> = 1" and nm: "name_ok [97, 98]" by (simp_all add: name_ok_def NAME_MAX_def)
  obtain r :: "(dir_entry \<times> int) option" and ok s' where h: "map_option (\<lambda>(e, ofs). inode_sector e) r = dir_find (replicate 100 0) [97, 98]"
    "dir_add (replicate 20 0) demo_dir \<lparr>dinode = 1, dpos = 0\<rparr> [97, 98] 42 = Some (ok, s')"
    "ok = (r = None \<and> (\<exists>k < nslots (replicate 100 0). \<not> in_use (slot (replicate 100 0) k)))"
    "\<forall>nm. dir_find (file_bytes s' 1) nm = (if ok \<and> nm = [97, 98] then Some 42 else dir_find (replicate 100 0) nm)"
    using dir_add_correct [of demo_dir "\<lparr>dinode = 1, dpos = 0\<rparr>" "[97, 98]" "replicate 20 0" 42, unfolded di, OF demo_dir_ok(1-3) wf nm length_replicate]
    unfolding demo_dir_ok(4) by blast
  have "r = None" using h(1) demo_dir_empty(1) by simp
  then have "ok" using h(3) demo_dir_empty(3) by simp
  then show ?thesis using h(2,4) demo_dir_empty(1) by auto
qed

text \<open>
  C24. \<open>dir_remove\<close> of a name whose file is still open elsewhere succeeds: the name is gone, every
  other name is found as before, the inode is marked for removal but stays open with the same
  number of openers, and its contents are unchanged, so that those who have it open can go on.
  A name that is not there makes it fail without any effect.
\<close>

theorem dir_remove_correct:
  assumes "file_ok s (dinode d)" "may_write s (dinode d)" "\<forall>n. avail s n" "dir_wf (file_bytes s (dinode d))"
  shows "case dir_find (file_bytes s (dinode d)) name of
      None \<Rightarrow> \<exists>s'. dir_remove s d name = Some (False, s') \<and> idle s s'
    | Some t \<Rightarrow> \<forall>n. get_inode s t = Some n \<longrightarrow> 0 < open_cnt n \<longrightarrow>
        (\<exists>s'. dir_remove s d name = Some (True, s') \<and> dir_wf (file_bytes s' (dinode d)) \<and>
          (\<forall>nm. dir_find (file_bytes s' (dinode d)) nm = (if nm = name then None else dir_find (file_bytes s (dinode d)) nm)) \<and>
          get_inode s' t = Some (n\<lparr>removed := True\<rparr>) \<and>
          (\<forall>j. file_sectors s j \<inter> file_sectors s (dinode d) = {} \<longrightarrow> file_bytes s' j = file_bytes s j))"
proof (cases "slot_of (file_bytes s (dinode d)) name")
  case None
  then obtain s' where "lookup s d name = Some (None, s')" "idle s s'" using lookup_ok [OF assms(1,3), of name] by auto
  then have "dir_remove s d name = Some (False, s')" "idle s s'" by (simp_all add: dir_remove_def)
  then show ?thesis using None by (simp add: dir_find_def)
next
  case (Some k)
  then show ?thesis using dir_remove_ok [OF assms Some refl] by (simp add: dir_find_def)
qed

theorem dir_remove_correct_witness:
  "\<exists>s s'. dir_add (replicate 20 0) demo_dir \<lparr>dinode = 1, dpos = 0\<rparr> [97, 98] 0 = Some (True, s) \<and>
     dir_remove s \<lparr>dinode = 1, dpos = 0\<rparr> [97, 98] = Some (True, s') \<and> dir_find (file_bytes s' 1) [97, 98] = None"
proof -
  let ?d = "\<lparr>dinode = 1, dpos = 0\<rparr>"
  have di: "dinode ?d = 1" and nm: "name_ok [97, 98]" by (simp_all add: name_ok_def NAME_MAX_def)
  have wf: "dir_wf (file_bytes demo_dir 1)" using demo_dir_empty(2) demo_dir_ok(4) by simp
  obtain ok s where a: "dir_add (replicate 20 0) demo_dir ?d [97, 98] 0 = Some (ok, s)" "ok" "dir_wf (file_bytes s 1)"
    "wrote demo_dir (file_sectors demo_dir 1) s" "dir_find (file_bytes s 1) [97, 98] = Some 0"
    using dir_add_ok [of demo_dir ?d "[97, 98]" "replicate 20 0" 0, unfolded di, OF demo_dir_ok(1-3) wf nm length_replicate] demo_dir_empty(1,3)
    unfolding demo_dir_ok(4) by auto
  have "get_inode s 0 = get_inode demo_dir 0" using wrote_same(8) [OF a(4)] .
  then obtain n where n: "get_inode s 0 = Some n" "0 < open_cnt n" by (auto simp: get_inode_def demo_dir_def demo_fs_def)
  obtain s' where "dir_remove s ?d [97, 98] = Some (True, s')"
    "\<forall>nm. dir_find (file_bytes s' 1) nm = (if nm = [97, 98] then None else dir_find (file_bytes s 1) nm)"
    using dir_remove_correct [of s ?d "[97, 98]", unfolded di, OF wrote_file_ok [OF a(4) demo_dir_ok(1)] _ _ a(3)] n a(5)
      wrote_may_write [OF a(4)] wrote_same(6) [OF a(4)] demo_dir_ok(2,3) by auto
  then show ?thesis using a(1,2) by auto
qed

end
