(* ===== verification/Filesys.thy ===== *)
theory Filesys
  imports Directory
begin

text \<open>
  The file system as a whole (src/proj-pregame/src/filesys/filesys.c) and the functions of
  free-map.c that need files. Messages on the console are left out.
\<close>

subsection \<open>The C functions\<close>

definition free_map_open :: "fs \<Rightarrow> fs option" where
  "free_map_open s = do {
     (p, s1) \<leftarrow> inode_open s FREE_MAP_SECTOR;
     (q, s2) \<leftarrow> file_open s1 p;
     f \<leftarrow> q;
     (ok, b, s3) \<leftarrow> bitmap_read (s2\<lparr>free_map_file := Some f\<rparr>) (free_map s2) f;
     ASSERT ok;
     Some (s3\<lparr>free_map := b\<rparr>)
   }"

definition free_map_close :: "fs \<Rightarrow> fs option" where
  "free_map_close s = file_close s (free_map_file s)"

definition free_map_create :: "fs \<Rightarrow> fs option" where
  "free_map_create s = do {
     (ok, s1) \<leftarrow> inode_create s FREE_MAP_SECTOR (sint (bitmap_file_size (free_map s)));
     ASSERT ok;
     (p, s2) \<leftarrow> inode_open s1 FREE_MAP_SECTOR;
     (q, s3) \<leftarrow> file_open s2 p;
     f \<leftarrow> q;
     (ok', s4) \<leftarrow> bitmap_write (s3\<lparr>free_map_file := Some f\<rparr>) (free_map s3) f;
     ASSERT ok';
     Some s4
   }"

definition do_format :: "fs \<Rightarrow> fs option" where
  "do_format s = do {
     s1 \<leftarrow> free_map_create s;
     (ok, s2) \<leftarrow> dir_create s1 ROOT_DIR_SECTOR 16;
     ASSERT ok;
     free_map_close s2
   }"

text \<open>
  The static variables of the modules before initialisation are those of \<open>s\<close>; \<open>dev\<close> is the block
  device with the role \<open>BLOCK_FILESYS\<close>.
\<close>

definition filesys_init :: "bool \<Rightarrow> u32 list option \<Rightarrow> block option \<Rightarrow> bool \<Rightarrow> fs \<Rightarrow> fs option" where
  "filesys_init hdr_ok junk dev format s = do {
     b \<leftarrow> dev;
     s1 \<leftarrow> free_map_init hdr_ok junk (inode_init (s\<lparr>fs_device := b\<rparr>));
     s2 \<leftarrow> (if format then do_format s1 else Some s1);
     free_map_open s2
   }"

definition filesys_done :: "fs \<Rightarrow> fs option" where
  "filesys_done s = free_map_close s"

definition filesys_create :: "u8 list \<Rightarrow> fs \<Rightarrow> u8 list \<Rightarrow> int \<Rightarrow> (bool \<times> fs) option" where
  "filesys_create junk s name initial_size = do {
     (dir, s1) \<leftarrow> dir_open_root s;
     (ok, inode_sector, s2) \<leftarrow>
       (case dir of
          None \<Rightarrow> Some (False, 0, s1)
        | Some d \<Rightarrow> do {
            (r, s2) \<leftarrow> free_map_allocate s1 1;
            case r of
              None \<Rightarrow> Some (False, 0, s2)
            | Some sec \<Rightarrow> do {
                (ok, s3) \<leftarrow> inode_create s2 sec initial_size;
                if ok then do {
                  (ok', s4) \<leftarrow> dir_add junk s3 d name sec;
                  Some (ok', sec, s4)
                } else Some (False, sec, s3)
              }
          });
     s3 \<leftarrow> (if \<not> ok \<and> inode_sector \<noteq> 0 then free_map_release s2 inode_sector 1 else Some s2);
     s4 \<leftarrow> dir_close s3 dir;
     Some (ok, s4)
   }"

definition filesys_open :: "fs \<Rightarrow> u8 list \<Rightarrow> (ofile option \<times> fs) option" where
  "filesys_open s name = do {
     (dir, s1) \<leftarrow> dir_open_root s;
     (inode, s2) \<leftarrow> (case dir of None \<Rightarrow> Some (None, s1) | Some d \<Rightarrow> dir_lookup s1 d name);
     s3 \<leftarrow> dir_close s2 dir;
     file_open s3 inode
   }"

definition filesys_remove :: "fs \<Rightarrow> u8 list \<Rightarrow> (bool \<times> fs) option" where
  "filesys_remove s name = do {
     (dir, s1) \<leftarrow> dir_open_root s;
     (ok, s2) \<leftarrow> (case dir of None \<Rightarrow> Some (False, s1) | Some d \<Rightarrow> dir_remove s1 d name);
     s3 \<leftarrow> dir_close s2 dir;
     Some (ok, s3)
   }"

end
