(* ===== verification/Process.thy ===== *)
theory Process
  imports Pagedir Filesys
begin

text \<open>
  User processes (src/proj-pregame/src/userprog/process.c): the ELF loader and the start and the end
  of a process, over the page directories of \<open>Pagedir\<close> and the file system of \<open>Filesys\<close>. The state
  is what the running thread works on. \<open>malloc\<close> of a control block is a request of the file system
  state's count of requests. Messages and the task state segment are left out; what follows
  \<open>start_process\<close> and \<open>process_exit\<close> (a semaphore is raised, the thread exits) is in \<open>Synch\<close>.
\<close>

subsection \<open>The C functions\<close>

record process =
  pagedir :: addr
  process_name :: "u8 list"
  main_thread :: nat

record task =
  vm :: mmu
  pfs :: fs
  tid :: nat
  tname :: "u8 list"
  pcb :: "process option"

definition userprog_init :: "task \<Rightarrow> task option" where
  "userprog_init t = (
     let (success, h) = mem_request (pfs t) in do {
       ASSERT success;
       Some (t\<lparr>pfs := h, pcb := Some \<lparr>pagedir = 0, process_name = [], main_thread = 0\<rparr>\<rparr>)
     })"

definition process_activate :: "task \<Rightarrow> task option" where
  "process_activate t = do {
     m \<leftarrow> pagedir_activate (vm t) (case pcb t of Some p \<Rightarrow> (if pagedir p \<noteq> 0 then pagedir p else 0) | None \<Rightarrow> 0);
     Some (t\<lparr>vm := m\<rparr>)
   }"

definition process_exit :: "task \<Rightarrow> task option" where
  "process_exit t =
     (case pcb t of
        None \<Rightarrow> Some t
      | Some p \<Rightarrow> do {
          let pd = pagedir p;
          t \<leftarrow> (if pd \<noteq> 0 then do {
                  let t = t\<lparr>pcb := Some (p\<lparr>pagedir := 0\<rparr>)\<rparr>;
                  m \<leftarrow> pagedir_activate (vm t) 0;
                  m \<leftarrow> pagedir_destroy m pd;
                  Some (t\<lparr>vm := m\<rparr>)
                } else Some t);
          Some (t\<lparr>pcb := None\<rparr>)
        })"

definition is_main_thread :: "nat \<Rightarrow> process \<Rightarrow> bool" where
  "is_main_thread t p \<longleftrightarrow> main_thread p = t"

definition get_pid :: "process \<Rightarrow> nat" where
  "get_pid p = main_thread p"

subsubsection \<open>Executables\<close>

record Elf32_Ehdr =
  e_ident :: "u8 list"
  e_type :: u16
  e_machine :: u16
  e_version :: u32
  e_entry :: u32
  e_phoff :: u32
  e_shoff :: u32
  e_flags :: u32
  e_ehsize :: u16
  e_phentsize :: u16
  e_phnum :: u16
  e_shentsize :: u16
  e_shnum :: u16
  e_shstrndx :: u16

record Elf32_Phdr =
  p_type :: u32
  p_offset :: u32
  p_vaddr :: u32
  p_paddr :: u32
  p_filesz :: u32
  p_memsz :: u32
  p_flags :: u32
  p_align :: u32

text \<open>The fields of a structure in memory.\<close>

definition half_at :: "u8 list \<Rightarrow> nat \<Rightarrow> u16" where
  "half_at bs k = ucast (bs ! k) + push_bit 8 (ucast (bs ! (k + 1)))"

definition word_at :: "u8 list \<Rightarrow> nat \<Rightarrow> u32" where
  "word_at bs k = word_of_bytes (take 4 (drop k bs))"

definition ehdr_of :: "u8 list \<Rightarrow> Elf32_Ehdr" where
  "ehdr_of bs = \<lparr>e_ident = take 16 bs, e_type = half_at bs 16, e_machine = half_at bs 18, e_version = word_at bs 20,
     e_entry = word_at bs 24, e_phoff = word_at bs 28, e_shoff = word_at bs 32, e_flags = word_at bs 36, e_ehsize = half_at bs 40,
     e_phentsize = half_at bs 42, e_phnum = half_at bs 44, e_shentsize = half_at bs 46, e_shnum = half_at bs 48, e_shstrndx = half_at bs 50\<rparr>"

definition phdr_of :: "u8 list \<Rightarrow> Elf32_Phdr" where
  "phdr_of bs = \<lparr>p_type = word_at bs 0, p_offset = word_at bs 4, p_vaddr = word_at bs 8, p_paddr = word_at bs 12,
     p_filesz = word_at bs 16, p_memsz = word_at bs 20, p_flags = word_at bs 24, p_align = word_at bs 28\<rparr>"

definition PT_LOAD :: u32 where "PT_LOAD = 1"
definition PT_DYNAMIC :: u32 where "PT_DYNAMIC = 2"
definition PT_INTERP :: u32 where "PT_INTERP = 3"
definition PT_SHLIB :: u32 where "PT_SHLIB = 5"
definition PF_W :: u32 where "PF_W = 2"

definition install_page :: "task \<Rightarrow> addr \<Rightarrow> addr \<Rightarrow> bool \<Rightarrow> (bool \<times> task) option" where
  "install_page t upage kpage writable = do {
     p \<leftarrow> pcb t;
     k \<leftarrow> pagedir_get_page (vm t) (pagedir p) upage;
     if k = 0 then do {
       (ok, m) \<leftarrow> pagedir_set_page (vm t) (pagedir p) upage kpage writable;
       Some (ok, t\<lparr>vm := m\<rparr>)
     } else Some (False, t)
   }"

definition setup_stack :: "task \<Rightarrow> addr \<Rightarrow> (bool \<times> addr \<times> task) option" where
  "setup_stack t esp = do {
     (kpage, a) \<leftarrow> palloc_get_page (pal (vm t)) (PAL_USER OR PAL_ZERO);
     let t = t\<lparr>vm := (vm t)\<lparr>pal := a\<rparr>\<rparr>;
     if kpage \<noteq> 0 then do {
       (success, t) \<leftarrow> install_page t (PHYS_BASE - PGSIZE) kpage True;
       if success then Some (True, PHYS_BASE - 20, t)
       else do { m \<leftarrow> free_page (vm t) kpage; Some (False, esp, t\<lparr>vm := m\<rparr>) }
     } else Some (False, esp, t)
   }"

definition validate_segment :: "fs \<Rightarrow> Elf32_Phdr \<Rightarrow> ofile \<Rightarrow> bool option" where
  "validate_segment s phdr file =
     (if p_offset phdr AND PGMASK \<noteq> p_vaddr phdr AND PGMASK then Some False
      else do {
        len \<leftarrow> file_length s file;
        Some (\<not> p_offset phdr > word_of_int len \<and> \<not> p_memsz phdr < p_filesz phdr \<and> p_memsz phdr \<noteq> 0 \<and>
          is_user_vaddr (p_vaddr phdr) \<and> is_user_vaddr (p_vaddr phdr + p_memsz phdr) \<and>
          \<not> p_vaddr phdr + p_memsz phdr < p_vaddr phdr \<and> \<not> p_vaddr phdr < PGSIZE)
      })"

text \<open>\<open>inode_read_at\<close> puts the bytes it returns at the start of the buffer it is given.\<close>

definition mem_write :: "memory \<Rightarrow> addr \<Rightarrow> u8 list \<Rightarrow> memory" where
  "mem_write m p bs = (\<lambda>a. if unat (a - p) < length bs then bs ! unat (a - p) else m a)"

definition set_ram :: "task \<Rightarrow> memory \<Rightarrow> task" where
  "set_ram t m = t\<lparr>vm := (vm t)\<lparr>pal := (pal (vm t))\<lparr>ram := m\<rparr>\<rparr>\<rparr>"

text \<open>The body of the loop in \<open>load_segment\<close> for one page.\<close>

definition load_page :: "task \<Rightarrow> ofile \<Rightarrow> addr \<Rightarrow> u32 \<Rightarrow> u32 \<Rightarrow> bool \<Rightarrow> (bool \<times> ofile \<times> task) option" where
  "load_page t file upage page_read_bytes page_zero_bytes writable = do {
     (kpage, a) \<leftarrow> palloc_get_page (pal (vm t)) PAL_USER;
     let t = t\<lparr>vm := (vm t)\<lparr>pal := a\<rparr>\<rparr>;
     if kpage = 0 then Some (False, file, t)
     else do {
       (bs, file, h) \<leftarrow> file_read (pfs t) file (sint page_read_bytes);
       let t = set_ram (t\<lparr>pfs := h\<rparr>) (mem_write (ram a) kpage bs);
       if int (length bs) \<noteq> sint page_read_bytes then do { m \<leftarrow> free_page (vm t) kpage; Some (False, file, t\<lparr>vm := m\<rparr>) }
       else do {
         let t = set_ram t (mem_fill (ram (pal (vm t))) (kpage + page_read_bytes) 0 page_zero_bytes);
         (ok, t) \<leftarrow> install_page t upage kpage writable;
         if \<not> ok then do { m \<leftarrow> free_page (vm t) kpage; Some (False, file, t\<lparr>vm := m\<rparr>) }
         else Some (True, file, t)
       }
     }
   }"

partial_function (option) load_segment_loop :: "task \<Rightarrow> ofile \<Rightarrow> addr \<Rightarrow> u32 \<Rightarrow> u32 \<Rightarrow> bool \<Rightarrow> (bool \<times> ofile \<times> task) option" where
  [code]: "load_segment_loop t file upage read_bytes zero_bytes writable =
     (if read_bytes > 0 \<or> zero_bytes > 0 then do {
        let page_read_bytes = (if read_bytes < PGSIZE then read_bytes else PGSIZE);
        let page_zero_bytes = PGSIZE - page_read_bytes;
        (ok, file, t) \<leftarrow> load_page t file upage page_read_bytes page_zero_bytes writable;
        if \<not> ok then Some (False, file, t)
        else load_segment_loop t file (upage + PGSIZE) (read_bytes - page_read_bytes) (zero_bytes - page_zero_bytes) writable
      } else Some (True, file, t))"

definition load_segment :: "task \<Rightarrow> ofile \<Rightarrow> int \<Rightarrow> addr \<Rightarrow> u32 \<Rightarrow> u32 \<Rightarrow> bool \<Rightarrow> (bool \<times> ofile \<times> task) option" where
  "load_segment t file ofs upage read_bytes zero_bytes writable = do {
     ASSERT ((read_bytes + zero_bytes) mod PGSIZE = 0);
     ASSERT (pg_ofs upage = 0);
     ASSERT (word_of_int ofs mod PGSIZE = 0);
     file \<leftarrow> file_seek file ofs;
     load_segment_loop t file upage read_bytes zero_bytes writable
   }"

text \<open>The body of the switch in \<open>load\<close> on the type of a segment; false leads to the label \<open>done\<close>.\<close>

definition load_phdr :: "task \<Rightarrow> ofile \<Rightarrow> Elf32_Phdr \<Rightarrow> (bool \<times> ofile \<times> task) option" where
  "load_phdr t file phdr =
     (if p_type phdr = PT_DYNAMIC \<or> p_type phdr = PT_INTERP \<or> p_type phdr = PT_SHLIB then Some (False, file, t)
      else if p_type phdr = PT_LOAD then do {
        valid \<leftarrow> validate_segment (pfs t) phdr file;
        if valid then
          (let writable = (p_flags phdr AND PF_W \<noteq> 0);
               file_page = p_offset phdr AND NOT PGMASK;
               mem_page = p_vaddr phdr AND NOT PGMASK;
               page_offset = p_vaddr phdr AND PGMASK;
               read_bytes = (if p_filesz phdr > 0 then page_offset + p_filesz phdr else 0);
               zero_bytes = (if p_filesz phdr > 0 then ROUND_UP (page_offset + p_memsz phdr) PGSIZE - read_bytes
                             else ROUND_UP (page_offset + p_memsz phdr) PGSIZE)
           in load_segment t file (sint file_page) mem_page read_bytes zero_bytes writable)
        else Some (False, file, t)
      } else Some (True, file, t))"

text \<open>The loop over the program headers: \<open>n\<close> are left, the next one is at \<open>file_ofs\<close>.\<close>

fun load_phdrs :: "nat \<Rightarrow> task \<Rightarrow> ofile \<Rightarrow> u32 \<Rightarrow> (bool \<times> ofile \<times> task) option" where
  "load_phdrs 0 t file file_ofs = Some (True, file, t)"
| "load_phdrs (Suc n) t file file_ofs = do {
     len \<leftarrow> file_length (pfs t) file;
     if sint file_ofs < 0 \<or> sint file_ofs > len then Some (False, file, t)
     else do {
       file \<leftarrow> file_seek file (sint file_ofs);
       (bs, file, h) \<leftarrow> file_read (pfs t) file 32;
       let t = t\<lparr>pfs := h\<rparr>;
       if length bs \<noteq> 32 then Some (False, file, t)
       else do {
         (ok, file, t) \<leftarrow> load_phdr t file (phdr_of bs);
         if \<not> ok then Some (False, file, t) else load_phdrs n t file (file_ofs + 32)
       }
     }
   }"

definition ehdr_ok :: "Elf32_Ehdr \<Rightarrow> bool" where
  "ehdr_ok ehdr \<longleftrightarrow> take 7 (e_ident ehdr) = [0x7f, 0x45, 0x4c, 0x46, 1, 1, 1] \<and> e_type ehdr = 2 \<and> e_machine ehdr = 3 \<and>
     e_version ehdr = 1 \<and> e_phentsize ehdr = 32 \<and> \<not> e_phnum ehdr > 1024"

text \<open>\<open>load\<close> up to the label \<open>done\<close>, once the file is open; the entry point and the stack pointer are results.\<close>

definition load_file :: "task \<Rightarrow> ofile \<Rightarrow> addr \<Rightarrow> addr \<Rightarrow> (bool \<times> addr \<times> addr \<times> ofile \<times> task) option" where
  "load_file t file eip esp = do {
     (bs, file, h) \<leftarrow> file_read (pfs t) file 52;
     let t = t\<lparr>pfs := h\<rparr>;
     let ehdr = ehdr_of bs;
     if length bs \<noteq> 52 \<or> \<not> ehdr_ok ehdr then Some (False, eip, esp, file, t)
     else do {
       (ok, file, t) \<leftarrow> load_phdrs (unat (e_phnum ehdr)) t file (e_phoff ehdr);
       if \<not> ok then Some (False, eip, esp, file, t)
       else do {
         (ok, esp, t) \<leftarrow> setup_stack t esp;
         if \<not> ok then Some (False, eip, esp, file, t) else Some (True, e_entry ehdr, esp, file, t)
       }
     }
   }"

definition load :: "task \<Rightarrow> u8 list \<Rightarrow> addr \<Rightarrow> addr \<Rightarrow> (bool \<times> addr \<times> addr \<times> task) option" where
  "load t file_name eip esp = do {
     (pd, m) \<leftarrow> pagedir_create (vm t);
     p \<leftarrow> pcb t;
     let t = t\<lparr>vm := m, pcb := Some (p\<lparr>pagedir := pd\<rparr>)\<rparr>;
     if pd = 0 then do { h \<leftarrow> file_close (pfs t) None; Some (False, eip, esp, t\<lparr>pfs := h\<rparr>) }
     else do {
       t \<leftarrow> process_activate t;
       (f, h) \<leftarrow> filesys_open (pfs t) file_name;
       let t = t\<lparr>pfs := h\<rparr>;
       (success, eip, esp, f, t) \<leftarrow>
         (case f of
            None \<Rightarrow> Some (False, eip, esp, None, t)
          | Some file \<Rightarrow> do {
              (success, eip, esp, file, t) \<leftarrow> load_file t file eip esp;
              Some (success, eip, esp, Some file, t)
            });
       h \<leftarrow> file_close (pfs t) f;
       Some (success, eip, esp, t\<lparr>pfs := h\<rparr>)
     }
   }"

record intr_frame =
  edi :: u32
  esi :: u32
  ebp :: u32
  esp_dummy :: u32
  ebx :: u32
  edx :: u32
  ecx :: u32
  eax :: u32
  gs :: u16
  fs :: u16
  es :: u16
  ds :: u16
  vec_no :: u32
  error_code :: u32
  frame_pointer :: addr
  eip :: addr
  cs :: u16
  eflags :: u32
  esp :: addr
  ss :: u16

definition zero_frame :: intr_frame where
  "zero_frame = \<lparr>edi = 0, esi = 0, ebp = 0, esp_dummy = 0, ebx = 0, edx = 0, ecx = 0, eax = 0, gs = 0, fs = 0, es = 0, ds = 0,
     vec_no = 0, error_code = 0, frame_pointer = 0, eip = 0, cs = 0, eflags = 0, esp = 0, ss = 0\<rparr>"

definition SEL_UCSEG :: u16 where "SEL_UCSEG = 0x1b"
definition SEL_UDSEG :: u16 where "SEL_UDSEG = 0x23"
definition FLAG_MBS :: u32 where "FLAG_MBS = 0x2"
definition FLAG_IF :: u32 where "FLAG_IF = 0x200"

text \<open>
  \<open>start_process\<close> up to the jump to user mode, with the frame, or to the exit of the thread, with
  \<open>None\<close>. \<open>file_name\<close> is the address of a page that holds the name as a string.
\<close>

definition string_at :: "memory \<Rightarrow> addr \<Rightarrow> u8 list" where
  "string_at m p = c_str (map (\<lambda>i. m (p + of_nat i)) [0..<unat PGSIZE])"

definition start_process :: "task \<Rightarrow> addr \<Rightarrow> (intr_frame option \<times> task) option" where
  "start_process t file_name = (
     let (pcb_success, h) = mem_request (pfs t); t = t\<lparr>pfs := h\<rparr> in do {
       (success, frame, t) \<leftarrow>
         (if pcb_success then do {
            let t = t\<lparr>pcb := Some \<lparr>pagedir = 0, process_name = take 15 (tname t), main_thread = tid t\<rparr>\<rparr>;
            let frame = zero_frame\<lparr>gs := SEL_UDSEG, fs := SEL_UDSEG, es := SEL_UDSEG, ds := SEL_UDSEG, ss := SEL_UDSEG,
              cs := SEL_UCSEG, eflags := FLAG_IF OR FLAG_MBS\<rparr>;
            (success, ip, sp, t) \<leftarrow> load t (string_at (ram (pal (vm t))) file_name) (eip frame) (esp frame);
            Some (success, frame\<lparr>eip := ip, esp := sp\<rparr>, t)
          } else Some (False, zero_frame, t));
       let t = (if \<not> success \<and> pcb_success then t\<lparr>pcb := None\<rparr> else t);
       m \<leftarrow> free_page (vm t) file_name;
       Some (if success then Some frame else None, t\<lparr>vm := m\<rparr>)
     })"

end
