(* ===== verification/Address_Space.thy ===== *)
theory Address_Space
  imports Process
begin

text \<open>
  The address space that the loader of \<open>Process\<close> builds: what a user program sees through its page
  directory, and how taking, filling, installing and giving back a page change it.
\<close>

subsection \<open>The user's view of memory\<close>

text \<open>The byte at a user address and whether it may be written, where a page is mapped.\<close>

definition user_cell :: "mmu \<Rightarrow> addr \<Rightarrow> addr \<Rightarrow> (u8 \<times> bool) option" where
  "user_cell s pd va = (let e = pte_at s pd va in
     if e AND PTE_P \<noteq> 0 then Some (ram (pal s) (pt_of e + pg_ofs va), e AND PTE_W \<noteq> 0) else None)"

text \<open>
  The user pool lies in the memory of the machine, and the frames of a process are pages of the user pool
  in use.
\<close>

definition space_ok :: "mmu \<Rightarrow> addr \<Rightarrow> bool" where
  "space_ok s pd \<longleftrightarrow> pd_ok s pd \<and> pd \<noteq> init_page_dir s \<and>
     pool_pages (user_pool (pal s)) \<subseteq> {0xc0000 ..< 0xc0000 + unat (init_ram_pages s)} \<and>
     (\<forall>va. is_user_vaddr va \<and> pte_at s pd va AND PTE_P \<noteq> 0 \<longrightarrow>
        unat (pg_no (pt_of (pte_at s pd va))) \<in> palloc_used (pal s) \<inter> pool_pages (user_pool (pal s)))"

lemma space_okD:
  assumes "space_ok s pd"
  shows "pd_ok s pd" "pd \<noteq> init_page_dir s" "pool_pages (user_pool (pal s)) \<subseteq> {0xc0000 ..< 0xc0000 + unat (init_ram_pages s)}"
    "is_user_vaddr va \<Longrightarrow> pte_at s pd va AND PTE_P \<noteq> 0 \<Longrightarrow> unat (pg_no (pt_of (pte_at s pd va))) \<in> palloc_used (pal s)"
    "is_user_vaddr va \<Longrightarrow> pte_at s pd va AND PTE_P \<noteq> 0 \<Longrightarrow> unat (pg_no (pt_of (pte_at s pd va))) \<in> pool_pages (user_pool (pal s))"
    "palloc_inv (pal s)"
  using assms pd_okD(1) unfolding space_ok_def by blast+

text \<open>What stays the same while a process is loaded.\<close>

definition same_machine :: "mmu \<Rightarrow> mmu \<Rightarrow> bool" where
  "same_machine s s' \<longleftrightarrow> init_page_dir s' = init_page_dir s \<and> init_ram_pages s' = init_ram_pages s \<and> cr3 s' = cr3 s \<and>
     pool_pages (kernel_pool (pal s')) = pool_pages (kernel_pool (pal s)) \<and> pool_pages (user_pool (pal s')) = pool_pages (user_pool (pal s))"

lemma same_machine_refl [simp]: "same_machine s s"
  by (simp add: same_machine_def)

lemma same_machine_trans: "same_machine s t \<Longrightarrow> same_machine t u \<Longrightarrow> same_machine s u"
  by (simp add: same_machine_def)

text \<open>A change outside the pages in use.\<close>

definition quiet :: "mmu \<Rightarrow> mmu \<Rightarrow> bool" where
  "quiet s s' \<longleftrightarrow> same_machine s s' \<and> palloc_inv (pal s') \<and> palloc_used (pal s) \<subseteq> palloc_used (pal s') \<and>
     (\<forall>x. unat (pg_no x) \<in> palloc_used (pal s) \<longrightarrow> ram (pal s') x = ram (pal s) x)"

lemma load_cong:
  assumes "aligned q" "\<And>x. pg_no x = pg_no q \<Longrightarrow> m' x = m x"
  shows "Pagedir.load m' q = Pagedir.load m q"
proof -
  obtain k where k: "unat q = 4 * k" using assms(1) by (auto simp: aligned_def)
  have "(4 * k + i) div 4096 = unat q div 4096" if "i < 4" for i
    using that k div_mult2_eq [of "4 * k + i" 4 1024] div_mult2_eq [of "4 * k" 4 1024] by simp
  from this [of 1] this [of 2] this [of 3]
  have "pg_no (q + 1) = pg_no q" "pg_no (q + 2) = pg_no q" "pg_no (q + 3) = pg_no q"
    using k by (simp_all add: word_unat_eq_iff unat_pg_no unat_word_bytes [OF assms(1)])
  then show ?thesis using assms(2) by (simp add: Pagedir.load_def)
qed

lemma get_cong:
  assumes "pg_ofs p = 0" "unat i < 1024" "unat (pg_no p) \<in> palloc_used (pal s)" "quiet s s'"
  shows "get s' (Pagedir.slot p i) = get s (Pagedir.slot p i)"
  unfolding get_def
  by (rule load_cong) (use slot_page [OF assms(1,2)] assms(3,4) in \<open>auto simp: quiet_def\<close>)

lemma quiet_ptes:
  assumes q: "quiet s s'" and ok: "pd_ok s pd" and u: "is_user_vaddr va"
  shows "get s' (Pagedir.slot pd (pd_no va)) = get s (Pagedir.slot pd (pd_no va))" "pte_at s' pd va = pte_at s pd va"
proof -
  note d = pd_okD [OF ok]
  show *: "get s' (Pagedir.slot pd (pd_no va)) = get s (Pagedir.slot pd (pd_no va))"
    using d(4) by (intro get_cong [OF d(2) _ _ q]) (simp_all add: table_pages_def)
  show "pte_at s' pd va = pte_at s pd va"
  proof (cases "get s (Pagedir.slot pd (pd_no va)) = 0")
    case False
    then show ?thesis unfolding pte_at_def * Let_def
      using d(7) [OF u False] by (simp, intro get_cong [OF _ _ _ q]) (simp_all add: table_pages_def)
  qed (simp add: pte_at_def *)
qed

lemma frame_page:
  assumes "pg_ofs k = 0"
  shows "pg_no (k + pg_ofs va) = pg_no k"
proof -
  obtain n where n: "unat k = 4096 * n" using assms unat_pg_ofs [of k] by auto
  moreover have "unat k < 2 ^ 32" using unsigned_less [of k, where 'a = nat] by simp
  moreover have "unat (pg_ofs va) < 4096" by (simp add: unat_pg_ofs)
  ultimately have "unat (k + pg_ofs va) = 4096 * n + unat (pg_ofs va)" by (auto simp: unat_plus_if')
  then show ?thesis using n \<open>unat (pg_ofs va) < 4096\<close> by (simp add: word_unat_eq_iff unat_pg_no)
qed

lemma quiet_space:
  assumes q: "quiet s s'" and ok: "space_ok s pd"
  shows "space_ok s' pd" "is_user_vaddr va \<Longrightarrow> user_cell s' pd va = user_cell s pd va"
proof -
  note o = space_okD [OF ok]
  note d = pd_okD [OF o(1)] and p = quiet_ptes [OF q o(1)]
  note m = q [unfolded quiet_def same_machine_def]
  have t: "table_pages (pal s) \<subseteq> table_pages (pal s')" using m by (auto simp: table_pages_def)
  have "pd_ok s' pd"
    unfolding pd_ok_def Let_def
  proof (intro conjI allI impI ballI; (elim conjE)?)
    fix va vb
    assume v: "is_user_vaddr va" "is_user_vaddr vb" "get s' (Pagedir.slot pd (pd_no va)) \<noteq> 0" "get s' (Pagedir.slot pd (pd_no vb)) \<noteq> 0"
      "pt_of (get s' (Pagedir.slot pd (pd_no va))) = pt_of (get s' (Pagedir.slot pd (pd_no vb)))"
    then show "pd_no va = pd_no vb" using d(8) [OF v(1,2)] p(1) by simp
  qed (use d m t p in auto)
  then show "space_ok s' pd" unfolding space_ok_def using o m p(2) by auto
  assume u: "is_user_vaddr va"
  have "ram (pal s') (pt_of (pte_at s pd va) + pg_ofs va) = ram (pal s) (pt_of (pte_at s pd va) + pg_ofs va)" if "pte_at s pd va AND PTE_P \<noteq> 0"
    using o(4) [OF u that] m frame_page [OF pt_of_aligned, of "pte_at s pd va" va] by auto
  then show "user_cell s' pd va = user_cell s pd va" using p(2) [OF u] by (simp add: user_cell_def Let_def)
qed

subsection \<open>A page that is being filled\<close>

text \<open>
  In \<open>s'\<close> one more page of the user pool is in use, with any contents.
\<close>

definition filling :: "mmu \<Rightarrow> addr \<Rightarrow> mmu \<Rightarrow> bool" where
  "filling s k s' \<longleftrightarrow> same_machine s s' \<and> palloc_inv (pal s') \<and> pg_ofs k = 0 \<and>
     unat (pg_no k) \<in> pool_pages (user_pool (pal s)) - palloc_used (pal s) \<and>
     palloc_used (pal s') = insert (unat (pg_no k)) (palloc_used (pal s)) \<and>
     (\<forall>x. pg_no x \<noteq> pg_no k \<longrightarrow> ram (pal s') x = ram (pal s) x)"

lemma filling_quiet: "filling s k s' \<Longrightarrow> quiet s s'"
  unfolding filling_def quiet_def by (metis DiffE subset_insertI)

lemma filling_ram:
  assumes "filling s k s'" "\<And>x. pg_no x \<noteq> pg_no k \<Longrightarrow> m x = ram (pal s') x"
  shows "filling s k (s'\<lparr>pal := (pal s')\<lparr>ram := m\<rparr>\<rparr>)"
  using assms by (auto simp: filling_def same_machine_def palloc_inv_def palloc_used_def)

lemma take_page:
  assumes inv: "palloc_inv (pal s)" and f: "flags AND PAL_USER \<noteq> 0" "flags AND PAL_ASSERT = 0"
  obtains "palloc_get_page (pal s) flags = Some (0, pal s)" "pool_pages (user_pool (pal s)) \<subseteq> palloc_used (pal s)"
  | k a where "palloc_get_page (pal s) flags = Some (k, a)" "k \<noteq> 0" "filling s k (s\<lparr>pal := a\<rparr>)"
      "ram a = (if flags AND PAL_ZERO \<noteq> 0 then mem_fill (ram (pal s)) k 0 PGSIZE else ram (pal s))"
proof -
  have sel: "sel_pool flags (pal s) = user_pool (pal s)" using f by (simp add: sel_pool_def)
  show thesis
  proof (cases "has_room (sel_pool flags (pal s)) (unat (1 :: u32))")
    case False
    then show thesis
      using that(1) palloc_get_no_room [OF inv _ False] no_page_left [OF inv False] f sel by (simp add: palloc_get_page_def)
  next
    case True
    obtain k a where g: "palloc_get_page (pal s) flags = Some (k, a)" "k \<noteq> 0" "pg_ofs k = 0"
        "run_of (pg_no k, 1) \<subseteq> pool_pages (user_pool (pal s))" "run_of (pg_no k, 1) \<inter> palloc_used (pal s) = {}"
        "palloc_used a = palloc_used (pal s) \<union> run_of (pg_no k, 1)" "palloc_inv a"
        "pool_pages (kernel_pool a) = pool_pages (kernel_pool (pal s))" "pool_pages (user_pool a) = pool_pages (user_pool (pal s))"
        "ram a = (if flags AND PAL_ZERO \<noteq> 0 then mem_fill (ram (pal s)) k 0 PGSIZE else ram (pal s))"
      using palloc_get_room [OF inv _ True] unfolding sel by (auto simp: palloc_get_page_def)
    have "mem_fill (ram (pal s)) k 0 PGSIZE x = ram (pal s) x" if "pg_no x \<noteq> pg_no k" for x
      using that in_page [OF g(3), of x] by (simp add: mem_fill_def)
    then have "filling s k (s\<lparr>pal := a\<rparr>)"
      using g(3-10) run_of_one [OF pg_no_less, of k] by (auto simp: filling_def same_machine_def)
    then show thesis using that(2) g(1,2,10) by blast
  qed
qed

lemma user_flags:
  "PAL_USER AND PAL_USER \<noteq> 0" "PAL_USER AND PAL_ASSERT = 0"
  "(PAL_USER OR PAL_ZERO) AND PAL_USER \<noteq> 0" "(PAL_USER OR PAL_ZERO) AND PAL_ASSERT = 0" "(PAL_USER OR PAL_ZERO) AND PAL_ZERO \<noteq> 0"
  by (simp_all add: PAL_USER_def PAL_ZERO_def PAL_ASSERT_def)

text \<open>Giving the page back.\<close>

lemma drop_page:
  assumes p: "filling s k s'"
  shows "\<exists>s''. free_page s' k = Some s'' \<and> quiet s s'' \<and> palloc_used (pal s'') = palloc_used (pal s)"
proof -
  note d = p [unfolded filling_def same_machine_def]
  have r: "run_of (pg_no k, 1) = {unat (pg_no k)}" by (rule run_of_one [OF pg_no_less])
  have "pool_inv (user_pool (pal s'))" using d by (simp add: palloc_inv_def)
  then have pos: "\<forall>q \<in> pool_pages (user_pool (pal s')). 0 < q"
    by (auto simp: pool_inv_def pool_pages_def word_less_nat_alt)
  then have "palloc_legal (pg_no k, 1) (pal s')"
    using d r pg_no_less [of k] by (auto simp: palloc_legal_def simp flip: unat_gt_0)
  from palloc_free_run [OF _ this] obtain a where a: "palloc_free_multiple (pal s') k 1 = Some a" "palloc_inv a"
      "palloc_used a = palloc_used (pal s') - {unat (pg_no k)}" "pool_pages (kernel_pool a) = pool_pages (kernel_pool (pal s'))"
      "pool_pages (user_pool a) = pool_pages (user_pool (pal s'))" "ram a = mem_fill (ram (pal s')) k 0xcc PGSIZE"
    using d r page_addr_pg_no [of k] by auto
  have "ram a x = ram (pal s) x" if "unat (pg_no x) \<in> palloc_used (pal s)" for x
  proof -
    have "pg_no x \<noteq> pg_no k" using that d by auto
    then show ?thesis using a(6) in_page [of k x] d by (simp add: mem_fill_def)
  qed
  then have "quiet s (s'\<lparr>pal := a\<rparr>)" using a d by (simp add: quiet_def same_machine_def)
  then show ?thesis using a d by (auto simp: free_page_def palloc_free_page_def)
qed

text \<open>The page is a frame that \<open>pagedir_set_page\<close> accepts.\<close>

lemma filling_frame:
  assumes "filling s k s'" "space_ok s pd"
  shows "PHYS_BASE \<le> k" "is_kernel_vaddr k" "drop_bit PTSHIFT (k - PHYS_BASE) < init_ram_pages s'"
proof -
  note d = assms(1) [unfolded filling_def same_machine_def]
  have n: "0xc0000 \<le> unat (pg_no k)" "unat (pg_no k) < 0xc0000 + unat (init_ram_pages s)"
    using d space_okD(3) [OF assms(2)] by auto
  show k: "PHYS_BASE \<le> k" by (rule kernel_page) (use d n in auto)
  then show "is_kernel_vaddr k" by (simp add: is_kernel_vaddr_def)
  have "unat (drop_bit PTSHIFT (k - PHYS_BASE)) = (unat k - 0xc0000000) div 4096"
    using k unat_drop_bit [of 12 "k - PHYS_BASE"] by (simp add: PTSHIFT_def PGBITS_def unat_sub PHYS_BASE_def)
  also have "\<dots> = unat k div 4096 - 0xc0000" 
  proof -
    have "unat k = 0xc0000 * 4096 + (unat k - 0xc0000000)" using k by (simp add: word_le_nat_alt PHYS_BASE_def)
    then have "unat k div 4096 = 0xc0000 + (unat k - 0xc0000000) div 4096" by (metis div_mult_self3 zero_neq_numeral)
    then show ?thesis by simp
  qed
  also have "\<dots> < unat (init_ram_pages s)" using n by (simp add: unat_pg_no)
  finally show "drop_bit PTSHIFT (k - PHYS_BASE) < init_ram_pages s'" using d by (simp add: word_less_nat_alt)
qed

subsection \<open>Installing the page\<close>

definition takes_page :: "mmu \<Rightarrow> nat \<Rightarrow> mmu \<Rightarrow> bool" where
  "takes_page s n s' \<longleftrightarrow> same_machine s s' \<and> n \<in> pool_pages (user_pool (pal s)) - palloc_used (pal s) \<and>
     (\<exists>P \<subseteq> pool_pages (kernel_pool (pal s)). card P \<le> 1 \<and> palloc_used (pal s') = insert n (palloc_used (pal s)) \<union> P)"

lemma map_filling:
  assumes ok: "space_ok s pd" and f: "filling s k s1" and u: "pg_ofs upage = 0" "is_user_vaddr upage" "pte_at s pd upage AND PTE_P = 0"
  shows "(pagedir_set_page s1 pd upage k w = Some (False, s1) \<and> pool_pages (kernel_pool (pal s)) \<subseteq> palloc_used (pal s)) \<or>
    (\<exists>s2. pagedir_set_page s1 pd upage k w = Some (True, s2) \<and> space_ok s2 pd \<and> takes_page s (unat (pg_no k)) s2 \<and>
       (\<forall>va. is_user_vaddr va \<longrightarrow> user_cell s2 pd va =
          (if pg_round_down va = upage then Some (ram (pal s1) (k + pg_ofs va), w) else user_cell s pd va)))"
proof -
  note d = f [unfolded filling_def same_machine_def] and fr = filling_frame [OF f ok]
  have q: "quiet s s1" by (rule filling_quiet [OF f])
  note q1 = quiet_space [OF q ok]
  note o1 = space_okD [OF q1(1)] and p1 = quiet_ptes(2) [OF q space_okD(1) [OF ok]]
  have dis: "pool_pages (kernel_pool (pal s)) \<inter> pool_pages (user_pool (pal s)) = {}"
    using space_okD(6) [OF ok] by (simp add: palloc_inv_def)
  have un: "pte_at s1 pd upage AND PTE_P = 0" using p1 u by simp
  obtain r s2 e where r: "pagedir_set_page s1 pd upage k w = Some (r, s2)" "pd_ok s2 pd" "tables_only s1 s2"
      "\<not> r \<longrightarrow> s2 = s1 \<and> pool_pages (kernel_pool (pal s1)) \<subseteq> palloc_used (pal s1)"
    and e: "pt_of e = k" "e AND PTE_P \<noteq> 0" "e AND PTE_W \<noteq> 0 \<longleftrightarrow> w"
      "\<And>va. is_user_vaddr va \<Longrightarrow> pte_at s2 pd va = (if r \<and> pg_round_down va = upage then e else pte_at s1 pd va)"
    using set_page_ptes [OF o1(1,2) u(1,2) _ fr(2,3) un, of w] d by metis
  show ?thesis
  proof (cases r)
    case False
    then show ?thesis using r d dis by auto
  next
    case True
    note t = r(3) [unfolded tables_only_def]
    have pte: "pte_at s2 pd va = (if pg_round_down va = upage then e else pte_at s pd va)" if "is_user_vaddr va" for va
      using e(4) [OF that] p1 [OF that] True by simp
    have used: "palloc_used (pal s1) \<subseteq> palloc_used (pal s2)" using t by auto
    have "unat (pg_no (pt_of (pte_at s2 pd va))) \<in> palloc_used (pal s2) \<inter> pool_pages (user_pool (pal s2))"
      if "is_user_vaddr va" "pte_at s2 pd va AND PTE_P \<noteq> 0" for va
      using that pte [OF that(1)] e(1) space_okD(4,5) [OF ok that(1)] d t used by (auto split: if_splits)
    then have "space_ok s2 pd" using o1 r(2) t by (auto simp: space_ok_def)
    moreover have "takes_page s (unat (pg_no k)) s2" using d t by (auto simp: takes_page_def same_machine_def)
    moreover have "user_cell s2 pd va = (if pg_round_down va = upage then Some (ram (pal s1) (k + pg_ofs va), w) else user_cell s pd va)"
      if va: "is_user_vaddr va" for va
    proof -
      have ram: "ram (pal s2) (p + pg_ofs va) = ram (pal s1) (p + pg_ofs va)"
        if "unat (pg_no p) \<in> pool_pages (user_pool (pal s))" "pg_ofs p = 0" for p
        using that frame_page [of p va] t d dis by auto
      show ?thesis
      proof (cases "pg_round_down va = upage")
        case True
        then show ?thesis using pte [OF va] e ram [of k] d by (simp add: user_cell_def)
      next
        case False
        have "user_cell s2 pd va = user_cell s1 pd va"
          using False pte [OF va] p1 [OF va] ram [of "pt_of (pte_at s pd va)"] space_okD(5) [OF ok va] by (auto simp: user_cell_def Let_def)
        then show ?thesis using False q1(2) [OF va] by simp
      qed
    qed
    ultimately show ?thesis using r(1) True by (intro disjI2 exI [of _ s2] conjI allI impI) simp_all
  qed
qed

text \<open>\<open>install_page\<close> of the page by the process that owns the directory.\<close>

lemma install_filling:
  assumes ok: "space_ok s pd" and f: "filling s k (vm t)" and u: "pg_ofs upage = 0" "is_user_vaddr upage"
    and p: "pcb t = Some p" "pagedir p = pd"
  shows "(install_page t upage k w = Some (False, t) \<and> (user_cell s pd upage \<noteq> None \<or> pool_pages (kernel_pool (pal s)) \<subseteq> palloc_used (pal s))) \<or>
    (\<exists>s2. install_page t upage k w = Some (True, t\<lparr>vm := s2\<rparr>) \<and> space_ok s2 pd \<and> takes_page s (unat (pg_no k)) s2 \<and> user_cell s pd upage = None \<and>
       (\<forall>va. is_user_vaddr va \<longrightarrow> user_cell s2 pd va =
          (if pg_round_down va = upage then Some (ram (pal (vm t)) (k + pg_ofs va), w) else user_cell s pd va)))"
proof -
  have q: "quiet s (vm t)" by (rule filling_quiet [OF f])
  have ok1: "pd_ok (vm t) pd" using quiet_space(1) [OF q ok] space_okD(1) by blast
  have pte: "pte_at (vm t) pd upage = pte_at s pd upage" by (rule quiet_ptes(2) [OF q space_okD(1) [OF ok] u(2)])
  show ?thesis
  proof (cases "pte_at s pd upage AND PTE_P = 0")
    case True
    then have "pagedir_get_page (vm t) pd upage = Some 0" using unmapped_iff [OF ok1 u(2)] pte by simp
    then have "install_page t upage k w = Option.bind (pagedir_set_page (vm t) pd upage k w) (\<lambda>(ok, m). Some (ok, t\<lparr>vm := m\<rparr>))"
      using p by (simp add: install_page_def)
    moreover have "user_cell s pd upage = None" using True by (simp add: user_cell_def)
    ultimately show ?thesis using map_filling [OF ok f u True, of w] by auto
  next
    case False
    then have "pagedir_get_page (vm t) pd upage \<noteq> Some 0" using unmapped_iff [OF ok1 u(2)] pte by simp
    then obtain x where "pagedir_get_page (vm t) pd upage = Some x" "x \<noteq> 0" using get_page_pte [OF ok1 u(2)] by auto
    then have "install_page t upage k w = Some (False, t)" using p by (simp add: install_page_def)
    moreover have "user_cell s pd upage \<noteq> None" using False by (simp add: user_cell_def Let_def)
    ultimately show ?thesis by blast
  qed
qed

end
