(* ===== verification/Loader.thy ===== *)
theory Loader
  imports Address_Space
begin

text \<open>
  The loader of \<open>Process\<close> page by page and segment by segment: it never panics, what it has loaded is the
  file, and it succeeds when there is enough memory.
\<close>

subsection \<open>Loading a page\<close>

text \<open>What every step of the loader keeps: the address space is well-formed, and what was mapped in it stays.\<close>

definition progress :: "addr \<Rightarrow> task \<Rightarrow> task \<Rightarrow> bool" where
  "progress pd t t' \<longleftrightarrow> space_ok (vm t') pd \<and> same_machine (vm t) (vm t') \<and> pcb t' = pcb t \<and> tid t' = tid t \<and> tname t' = tname t \<and>
     idle (pfs t) (pfs t') \<and> palloc_used (pal (vm t)) \<subseteq> palloc_used (pal (vm t')) \<and>
     (\<forall>va. is_user_vaddr va \<and> user_cell (vm t) pd va \<noteq> None \<longrightarrow> user_cell (vm t') pd va = user_cell (vm t) pd va)"

definition same_file :: "ofile \<Rightarrow> ofile \<Rightarrow> bool" where
  "same_file f f' \<longleftrightarrow> finode f' = finode f \<and> deny_write f' = deny_write f \<and> (0 \<le> fpos f \<longrightarrow> 0 \<le> fpos f')"

lemma progress_refl: "space_ok (vm t) pd \<Longrightarrow> progress pd t t"
  by (simp add: progress_def)

lemma progress_trans: "progress pd t u \<Longrightarrow> progress pd u v \<Longrightarrow> progress pd t v"
  unfolding progress_def by (metis idle_trans same_machine_trans subset_trans)

lemma same_file_trans: "same_file f g \<Longrightarrow> same_file g h \<Longrightarrow> same_file f h"
  by (simp add: same_file_def)

lemma same_file_refl [simp]: "same_file f f"
  by (simp add: same_file_def)

lemma progress_quiet:
  assumes "space_ok (vm t) pd" "quiet (vm t) m" "idle (pfs t) h"
  shows "progress pd t (t\<lparr>pfs := h, vm := m\<rparr>)"
  using quiet_space [OF assms(2,1)] assms by (auto simp: progress_def quiet_def)

lemma file_read_ok:
  assumes "file_ok s (finode f)" "0 \<le> fpos f"
  shows "\<exists>bs s'. file_read s f sz = Some (bs, f\<lparr>fpos := fpos f + int (length bs)\<rparr>, s') \<and> idle s s' \<and> length bs \<le> nat sz \<and>
    bs = take (length bs) (drop (nat (fpos f)) (file_bytes s (finode f))) \<and>
    ((\<forall>n. avail s n) \<longrightarrow> length bs = min (nat sz) (length (file_bytes s (finode f)) - nat (fpos f)))"
proof -
  obtain n s' where "inode_read_at s (finode f) sz (fpos f) = Some (take n (drop (nat (fpos f)) (file_bytes s (finode f))), s')"
    "n \<le> nat sz" "avail s (reqs s) \<longrightarrow> n = nat sz" "idle s s'"
    using inode_read_at_ok [OF assms] by blast
  moreover have "take n xs = take (min n (length xs)) xs" for xs :: "u8 list" by (simp add: min_def)
  ultimately show ?thesis
    by (intro exI [of _ "take n (drop (nat (fpos f)) (file_bytes s (finode f)))"] exI [of _ s'] conjI)
      (auto simp: file_read_def min.commute)
qed

text \<open>Filling a page with bytes and zeros.\<close>

lemma fill_page:
  assumes "pg_ofs k = 0" "length bs \<le> 4096"
  shows "pg_no x \<noteq> pg_no k \<Longrightarrow> mem_write m k bs x = m x"
    "n = of_nat (length bs) \<Longrightarrow> pg_no x \<noteq> pg_no k \<Longrightarrow> mem_fill (mem_write m k bs) (k + n) 0 (PGSIZE - n) x = m x"
    "n = of_nat (length bs) \<Longrightarrow> mem_fill (mem_write m k bs) (k + n) 0 (PGSIZE - n) (k + pg_ofs va) =
       (if unat (pg_ofs va) < length bs then bs ! unat (pg_ofs va) else 0)"
proof -
  have ip: "unat (x - k) < 4096 \<longleftrightarrow> pg_no x = pg_no k" for x
    using in_page [OF assms(1), of x] by (simp add: word_less_nat_alt PG_simps)
  show w: "pg_no x \<noteq> pg_no k \<Longrightarrow> mem_write m k bs x = m x" for x using ip [of x] assms(2) by (auto simp: mem_write_def)
  assume n: "n = of_nat (length bs)"
  have un: "unat n = length bs" using assms(2) unat_of_nat_id [of "length bs", where 'a = 32] n by simp
  then have s: "unat (PGSIZE - n) = 4096 - length bs" using assms(2) by (simp add: unat_sub word_le_nat_alt PG_simps)
  obtain q where q: "unat k = 4096 * q" using assms(1) unat_pg_ofs [of k] by auto
  have "unat k < 2 ^ 32" using unsigned_less [of k, where 'a = nat] by simp
  then have k: "unat k + 4096 \<le> 2 ^ 32" using q by simp
  have zone: "x - (k + n) < PGSIZE - n \<longleftrightarrow> length bs \<le> unat (x - k) \<and> unat (x - k) < 4096" for x
  proof -
    have e: "x - (k + n) = (x - k) - n" by simp
    show ?thesis unfolding e word_less_nat_alt s using assms(2) un by (auto simp: unat_sub_if')
  qed
  show "pg_no x \<noteq> pg_no k \<Longrightarrow> mem_fill (mem_write m k bs) (k + n) 0 (PGSIZE - n) x = m x"
    using zone [of x] ip [of x] w by (auto simp: mem_fill_def)
  have "unat (pg_ofs va) < 4096" by (simp add: unat_pg_ofs)
  then show "mem_fill (mem_write m k bs) (k + n) 0 (PGSIZE - n) (k + pg_ofs va) =
      (if unat (pg_ofs va) < length bs then bs ! unat (pg_ofs va) else 0)"
    using zone [of "k + pg_ofs va"] by (simp add: mem_fill_def mem_write_def)
qed

text \<open>Why a page cannot be loaded.\<close>

definition stuck :: "addr \<Rightarrow> task \<Rightarrow> ofile \<Rightarrow> addr \<Rightarrow> nat \<Rightarrow> bool" where
  "stuck pd t f upage n \<longleftrightarrow> pool_pages (user_pool (pal (vm t))) \<subseteq> palloc_used (pal (vm t)) \<or>
     pool_pages (kernel_pool (pal (vm t))) \<subseteq> palloc_used (pal (vm t)) \<or> user_cell (vm t) pd upage \<noteq> None \<or>
     length (file_bytes (pfs t) (finode f)) - nat (fpos f) < n \<or> \<not> (\<forall>i. avail (pfs t) i)"

definition page_loaded :: "addr \<Rightarrow> task \<Rightarrow> ofile \<Rightarrow> addr \<Rightarrow> nat \<Rightarrow> bool \<Rightarrow> task \<Rightarrow> bool" where
  "page_loaded pd t f upage n w t' \<longleftrightarrow>
     n \<le> length (file_bytes (pfs t) (finode f)) - nat (fpos f) \<and> (\<exists>q. takes_page (vm t) q (vm t')) \<and> user_cell (vm t) pd upage = None \<and>
     (\<forall>va. is_user_vaddr va \<longrightarrow> user_cell (vm t') pd va = (if pg_round_down va = upage
        then Some (if unat (pg_ofs va) < n then file_bytes (pfs t) (finode f) ! (nat (fpos f) + unat (pg_ofs va)) else 0, w)
        else user_cell (vm t) pd va))"

lemma page_loaded_progress:
  assumes "page_loaded pd t f upage n w t'" "pg_ofs upage = 0" "space_ok (vm t') pd" "pcb t' = pcb t" "tid t' = tid t" "tname t' = tname t"
    "idle (pfs t) (pfs t')"
  shows "progress pd t t'"
proof -
  have "user_cell (vm t) pd va = None" if "pg_round_down va = upage" for va
    using assms(1) pte_at_page [OF assms(2) that] by (auto simp: page_loaded_def user_cell_def Let_def split: if_splits)
  then show ?thesis using assms by (auto simp: progress_def page_loaded_def takes_page_def)
qed

lemma load_page_ok:
  assumes ok: "space_ok (vm t) pd" and p: "pcb t = Some p" "pagedir p = pd" and f: "file_ok (pfs t) (finode f)" "0 \<le> fpos f"
    and u: "pg_ofs upage = 0" "is_user_vaddr upage" and n: "unat n \<le> 4096"
  shows "\<exists>r f' t'. load_page t f upage n (PGSIZE - n) w = Some (r, f', t') \<and> progress pd t t' \<and> same_file f f' \<and>
    (if r then page_loaded pd t f upage (unat n) w t' \<and> fpos f' = fpos f + int (unat n) else stuck pd t f upage (unat n) \<and> quiet (vm t) (vm t'))"
proof (cases rule: take_page [OF space_okD(6) [OF ok] user_flags(1,2)])
  case 1
  then show ?thesis using progress_refl [OF ok] space_okD(6) [OF ok] by (auto simp: load_page_def stuck_def quiet_def)
next
  case page: (2 k a)
  have sn: "sint n = int (unat n)" using n by (intro sint_small) simp
  have k: "pg_ofs k = 0" using page(3) by (simp add: filling_def)
  obtain bs h where r: "file_read (pfs t) f (sint n) = Some (bs, f\<lparr>fpos := fpos f + int (length bs)\<rparr>, h)" "idle (pfs t) h"
      "length bs \<le> unat n" "bs = take (length bs) (drop (nat (fpos f)) (file_bytes (pfs t) (finode f)))"
      "(\<forall>i. avail (pfs t) i) \<longrightarrow> length bs = min (unat n) (length (file_bytes (pfs t) (finode f)) - nat (fpos f))"
    using file_read_ok [OF f, of "sint n"] sn by auto
  let ?f = "f\<lparr>fpos := fpos f + int (length bs)\<rparr>"
  have sf: "same_file f ?f" by (simp add: same_file_def)
  have lb: "length bs \<le> 4096" using r(3) n by simp
  let ?m1 = "mem_write (ram a) k bs" and ?m2 = "mem_fill (mem_write (ram a) k bs) (k + n) 0 (PGSIZE - n)"
  let ?t = "\<lambda>m. t\<lparr>pfs := h, vm := (vm t)\<lparr>pal := a\<lparr>ram := m\<rparr>\<rparr>\<rparr>"
  have fill: "filling (vm t) k ((vm t)\<lparr>pal := a\<lparr>ram := m\<rparr>\<rparr>)" if "\<And>x. pg_no x \<noteq> pg_no k \<Longrightarrow> m x = ram a x" for m
    using filling_ram [OF page(3), of m] that by simp
  have bk: "\<exists>m'. free_page ((vm t)\<lparr>pal := a\<lparr>ram := m\<rparr>\<rparr>) k = Some m' \<and> progress pd t (t\<lparr>pfs := h, vm := m'\<rparr>) \<and> quiet (vm t) m'"
    if "\<And>x. pg_no x \<noteq> pg_no k \<Longrightarrow> m x = ram a x" for m
    using drop_page [OF fill [OF that]] progress_quiet [OF ok _ r(2)] by blast
  show ?thesis
  proof (cases "length bs = unat n")
    case False
    then have "length (file_bytes (pfs t) (finode f)) - nat (fpos f) < unat n \<or> \<not> (\<forall>i. avail (pfs t) i)" using r(3,5) by auto
    moreover obtain m' where "free_page ((vm t)\<lparr>pal := a\<lparr>ram := ?m1\<rparr>\<rparr>) k = Some m'" "progress pd t (t\<lparr>pfs := h, vm := m'\<rparr>)" "quiet (vm t) m'"
      using bk [of ?m1] fill_page(1) [OF k lb] by blast
    moreover have "int (length bs) \<noteq> sint n" using False unfolding sn of_nat_eq_iff .
    ultimately have "load_page t f upage n (PGSIZE - n) w = Some (False, ?f, t\<lparr>pfs := h, vm := m'\<rparr>)"
        "stuck pd t f upage (unat n)" "progress pd t (t\<lparr>pfs := h, vm := m'\<rparr>)" "quiet (vm t) m'"
      using page(1,2) r(1) by (auto simp: load_page_def set_ram_def stuck_def Let_def)
    then show ?thesis using sf by auto
  next
    case True
    then have nb: "n = of_nat (length bs)" by simp
    note fp = fill_page(2,3) [OF k lb nb, where m = "ram a"]
    have run: "load_page t f upage n (PGSIZE - n) w = Option.bind (install_page (?t ?m2) upage k w)
        (\<lambda>(ok, t). if \<not> ok then do { m \<leftarrow> free_page (vm t) k; Some (False, ?f, t\<lparr>vm := m\<rparr>) } else Some (True, ?f, t))"
    proof -
      have "sint n = int (length bs)" using True unfolding sn of_nat_eq_iff by simp
      then show ?thesis using page(1,2) r(1) by (simp add: load_page_def set_ram_def Let_def)
    qed
    have fl: "filling (vm t) k (vm (?t ?m2))" using fill [OF fp(1)] by simp
    have p': "pcb (?t ?m2) = Some p" using p(1) by simp
    from install_filling [OF ok fl u p' p(2), of w] show ?thesis
    proof (rule disjE; (elim exE conjE)?)
      assume i: "install_page (?t ?m2) upage k w = Some (False, ?t ?m2)"
        "user_cell (vm t) pd upage \<noteq> None \<or> pool_pages (kernel_pool (pal (vm t))) \<subseteq> palloc_used (pal (vm t))"
      obtain m' where "free_page ((vm t)\<lparr>pal := a\<lparr>ram := ?m2\<rparr>\<rparr>) k = Some m'" "progress pd t (t\<lparr>pfs := h, vm := m'\<rparr>)" "quiet (vm t) m'"
        using bk [of ?m2] fp(1) by blast
      then show ?thesis using i sf by (auto simp: run stuck_def)
    next
      fix s2
      assume i: "install_page (?t ?m2) upage k w = Some (True, (?t ?m2)\<lparr>vm := s2\<rparr>)" "space_ok s2 pd"
        "takes_page (vm t) (unat (pg_no k)) s2" "user_cell (vm t) pd upage = None"
        and c: "\<forall>va. is_user_vaddr va \<longrightarrow> user_cell s2 pd va =
          (if pg_round_down va = upage then Some (ram (pal (vm (?t ?m2))) (k + pg_ofs va), w) else user_cell (vm t) pd va)"
      let ?u = "t\<lparr>pfs := h, vm := s2\<rparr>"
      have len: "unat n \<le> length (file_bytes (pfs t) (finode f)) - nat (fpos f)" using arg_cong [OF r(4), of length] True by simp
      have "bs ! j = file_bytes (pfs t) (finode f) ! (nat (fpos f) + j)" if "j < length bs" for j
        using arg_cong [OF r(4), of "\<lambda>xs. xs ! j"] that len True by simp
      then have pl: "page_loaded pd t f upage (unat n) w ?u"
        using c len i(3,4) fp(2) True by (auto simp: page_loaded_def)
      moreover have "progress pd t ?u" by (rule page_loaded_progress [OF pl u(1)]) (use i r(2) in simp_all)
      ultimately show ?thesis using i(1) sf True by (auto simp: run)
    qed
  qed
qed

subsection \<open>Loading a segment\<close>

definition in_range :: "addr \<Rightarrow> nat \<Rightarrow> addr \<Rightarrow> bool" where
  "in_range u n va \<longleftrightarrow> unat u \<le> unat va \<and> unat va < unat u + n"

lemma in_range_0 [simp]: "\<not> in_range u 0 va"
  by (simp add: in_range_def)

text \<open>The segment at \<open>upage\<close> holds \<open>rb\<close> bytes of the file and then zeros, and everything else is as it was.\<close>

definition segment_loaded :: "addr \<Rightarrow> task \<Rightarrow> ofile \<Rightarrow> addr \<Rightarrow> nat \<Rightarrow> nat \<Rightarrow> bool \<Rightarrow> task \<Rightarrow> bool" where
  "segment_loaded pd t f upage rb len w t' \<longleftrightarrow> rb \<le> length (file_bytes (pfs t) (finode f)) - nat (fpos f) \<and>
     (\<forall>va. is_user_vaddr va \<longrightarrow> (in_range upage len va \<longrightarrow> user_cell (vm t) pd va = None) \<and>
        user_cell (vm t') pd va = (if in_range upage len va then Some (if unat va - unat upage < rb
            then file_bytes (pfs t) (finode f) ! (nat (fpos f) + (unat va - unat upage)) else 0, w)
          else user_cell (vm t) pd va))"

definition free_pages :: "mmu \<Rightarrow> pool \<Rightarrow> nat" where
  "free_pages s p = card (pool_pages p - palloc_used (pal s))"

text \<open>What is enough to load \<open>n\<close> pages.\<close>

definition enough :: "addr \<Rightarrow> task \<Rightarrow> ofile \<Rightarrow> addr \<Rightarrow> nat \<Rightarrow> nat \<Rightarrow> bool" where
  "enough pd t f upage rb n \<longleftrightarrow> n \<le> free_pages (vm t) (user_pool (pal (vm t))) \<and> n \<le> free_pages (vm t) (kernel_pool (pal (vm t))) \<and>
     (\<forall>va. in_range upage (4096 * n) va \<longrightarrow> user_cell (vm t) pd va = None) \<and>
     rb \<le> length (file_bytes (pfs t) (finode f)) - nat (fpos f) \<and> (\<forall>i. avail (pfs t) i)"

lemma page_range:
  assumes "pg_ofs u = 0"
  shows "pg_round_down va = u \<longleftrightarrow> in_range u 4096 va" "pg_round_down va = u \<Longrightarrow> unat (pg_ofs va) = unat va - unat u"
proof -
  obtain q where q: "unat u = 4096 * q" using assms unat_pg_ofs [of u] by auto
  have "pg_round_down va = u \<longleftrightarrow> unat va div 4096 = q" by (auto simp: word_unat_eq_iff unat_pg_round_down q)
  also have "\<dots> \<longleftrightarrow> in_range u 4096 va" by (auto simp: in_range_def q)
  finally show "pg_round_down va = u \<longleftrightarrow> in_range u 4096 va" .
  show "pg_round_down va = u \<Longrightarrow> unat (pg_ofs va) = unat va - unat u"
    by (auto simp: unat_pg_ofs unat_pg_round_down minus_div_mult_eq_mod)
qed

text \<open>At most \<open>n\<close> pages of each pool have been taken.\<close>

definition cost :: "nat \<Rightarrow> mmu \<Rightarrow> mmu \<Rightarrow> bool" where
  "cost n s s' \<longleftrightarrow> free_pages s (user_pool (pal s)) \<le> n + free_pages s' (user_pool (pal s')) \<and>
     free_pages s (kernel_pool (pal s)) \<le> n + free_pages s' (kernel_pool (pal s'))"

lemma cost_0 [simp]: "cost 0 s s"
  by (simp add: cost_def)

lemma cost_trans: "cost n s t \<Longrightarrow> cost m t u \<Longrightarrow> cost (n + m) s u"
  by (simp add: cost_def)

lemma takes_page_free:
  assumes t: "takes_page s q s'" and inv: "palloc_inv (pal s)"
  shows "cost 1 s s'"
proof -
  obtain P where P: "P \<subseteq> pool_pages (kernel_pool (pal s))" "card P \<le> 1" "palloc_used (pal s') = insert q (palloc_used (pal s)) \<union> P"
    using t by (auto simp: takes_page_def)
  have q: "q \<in> pool_pages (user_pool (pal s))" "pool_pages (user_pool (pal s')) = pool_pages (user_pool (pal s))"
      "pool_pages (kernel_pool (pal s')) = pool_pages (kernel_pool (pal s))"
    using t by (auto simp: takes_page_def same_machine_def)
  have dis: "pool_pages (kernel_pool (pal s)) \<inter> pool_pages (user_pool (pal s)) = {}" using inv by (simp add: palloc_inv_def)
  have fin: "finite (pool_pages p)" for p by (simp add: pool_pages_def)
  have "pool_pages (user_pool (pal s)) - palloc_used (pal s') = pool_pages (user_pool (pal s)) - palloc_used (pal s) - {q}"
    using P dis by auto
  then have u: "free_pages s (user_pool (pal s)) \<le> Suc (free_pages s' (user_pool (pal s')))"
    unfolding free_pages_def q using diff_card_le_card_Diff [of "{q}"] by (metis One_nat_def card.empty card.insert diff_le_mono2
        equals0D finite.intros(1) finite_insert le_diff_conv plus_1_eq_Suc add.commute)
  have "pool_pages (kernel_pool (pal s)) - palloc_used (pal s') = pool_pages (kernel_pool (pal s)) - palloc_used (pal s) - P"
    using P q(1) dis by auto
  then have "free_pages s (kernel_pool (pal s)) \<le> Suc (free_pages s' (kernel_pool (pal s')))"
    unfolding free_pages_def q using diff_card_le_card_Diff [OF finite_subset [OF P(1) fin], of "pool_pages (kernel_pool (pal s)) - palloc_used (pal s)"] P(2)
    by simp
  then show ?thesis using u by (simp add: cost_def)
qed

lemma enough_stuck:
  assumes "enough pd t f upage rb (Suc n)" "stuck pd t f upage k" "k \<le> rb"
  shows False
proof -
  have "\<not> pool_pages p \<subseteq> palloc_used (pal (vm t))" if "Suc n \<le> free_pages (vm t) p" for p
    using that by (metis Diff_eq_empty_iff card.empty free_pages_def not_less_eq_eq zero_le)
  moreover have "in_range upage (4096 * Suc n) upage" by (simp add: in_range_def)
  ultimately show False using assms by (auto simp: enough_def stuck_def)
qed

lemma segment_cons:
  assumes pl: "page_loaded pd t f upage n w t1" and u: "pg_ofs upage = 0" "unat u1 = unat upage + 4096"
    and i: "idle (pfs t) (pfs t1)" and f: "finode f1 = finode f" "fpos f1 = fpos f + int n" "0 \<le> fpos f"
    and s: "segment_loaded pd t1 f1 u1 rb len w t2" and r: "rb \<noteq> 0 \<longrightarrow> n = 4096" "n \<le> 4096"
  shows "segment_loaded pd t f upage (n + rb) (4096 + len) w t2"
proof -
  let ?F = "file_bytes (pfs t) (finode f)"
  have F: "file_bytes (pfs t1) (finode f1) = ?F" "nat (fpos f1) = nat (fpos f) + n" using idle_file(3) [OF i] f by simp_all
  have first: "pg_round_down va = upage \<longleftrightarrow> in_range upage 4096 va" "in_range upage 4096 va \<Longrightarrow> unat (pg_ofs va) = unat va - unat upage" for va
    using page_range [OF u(1), of va] by blast+
  have "n \<le> length ?F - nat (fpos f)" using pl by (simp add: page_loaded_def)
  moreover have "rb \<le> length ?F - (nat (fpos f) + n)" using s by (simp add: segment_loaded_def F)
  ultimately have len: "n + rb \<le> length ?F - nat (fpos f)" by simp
  have "(in_range upage (4096 + len) va \<longrightarrow> user_cell (vm t) pd va = None) \<and>
    user_cell (vm t2) pd va = (if in_range upage (4096 + len) va then Some (if unat va - unat upage < n + rb
      then ?F ! (nat (fpos f) + (unat va - unat upage)) else 0, w) else user_cell (vm t) pd va)" if va: "is_user_vaddr va" for va
  proof -
    have c1: "user_cell (vm t1) pd va = (if in_range upage 4096 va then Some (if unat va - unat upage < n
        then ?F ! (nat (fpos f) + (unat va - unat upage)) else 0, w) else user_cell (vm t) pd va)"
      using pl va first [of va] by (auto simp: page_loaded_def)
    have c2: "in_range u1 len va \<longrightarrow> user_cell (vm t1) pd va = None" "user_cell (vm t2) pd va = (if in_range u1 len va then
        Some (if unat va - unat u1 < rb then ?F ! (nat (fpos f) + n + (unat va - unat u1)) else 0, w) else user_cell (vm t1) pd va)"
      using s va by (simp_all add: segment_loaded_def F)
    have split: "in_range upage (4096 + len) va \<longleftrightarrow> in_range upage 4096 va \<or> in_range u1 len va"
      "in_range u1 len va \<Longrightarrow> \<not> in_range upage 4096 va" using u(2) by (auto simp: in_range_def)
    have un: "user_cell (vm t) pd va = None" if "in_range upage 4096 va"
      using pl first(1) [of va] that pte_at_page [OF u(1), of va] by (auto simp: page_loaded_def user_cell_def Let_def split: if_splits)
    show ?thesis
    proof (cases "in_range u1 len va")
      case True
      then have "unat va - unat upage = 4096 + (unat va - unat u1)" using u(2) by (simp add: in_range_def)
      then show ?thesis using True c1 c2 split r by (auto simp: add.assoc)
    next
      case False
      moreover have "unat va - unat upage < n \<longleftrightarrow> unat va - unat upage < n + rb" if "in_range upage 4096 va"
        using that r by (auto simp: in_range_def)
      ultimately show ?thesis using c1 c2 split(1) un by auto
    qed
  qed
  then show ?thesis using len by (simp add: segment_loaded_def)
qed

lemma enough_step:
  assumes e: "enough pd t f upage rb (Suc n)" and pl: "page_loaded pd t f upage k w t1" and u: "pg_ofs upage = 0" "unat u1 = unat upage + 4096"
    and i: "idle (pfs t) (pfs t1)" and f: "finode f1 = finode f" "fpos f1 = fpos f + int k" "0 \<le> fpos f" and inv: "palloc_inv (pal (vm t))"
    and user: "\<And>va. in_range upage (4096 * Suc n) va \<Longrightarrow> is_user_vaddr va"
  shows "enough pd t1 f1 u1 (rb - k) n"
proof -
  obtain q where "takes_page (vm t) q (vm t1)" using pl by (auto simp: page_loaded_def)
  note fr = takes_page_free [OF this inv]
  have F: "file_bytes (pfs t1) (finode f1) = file_bytes (pfs t) (finode f)" "nat (fpos f1) = nat (fpos f) + k"
    using idle_file(3) [OF i] f by simp_all
  have "user_cell (vm t1) pd va = None" if "in_range u1 (4096 * n) va" for va
  proof -
    have "in_range upage (4096 * Suc n) va" "\<not> in_range upage 4096 va" using that u(2) by (auto simp: in_range_def)
    then show ?thesis using e pl user [of va] page_range(1) [OF u(1), of va] by (simp add: enough_def page_loaded_def)
  qed
  then show ?thesis using e fr idle_file(5) [OF i] by (auto simp: enough_def cost_def F)
qed

lemma range_user:
  assumes "unat u + n \<le> 0xc0000000" "in_range u n va"
  shows "is_user_vaddr va"
  using assms by (simp add: in_range_def is_user_vaddr_def word_less_nat_alt PHYS_BASE_def)

lemma progress_file: "progress pd t t' \<Longrightarrow> same_file f f' \<Longrightarrow> file_ok (pfs t) (finode f) \<Longrightarrow> file_ok (pfs t') (finode f')"
  using idle_file(1) by (auto simp: progress_def same_file_def)

lemma page_sizes:
  assumes "unat rb + unat zb = 4096 * Suc n" "k = (if rb < PGSIZE then rb else PGSIZE)"
  shows "unat k \<le> 4096" "unat k \<le> unat rb" "unat (rb - k) = unat rb - unat k" "unat (rb - k) + unat (zb - (PGSIZE - k)) = 4096 * n"
    "unat (rb - k) \<noteq> 0 \<longrightarrow> unat k = 4096"
proof -
  have k: "unat k = min (unat rb) 4096" using assms(2) by (auto simp: min_def word_less_nat_alt PG_simps)
  then show a: "unat k \<le> 4096" "unat k \<le> unat rb" by auto
  then show b: "unat (rb - k) = unat rb - unat k" by (simp add: unat_sub word_le_nat_alt)
  have p: "unat (PGSIZE - k) = 4096 - unat k" using a by (simp add: unat_sub word_le_nat_alt PG_simps)
  have "4096 - unat k \<le> unat zb" using k assms(1) by auto
  then have "unat (zb - (PGSIZE - k)) = unat zb - (4096 - unat k)" using p by (simp add: unat_sub word_le_nat_alt)
  then show "unat (rb - k) + unat (zb - (PGSIZE - k)) = 4096 * n" using b k assms(1) by auto
  show "unat (rb - k) \<noteq> 0 \<longrightarrow> unat k = 4096" using b k by auto
qed

lemma load_segment_loop_ok:
  assumes "space_ok (vm t) pd" "pcb t = Some p" "pagedir p = pd" "file_ok (pfs t) (finode f)" "0 \<le> fpos f"
    "pg_ofs upage = 0" "unat rb + unat zb = 4096 * n" "unat upage + 4096 * n \<le> 0xc0000000"
  shows "\<exists>r f' t'. load_segment_loop t f upage rb zb w = Some (r, f', t') \<and> progress pd t t' \<and> same_file f f' \<and>
    (r \<longrightarrow> segment_loaded pd t f upage (unat rb) (4096 * n) w t' \<and> cost n (vm t) (vm t')) \<and> (enough pd t f upage (unat rb) n \<longrightarrow> r)"
  using assms
proof (induction n arbitrary: t f upage rb zb)
  case 0
  then have "rb = 0" "zb = 0" by (simp_all add: unat_eq_zero)
  then show ?case
    using progress_refl [OF 0(1)]
    by (intro exI [of _ True] exI [of _ f] exI [of _ t], subst load_segment_loop.simps) (simp add: segment_loaded_def)
next
  case (Suc n)
  let ?k = "if rb < PGSIZE then rb else PGSIZE"
  let ?u = "upage + PGSIZE"
  note sz = page_sizes [OF Suc.prems(7) refl]
  have pos: "rb > 0 \<or> zb > 0" using Suc.prems(7) by (auto simp: word_gt_0)
  have uu: "is_user_vaddr upage" using Suc.prems(8) by (simp add: is_user_vaddr_def word_less_nat_alt PHYS_BASE_def)
  have u1: "unat ?u = unat upage + 4096" "pg_ofs ?u = 0"
    using page_step [OF Suc.prems(6), of 1] Suc.prems(8) by (simp_all add: unat_pg_no PG_simps)
  obtain r f1 t1 where s: "load_page t f upage ?k (PGSIZE - ?k) w = Some (r, f1, t1)" "progress pd t t1" "same_file f f1"
    and l: "if r then page_loaded pd t f upage (unat ?k) w t1 \<and> fpos f1 = fpos f + int (unat ?k) else stuck pd t f upage (unat ?k) \<and> quiet (vm t) (vm t1)"
    using load_page_ok [OF Suc.prems(1-6) uu sz(1), of w] by blast
  show ?case
  proof (cases r)
    case False
    then have "\<not> enough pd t f upage (unat rb) (Suc n)" using l enough_stuck sz(2) by auto
    moreover have "load_segment_loop t f upage rb zb w = Some (False, f1, t1)"
      using s False pos by (subst load_segment_loop.simps) (simp add: Let_def)
    ultimately show ?thesis using s by auto
  next
    case True
    have pl: "page_loaded pd t f upage (unat ?k) w t1" "fpos f1 = fpos f + int (unat ?k)" using l True by simp_all
    have i: "idle (pfs t) (pfs t1)" "finode f1 = finode f" "pcb t1 = Some p" "space_ok (vm t1) pd" "file_ok (pfs t1) (finode f1)" "0 \<le> fpos f1"
      using s(2,3) Suc.prems(2,5) progress_file [OF s(2,3) Suc.prems(4)] by (auto simp: progress_def same_file_def)
    obtain r2 f2 t2 where t2: "load_segment_loop t1 f1 ?u (rb - ?k) (zb - (PGSIZE - ?k)) w = Some (r2, f2, t2)" "progress pd t1 t2" "same_file f1 f2"
      "r2 \<longrightarrow> segment_loaded pd t1 f1 ?u (unat (rb - ?k)) (4096 * n) w t2 \<and> cost n (vm t1) (vm t2)" "enough pd t1 f1 ?u (unat (rb - ?k)) n \<longrightarrow> r2"
      using Suc.IH [OF i(4,3) Suc.prems(3) i(5,6) u1(2) sz(4)] Suc.prems(8) u1(1) by auto
    have run: "load_segment_loop t f upage rb zb w = Some (r2, f2, t2)"
      using s(1) t2(1) True pos by (subst load_segment_loop.simps) (simp add: Let_def)
    have "segment_loaded pd t f upage (unat rb) (4096 * Suc n) w t2" if r2
      using segment_cons [OF pl(1) Suc.prems(6) u1(1) i(1,2) pl(2) Suc.prems(5) _ sz(5,1)] t2(4) that sz(2,3) by simp
    moreover have "cost (Suc n) (vm t) (vm t2)" if r2
    proof -
      obtain q where "takes_page (vm t) q (vm t1)" using pl(1) by (auto simp: page_loaded_def)
      from cost_trans [OF takes_page_free [OF this space_okD(6) [OF Suc.prems(1)]]] show ?thesis using t2(4) that by simp
    qed
    moreover have "r2" if "enough pd t f upage (unat rb) (Suc n)"
      using enough_step [OF that pl(1) Suc.prems(6) u1(1) i(1,2) pl(2) Suc.prems(5) space_okD(6) [OF Suc.prems(1)] range_user [OF Suc.prems(8)]]
        t2(5) sz(3) by simp
    ultimately show ?thesis
      using run progress_trans [OF s(2) t2(2)] same_file_trans [OF s(3) t2(3)] by blast
  qed
qed

lemma load_segment_ok:
  assumes "space_ok (vm t) pd" "pcb t = Some p" "pagedir p = pd" "file_ok (pfs t) (finode f)" "0 \<le> ofs" "ofs < 2 ^ 31" "ofs mod 4096 = 0"
    "pg_ofs upage = 0" "unat rb + unat zb = 4096 * n" "unat upage + 4096 * n \<le> 0xc0000000"
  shows "\<exists>r f' t'. load_segment t f ofs upage rb zb w = Some (r, f', t') \<and> progress pd t t' \<and> same_file f f' \<and>
    (r \<longrightarrow> segment_loaded pd t (f\<lparr>fpos := ofs\<rparr>) upage (unat rb) (4096 * n) w t' \<and> cost n (vm t) (vm t')) \<and> (enough pd t (f\<lparr>fpos := ofs\<rparr>) upage (unat rb) n \<longrightarrow> r)"
proof -
  let ?f = "f\<lparr>fpos := ofs\<rparr>"
  have f: "file_ok (pfs t) (finode ?f)" "0 \<le> fpos ?f" using assms(4,5) by simp_all
  obtain r f' t' where l: "load_segment_loop t ?f upage rb zb w = Some (r, f', t')" "progress pd t t'" "same_file ?f f'"
      "r \<longrightarrow> segment_loaded pd t ?f upage (unat rb) (4096 * n) w t' \<and> cost n (vm t) (vm t')" "enough pd t ?f upage (unat rb) n \<longrightarrow> r"
    using load_segment_loop_ok [OF assms(1-3) f assms(8-10), of w] by blast
  have "unat (rb + zb) = 4096 * n" using assms(9,10) by (simp add: unat_plus_if')
  then have 1: "(rb + zb) mod PGSIZE = 0" by (simp add: word_unat_eq_iff unat_mod PG_simps)
  have 2: "(word_of_int ofs :: u32) mod PGSIZE = 0"
    using assms(5-7) by (simp add: word_uint_eq_iff uint_mod PG_simps uint_word_of_int take_bit_int_eq_self)
  have "load_segment t f ofs upage rb zb w = Some (r, f', t')"
    using 1 2 assms(5,8) l(1) by (simp add: load_segment_def file_seek_def)
  moreover have "same_file f f'" using l(3) assms(5) by (simp add: same_file_def)
  ultimately show ?thesis using l by blast
qed

text \<open>The stack is a page of zeros.\<close>

definition stack_page :: addr where
  "stack_page = PHYS_BASE - PGSIZE"

lemma stack_page: "stack_page = 0xbffff000" "pg_ofs stack_page = 0" "is_user_vaddr stack_page"
  by (simp_all add: stack_page_def PG_simps PHYS_BASE_def pg_ofs_def is_user_vaddr_def)

lemma setup_stack_ok:
  assumes ok: "space_ok (vm t) pd" and p: "pcb t = Some p" "pagedir p = pd"
  shows "\<exists>r e t'. setup_stack t e0 = Some (r, e, t') \<and> progress pd t t' \<and>
    (if r then e = PHYS_BASE - 20 \<and> (\<forall>va. is_user_vaddr va \<longrightarrow> user_cell (vm t') pd va = (if pg_round_down va = stack_page then Some (0, True) else user_cell (vm t) pd va))
     else e = e0 \<and> (pool_pages (user_pool (pal (vm t))) \<subseteq> palloc_used (pal (vm t)) \<or>
       pool_pages (kernel_pool (pal (vm t))) \<subseteq> palloc_used (pal (vm t)) \<or> user_cell (vm t) pd stack_page \<noteq> None))"
proof (cases rule: take_page [OF space_okD(6) [OF ok] user_flags(3,4)])
  case 1
  then show ?thesis using progress_refl [OF ok] by (auto simp: setup_stack_def)
next
  case page: (2 k a)
  let ?t = "t\<lparr>vm := (vm t)\<lparr>pal := a\<rparr>\<rparr>"
  have k: "pg_ofs k = 0" using page(3) by (simp add: filling_def)
  have fl: "filling (vm t) k (vm ?t)" using page(3) by simp
  have p': "pcb ?t = Some p" using p(1) by simp
  have run: "setup_stack t e0 = Option.bind (install_page ?t stack_page k True) (\<lambda>(success, t).
      if success then Some (True, PHYS_BASE - 20, t) else do { m \<leftarrow> free_page (vm t) k; Some (False, e0, t\<lparr>vm := m\<rparr>) })"
    using page(1,2) by (simp add: setup_stack_def stack_page_def Let_def)
  from install_filling [OF ok fl stack_page(2,3) p' p(2), of True] show ?thesis
  proof (rule disjE; (elim exE conjE)?)
    assume i: "install_page ?t stack_page k True = Some (False, ?t)"
      "user_cell (vm t) pd stack_page \<noteq> None \<or> pool_pages (kernel_pool (pal (vm t))) \<subseteq> palloc_used (pal (vm t))"
    obtain m where m: "free_page (vm ?t) k = Some m" "quiet (vm t) m" using drop_page [OF fl] by blast
    then have "progress pd t (t\<lparr>vm := m\<rparr>)" using progress_quiet [OF ok m(2), of "pfs t"] by simp
    then show ?thesis using m i by (auto simp: run)
  next
    fix s2
    assume i: "install_page ?t stack_page k True = Some (True, ?t\<lparr>vm := s2\<rparr>)" "space_ok s2 pd"
      "takes_page (vm t) (unat (pg_no k)) s2" "user_cell (vm t) pd stack_page = None"
      and c: "\<forall>va. is_user_vaddr va \<longrightarrow> user_cell s2 pd va =
        (if pg_round_down va = stack_page then Some (ram (pal (vm ?t)) (k + pg_ofs va), True) else user_cell (vm t) pd va)"
    have z: "ram a (k + pg_ofs va) = 0" for va
      using page(4) user_flags(5) in_page [OF k, of "k + pg_ofs va"] frame_page [OF k, of va] by (simp add: mem_fill_def)
    then have c': "\<forall>va. is_user_vaddr va \<longrightarrow> user_cell s2 pd va = (if pg_round_down va = stack_page then Some (0, True) else user_cell (vm t) pd va)"
      using c by simp
    have un: "user_cell (vm t) pd va = None" if "pg_round_down va = stack_page" for va
      using i(4) pte_at_page [OF stack_page(2) that] by (auto simp: user_cell_def Let_def split: if_splits)
    then have "progress pd t (t\<lparr>vm := s2\<rparr>)" using i(2,3) c' by (auto simp: progress_def takes_page_def)
    then show ?thesis using i(1) c' by (auto simp: run)
  qed
qed

end
