(* ===== verification/Elf_Loader.thy ===== *)
theory Elf_Loader
  imports Loader
begin

text \<open>
  Executables: program headers and the file as a whole. Whatever the bytes of the file are, loading it never
  panics; when it succeeds, every loadable segment is in memory.
\<close>

subsection \<open>Program headers\<close>

definition valid_segment :: "Elf32_Phdr \<Rightarrow> nat \<Rightarrow> bool" where
  "valid_segment ph len \<longleftrightarrow> unat (p_offset ph) mod 4096 = unat (p_vaddr ph) mod 4096 \<and> unat (p_offset ph) \<le> len \<and>
     unat (p_filesz ph) \<le> unat (p_memsz ph) \<and> 0 < unat (p_memsz ph) \<and> 4096 \<le> unat (p_vaddr ph) \<and>
     unat (p_vaddr ph) + unat (p_memsz ph) < 0xc0000000"

lemma file_length_ok:
  assumes "file_ok s (finode f)"
  shows "file_length s f = Some (int (length (file_bytes s (finode f))))" "length (file_bytes s (finode f)) < 2 ^ 31"
proof -
  obtain n where n: "get_inode s (finode f) = Some n" "on_device (fs_device s) (idata n)" using assms by (auto simp: file_ok_def split: option.splits)
  then show "file_length s f = Some (int (length (file_bytes s (finode f))))"
    by (simp add: file_length_def inode_length_def file_bytes_def on_device_def)
  show "length (file_bytes s (finode f)) < 2 ^ 31" using n by (simp add: file_bytes_def on_device_def nat_less_iff)
qed

lemma validate_segment_ok:
  assumes "file_ok s (finode f)"
  shows "validate_segment s ph f = Some (valid_segment ph (length (file_bytes s (finode f))))"
proof -
  let ?L = "length (file_bytes s (finode f))"
  have L: "unat (word_of_int (int ?L) :: u32) = ?L" using file_length_ok(2) [OF assms] by (simp add: unat_of_nat_id)
  let ?v = "p_vaddr ph" and ?m = "p_memsz ph"
  have o: "p_offset ph AND PGMASK = ?v AND PGMASK \<longleftrightarrow> unat (p_offset ph) mod 4096 = unat ?v mod 4096"
    using unat_pg_ofs [of "p_offset ph"] unat_pg_ofs [of ?v] by (simp add: pg_ofs_def word_unat_eq_iff)
  have "is_user_vaddr ?v \<and> is_user_vaddr (?v + ?m) \<and> \<not> ?v + ?m < ?v \<longleftrightarrow> unat ?v + unat ?m < 0xc0000000"
  proof -
    have "unat ?v < 2 ^ 32" "unat ?m < 2 ^ 32" using unsigned_less [of ?v, where 'a = nat] unsigned_less [of ?m, where 'a = nat] by simp_all
    then show ?thesis by (auto simp: is_user_vaddr_def word_less_nat_alt PHYS_BASE_def unat_plus_if' split: if_splits)
  qed
  moreover have "?m \<noteq> 0 \<longleftrightarrow> 0 < unat ?m" by (simp add: unat_gt_0)
  ultimately show ?thesis
    using L o file_length_ok(1) [OF assms] by (auto simp: validate_segment_def valid_segment_def word_less_nat_alt PG_simps)
qed

text \<open>A loadable segment is in memory.\<close>

definition has_segment :: "mmu \<Rightarrow> addr \<Rightarrow> u8 list \<Rightarrow> Elf32_Phdr \<Rightarrow> bool" where
  "has_segment s pd F ph \<longleftrightarrow> valid_segment ph (length F) \<and> unat (p_offset ph) + unat (p_filesz ph) \<le> length F \<and>
     (\<forall>i < unat (p_memsz ph). user_cell s pd (p_vaddr ph + of_nat i) =
        Some (if i < unat (p_filesz ph) then F ! (unat (p_offset ph) + i) else 0, p_flags ph AND PF_W \<noteq> 0))"

definition read_size :: "Elf32_Phdr \<Rightarrow> u32" where
  "read_size ph = (if p_filesz ph > 0 then pg_ofs (p_vaddr ph) + p_filesz ph else 0)"

definition zero_size :: "Elf32_Phdr \<Rightarrow> u32" where
  "zero_size ph = (if p_filesz ph > 0 then ROUND_UP (pg_ofs (p_vaddr ph) + p_memsz ph) PGSIZE - read_size ph
     else ROUND_UP (pg_ofs (p_vaddr ph) + p_memsz ph) PGSIZE)"

definition page_cnt :: "Elf32_Phdr \<Rightarrow> nat" where
  "page_cnt ph = (unat (p_vaddr ph) mod 4096 + unat (p_memsz ph) + 4095) div 4096"

lemma pages_fit: "4096 * q + x < 4096 * n \<Longrightarrow> q + (x + 4095) div 4096 \<le> n" for n :: nat
  by linarith

lemma segment_sizes:
  assumes v: "valid_segment ph len"
  shows "unat (read_size ph) = (if 0 < unat (p_filesz ph) then unat (p_vaddr ph) mod 4096 + unat (p_filesz ph) else 0)"
    "unat (read_size ph) + unat (zero_size ph) = 4096 * page_cnt ph"
    "unat (pg_round_down (p_vaddr ph)) + 4096 * page_cnt ph \<le> 0xc0000000"
    "unat (p_vaddr ph) mod 4096 + unat (p_memsz ph) \<le> 4096 * page_cnt ph"
proof -
  let ?o = "unat (p_vaddr ph) mod 4096" and ?q = "unat (p_vaddr ph) div 4096"
  note d = v [unfolded valid_segment_def]
  have "4096 * ?q + ?o = unat (p_vaddr ph)" by simp
  then have "4096 * ?q + (?o + unat (p_memsz ph)) < 4096 * 0xc0000" using d by linarith
  from pages_fit [OF this] have "4096 * ?q + 4096 * page_cnt ph \<le> 4096 * 0xc0000" by (simp add: page_cnt_def)
  then show pages: "unat (pg_round_down (p_vaddr ph)) + 4096 * page_cnt ph \<le> 0xc0000000" by (simp add: unat_pg_round_down)
  show m: "?o + unat (p_memsz ph) \<le> 4096 * page_cnt ph"
    unfolding page_cnt_def using round_up_ge [of "?o + unat (p_memsz ph)"] by simp
  have o4: "?o < 4096" by simp
  have small: "?o + unat (p_memsz ph) < 0xc0001000" "?o + unat (p_filesz ph) < 0xc0001000" using d o4 by linarith+
  have a: "unat (pg_ofs (p_vaddr ph) + p_memsz ph) = ?o + unat (p_memsz ph)"
    using small by (simp add: unat_plus_if' unat_pg_ofs)
  have rs: "unat (pg_ofs (p_vaddr ph) + p_filesz ph) = ?o + unat (p_filesz ph)"
    using small by (simp add: unat_plus_if' unat_pg_ofs)
  then show r: "unat (read_size ph) = (if 0 < unat (p_filesz ph) then ?o + unat (p_filesz ph) else 0)"
    by (simp add: read_size_def word_less_nat_alt)
  have "unat (pg_ofs (p_vaddr ph) + p_memsz ph + PGSIZE - 1) = ?o + unat (p_memsz ph) + 4095"
  proof -
    have "unat (pg_ofs (p_vaddr ph) + p_memsz ph + 4095) = ?o + unat (p_memsz ph) + 4095"
      using small a unat_plus_le [of "pg_ofs (p_vaddr ph) + p_memsz ph" 4095 "0xffffffff"] by simp
    then show ?thesis by (simp add: PG_simps add_diff_eq [symmetric])
  qed
  then have "unat (ROUND_UP (pg_ofs (p_vaddr ph) + p_memsz ph) PGSIZE) = page_cnt ph * 4096 mod 2 ^ 32"
    by (simp add: ROUND_UP_def page_cnt_def unat_word_ariths unat_div PG_simps)
  then have ru: "unat (ROUND_UP (pg_ofs (p_vaddr ph) + p_memsz ph) PGSIZE) = 4096 * page_cnt ph" using pages by simp
  have le: "read_size ph \<le> ROUND_UP (pg_ofs (p_vaddr ph) + p_memsz ph) PGSIZE"
    unfolding word_le_nat_alt ru r using d m by auto
  have "unat (ROUND_UP (pg_ofs (p_vaddr ph) + p_memsz ph) PGSIZE - read_size ph) = 4096 * page_cnt ph - unat (read_size ph)"
    unfolding unat_sub [OF le] ru ..
  moreover have "unat (read_size ph) \<le> 4096 * page_cnt ph" using le by (simp add: word_le_nat_alt ru)
  ultimately show "unat (read_size ph) + unat (zero_size ph) = 4096 * page_cnt ph"
    using ru by (cases "0 < p_filesz ph") (simp_all add: zero_size_def, simp add: read_size_def)
qed

lemma segment_in_memory:
  assumes v: "valid_segment ph (length F)"
    and s: "segment_loaded pd t f (pg_round_down (p_vaddr ph)) (unat (read_size ph)) (4096 * page_cnt ph) (p_flags ph AND PF_W \<noteq> 0) t'"
    and f: "F = file_bytes (pfs t) (finode f)" "nat (fpos f) = unat (p_offset ph) div 4096 * 4096"
  shows "has_segment (vm t') pd F ph"
proof -
  note d = v [unfolded valid_segment_def] and z = segment_sizes [OF v]
  let ?o = "unat (p_vaddr ph) mod 4096" and ?u = "pg_round_down (p_vaddr ph)"
  have off: "unat (p_offset ph) div 4096 * 4096 + ?o = unat (p_offset ph)" using d div_mult_mod_eq by metis
  have len: "unat (p_offset ph) + unat (p_filesz ph) \<le> length F"
  proof (cases "0 < unat (p_filesz ph)")
    case True
    then have "?o + unat (p_filesz ph) \<le> length F - unat (p_offset ph) div 4096 * 4096"
      using s z(1) f by (simp add: segment_loaded_def)
    then show ?thesis using True off by linarith
  qed (use d in simp)
  have "user_cell (vm t') pd (p_vaddr ph + of_nat i) =
      Some (if i < unat (p_filesz ph) then F ! (unat (p_offset ph) + i) else 0, p_flags ph AND PF_W \<noteq> 0)" if i: "i < unat (p_memsz ph)" for i
  proof -
    let ?va = "p_vaddr ph + of_nat i"
    have "unat (p_memsz ph) < 2 ^ 32" using unsigned_less [of "p_memsz ph", where 'a = nat] by simp
    then have "unat (of_nat i :: u32) = i" using i unat_of_nat_id [of i, where 'a = 32] by simp
    then have va: "unat ?va = unat (p_vaddr ph) + i" using i d by (simp add: unat_plus_if')
    have u: "unat ?u + ?o = unat (p_vaddr ph)" by (simp add: unat_pg_round_down)
    have "in_range ?u (4096 * page_cnt ph) ?va" using va u z(4) i by (simp add: in_range_def)
    moreover have "is_user_vaddr ?va" using va i d by (simp add: is_user_vaddr_def word_less_nat_alt PHYS_BASE_def)
    ultimately have c: "user_cell (vm t') pd ?va = Some (if unat ?va - unat ?u < unat (read_size ph)
        then F ! (nat (fpos f) + (unat ?va - unat ?u)) else 0, p_flags ph AND PF_W \<noteq> 0)"
      using s f(1) by (simp add: segment_loaded_def)
    have dist: "unat ?va - unat ?u = ?o + i" using va u by simp
    have "unat ?va - unat ?u < unat (read_size ph) \<longleftrightarrow> i < unat (p_filesz ph)" unfolding dist z(1) using i by auto
    moreover have "nat (fpos f) + (unat ?va - unat ?u) = unat (p_offset ph) + i" unfolding dist f(2) using off by simp
    ultimately show ?thesis unfolding c by simp
  qed
  then show ?thesis using v len by (simp add: has_segment_def)
qed

text \<open>The pages of a segment, and what is enough to load it.\<close>

definition seg_range :: "Elf32_Phdr \<Rightarrow> addr \<Rightarrow> bool" where
  "seg_range ph va \<longleftrightarrow> p_type ph = PT_LOAD \<and> in_range (pg_round_down (p_vaddr ph)) (4096 * page_cnt ph) va"

definition seg_pages :: "Elf32_Phdr \<Rightarrow> nat" where
  "seg_pages ph = (if p_type ph = PT_LOAD then page_cnt ph else 0)"

definition bad_type :: "Elf32_Phdr \<Rightarrow> bool" where
  "bad_type ph \<longleftrightarrow> p_type ph = PT_DYNAMIC \<or> p_type ph = PT_INTERP \<or> p_type ph = PT_SHLIB"

definition phdr_valid :: "u8 list \<Rightarrow> Elf32_Phdr \<Rightarrow> bool" where
  "phdr_valid F ph \<longleftrightarrow> \<not> bad_type ph \<and>
     (p_type ph = PT_LOAD \<longrightarrow> valid_segment ph (length F) \<and> unat (p_offset ph) + unat (p_filesz ph) \<le> length F)"

definition phdr_fits :: "mmu \<Rightarrow> addr \<Rightarrow> u8 list \<Rightarrow> Elf32_Phdr \<Rightarrow> bool" where
  "phdr_fits s pd F ph \<longleftrightarrow> phdr_valid F ph \<and> (\<forall>va. seg_range ph va \<longrightarrow> user_cell s pd va = None)"

definition phdr_room :: "mmu \<Rightarrow> Elf32_Phdr \<Rightarrow> bool" where
  "phdr_room s ph \<longleftrightarrow> seg_pages ph \<le> free_pages s (user_pool (pal s)) \<and> seg_pages ph \<le> free_pages s (kernel_pool (pal s))"

text \<open>A header has been dealt with: its segment is in memory, and nothing else has changed.\<close>

definition phdr_done :: "addr \<Rightarrow> u8 list \<Rightarrow> Elf32_Phdr \<Rightarrow> mmu \<Rightarrow> mmu \<Rightarrow> bool" where
  "phdr_done pd F ph s s' \<longleftrightarrow> \<not> bad_type ph \<and> (p_type ph = PT_LOAD \<longrightarrow> has_segment s' pd F ph) \<and> cost (seg_pages ph) s s' \<and>
     (\<forall>va. is_user_vaddr va \<and> \<not> seg_range ph va \<longrightarrow> user_cell s' pd va = user_cell s pd va)"

lemma enough_segment:
  assumes ft: "phdr_fits (vm t) pd F ph" and ty: "p_type ph = PT_LOAD" and F: "F = file_bytes (pfs t) (finode f)" "\<forall>i. avail (pfs t) i"
    and ofs: "nat (fpos f) = unat (p_offset ph) div 4096 * 4096"
    and c: "phdr_room (vm t) ph"
  shows "enough pd t f (pg_round_down (p_vaddr ph)) (unat (read_size ph)) (page_cnt ph)"
proof -
  have v: "valid_segment ph (length F)" "unat (p_offset ph) + unat (p_filesz ph) \<le> length F" using ft ty by (simp_all add: phdr_fits_def phdr_valid_def)
  have "unat (p_offset ph) div 4096 * 4096 + unat (p_vaddr ph) mod 4096 = unat (p_offset ph)"
    using v(1) div_mult_mod_eq by (metis valid_segment_def)
  then have "unat (read_size ph) \<le> length F - nat (fpos f)"
    unfolding segment_sizes(1) [OF v(1)] ofs using v(2) by auto
  then show ?thesis using ft ty c F by (simp add: enough_def phdr_fits_def phdr_room_def seg_pages_def seg_range_def)
qed

lemma load_phdr_ok:
  assumes ok: "space_ok (vm t) pd" and p: "pcb t = Some p" "pagedir p = pd" and f: "file_ok (pfs t) (finode f)"
    and F: "F = file_bytes (pfs t) (finode f)"
  shows "\<exists>r f' t'. load_phdr t f ph = Some (r, f', t') \<and> progress pd t t' \<and> same_file f f' \<and>
    (r \<longrightarrow> phdr_done pd F ph (vm t) (vm t')) \<and> (phdr_fits (vm t) pd F ph \<and> phdr_room (vm t) ph \<and> (\<forall>i. avail (pfs t) i) \<longrightarrow> r)"
proof (cases "p_type ph = PT_LOAD \<and> valid_segment ph (length F)")
  case False
  then show ?thesis
    using validate_segment_ok [OF f, of ph] progress_refl [OF ok] F
    by (auto simp: load_phdr_def phdr_done_def bad_type_def seg_pages_def phdr_fits_def phdr_valid_def PT_LOAD_def PT_DYNAMIC_def PT_INTERP_def PT_SHLIB_def)
next
  case True
  then have v: "valid_segment ph (length F)" and ty: "p_type ph = PT_LOAD" by simp_all
  have nb: "\<not> bad_type ph" using ty by (simp add: bad_type_def PT_LOAD_def PT_DYNAMIC_def PT_INTERP_def PT_SHLIB_def)
  note z = segment_sizes [OF v]
  let ?fp = "pg_round_down (p_offset ph)"
  have "unat (p_offset ph) < 2 ^ 31" using v file_length_ok(2) [OF f] F by (simp add: valid_segment_def)
  then have fp: "unat ?fp < 2 ^ 31" using div_mult_mod_eq [of "unat (p_offset ph)" 4096] unfolding unat_pg_round_down by linarith
  have si: "sint ?fp = int (unat ?fp)" by (rule sint_small [OF fp])
  have ofs: "0 \<le> sint ?fp" "sint ?fp < 2 ^ 31" "sint ?fp mod 4096 = 0" "nat (sint ?fp) = unat (p_offset ph) div 4096 * 4096"
    using fp unfolding si by (simp_all add: unat_pg_round_down flip: of_nat_mod uint_nat)
  obtain r f' t' where l: "load_segment t f (sint ?fp) (pg_round_down (p_vaddr ph)) (read_size ph) (zero_size ph) (p_flags ph AND PF_W \<noteq> 0) = Some (r, f', t')"
      "progress pd t t'" "same_file f f'"
      "r \<longrightarrow> segment_loaded pd t (f\<lparr>fpos := sint ?fp\<rparr>) (pg_round_down (p_vaddr ph)) (unat (read_size ph)) (4096 * page_cnt ph) (p_flags ph AND PF_W \<noteq> 0) t' \<and> cost (page_cnt ph) (vm t) (vm t')"
      "enough pd t (f\<lparr>fpos := sint ?fp\<rparr>) (pg_round_down (p_vaddr ph)) (unat (read_size ph)) (page_cnt ph) \<longrightarrow> r"
    using load_segment_ok [OF ok p f ofs(1-3) pg_ofs_round_down z(2,3)] by blast
  have "load_phdr t f ph = Some (r, f', t')"
    using l(1) ty nb validate_segment_ok [OF f, of ph] v F
    by (simp add: load_phdr_def bad_type_def Let_def read_size_def zero_size_def pg_round_down_def pg_ofs_def cong: if_cong)
  moreover have "has_segment (vm t') pd F ph" if r
    by (rule segment_in_memory [OF v l(4) [rule_format, OF that, THEN conjunct1]]) (use F ofs(4) in simp_all)
  moreover have "user_cell (vm t') pd va = user_cell (vm t) pd va" if "is_user_vaddr va" "\<not> seg_range ph va" r for va
    using l(4) that ty by (simp add: segment_loaded_def seg_range_def)
  moreover have "r" if "phdr_fits (vm t) pd F ph" "phdr_room (vm t) ph" "\<forall>i. avail (pfs t) i"
    using enough_segment [OF that(1) ty, of "f\<lparr>fpos := sint ?fp\<rparr>"] that(2,3) F ofs(4) l(5) by simp
  ultimately show ?thesis using l(2-4) nb ty by (intro exI conjI) (auto simp: seg_pages_def phdr_done_def)
qed

lemma sint_nonneg:
  assumes "0 \<le> sint (w :: u32)"
  shows "sint w = int (unat w)" "unat w < 2 ^ 31"
proof -
  show "unat w < 2 ^ 31"
  proof (rule ccontr)
    assume "\<not> unat w < 2 ^ 31"
    then have "int (2 ^ 31) \<le> int (unat w)" unfolding of_nat_le_iff by simp
    then have "2 ^ 31 \<le> uint w" by simp
    moreover have "uint w < 2 ^ 32" using unsigned_less [of w, where 'a = int] by simp
    moreover have "sint w = (uint w + 2 ^ 31) mod 2 ^ 32 - 2 ^ 31"
      unfolding sint_uint signed_take_bit_eq_take_bit_shift take_bit_eq_mod by simp
    moreover have "(uint w - 2 ^ 31 + 2 ^ 32) mod 2 ^ 32 = uint w - 2 ^ 31"
      unfolding mod_add_self2 using calculation(1,2) by (intro mod_pos_pos_trivial) simp_all
    ultimately show False using assms by (simp add: add.commute)
  qed
  then show "sint w = int (unat w)" by (rule sint_small)
qed

lemma has_segment_progress:
  assumes "has_segment (vm t) pd F ph" "progress pd t t'"
  shows "has_segment (vm t') pd F ph"
proof -
  have "is_user_vaddr (p_vaddr ph + of_nat i)" if "i < unat (p_memsz ph)" for i
  proof -
    have "unat (p_memsz ph) < 2 ^ 32" using unsigned_less [of "p_memsz ph", where 'a = nat] by simp
    then have "unat (of_nat i :: u32) = i" using that unat_of_nat_id [of i, where 'a = 32] by simp
    then show ?thesis
      using that assms(1) by (auto simp: has_segment_def valid_segment_def is_user_vaddr_def word_less_nat_alt PHYS_BASE_def unat_plus_if')
  qed
  then show ?thesis using assms by (simp add: has_segment_def progress_def)
qed

text \<open>The \<open>k\<close>th program header of an executable.\<close>

definition phdr_at :: "u8 list \<Rightarrow> nat \<Rightarrow> nat \<Rightarrow> Elf32_Phdr" where
  "phdr_at F ofs k = phdr_of (take 32 (drop (ofs + 32 * k) F))"

definition phdr_loaded :: "mmu \<Rightarrow> addr \<Rightarrow> u8 list \<Rightarrow> nat \<Rightarrow> nat \<Rightarrow> bool" where
  "phdr_loaded s pd F ofs k \<longleftrightarrow> ofs + 32 * Suc k \<le> length F \<and> \<not> bad_type (phdr_at F ofs k) \<and>
     (p_type (phdr_at F ofs k) = PT_LOAD \<longrightarrow> has_segment s pd F (phdr_at F ofs k))"

lemma phdr_loaded_progress: "phdr_loaded (vm t) pd F ofs k \<Longrightarrow> progress pd t t' \<Longrightarrow> phdr_loaded (vm t') pd F ofs k"
  by (auto simp: phdr_loaded_def intro: has_segment_progress)

lemma read_phdr_ok:
  assumes ok: "space_ok (vm t) pd" and f: "file_ok (pfs t) (finode f)" "F = file_bytes (pfs t) (finode f)"
    and o: "0 \<le> sint (ofs :: u32)"
  shows "\<exists>f0 bs f1 h. file_seek f (sint ofs) = Some f0 \<and> file_read (pfs t) f0 32 = Some (bs, f1, h) \<and>
    progress pd t (t\<lparr>pfs := h\<rparr>) \<and> same_file f f1 \<and>
    (length bs = 32 \<longrightarrow> phdr_of bs = phdr_at F (unat ofs) 0 \<and> unat ofs + 32 \<le> length F \<and> unat (ofs + 32) = unat ofs + 32) \<and>
    ((\<forall>i. avail (pfs t) i) \<longrightarrow> unat ofs + 32 \<le> length F \<longrightarrow> length bs = 32)"
proof -
  let ?f = "f\<lparr>fpos := sint ofs\<rparr>"
  obtain bs h where r: "file_read (pfs t) ?f 32 = Some (bs, ?f\<lparr>fpos := fpos ?f + int (length bs)\<rparr>, h)" "idle (pfs t) h"
      "bs = take (length bs) (drop (nat (fpos ?f)) (file_bytes (pfs t) (finode ?f)))"
      "(\<forall>i. avail (pfs t) i) \<longrightarrow> length bs = min 32 (length (file_bytes (pfs t) (finode ?f)) - nat (fpos ?f))"
    using file_read_ok [of "pfs t" ?f 32] f(1) o by auto
  have q: "quiet (vm t) (vm t)" using space_okD(6) [OF ok] by (simp add: quiet_def)
  have "length bs = 32 \<longrightarrow> phdr_of bs = phdr_at F (unat ofs) 0 \<and> unat ofs + 32 \<le> length F \<and> unat (ofs + 32) = unat ofs + 32"
  proof
    assume l: "length bs = 32"
    have bs: "bs = take 32 (drop (unat ofs) F)" using r(3) l sint_nonneg(1) [OF o] f(2) by simp
    then have "unat ofs + 32 \<le> length F" using l by simp
    then show "phdr_of bs = phdr_at F (unat ofs) 0 \<and> unat ofs + 32 \<le> length F \<and> unat (ofs + 32) = unat ofs + 32"
      using bs file_length_ok(2) [OF f(1)] f(2) by (simp add: phdr_at_def unat_plus_if')
  qed
  moreover have "(\<forall>i. avail (pfs t) i) \<longrightarrow> unat ofs + 32 \<le> length F \<longrightarrow> length bs = 32"
    using r(4) sint_nonneg(1) [OF o] f(2) by (simp flip: uint_nat)
  moreover have "same_file f (?f\<lparr>fpos := fpos ?f + int (length bs)\<rparr>)" using o by (simp add: same_file_def)
  ultimately show ?thesis
    using r(1) progress_quiet [OF ok q r(2)] o by (intro exI conjI) (simp_all add: file_seek_def)
qed

lemma progress_prems:
  assumes "progress pd t t'" "same_file f f'" "pcb t = Some p" "file_ok (pfs t) (finode f)" "F = file_bytes (pfs t) (finode f)"
  shows "space_ok (vm t') pd" "pcb t' = Some p" "file_ok (pfs t') (finode f')" "F = file_bytes (pfs t') (finode f')"
  using assms idle_file [of "pfs t" "pfs t'"] by (auto simp: progress_def same_file_def)

text \<open>What is enough to load \<open>n\<close> program headers.\<close>

definition pages_needed :: "u8 list \<Rightarrow> nat \<Rightarrow> nat \<Rightarrow> nat" where
  "pages_needed F ofs n = (\<Sum>k < n. seg_pages (phdr_at F ofs k))"

definition phdrs_fit :: "mmu \<Rightarrow> addr \<Rightarrow> u8 list \<Rightarrow> nat \<Rightarrow> nat \<Rightarrow> bool" where
  "phdrs_fit s pd F ofs n \<longleftrightarrow> (\<forall>k < n. ofs + 32 * Suc k \<le> length F \<and> phdr_fits s pd F (phdr_at F ofs k)) \<and>
     (\<forall>k < n. \<forall>j < k. \<forall>va. \<not> (seg_range (phdr_at F ofs j) va \<and> seg_range (phdr_at F ofs k) va)) \<and>
     pages_needed F ofs n \<le> free_pages s (user_pool (pal s)) \<and> pages_needed F ofs n \<le> free_pages s (kernel_pool (pal s))"

definition phdrs_done :: "addr \<Rightarrow> u8 list \<Rightarrow> nat \<Rightarrow> nat \<Rightarrow> mmu \<Rightarrow> mmu \<Rightarrow> bool" where
  "phdrs_done pd F ofs n s s' \<longleftrightarrow> (\<forall>k < n. phdr_loaded s' pd F ofs k) \<and> cost (pages_needed F ofs n) s s' \<and>
     (\<forall>va. is_user_vaddr va \<and> (\<forall>k < n. \<not> seg_range (phdr_at F ofs k) va) \<longrightarrow> user_cell s' pd va = user_cell s pd va)"

lemma phdr_at_Suc: "phdr_at F ofs (Suc k) = phdr_at F (ofs + 32) k"
  by (simp add: phdr_at_def add.assoc)

lemma phdr_loaded_Suc: "phdr_loaded s pd F ofs (Suc k) = phdr_loaded s pd F (ofs + 32) k"
  by (simp add: phdr_loaded_def phdr_at_Suc add.assoc add.left_commute)

lemma pages_needed_Suc: "pages_needed F ofs (Suc n) = seg_pages (phdr_at F ofs 0) + pages_needed F (ofs + 32) n"
  unfolding pages_needed_def sum.lessThan_Suc_shift phdr_at_Suc ..

lemma phdrs_fit_head:
  assumes "phdrs_fit s pd F ofs (Suc n)"
  shows "ofs + 32 \<le> length F" "phdr_fits s pd F (phdr_at F ofs 0)"
    "phdr_room s (phdr_at F ofs 0)"
  using assms by (auto simp: phdrs_fit_def pages_needed_Suc phdr_room_def)

lemma phdrs_fit_step:
  assumes ft: "phdrs_fit s pd F ofs (Suc n)" and d: "phdr_done pd F (phdr_at F ofs 0) s s'"
  shows "phdrs_fit s' pd F (ofs + 32) n"
proof -
  have tail: "ofs + 32 + 32 * Suc k \<le> length F \<and> phdr_fits s' pd F (phdr_at F (ofs + 32) k)" if "k < n" for k
  proof -
    let ?ph = "phdr_at F (ofs + 32) k"
    have "ofs + 32 * Suc (Suc k) \<le> length F \<and> phdr_fits s pd F (phdr_at F ofs (Suc k))" using ft that unfolding phdrs_fit_def by blast
    then have f: "ofs + 32 + 32 * Suc k \<le> length F" "phdr_fits s pd F ?ph" by (simp_all add: phdr_at_Suc)
    have "user_cell s' pd va = None" if va: "seg_range ?ph va" for va
    proof -
      have "valid_segment ?ph (length F)" using f(2) va by (simp add: phdr_fits_def phdr_valid_def seg_range_def)
      then have "is_user_vaddr va" using range_user [OF segment_sizes(3)] va by (simp add: seg_range_def)
      moreover have "\<not> seg_range (phdr_at F ofs 0) va"
        using ft \<open>k < n\<close> va phdr_at_Suc [of F ofs k] unfolding phdrs_fit_def by (metis Suc_less_eq zero_less_Suc)
      ultimately show ?thesis using d f(2) va by (simp add: phdr_fits_def phdr_done_def)
    qed
    then show ?thesis using f by (simp add: phdr_fits_def)
  qed
  moreover have "\<not> (seg_range (phdr_at F (ofs + 32) j) va \<and> seg_range (phdr_at F (ofs + 32) k) va)" if "k < n" "j < k" for j k va
    using ft that unfolding phdrs_fit_def phdr_at_Suc [symmetric] by (meson Suc_less_eq)
  moreover have "pages_needed F (ofs + 32) n \<le> free_pages s' (user_pool (pal s'))" "pages_needed F (ofs + 32) n \<le> free_pages s' (kernel_pool (pal s'))"
    using ft d by (auto simp: phdrs_fit_def pages_needed_Suc phdr_done_def cost_def)
  ultimately show ?thesis unfolding phdrs_fit_def by blast
qed

lemma phdrs_done_Suc:
  assumes d: "phdr_done pd F (phdr_at F ofs 0) (vm t) (vm t1)" "ofs + 32 \<le> length F" and ds: "phdrs_done pd F (ofs + 32) n (vm t1) (vm t2)"
    and p: "progress pd t1 t2"
  shows "phdrs_done pd F ofs (Suc n) (vm t) (vm t2)"
proof -
  have "phdr_loaded (vm t2) pd F ofs k" if "k < Suc n" for k
  proof (cases k)
    case 0
    then show ?thesis using d has_segment_progress [OF _ p] by (simp add: phdr_loaded_def phdr_done_def)
  next
    case (Suc j)
    then show ?thesis using ds that by (simp add: phdr_loaded_Suc phdrs_done_def)
  qed
  moreover have "user_cell (vm t2) pd va = user_cell (vm t) pd va"
    if "is_user_vaddr va" "\<forall>k < Suc n. \<not> seg_range (phdr_at F ofs k) va" for va
  proof -
    have "\<not> seg_range (phdr_at F ofs 0) va" "\<forall>k < n. \<not> seg_range (phdr_at F (ofs + 32) k) va"
      using that(2) by (auto simp flip: phdr_at_Suc)
    then show ?thesis using d(1) ds that(1) by (simp add: phdr_done_def phdrs_done_def)
  qed
  moreover have "cost (pages_needed F ofs (Suc n)) (vm t) (vm t2)"
    unfolding pages_needed_Suc
    by (rule cost_trans [of _ _ "vm t1"]) (use d(1) ds in \<open>simp_all add: phdr_done_def phdrs_done_def\<close>)
  ultimately show ?thesis by (simp add: phdrs_done_def)
qed

lemma load_phdrs_ok:
  assumes "space_ok (vm t) pd" "pcb t = Some p" "pagedir p = pd" "file_ok (pfs t) (finode f)" "F = file_bytes (pfs t) (finode f)"
  shows "\<exists>r f' t'. load_phdrs n t f ofs = Some (r, f', t') \<and> progress pd t t' \<and> same_file f f' \<and>
    (r \<longrightarrow> phdrs_done pd F (unat ofs) n (vm t) (vm t')) \<and> (phdrs_fit (vm t) pd F (unat ofs) n \<and> (\<forall>i. avail (pfs t) i) \<longrightarrow> r)"
  using assms
proof (induction n arbitrary: t f ofs)
  case 0
  then show ?case using progress_refl by (auto simp: phdrs_done_def pages_needed_def)
next
  case (Suc n)
  note fl = file_length_ok [OF Suc.prems(4), folded Suc.prems(5)]
  show ?case
  proof (cases "sint ofs < 0 \<or> sint ofs > int (length F)")
    case True
    then have "\<not> unat ofs + 32 \<le> length F" using sint_small [of ofs] fl(2) by linarith
    then have "\<not> phdrs_fit (vm t) pd F (unat ofs) (Suc n)" using phdrs_fit_head(1) by blast
    then show ?thesis using True fl(1) progress_refl [OF Suc.prems(1)] by auto
  next
    case False
    then have "0 \<le> sint ofs" by simp
    from read_phdr_ok [OF Suc.prems(1,4,5) this] obtain f0 bs f1 h where
      r: "file_seek f (sint ofs) = Some f0" "file_read (pfs t) f0 32 = Some (bs, f1, h)" "progress pd t (t\<lparr>pfs := h\<rparr>)" "same_file f f1"
      and bs: "length bs = 32 \<Longrightarrow> phdr_of bs = phdr_at F (unat ofs) 0 \<and> unat ofs + 32 \<le> length F \<and> unat (ofs + 32) = unat ofs + 32"
        "(\<forall>i. avail (pfs t) i) \<Longrightarrow> unat ofs + 32 \<le> length F \<Longrightarrow> length bs = 32"
      by blast
    let ?t = "t\<lparr>pfs := h\<rparr>"
    note t = progress_prems [OF r(3,4) Suc.prems(2,4,5)]
    obtain r2 f2 t2 where l: "load_phdr ?t f1 (phdr_of bs) = Some (r2, f2, t2)" "progress pd ?t t2" "same_file f1 f2"
        "r2 \<longrightarrow> phdr_done pd F (phdr_of bs) (vm ?t) (vm t2)"
        "phdr_fits (vm ?t) pd F (phdr_of bs) \<and> phdr_room (vm ?t) (phdr_of bs) \<and> (\<forall>i. avail (pfs ?t) i) \<longrightarrow> r2"
      using load_phdr_ok [OF t(1,2) Suc.prems(3) t(3,4)] by blast
    note p2 = progress_trans [OF r(3) l(2)] same_file_trans [OF r(4) l(3)]
    note t2 = progress_prems [OF p2 Suc.prems(2,4,5)]
    obtain r3 f3 t3 where m: "load_phdrs n t2 f2 (ofs + 32) = Some (r3, f3, t3)" "progress pd t2 t3" "same_file f2 f3"
        "r3 \<longrightarrow> phdrs_done pd F (unat (ofs + 32)) n (vm t2) (vm t3)" "phdrs_fit (vm t2) pd F (unat (ofs + 32)) n \<and> (\<forall>i. avail (pfs t2) i) \<longrightarrow> r3"
      using Suc.IH [OF t2(1,2) Suc.prems(3) t2(3,4), of "ofs + 32"] by blast
    note p3 = progress_trans [OF p2(1) m(2)] same_file_trans [OF p2(2) m(3)]
    have run: "load_phdrs (Suc n) t f ofs = (if length bs \<noteq> 32 then Some (False, f1, ?t) else if \<not> r2 then Some (False, f2, t2) else Some (r3, f3, t3))"
      using False fl(1) r(1,2) l(1) m(1) by simp
    have av: "avail (pfs ?t) = avail (pfs t)" "avail (pfs t2) = avail (pfs t)"
      using idle_same(7) [of "pfs t" h] idle_same(7) [of "pfs t" "pfs t2"] r(3) p2(1) by (simp_all add: progress_def)
    have fit: "length bs = 32 \<and> r2 \<and> r3" if ft: "phdrs_fit (vm t) pd F (unat ofs) (Suc n)" "\<forall>i. avail (pfs t) i"
    proof -
      note hd = phdrs_fit_head [OF ft(1)]
      have b: "length bs = 32" by (rule bs(2) [OF ft(2) hd(1)])
      have r2 using l(5) hd bs(1) [OF b] ft(2) av by simp
      then show ?thesis using b phdrs_fit_step [OF ft(1), of "vm t2"] l(4) bs(1) [OF b] m(5) ft(2) av by simp
    qed
    have "phdrs_done pd F (unat ofs) (Suc n) (vm t) (vm t3)" if c: "length bs = 32" r2 r3
      using phdrs_done_Suc [OF _ _ _ m(2), of F "unat ofs" t n] bs(1) [OF c(1)] l(4) m(4) c by simp
    then show ?thesis using run r(3,4) p2 p3 fit by (cases "length bs = 32"; cases r2) auto
  qed
qed

subsection \<open>The whole file\<close>

text \<open>The bytes \<open>F\<close> are an executable whose segments are in the memory of the process, with an empty stack.\<close>

definition image_loaded :: "mmu \<Rightarrow> addr \<Rightarrow> u8 list \<Rightarrow> bool" where
  "image_loaded s pd F \<longleftrightarrow> 52 \<le> length F \<and> ehdr_ok (ehdr_of (take 52 F)) \<and>
     (\<forall>k < unat (e_phnum (ehdr_of (take 52 F))). phdr_loaded s pd F (unat (e_phoff (ehdr_of (take 52 F)))) k) \<and>
     (\<forall>va. pg_round_down va = stack_page \<longrightarrow> user_cell s pd va = Some (0, True))"

text \<open>What is enough to load it into an address space.\<close>

definition image_fits :: "mmu \<Rightarrow> addr \<Rightarrow> u8 list \<Rightarrow> bool" where
  "image_fits s pd F \<longleftrightarrow> 52 \<le> length F \<and> ehdr_ok (ehdr_of (take 52 F)) \<and>
     (let n = unat (e_phnum (ehdr_of (take 52 F))); ofs = unat (e_phoff (ehdr_of (take 52 F))) in
       phdrs_fit s pd F ofs n \<and> (\<forall>k < n. \<not> seg_range (phdr_at F ofs k) stack_page) \<and> user_cell s pd stack_page = None \<and>
       pages_needed F ofs n < free_pages s (user_pool (pal s)) \<and> pages_needed F ofs n < free_pages s (kernel_pool (pal s)))"

lemma image_fits_stack:
  assumes ft: "image_fits s pd F" and d: "phdrs_done pd F (unat (e_phoff (ehdr_of (take 52 F)))) (unat (e_phnum (ehdr_of (take 52 F)))) s s'"
  shows "\<not> pool_pages (user_pool (pal s')) \<subseteq> palloc_used (pal s')" "\<not> pool_pages (kernel_pool (pal s')) \<subseteq> palloc_used (pal s')"
    "user_cell s' pd stack_page = None"
proof -
  have "0 < free_pages s' (user_pool (pal s'))" "0 < free_pages s' (kernel_pool (pal s'))"
    using ft d by (auto simp: image_fits_def phdrs_done_def cost_def Let_def)
  then show "\<not> pool_pages (user_pool (pal s')) \<subseteq> palloc_used (pal s')" "\<not> pool_pages (kernel_pool (pal s')) \<subseteq> palloc_used (pal s')"
    by (metis Diff_eq_empty_iff card.empty free_pages_def less_irrefl)+
  show "user_cell s' pd stack_page = None" using ft d stack_page(3) by (simp add: image_fits_def phdrs_done_def Let_def)
qed

lemma load_file_ok:
  assumes ok: "space_ok (vm t) pd" and p: "pcb t = Some p" "pagedir p = pd" and f: "file_ok (pfs t) (finode f)" "fpos f = 0"
    and F: "F = file_bytes (pfs t) (finode f)"
  shows "\<exists>r ip sp f' t'. load_file t f ip0 sp0 = Some (r, ip, sp, f', t') \<and> progress pd t t' \<and> same_file f f' \<and>
    (if r then ip = e_entry (ehdr_of (take 52 F)) \<and> sp = PHYS_BASE - 20 \<and> image_loaded (vm t') pd F else ip = ip0 \<and> sp = sp0) \<and>
    (image_fits (vm t) pd F \<and> (\<forall>i. avail (pfs t) i) \<longrightarrow> r)"
proof -
  obtain bs f1 h where b: "file_read (pfs t) f 52 = Some (bs, f1, h)" "idle (pfs t) h"
      "bs = take (length bs) (drop (nat (fpos f)) (file_bytes (pfs t) (finode f)))" "f1 = f\<lparr>fpos := fpos f + int (length bs)\<rparr>"
      "(\<forall>i. avail (pfs t) i) \<longrightarrow> length bs = min 52 (length (file_bytes (pfs t) (finode f)) - nat (fpos f))"
    using file_read_ok [OF f(1), of 52] f(2) by auto
  let ?t = "t\<lparr>pfs := h\<rparr>" and ?e = "ehdr_of bs"
  have q: "quiet (vm t) (vm t)" using space_okD(6) [OF ok] by (simp add: quiet_def)
  have 1: "progress pd t ?t" "same_file f f1" using progress_quiet [OF ok q b(2)] f(2) b(4) by (simp_all add: same_file_def)
  note t1 = progress_prems [OF 1 p(1) f(1) F]
  obtain r2 f2 t2 where l: "load_phdrs (unat (e_phnum ?e)) ?t f1 (e_phoff ?e) = Some (r2, f2, t2)" "progress pd ?t t2" "same_file f1 f2"
      "r2 \<longrightarrow> phdrs_done pd F (unat (e_phoff ?e)) (unat (e_phnum ?e)) (vm ?t) (vm t2)"
      "phdrs_fit (vm ?t) pd F (unat (e_phoff ?e)) (unat (e_phnum ?e)) \<and> (\<forall>i. avail (pfs ?t) i) \<longrightarrow> r2"
    using load_phdrs_ok [OF t1(1,2) p(2) t1(3,4)] by blast
  note 2 = progress_trans [OF 1(1) l(2)] same_file_trans [OF 1(2) l(3)]
  note t2 = progress_prems [OF 2 p(1) f(1) F]
  obtain r3 e t3 where s: "setup_stack t2 sp0 = Some (r3, e, t3)" "progress pd t2 t3"
      "if r3 then e = PHYS_BASE - 20 \<and> (\<forall>va. is_user_vaddr va \<longrightarrow> user_cell (vm t3) pd va = (if pg_round_down va = stack_page then Some (0, True) else user_cell (vm t2) pd va))
       else e = sp0 \<and> (pool_pages (user_pool (pal (vm t2))) \<subseteq> palloc_used (pal (vm t2)) \<or>
         pool_pages (kernel_pool (pal (vm t2))) \<subseteq> palloc_used (pal (vm t2)) \<or> user_cell (vm t2) pd stack_page \<noteq> None)"
    using setup_stack_ok [OF t2(1,2) p(2), of sp0] by blast
  note 3 = progress_trans [OF 2(1) s(2)]
  have run: "load_file t f ip0 sp0 = (if length bs \<noteq> 52 \<or> \<not> ehdr_ok ?e then Some (False, ip0, sp0, f1, ?t)
      else if \<not> r2 then Some (False, ip0, sp0, f2, t2) else if \<not> r3 then Some (False, ip0, e, f2, t3) else Some (True, e_entry ?e, e, f2, t3))"
    using b(1) l(1) s(1) by (simp add: load_file_def Let_def)
  have "image_loaded (vm t3) pd F \<and> ?e = ehdr_of (take 52 F)" if c: "length bs = 52" "ehdr_ok ?e" r2 r3
  proof -
    have bs: "bs = take 52 F" using b(3) c(1) f(2) F by simp
    moreover have "52 \<le> length F" using bs c(1) by simp
    moreover have "phdr_loaded (vm t3) pd F (unat (e_phoff ?e)) k" if "k < unat (e_phnum ?e)" for k
      using l(4) c(3) that phdr_loaded_progress [OF _ s(2)] by (simp add: phdrs_done_def)
    moreover have "user_cell (vm t3) pd va = Some (0, True)" if "pg_round_down va = stack_page" for va
      using s(3) c(4) that page_range(1) [OF stack_page(2), of va] range_user [of stack_page 4096 va] by (simp add: stack_page(1))
    ultimately show ?thesis using c by (simp add: image_loaded_def)
  qed
  moreover have "length bs = 52 \<and> ehdr_ok ?e \<and> r2 \<and> r3" if ft: "image_fits (vm t) pd F" "\<forall>i. avail (pfs t) i"
  proof -
    have c: "length bs = 52" using ft b(5) f(2) F by (simp add: image_fits_def)
    then have bs: "bs = take 52 F" using b(3) f(2) F by simp
    then have r: "ehdr_ok ?e" r2 using ft l(5) idle_same(7) [OF b(2)] by (simp_all add: image_fits_def Let_def)
    then have r3 using image_fits_stack [OF ft(1), of "vm t2"] l(4) bs s(3) by (auto split: if_splits)
    then show ?thesis using c r by simp
  qed
  ultimately show ?thesis unfolding run using 1 2 3 s(3) by (cases "length bs \<noteq> 52 \<or> \<not> ehdr_ok ?e"; cases r2; cases r3) auto
qed

end
