(* ===== verification/Process_Properties.thy ===== *)
theory Process_Properties
  imports Elf_Loader
begin

text \<open>
  The start of a process: its new address space, \<open>load\<close> as a whole, and what becomes of the memory when
  loading fails.
\<close>

subsection \<open>A new address space\<close>

text \<open>
  The machine when a process starts: the pools are in kernel memory, and the kernel's page directory is a
  page in use that maps no user address.
\<close>

definition machine_ok :: "mmu \<Rightarrow> bool" where
  "machine_ok s \<longleftrightarrow> palloc_inv (pal s) \<and> (\<forall>p \<in> pool_pages (kernel_pool (pal s)). 0xc0000 \<le> p) \<and>
     pool_pages (user_pool (pal s)) \<subseteq> {0xc0000 ..< 0xc0000 + unat (init_ram_pages s)} \<and> cr3 s < 0x40000000 \<and>
     pg_ofs (init_page_dir s) = 0 \<and> unat (pg_no (init_page_dir s)) \<in> palloc_used (pal s) \<and>
     (\<forall>va. is_user_vaddr va \<longrightarrow> get s (Pagedir.slot (init_page_dir s) (pd_no va)) = 0)"

lemma load_copy:
  assumes "pg_ofs dst = 0" "unat i < 1024"
  shows "Pagedir.load (mem_copy m dst src PGSIZE) (Pagedir.slot dst i) = Pagedir.load m (Pagedir.slot src i)"
proof -
  have "mem_copy m dst src PGSIZE (Pagedir.slot dst i + of_nat j) = m (Pagedir.slot src i + of_nat j)" if "j < 4" for j
  proof -
    have e: "Pagedir.slot dst i + of_nat j - dst = 4 * i + of_nat j" by (simp add: Pagedir.slot_def)
    have "unat (4 * i) = 4 * unat i" using assms(2) by (simp add: unat_word_ariths)
    moreover have "unat (of_nat j :: u32) = j" using that unat_of_nat_id [of j, where 'a = 32] by simp
    ultimately have "unat (4 * i + of_nat j) = 4 * unat i + j" using assms(2) that by (simp add: unat_plus_if')
    then have "4 * i + of_nat j < PGSIZE" using assms(2) that by (simp add: word_less_nat_alt PG_simps)
    then show ?thesis unfolding mem_copy_def e by (simp add: Pagedir.slot_def add.assoc)
  qed
  from this [of 0] this [of 1] this [of 2] this [of 3] show ?thesis by (simp add: Pagedir.load_def)
qed

lemma pagedir_create_ok:
  assumes m: "machine_ok s"
  shows "pagedir_create s = Some (0, s) \<or>
    (\<exists>pd s'. pagedir_create s = Some (pd, s') \<and> pd \<noteq> 0 \<and> space_ok s' pd \<and> same_machine s s' \<and> (\<forall>va. is_user_vaddr va \<longrightarrow> user_cell s' pd va = None) \<and>
       unat (pg_no pd) \<notin> palloc_used (pal s) \<and> palloc_used (pal s') = insert (unat (pg_no pd)) (palloc_used (pal s)) \<and>
       (\<forall>x. pg_no x \<noteq> pg_no pd \<longrightarrow> ram (pal s') x = ram (pal s) x))"
proof (cases "has_room (sel_pool 0 (pal s)) (unat (1 :: u32))")
  case False
  have "palloc_inv (pal s)" using m by (simp add: machine_ok_def)
  from palloc_get_no_room [OF this _ False] show ?thesis by (simp add: pagedir_create_def palloc_get_page_def)
next
  case True
  note d = m [unfolded machine_ok_def]
  have inv: "palloc_inv (pal s)" using d by blast
  obtain pd a where g: "palloc_get_page (pal s) 0 = Some (pd, a)" "pd \<noteq> 0" "pg_ofs pd = 0"
      "run_of (pg_no pd, 1) \<subseteq> pool_pages (kernel_pool (pal s))" "run_of (pg_no pd, 1) \<inter> palloc_used (pal s) = {}"
      "palloc_used a = palloc_used (pal s) \<union> run_of (pg_no pd, 1)" "palloc_inv a"
      "pool_pages (kernel_pool a) = pool_pages (kernel_pool (pal s))" "pool_pages (user_pool a) = pool_pages (user_pool (pal s))" "ram a = ram (pal s)"
    using palloc_get_room [OF inv _ True] by (auto simp: palloc_get_page_def sel_pool_def)
  note r = run_of_one [OF pg_no_less, of pd]
  let ?i = "init_page_dir s" and ?a = "a\<lparr>ram := mem_copy (ram a) pd (init_page_dir s) PGSIZE\<rparr>"
  let ?s = "s\<lparr>pal := ?a\<rparr>"
  have pn: "unat (pg_no pd) \<in> pool_pages (kernel_pool (pal s))" "unat (pg_no pd) \<notin> palloc_used (pal s)" using g(4,5) r by auto
  have k: "PHYS_BASE \<le> pd" by (rule kernel_page [OF g(3)]) (use pn d in auto)
  have used: "palloc_used ?a = insert (unat (pg_no pd)) (palloc_used (pal s))" using g(6) r by (simp add: palloc_used_def)
  have "pd \<noteq> ?i" using pn(2) d by auto
  moreover have zero: "get ?s (Pagedir.slot pd (pd_no va)) = 0" if "is_user_vaddr va" for va
    using load_copy [OF g(3), of "pd_no va" "ram (pal s)" ?i] d that g(10) by (simp add: get_def)
  moreover have "palloc_inv ?a" using g(7) by (simp add: palloc_inv_def)
  moreover have "unat (pg_no pd) \<in> table_pages ?a" using used pn g(8) by (simp add: table_pages_def)
  ultimately have "space_ok ?s pd"
    using d g(3,8,9) k by (simp add: space_ok_def pd_ok_def pte_at_def cong: conj_cong)
  moreover have "user_cell ?s pd va = None" if "is_user_vaddr va" for va using zero [OF that] by (simp add: user_cell_def pte_at_def)
  moreover have "mem_copy (ram a) pd ?i PGSIZE x = ram (pal s) x" if "pg_no x \<noteq> pg_no pd" for x
    using that in_page [OF g(3), of x] g(10) by (simp add: mem_copy_def)
  moreover have "pagedir_create s = Some (pd, ?s)" using g(1,2) by (simp add: pagedir_create_def)
  moreover have "same_machine s ?s" using g(8,9) by (simp add: same_machine_def)
  ultimately show ?thesis using g(2) pn(2) used by (intro disjI2 exI [of _ pd] exI [of _ ?s]) simp
qed

lemma activate_ok:
  assumes "space_ok s pd"
  shows "pagedir_activate s pd = Some (s\<lparr>cr3 := pd - PHYS_BASE\<rparr>)" "space_ok (s\<lparr>cr3 := pd - PHYS_BASE\<rparr>) pd"
    "user_cell (s\<lparr>cr3 := pd - PHYS_BASE\<rparr>) pd va = user_cell s pd va" "pd \<noteq> 0"
proof -
  note d = pd_okD(2,3) [OF space_okD(1) [OF assms]]
  show "pd \<noteq> 0" using d(2) by (auto simp: PHYS_BASE_def)
  then show "pagedir_activate s pd = Some (s\<lparr>cr3 := pd - PHYS_BASE\<rparr>)"
    using d(2) by (simp add: pagedir_activate_def vtop_def is_kernel_vaddr_def)
  have g: "get (s\<lparr>cr3 := pd - PHYS_BASE\<rparr>) p = get s p" for p by (simp add: get_def)
  then have p: "pte_at (s\<lparr>cr3 := pd - PHYS_BASE\<rparr>) pd va = pte_at s pd va" for va by (simp add: pte_at_def Let_def)
  show "space_ok (s\<lparr>cr3 := pd - PHYS_BASE\<rparr>) pd"
    using assms frame_addr(2) [OF d] unfolding space_ok_def pd_ok_def g p by simp
  show "user_cell (s\<lparr>cr3 := pd - PHYS_BASE\<rparr>) pd va = user_cell s pd va" by (simp add: user_cell_def p Let_def)
qed

lemma filesys_open_file: "filesys_open s name = Some (Some f, h) \<Longrightarrow> fpos f = 0 \<and> \<not> deny_write f"
  by (auto simp: filesys_open_def file_open_def mem_request_def panic_simps Let_def split: option.splits if_splits)

definition may_close :: "fs \<Rightarrow> ofile \<Rightarrow> bool" where
  "may_close s f \<longleftrightarrow> (\<exists>n. get_inode s (finode f) = Some n \<and> \<not> removed n)"

lemma file_close_ok:
  assumes "may_close s f" "\<not> deny_write f"
  shows "\<exists>s'. file_close s (Some f) = Some s'"
  using assms by (auto simp: may_close_def file_close_def file_allow_write_def inode_close_def Let_def)

text \<open>
  A well-formed executable: its segments are valid and lie in the file, no two of them share a page and none
  has the page of the stack.
\<close>

definition executable :: "u8 list \<Rightarrow> bool" where
  "executable F \<longleftrightarrow> 52 \<le> length F \<and> ehdr_ok (ehdr_of (take 52 F)) \<and>
     (let n = unat (e_phnum (ehdr_of (take 52 F))); ofs = unat (e_phoff (ehdr_of (take 52 F))) in
       (\<forall>k < n. ofs + 32 * Suc k \<le> length F \<and> phdr_valid F (phdr_at F ofs k) \<and> \<not> seg_range (phdr_at F ofs k) stack_page) \<and>
       (\<forall>k < n. \<forall>j < k. \<forall>va. \<not> (seg_range (phdr_at F ofs j) va \<and> seg_range (phdr_at F ofs k) va)))"

definition image_pages :: "u8 list \<Rightarrow> nat" where
  "image_pages F = pages_needed F (unat (e_phoff (ehdr_of (take 52 F)))) (unat (e_phnum (ehdr_of (take 52 F))))"

lemma free_insert:
  assumes "palloc_used (pal s') = insert q (palloc_used (pal s))" "pool_pages p' = pool_pages p"
  shows "free_pages s p \<le> Suc (free_pages s' p')"
proof -
  have "pool_pages p - palloc_used (pal s') = pool_pages p - palloc_used (pal s) - {q}" using assms(1) by auto
  then show ?thesis
    unfolding free_pages_def assms(2) using diff_card_le_card_Diff [of "{q}" "pool_pages p - palloc_used (pal s)"] by simp
qed

lemma executable_fits:
  assumes e: "executable F" and c: "\<And>va. is_user_vaddr va \<Longrightarrow> user_cell s pd va = None"
    and n: "image_pages F < free_pages s (user_pool (pal s))" "image_pages F < free_pages s (kernel_pool (pal s))"
  shows "image_fits s pd F"
proof -
  have "user_cell s pd va = None" if "phdr_valid F ph" "seg_range ph va" for ph va
  proof -
    have "valid_segment ph (length F)" using that by (simp add: phdr_valid_def seg_range_def)
    then show ?thesis using c range_user [OF segment_sizes(3)] that(2) by (simp add: seg_range_def)
  qed
  then have "phdr_fits s pd F ph" if "phdr_valid F ph" for ph using that by (simp add: phdr_fits_def)
  then show ?thesis
    using e n c [OF stack_page(3)] by (simp add: executable_def image_fits_def image_pages_def phdrs_fit_def Let_def)
qed

text \<open>\<open>load\<close> once there is a page directory.\<close>

definition room_for :: "mmu \<Rightarrow> nat \<Rightarrow> bool" where
  "room_for s n \<longleftrightarrow> n \<le> free_pages s (user_pool (pal s)) \<and> n \<le> free_pages s (kernel_pool (pal s))"

definition loaded :: "task \<Rightarrow> process \<Rightarrow> u8 list \<Rightarrow> addr \<Rightarrow> addr \<Rightarrow> task \<Rightarrow> bool" where
  "loaded t p F ip sp t' \<longleftrightarrow> (\<exists>pd. pcb t' = Some (p\<lparr>pagedir := pd\<rparr>) \<and> space_ok (vm t') pd \<and> cr3 (vm t') = pd - PHYS_BASE \<and>
     image_loaded (vm t') pd F \<and> ip = e_entry (ehdr_of (take 52 F)) \<and> sp = PHYS_BASE - 20)"

lemma no_room_create:
  assumes m: "machine_ok s" and c: "pagedir_create s = Some (0, s)"
  shows "\<not> room_for s 1"
proof -
  have inv: "palloc_inv (pal s)" using m by (simp add: machine_ok_def)
  have "\<not> has_room (sel_pool 0 (pal s)) (unat (1 :: u32))"
  proof
    assume "has_room (sel_pool 0 (pal s)) (unat (1 :: u32))"
    from palloc_get_room [OF inv _ this] obtain q a where "palloc_get_multiple (pal s) 0 1 = Some (q, a)" "q \<noteq> 0" by force
    then show False using c by (simp add: pagedir_create_def palloc_get_page_def)
  qed
  from no_page_left [OF inv this] have "pool_pages (kernel_pool (pal s)) \<subseteq> palloc_used (pal s)" by (simp add: sel_pool_def)
  then show ?thesis by (simp add: room_for_def free_pages_def Diff_eq_empty_iff [THEN iffD2])
qed

lemma load_no_file:
  assumes "pagedir_create (vm t) = Some (pd, s)" "space_ok s pd" "pcb t = Some p" "filesys_open (pfs t) name = Some (None, h)"
  shows "load t name ip0 sp0 = Some (False, ip0, sp0, t\<lparr>vm := s\<lparr>cr3 := pd - PHYS_BASE\<rparr>, pcb := Some (p\<lparr>pagedir := pd\<rparr>), pfs := h\<rparr>)"
  using activate_ok [OF assms(2)] assms by (simp add: load_def process_activate_def file_close_def)

lemma load_ok:
  assumes m: "machine_ok (vm t)" and p: "pcb t = Some p" and o: "filesys_open (pfs t) name = Some (fo, h)"
    and f: "\<And>f. fo = Some f \<Longrightarrow> file_ok h (finode f) \<and> may_close h f"
  shows "\<exists>r ip sp t'. load t name ip0 sp0 = Some (r, ip, sp, t') \<and> palloc_used (pal (vm t)) \<subseteq> palloc_used (pal (vm t')) \<and>
    (if r then \<exists>f. fo = Some f \<and> loaded t p (file_bytes h (finode f)) ip sp t' else ip = ip0 \<and> sp = sp0) \<and>
    (\<forall>f. fo = Some f \<and> executable (file_bytes h (finode f)) \<and> room_for (vm t) (image_pages (file_bytes h (finode f)) + 2) \<and>
      (\<forall>i. avail h i) \<longrightarrow> r)"
proof (rule disjE [OF pagedir_create_ok [OF m]]; (elim exE conjE)?)
  assume c: "pagedir_create (vm t) = Some (0, vm t)"
  have "\<not> room_for (vm t) (n + 2)" for n using no_room_create [OF m c] by (auto simp: room_for_def)
  moreover have "load t name ip0 sp0 = Some (False, ip0, sp0, t\<lparr>pcb := Some (p\<lparr>pagedir := 0\<rparr>)\<rparr>)"
    using p c by (simp add: load_def file_close_def)
  ultimately show ?thesis by auto
next
  fix pd s
  assume c: "pagedir_create (vm t) = Some (pd, s)" "pd \<noteq> 0" "space_ok s pd" "palloc_used (pal s) = insert (unat (pg_no pd)) (palloc_used (pal (vm t)))"
    "same_machine (vm t) s" "\<forall>va. is_user_vaddr va \<longrightarrow> user_cell s pd va = None"
  note a = activate_ok [OF c(3)]
  let ?p = "p\<lparr>pagedir := pd\<rparr>"
  let ?t = "t\<lparr>vm := s\<lparr>cr3 := pd - PHYS_BASE\<rparr>, pcb := Some ?p, pfs := h\<rparr>"
  have act: "process_activate (t\<lparr>vm := s, pcb := Some ?p\<rparr>) = Some (t\<lparr>vm := s\<lparr>cr3 := pd - PHYS_BASE\<rparr>, pcb := Some ?p\<rparr>)"
    using a(1) c(2) by (simp add: process_activate_def)
  have mono: "palloc_used (pal (vm t)) \<subseteq> palloc_used (pal (vm ?t))" using c(4) by auto
  show ?thesis
  proof (cases fo)
    case None
    then have "load t name ip0 sp0 = Some (False, ip0, sp0, ?t)" using load_no_file [OF c(1,3) p] o by simp
    then show ?thesis
      using mono None by (intro exI [of _ False] exI [of _ ip0] exI [of _ sp0] exI [of _ ?t]) simp
  next
    case (Some g)
    have g: "file_ok (pfs ?t) (finode g)" "fpos g = 0" "\<not> deny_write g" "may_close h g"
      using f [OF Some] filesys_open_file o Some by auto
    have ok: "space_ok (vm ?t) pd" "pcb ?t = Some ?p" "pagedir ?p = pd" and F: "file_bytes h (finode g) = file_bytes (pfs ?t) (finode g)"
      using a(2) by simp_all
    obtain r ip sp f' t' where l: "load_file ?t g ip0 sp0 = Some (r, ip, sp, f', t')" "progress pd ?t t'" "same_file g f'"
        "if r then ip = e_entry (ehdr_of (take 52 (file_bytes h (finode g)))) \<and> sp = PHYS_BASE - 20 \<and> image_loaded (vm t') pd (file_bytes h (finode g))
         else ip = ip0 \<and> sp = sp0" "image_fits (vm ?t) pd (file_bytes h (finode g)) \<and> (\<forall>i. avail (pfs ?t) i) \<longrightarrow> r"
      using load_file_ok [OF ok g(1,2) F, of ip0 sp0] by blast
    have "may_close (pfs t') f'" "\<not> deny_write f'"
      using g l(2,3) idle_same(9) [of h "pfs t'"] by (auto simp: may_close_def progress_def same_file_def)
    then obtain h' where h': "file_close (pfs t') (Some f') = Some h'" using file_close_ok by blast
    have run: "load t name ip0 sp0 = Some (r, ip, sp, t'\<lparr>pfs := h'\<rparr>)"
      using c(1,2) p act o Some l(1) h' by (simp add: load_def)
    have pr: "space_ok (vm t') pd" "cr3 (vm t') = pd - PHYS_BASE" "pcb t' = Some ?p" "palloc_used (pal (vm ?t)) \<subseteq> palloc_used (pal (vm t'))"
      using l(2) by (auto simp: progress_def same_machine_def)
    then have "r \<Longrightarrow> loaded t p (file_bytes h (finode g)) ip sp (t'\<lparr>pfs := h'\<rparr>)"
      using l(4) by (auto simp: loaded_def intro!: exI [of _ pd])
    moreover have "r" if "executable (file_bytes h (finode g))" "room_for (vm t) (image_pages (file_bytes h (finode g)) + 2)" "\<forall>i. avail h i"
    proof -
      have "free_pages (vm t) (user_pool (pal (vm t))) \<le> Suc (free_pages (vm ?t) (user_pool (pal (vm ?t))))"
        "free_pages (vm t) (kernel_pool (pal (vm t))) \<le> Suc (free_pages (vm ?t) (kernel_pool (pal (vm ?t))))"
        using c(4,5) by (auto intro!: free_insert simp: same_machine_def)
      then have "image_fits (vm ?t) pd (file_bytes h (finode g))"
        using that(1,2) c(6) a(3) by (intro executable_fits) (simp_all add: room_for_def)
      then show ?thesis using l(5) that(3) by simp
    qed
    moreover have "palloc_used (pal (vm t)) \<subseteq> palloc_used (pal (vm (t'\<lparr>pfs := h'\<rparr>)))" using mono pr(4) by simp
    ultimately show ?thesis
      using run Some l(4) by (intro exI [of _ r] exI [of _ ip] exI [of _ sp] exI [of _ "t'\<lparr>pfs := h'\<rparr>"] conjI) (auto split: if_splits)
  qed
qed

text \<open>Opening a file of the root directory, when both are already open.\<close>

lemma filesys_open_ok:
  assumes d: "get_inode s ROOT_DIR_SECTOR = Some d" "0 < open_cnt d" and ok: "file_ok s ROOT_DIR_SECTOR" "\<forall>i. avail s i"
    and k: "slot_of (file_bytes s ROOT_DIR_SECTOR) name = Some k" "i = inode_sector (Directory.slot (file_bytes s ROOT_DIR_SECTOR) k)"
    and n: "get_inode s i = Some n" "i \<noteq> ROOT_DIR_SECTOR"
  shows "\<exists>h. filesys_open s name = Some (Some \<lparr>finode = i, fpos = 0, deny_write = False\<rparr>, h) \<and> file_ok h i = file_ok s i \<and>
    file_bytes h i = file_bytes s i \<and> get_inode h i = Some (n\<lparr>open_cnt := open_cnt n + 1\<rparr>) \<and> avail h = avail s"
proof -
  let ?r = ROOT_DIR_SECTOR
  let ?inc = "\<lambda>n :: inode. n\<lparr>open_cnt := open_cnt n + 1\<rparr>" and ?dec = "\<lambda>n :: inode. n\<lparr>open_cnt := open_cnt n - 1\<rparr>"
  let ?d = "\<lparr>dinode = ?r, dpos = 0\<rparr>"
  let ?s1 = "upd_inode s ?r ?inc"
  let ?s2 = "?s1\<lparr>reqs := Suc (reqs s)\<rparr>"
  note i2 = idle_reqs [of ?s1 "Suc (reqs s)"]
  have root: "dir_open_root s = Some (Some ?d, ?s2)"
    using d(1) ok(2) by (simp add: dir_open_root_def inode_open_def inode_reopen_def dir_open_def mem_request_def)
  have f2: "file_ok ?s2 j = file_ok s j" "file_bytes ?s2 j = file_bytes s j" for j
    using upd_inode_file [of ?inc s ?r j] idle_file [OF i2] by simp_all
  have g2: "get_inode ?s2 j = (if j = ?r then Some (?inc d) else get_inode s j)" for j
    using get_inode_upd [of ?inc s ?r j] idle_same(9) [OF i2] d(1) by simp
  obtain s3 where l: "lookup ?s2 ?d name = Some (Some (Directory.slot (file_bytes s ?r) k, int (20 * k)), s3)" "idle ?s2 s3"
    using lookup_ok [of ?s2 ?d name] f2 ok k(1) by auto
  note i3 = idle_file [OF l(2)] and g3 = idle_same(9) [OF l(2)]
  let ?s4 = "upd_inode s3 i ?inc"
  have dl: "dir_lookup ?s2 ?d name = Some (Some i, ?s4)"
    using l(1) k(2) g3 g2 n by (simp add: dir_lookup_def inode_open_def inode_reopen_def del: of_nat_mult)
  have g4: "get_inode ?s4 j = (if j = i then Some (?inc n) else get_inode ?s2 j)" for j
    using get_inode_upd [of ?inc s3 i j] g3 g2 n by simp
  let ?s5 = "upd_inode ?s4 ?r ?dec"
  have cl: "dir_close ?s4 (Some ?d) = Some ?s5" using g4 g2 n(2) d(2) by (simp add: dir_close_def inode_close_def)
  let ?s6 = "?s5\<lparr>reqs := Suc (reqs ?s5)\<rparr>"
  have i6: "idle ?s5 ?s6" by (rule idle_reqs)
  have "avail ?s5 = avail s" using i3(5) by simp
  then have "filesys_open s name = Some (Some \<lparr>finode = i, fpos = 0, deny_write = False\<rparr>, ?s6)"
    using root dl cl ok(2) by (simp add: filesys_open_def file_open_def mem_request_def)
  moreover have "file_ok ?s6 i = file_ok s i" "file_bytes ?s6 i = file_bytes s i"
    using idle_file [OF i6] upd_inode_file [of ?dec ?s4 ?r i] upd_inode_file [of ?inc s3 i i] i3 f2 by simp_all
  moreover have "get_inode ?s6 i = Some (?inc n)" using idle_same(9) [OF i6] get_inode_upd [of ?dec ?s4 ?r i] g4 n(2) by simp
  moreover have "avail ?s6 = avail s" using i3(5) by simp
  ultimately show ?thesis by blast
qed

lemma filesys_open_none:
  assumes d: "get_inode s ROOT_DIR_SECTOR = Some d" "0 < open_cnt d" and ok: "file_ok s ROOT_DIR_SECTOR" "\<forall>i. avail s i"
    and k: "slot_of (file_bytes s ROOT_DIR_SECTOR) name = None"
  shows "\<exists>h. filesys_open s name = Some (None, h)"
proof -
  let ?r = ROOT_DIR_SECTOR and ?inc = "\<lambda>n :: inode. n\<lparr>open_cnt := open_cnt n + 1\<rparr>"
  let ?s2 = "(upd_inode s ?r ?inc)\<lparr>reqs := Suc (reqs s)\<rparr>" and ?d = "\<lparr>dinode = ?r, dpos = 0\<rparr>"
  note i2 = idle_reqs [of "upd_inode s ?r ?inc" "Suc (reqs s)"]
  have root: "dir_open_root s = Some (Some ?d, ?s2)"
    using d(1) ok(2) by (simp add: dir_open_root_def inode_open_def inode_reopen_def dir_open_def mem_request_def)
  have f2: "file_ok ?s2 ?r" "file_bytes ?s2 ?r = file_bytes s ?r"
    using upd_inode_file [of ?inc s ?r ?r] idle_file [OF i2] ok(1) by simp_all
  obtain s3 where l: "lookup ?s2 ?d name = Some (None, s3)" "idle ?s2 s3" using lookup_ok [of ?s2 ?d name] f2 ok(2) k by auto
  have "get_inode s3 ?r = Some (?inc d)" using idle_same(9) [OF l(2)] idle_same(9) [OF i2] get_inode_upd [of ?inc s ?r ?r] d(1) by simp
  then have "\<exists>s4. dir_close s3 (Some ?d) = Some s4" using d(2) by (simp add: dir_close_def inode_close_def)
  then show ?thesis
    using root l(1) by (auto simp: filesys_open_def dir_lookup_def file_open_def inode_close_def mem_request_def)
qed

lemma free_table_page:
  assumes "palloc_inv (pal s)" "pg_ofs k = 0" "unat (pg_no k) \<in> table_pages (pal s)"
  shows "\<exists>a. free_page s k = Some (s\<lparr>pal := a\<rparr>) \<and> palloc_used a = palloc_used (pal s) - {unat (pg_no k)}"
proof -
  have r: "run_of (pg_no k, 1) = {unat (pg_no k)}" by (rule run_of_one [OF pg_no_less])
  have "pool_inv (kernel_pool (pal s))" using assms(1) by (simp add: palloc_inv_def)
  then have pos: "\<forall>q \<in> pool_pages (kernel_pool (pal s)). 0 < q" by (auto simp: pool_inv_def pool_pages_def word_less_nat_alt)
  then have "palloc_legal (pg_no k, 1) (pal s)"
    using assms(3) r pg_no_less [of k] by (auto simp: palloc_legal_def table_pages_def simp flip: unat_gt_0)
  from palloc_free_run [OF assms(1) this] obtain a where "palloc_free_multiple (pal s) k 1 = Some a" "palloc_used a = palloc_used (pal s) - {unat (pg_no k)}"
    using assms r page_addr_pg_no [of k] by (auto simp: table_pages_def)
  then show ?thesis by (intro exI [of _ a]) (simp add: free_page_def palloc_free_page_def)
qed

lemma string_at_empty: "m p = 0 \<Longrightarrow> string_at m p = []"
proof -
  have "0 < unat PGSIZE" by (simp add: PG_simps)
  then show "m p = 0 \<Longrightarrow> string_at m p = []" unfolding string_at_def c_str_def by (subst upt_conv_Cons) simp_all
qed

subsection \<open>Properties\<close>

text \<open>
  C3. \<open>load\<close> never panics, whatever the bytes of the file. When it returns true, the process has a
  well-formed page directory, which is active; every loadable segment of the file is in its memory, with the bytes
  of the file and zeros behind them and writable as the header says; the stack is a page of zeros, the stack
  pointer and the entry point are set. When it returns false they are not. It does return true for
  a well-formed executable when there is enough memory.
\<close>

theorem load_correct:
  assumes "machine_ok (vm t)" "pcb t = Some p" "filesys_open (pfs t) name = Some (fo, h)"
    "\<forall>f. fo = Some f \<longrightarrow> file_ok h (finode f) \<and> may_close h f"
  shows "\<exists>r ip sp t'. load t name ip0 sp0 = Some (r, ip, sp, t') \<and>
    (if r then \<exists>f pd. fo = Some f \<and> pcb t' = Some (p\<lparr>pagedir := pd\<rparr>) \<and> space_ok (vm t') pd \<and> cr3 (vm t') = pd - PHYS_BASE \<and>
         image_loaded (vm t') pd (file_bytes h (finode f)) \<and> ip = e_entry (ehdr_of (take 52 (file_bytes h (finode f)))) \<and> sp = PHYS_BASE - 20
     else ip = ip0 \<and> sp = sp0) \<and>
    (\<forall>f. fo = Some f \<and> executable (file_bytes h (finode f)) \<and> room_for (vm t) (image_pages (file_bytes h (finode f)) + 2) \<and>
      (\<forall>i. avail h i) \<longrightarrow> r)"
proof -
  obtain r ip sp t' where "load t name ip0 sp0 = Some (r, ip, sp, t')"
      "if r then \<exists>f. fo = Some f \<and> loaded t p (file_bytes h (finode f)) ip sp t' else ip = ip0 \<and> sp = sp0"
      "\<forall>f. fo = Some f \<and> executable (file_bytes h (finode f)) \<and> room_for (vm t) (image_pages (file_bytes h (finode f)) + 2) \<and> (\<forall>i. avail h i) \<longrightarrow> r"
    using load_ok [OF assms(1-3) assms(4) [rule_format], of ip0 sp0] by blast
  then show ?thesis
    by (intro exI [of _ r] exI [of _ ip] exI [of _ sp] exI [of _ t'] conjI) (auto simp: loaded_def split: if_splits)
qed

text \<open>An executable of one segment, on a disk whose root directory has it under the name \<open>a\<close>.\<close>

definition demo_exe :: "u8 list" where
  "demo_exe = [0x7f, 0x45, 0x4c, 0x46, 1, 1, 1, 0, 0, 0, 0, 0, 0, 0, 0, 0, 2, 0, 3, 0, 1, 0, 0, 0, 0x54, 0x80, 4, 8, 52, 0, 0, 0, 0, 0, 0, 0,
     0, 0, 0, 0, 52, 0, 32, 0, 1, 0, 0, 0, 0, 0, 0, 0,
     1, 0, 0, 0, 0, 0, 0, 0, 0, 0x80, 4, 8, 0, 0x80, 4, 8, 85, 0, 0, 0, 100, 0, 0, 0, 5, 0, 0, 0, 0, 0x10, 0, 0, 0xc3]"

definition demo_disk :: fs where
  "demo_disk = demo_fs\<lparr>fs_device := (fs_device demo_fs)\<lparr>aux := (\<lambda>i. if i = 2 then demo_exe @ replicate 427 0
       else if i = 4 then dir_entry_bytes \<lparr>inode_sector = 0, ename = 97 # replicate 14 0, in_use = True\<rparr> @ replicate 492 0 else replicate 512 0)\<rparr>,
     open_inodes := [\<lparr>sector = 0, open_cnt = 1, removed = False, deny_write_cnt = 0,
        idata = \<lparr>start = 2, dlength = 85, magic = INODE_MAGIC, unused = []\<rparr>\<rparr>,
       \<lparr>sector = 1, open_cnt = 1, removed = False, deny_write_cnt = 0, idata = \<lparr>start = 4, dlength = 20, magic = INODE_MAGIC, unused = []\<rparr>\<rparr>]\<rparr>"

definition demo_machine :: mmu where
  "demo_machine = \<lparr>pal = \<lparr>kernel_pool = \<lparr>used_map = \<lparr>bit_cnt = 8, bits = [1]\<rparr>, base = 0xc0100000\<rparr>,
       user_pool = \<lparr>used_map = \<lparr>bit_cnt = 8, bits = [0]\<rparr>, base = 0xc0200000\<rparr>, ram = (\<lambda>_. 0)\<rparr>,
     init_page_dir = 0xc0100000, init_ram_pages = 1024, cr3 = 0x100000\<rparr>"

definition demo_task :: task where
  "demo_task = \<lparr>vm = demo_machine, pfs = demo_disk, tid = 3, tname = [97], pcb = Some \<lparr>pagedir = 0, process_name = [97], main_thread = 3\<rparr>\<rparr>"

lemma demo_ehdr: "ehdr_of (take 52 demo_exe) = \<lparr>e_ident = take 16 demo_exe, e_type = 2, e_machine = 3, e_version = 1, e_entry = 0x8048054,
   e_phoff = 52, e_shoff = 0, e_flags = 0, e_ehsize = 52, e_phentsize = 32, e_phnum = 1, e_shentsize = 0, e_shnum = 0, e_shstrndx = 0\<rparr>"
  by (simp add: demo_exe_def ehdr_of_def half_at_def word_at_def word_of_bytes_def)

lemma demo_phdr: "phdr_at demo_exe 52 0 = \<lparr>p_type = 1, p_offset = 0, p_vaddr = 0x8048000, p_paddr = 0x8048000, p_filesz = 85, p_memsz = 100,
   p_flags = 5, p_align = 0x1000\<rparr>"
  by (simp add: demo_exe_def phdr_at_def phdr_of_def word_at_def word_of_bytes_def)

lemma demo_executable: "executable demo_exe" "image_pages demo_exe = 1"
proof -
  have d: "pg_round_down 0x8048000 = 0x8048000" by (simp add: pg_round_down_def PG_simps)
  have "length demo_exe = 85" by (simp add: demo_exe_def)
  moreover have "take 7 (take 16 demo_exe) = [0x7f, 0x45, 0x4c, 0x46, 1, 1, 1]" by (simp add: demo_exe_def)
  ultimately show "executable demo_exe"
    by (simp add: executable_def ehdr_ok_def demo_ehdr demo_phdr phdr_valid_def bad_type_def valid_segment_def seg_range_def in_range_def
        page_cnt_def stack_page(1) d PT_LOAD_def PT_DYNAMIC_def PT_INTERP_def PT_SHLIB_def)
  show "image_pages demo_exe = 1"
    by (simp add: image_pages_def pages_needed_def demo_ehdr demo_phdr seg_pages_def page_cnt_def PT_LOAD_def)
qed

lemma content_prefix:
  assumes "dk (start d) = bs @ rest" "dlength d = int (length bs)" "length bs \<le> 512"
  shows "content dk d = bs"
proof (rule nth_equalityI)
  fix i
  assume "i < length (content dk d)"
  then have "i < length bs" using assms(2) by simp
  then show "content dk d ! i = bs ! i" using assms by (simp add: content_def nth_append)
qed (use assms(2) in simp)

lemma demo_disk_files:
  "file_bytes demo_disk 0 = demo_exe" "file_bytes demo_disk 1 = dir_entry_bytes \<lparr>inode_sector = 0, ename = 97 # replicate 14 0, in_use = True\<rparr>"
  "file_ok demo_disk 0" "file_ok demo_disk 1" "\<forall>i. avail demo_disk i"
proof -
  have l: "length demo_exe = 85" by (simp add: demo_exe_def)
  let ?e = "\<lparr>inode_sector = 0, ename = 97 # replicate 14 0, in_use = True\<rparr> :: dir_entry"
  have e: "length (dir_entry_bytes ?e) = 20" by (rule length_entry_bytes) simp
  show "file_bytes demo_disk 0 = demo_exe"
    using l by (simp add: file_bytes_def demo_disk_def get_inode_def content_prefix [where rest = "replicate 427 0"])
  show "file_bytes demo_disk 1 = dir_entry_bytes ?e"
    using e by (simp add: file_bytes_def demo_disk_def get_inode_def content_prefix [where rest = "replicate 492 0"])
  have "disk_ok (aux (fs_device demo_disk))" using l e by (simp add: disk_ok_def demo_disk_def)
  then show "file_ok demo_disk 0" "file_ok demo_disk 1"
    by (simp_all add: file_ok_def get_inode_def on_device_def nsectors_def demo_disk_def demo_fs_def)
  show "\<forall>i. avail demo_disk i" by (simp add: demo_disk_def demo_fs_def)
qed

lemma demo_open:
  "\<exists>h. filesys_open demo_disk [97] = Some (Some \<lparr>finode = 0, fpos = 0, deny_write = False\<rparr>, h) \<and> file_ok h 0 \<and> file_bytes h 0 = demo_exe \<and>
     may_close h \<lparr>finode = 0, fpos = 0, deny_write = False\<rparr> \<and> (\<forall>i. avail h i)"
proof -
  let ?e = "\<lparr>inode_sector = 0, ename = 97 # replicate 14 0, in_use = True\<rparr> :: dir_entry"
  have r: "ROOT_DIR_SECTOR = 1" by (simp add: ROOT_DIR_SECTOR_def)
  have n: "nslots (dir_entry_bytes ?e) = 1" by (simp add: nslots_def length_entry_bytes)
  have s: "Directory.slot (dir_entry_bytes ?e) 0 = ?e" by (simp add: Directory.slot_def length_entry_bytes entry_of_bytes)
  have k: "slot_of (file_bytes demo_disk ROOT_DIR_SECTOR) [97] = Some 0"
    unfolding r demo_disk_files(2) slot_of_def n using s by (simp add: holds_def c_str_def)
  obtain d where d: "get_inode demo_disk ROOT_DIR_SECTOR = Some d" "0 < open_cnt d" by (simp add: r demo_disk_def get_inode_def)
  obtain m where m: "get_inode demo_disk 0 = Some m" "\<not> removed m" by (simp add: demo_disk_def get_inode_def)
  have i: "0 = inode_sector (Directory.slot (file_bytes demo_disk ROOT_DIR_SECTOR) 0)" unfolding r demo_disk_files(2) s by simp
  from filesys_open_ok [OF d _ demo_disk_files(5) k i m(1)] show ?thesis
    using demo_disk_files(1,3,4,5) m(2) by (auto simp: r may_close_def)
qed

lemma demo_machine_pages:
  "pool_pages (kernel_pool (pal demo_machine)) = {0xc0100 ..< 0xc0108}" "pool_pages (user_pool (pal demo_machine)) = {0xc0200 ..< 0xc0208}"
  "palloc_used (pal demo_machine) = {0xc0100}"
proof -
  have n: "unat (pg_no 0xc0100000) = 0xc0100" "unat (pg_no 0xc0200000) = 0xc0200" by (simp_all add: unat_pg_no)
  then show "pool_pages (kernel_pool (pal demo_machine)) = {0xc0100 ..< 0xc0108}" "pool_pages (user_pool (pal demo_machine)) = {0xc0200 ..< 0xc0208}"
    by (simp_all add: pool_pages_def demo_machine_def)
  have b: "bit (1 :: u32) i \<longleftrightarrow> i = 0" for i by (simp add: bit_1_iff)
  have "bm_used \<lparr>bit_cnt = 8, bits = [1]\<rparr> = {0}" "bm_used \<lparr>bit_cnt = 8, bits = [0]\<rparr> = {}"
    by (auto simp: bm_used_def bm_bits_def bm_bit_def b)
  then show "palloc_used (pal demo_machine) = {0xc0100}" using n by (simp add: palloc_used_def pool_used_def demo_machine_def)
qed

lemma demo_machine_ok: "machine_ok demo_machine" "room_for demo_machine 3"
proof -
  have g: "get demo_machine p = 0" for p by (simp add: get_def demo_machine_def Pagedir.load_def word_of_bytes_def)
  have n: "unat (pg_no 0xc0100000) = 0xc0100" "unat (pg_no 0xc0200000) = 0xc0200" by (simp_all add: unat_pg_no)
  have o: "pg_ofs 0xc0100000 = 0" "pg_ofs 0xc0200000 = 0" by (simp_all add: word_unat_eq_iff unat_pg_ofs)
  have "palloc_inv (pal demo_machine)"
    using n o by (auto simp: palloc_inv_def pool_inv_def demo_machine_def bm_wf_def pool_pages_def word_gt_0 simp flip: unat_gt_0)
  moreover have "init_page_dir demo_machine = 0xc0100000" "cr3 demo_machine = 0x100000" "init_ram_pages demo_machine = 1024"
    by (simp_all add: demo_machine_def)
  ultimately show "machine_ok demo_machine" using n o g by (auto simp: machine_ok_def demo_machine_pages)
  have "{0xc0100 ..< 0xc0108} - {0xc0100 :: nat} = {0xc0101 ..< 0xc0108}" by auto
  then show "room_for demo_machine 3" by (simp add: room_for_def free_pages_def demo_machine_pages)
qed

theorem load_correct_witness:
  "\<exists>sp t' pd. load demo_task [97] 0 0 = Some (True, 0x8048054, sp, t') \<and> space_ok (vm t') pd \<and> image_loaded (vm t') pd demo_exe"
proof -
  let ?f = "\<lparr>finode = 0, fpos = 0, deny_write = False\<rparr>"
  obtain h where h: "filesys_open (pfs demo_task) [97] = Some (Some ?f, h)" "file_ok h 0" "file_bytes h 0 = demo_exe" "may_close h ?f" "\<forall>i. avail h i"
    using demo_open by (auto simp: demo_task_def)
  have m: "machine_ok (vm demo_task)" "room_for (vm demo_task) (image_pages demo_exe + 2)"
    using demo_machine_ok by (simp_all add: demo_task_def demo_executable(2) numeral_3_eq_3)
  have p: "pcb demo_task = Some \<lparr>pagedir = 0, process_name = [97], main_thread = 3\<rparr>" by (simp add: demo_task_def)
  have c: "\<forall>f. Some ?f = Some f \<longrightarrow> file_ok h (finode f) \<and> may_close h f" using h by auto
  have x: "file_bytes h (finode ?f) = demo_exe" "e_entry (ehdr_of (take 52 demo_exe)) = 0x8048054" using h(3) demo_ehdr by simp_all
  from load_correct [OF m(1) p h(1) c, of 0 0] show ?thesis
    using x m(2) h(5) demo_executable(1) by (auto split: if_splits)
qed

text \<open>
  C11. \<open>load_segment\<close> with a segment of whole pages below the kernel never panics. When it returns true,
  the pages hold the bytes of the file from the offset on and then zeros, with the access asked for, and every other
  address of the process is as it was; the file system is not changed. It does return true when the pages
  are not mapped, the file is long enough and there is enough memory.
\<close>

theorem load_segment_correct:
  assumes "space_ok (vm t) pd" "pcb t = Some p" "pagedir p = pd" "file_ok (pfs t) (finode f)" "0 \<le> ofs" "ofs < 2 ^ 31" "ofs mod 4096 = 0"
    "pg_ofs upage = 0" "unat rb + unat zb = 4096 * n" "unat upage + 4096 * n \<le> 0xc0000000"
  shows "\<exists>r f' t'. load_segment t f ofs upage rb zb w = Some (r, f', t') \<and> space_ok (vm t') pd \<and> pcb t' = pcb t \<and> idle (pfs t) (pfs t') \<and>
    (r \<longrightarrow> nat ofs + unat rb \<le> length (file_bytes (pfs t) (finode f)) \<or> rb = 0) \<and>
    (r \<longrightarrow> (\<forall>va. is_user_vaddr va \<longrightarrow> user_cell (vm t') pd va =
       (if in_range upage (4096 * n) va then Some (if unat va - unat upage < unat rb
          then file_bytes (pfs t) (finode f) ! (nat ofs + (unat va - unat upage)) else 0, w)
        else user_cell (vm t) pd va))) \<and>
    ((\<forall>va. in_range upage (4096 * n) va \<longrightarrow> user_cell (vm t) pd va = None) \<and> nat ofs + unat rb \<le> length (file_bytes (pfs t) (finode f)) \<and>
       room_for (vm t) n \<and> (\<forall>i. avail (pfs t) i) \<longrightarrow> r)"
proof -
  obtain r f' t' where l: "load_segment t f ofs upage rb zb w = Some (r, f', t')" "progress pd t t'"
      "r \<longrightarrow> segment_loaded pd t (f\<lparr>fpos := ofs\<rparr>) upage (unat rb) (4096 * n) w t'" "enough pd t (f\<lparr>fpos := ofs\<rparr>) upage (unat rb) n \<longrightarrow> r"
    using load_segment_ok [OF assms, of w] by blast
  have "r \<longrightarrow> nat ofs + unat rb \<le> length (file_bytes (pfs t) (finode f)) \<or> rb = 0"
    using l(3) by (cases "rb = 0") (auto simp: segment_loaded_def simp flip: unat_gt_0 word_neq_0_conv)
  moreover have "enough pd t (f\<lparr>fpos := ofs\<rparr>) upage (unat rb) n"
    if "\<forall>va. in_range upage (4096 * n) va \<longrightarrow> user_cell (vm t) pd va = None" "nat ofs + unat rb \<le> length (file_bytes (pfs t) (finode f))"
      "room_for (vm t) n" "\<forall>i. avail (pfs t) i"
    using that by (auto simp: enough_def room_for_def)
  ultimately show ?thesis
    using l by (intro exI [of _ r] exI [of _ f'] exI [of _ t']) (simp add: progress_def segment_loaded_def)
qed

definition seg_task :: task where
  "seg_task = demo_task\<lparr>vm := small_machine, pcb := Some \<lparr>pagedir = 0xc0100000, process_name = [97], main_thread = 3\<rparr>\<rparr>"

lemma small_machine_space: "space_ok small_machine 0xc0100000" "user_cell small_machine 0xc0100000 va = None" "room_for small_machine 1"
proof -
  have p: "pte_at small_machine pd va = 0" for pd va by (simp add: pte_at_def small_machine_get)
  have n: "unat (pg_no 0xc0100000) = 0xc0100" "unat (pg_no 0xc0200000) = 0xc0200" by (simp_all add: unat_pg_no)
  show "space_ok small_machine 0xc0100000"
    using small_machine_ok n by (simp add: space_ok_def p) (simp add: small_machine_def pool_pages_def)
  show "user_cell small_machine 0xc0100000 va = None" by (simp add: user_cell_def p)
  have "bm_used \<lparr>bit_cnt = 3, bits = [1]\<rparr> = {0}" "bm_used \<lparr>bit_cnt = 3, bits = [0]\<rparr> = {}"
    by (auto simp: bm_used_def bm_bits_def bm_bit_def bit_1_iff)
  then have "palloc_used (pal small_machine) = {0xc0100}" using n by (simp add: palloc_used_def pool_used_def small_machine_def)
  moreover have "pool_pages (kernel_pool (pal small_machine)) = {0xc0100 ..< 0xc0103}" "pool_pages (user_pool (pal small_machine)) = {0xc0200 ..< 0xc0203}"
    using n by (simp_all add: pool_pages_def small_machine_def)
  moreover have "{0xc0100 ..< 0xc0103} - {0xc0100 :: nat} = {0xc0101 ..< 0xc0103}" by auto
  ultimately show "room_for small_machine 1" by (simp add: room_for_def free_pages_def)
qed

theorem load_segment_correct_witness:
  "\<exists>f' t'. load_segment seg_task \<lparr>finode = 0, fpos = 0, deny_write = False\<rparr> 0 0x8048000 85 4011 True = Some (True, f', t') \<and>
     user_cell (vm t') 0xc0100000 0x8048000 = Some (0x7f, True) \<and> user_cell (vm t') 0xc0100000 0x8048055 = Some (0, True)"
proof -
  let ?f = "\<lparr>finode = 0, fpos = 0, deny_write = False\<rparr>"
  have s: "vm seg_task = small_machine" "pcb seg_task = Some \<lparr>pagedir = 0xc0100000, process_name = [97], main_thread = 3\<rparr>" "pfs seg_task = demo_disk"
    by (simp_all add: seg_task_def demo_task_def)
  have F: "file_bytes (pfs seg_task) (finode ?f) = demo_exe" "length demo_exe = 85" "demo_exe ! 0 = 0x7f" "file_ok (pfs seg_task) (finode ?f)"
    using demo_disk_files s by (simp_all add: demo_exe_def)
  have u: "is_user_vaddr 0x8048000" "is_user_vaddr 0x8048055" "in_range 0x8048000 4096 0x8048000" "in_range 0x8048000 4096 0x8048055"
    by (simp_all add: is_user_vaddr_def PHYS_BASE_def in_range_def)
  have g: "space_ok (vm seg_task) 0xc0100000" "pg_ofs 0x8048000 = 0" "unat (85 :: u32) + unat (4011 :: u32) = 4096 * 1" "room_for (vm seg_task) 1"
    using small_machine_space s by (simp_all add: pg_ofs_def PG_simps)
  obtain r f' t' where l: "load_segment seg_task ?f 0 0x8048000 85 4011 True = Some (r, f', t')"
      "r \<longrightarrow> (\<forall>va. is_user_vaddr va \<longrightarrow> user_cell (vm t') 0xc0100000 va = (if in_range 0x8048000 (4096 * 1) va then
         Some (if unat va - unat (0x8048000 :: addr) < unat (85 :: u32) then demo_exe ! (nat 0 + (unat va - unat (0x8048000 :: addr))) else 0, True)
         else user_cell (vm seg_task) 0xc0100000 va))" "r"
    using load_segment_correct [OF g(1) s(2) _ F(4) _ _ _ g(2,3), of 0 True] F(2) g(4) small_machine_space(2) s(1,3) demo_disk_files(5)
    unfolding F(1) by (auto simp del: One_nat_def)
  have "user_cell (vm t') 0xc0100000 0x8048000 = Some (0x7f, True)" "user_cell (vm t') 0xc0100000 0x8048055 = Some (0, True)"
    using l(2) [rule_format, OF l(3) u(1)] l(2) [rule_format, OF l(3) u(2)] u(3,4) F(3) by simp_all
  then show ?thesis using l(1,3) by auto
qed

text \<open>
  C18. When the file does not exist, \<open>start_process\<close> returns the page with its name and leaves the thread
  without a process, but the new page directory stays allocated and active, and nothing refers to it any more:
  the page is lost.
\<close>

theorem start_process_leak:
  assumes "machine_ok (vm t)" "avail (pfs t) (reqs (pfs t))" "room_for (vm t) 1"
    "pg_ofs file_name = 0" "unat (pg_no file_name) \<in> table_pages (pal (vm t))"
    "filesys_open (snd (mem_request (pfs t))) (string_at (ram (pal (vm t))) file_name) = Some (None, h)"
  shows "\<exists>pd t'. start_process t file_name = Some (None, t') \<and> pcb t' = None \<and> unat (pg_no pd) \<notin> palloc_used (pal (vm t)) \<and>
    palloc_used (pal (vm t')) = insert (unat (pg_no pd)) (palloc_used (pal (vm t)) - {unat (pg_no file_name)}) \<and> cr3 (vm t') = pd - PHYS_BASE"
proof -
  let ?p = "\<lparr>pagedir = 0, process_name = take 15 (tname t), main_thread = tid t\<rparr>"
  obtain h0 where m: "mem_request (pfs t) = (True, h0)" using assms(2) by (simp add: mem_request_def)
  let ?t = "t\<lparr>pfs := h0, pcb := Some ?p\<rparr>"
  have "pagedir_create (vm t) \<noteq> Some (0, vm t)" using no_room_create [OF assms(1)] assms(3) by blast
  then obtain pd s where c: "pagedir_create (vm t) = Some (pd, s)" "space_ok s pd" "same_machine (vm t) s" "unat (pg_no pd) \<notin> palloc_used (pal (vm t))"
      "palloc_used (pal s) = insert (unat (pg_no pd)) (palloc_used (pal (vm t)))"
    using pagedir_create_ok [OF assms(1)] by blast
  let ?t2 = "?t\<lparr>vm := s\<lparr>cr3 := pd - PHYS_BASE\<rparr>, pcb := Some (?p\<lparr>pagedir := pd\<rparr>), pfs := h\<rparr>"
  have o: "filesys_open (pfs ?t) (string_at (ram (pal (vm ?t))) file_name) = Some (None, h)" using assms(6) m by simp
  have p: "pagedir_create (vm ?t) = Some (pd, s)" "pcb ?t = Some ?p" using c(1) by simp_all
  note l = load_no_file [OF p(1) c(2) p(2) o]
  have k: "unat (pg_no file_name) \<in> table_pages (pal (vm ?t2))"
    using assms(5) c(3,5) by (simp add: table_pages_def same_machine_def)
  have inv: "palloc_inv (pal (vm ?t2))" using space_okD(6) [OF c(2)] by simp
  obtain a where a: "free_page (vm ?t2) file_name = Some ((vm ?t2)\<lparr>pal := a\<rparr>)" "palloc_used a = palloc_used (pal (vm ?t2)) - {unat (pg_no file_name)}"
    using free_table_page [OF inv assms(4) k] by blast
  let ?t3 = "?t2\<lparr>pcb := None, vm := (vm ?t2)\<lparr>pal := a\<rparr>\<rparr>"
  have "start_process t file_name = Some (None, ?t3)"
    unfolding start_process_def m Let_def using l a(1) by (simp add: zero_frame_def)
  moreover have "palloc_used a = insert (unat (pg_no pd)) (palloc_used (pal (vm t)) - {unat (pg_no file_name)})"
  proof -
    have "unat (pg_no file_name) \<in> palloc_used (pal (vm t))" using assms(5) by (simp add: table_pages_def)
    moreover have "palloc_used a = insert (unat (pg_no pd)) (palloc_used (pal (vm t))) - {unat (pg_no file_name)}" using a(2) c(5) by simp
    moreover have "insert n U - {k} = insert n (U - {k})" if "k \<in> U" "n \<notin> U" for n k :: nat and U using that by auto
    ultimately show ?thesis using c(4) by simp
  qed
  ultimately show ?thesis using c(4) by (intro exI [of _ pd] exI [of _ ?t3]) simp
qed

definition name_machine :: mmu where
  "name_machine = demo_machine\<lparr>pal := (pal demo_machine)\<lparr>kernel_pool := \<lparr>used_map = \<lparr>bit_cnt = 8, bits = [3]\<rparr>, base = 0xc0100000\<rparr>\<rparr>\<rparr>"

lemma name_machine_ok: "machine_ok name_machine" "room_for name_machine 1" "0xc0101 \<in> table_pages (pal name_machine)"
proof -
  have n: "unat (pg_no 0xc0100000) = 0xc0100" "unat (pg_no 0xc0200000) = 0xc0200" by (simp_all add: unat_pg_no)
  have o: "pg_ofs 0xc0100000 = 0" "pg_ofs 0xc0200000 = 0" by (simp_all add: word_unat_eq_iff unat_pg_ofs)
  have b: "bit (3 :: int) i \<longleftrightarrow> i < 2" for i
    using bit_mask_iff [of 2 i, where 'a = int] by (simp add: mask_eq_exp_minus_1)
  have u: "bm_used \<lparr>bit_cnt = 8, bits = [3]\<rparr> = {0, 1}" "bm_used \<lparr>bit_cnt = 8, bits = [0]\<rparr> = {}"
    by (auto simp: bm_used_def bm_bits_def bm_bit_def b less_2_cases_iff)
  have used: "palloc_used (pal name_machine) = {0xc0100, 0xc0101}"
    using n u by (simp add: palloc_used_def pool_used_def name_machine_def demo_machine_def insert_commute)
  have pp: "pool_pages (kernel_pool (pal name_machine)) = {0xc0100 ..< 0xc0108}" "pool_pages (user_pool (pal name_machine)) = {0xc0200 ..< 0xc0208}"
    using n by (simp_all add: pool_pages_def name_machine_def demo_machine_def)
  have g: "get name_machine p = 0" for p by (simp add: get_def name_machine_def demo_machine_def Pagedir.load_def word_of_bytes_def)
  have "palloc_inv (pal name_machine)"
    using n o by (auto simp: palloc_inv_def pool_inv_def name_machine_def demo_machine_def bm_wf_def pool_pages_def word_gt_0 simp flip: unat_gt_0)
  moreover have "init_page_dir name_machine = 0xc0100000" "cr3 name_machine = 0x100000" "init_ram_pages name_machine = 1024"
    by (simp_all add: name_machine_def demo_machine_def)
  ultimately show "machine_ok name_machine" using n o g by (auto simp: machine_ok_def used pp)
  have "{0xc0100 ..< 0xc0108} - {0xc0100, 0xc0101 :: nat} = {0xc0102 ..< 0xc0108}" by auto
  then show "room_for name_machine 1" by (simp add: room_for_def free_pages_def used pp)
  show "0xc0101 \<in> table_pages (pal name_machine)" by (simp add: table_pages_def used pp)
qed

theorem start_process_leak_witness:
  "\<exists>pd t'. start_process (demo_task\<lparr>vm := name_machine\<rparr>) 0xc0101000 = Some (None, t') \<and>
     unat (pg_no pd) \<in> palloc_used (pal (vm t')) - palloc_used (pal name_machine)"
proof -
  let ?t = "demo_task\<lparr>vm := name_machine\<rparr>" and ?s = "snd (mem_request demo_disk)"
  let ?e = "\<lparr>inode_sector = 0, ename = 97 # replicate 14 0, in_use = True\<rparr> :: dir_entry"
  have r: "ROOT_DIR_SECTOR = 1" by (simp add: ROOT_DIR_SECTOR_def)
  have s: "idle demo_disk ?s" using idle_reqs [of demo_disk] by (simp add: mem_request_def)
  have nm: "string_at (ram (pal (vm ?t))) 0xc0101000 = []"
    by (rule string_at_empty) (simp add: name_machine_def demo_machine_def)
  have "nslots (dir_entry_bytes ?e) = 1" by (simp add: nslots_def length_entry_bytes)
  moreover have "Directory.slot (dir_entry_bytes ?e) 0 = ?e" by (simp add: Directory.slot_def length_entry_bytes entry_of_bytes)
  ultimately have k: "slot_of (file_bytes ?s ROOT_DIR_SECTOR) [] = None"
    using idle_file(3) [OF s] demo_disk_files(2) by (simp add: r slot_of_def holds_def c_str_def)
  obtain d where d: "get_inode ?s ROOT_DIR_SECTOR = Some d" "0 < open_cnt d"
    using idle_same(9) [OF s] by (simp add: r demo_disk_def get_inode_def)
  have f: "file_ok ?s ROOT_DIR_SECTOR" "\<forall>i. avail ?s i" using idle_file [OF s] demo_disk_files by (simp_all add: r)
  obtain h where o: "filesys_open ?s [] = Some (None, h)" using filesys_open_none [OF d f k] by blast
  have p: "pg_ofs 0xc0101000 = 0" "unat (pg_no 0xc0101000) = 0xc0101" by (simp_all add: word_unat_eq_iff unat_pg_ofs unat_pg_no)
  have v: "vm ?t = name_machine" "pfs ?t = demo_disk" by (simp_all add: demo_task_def)
  from start_process_leak [of ?t "0xc0101000" h] show ?thesis
    using name_machine_ok p o nm demo_disk_files(5) unfolding v by auto
qed

end
