(* ===== verification/Tokenizer.thy ===== *)
theory Tokenizer
  imports Stdlib
begin

text \<open>
  The tokenizer of the shell (src/hw-shell/tokenizer.c), which splits a command line into words at
  white space, with quotes and backslashes. It runs on a host operating system with its C library:
  the heap is a map from addresses to blocks, a request for memory may be refused, and a use of a
  null pointer, of a block that is not allocated or of a position outside an array is \<open>None\<close>, as is
  \<open>abort\<close>. A line is the list of its bytes before the terminator; \<open>isspace\<close> is the one of \<open>Stdlib\<close>.
\<close>

subsection \<open>The heap of the host\<close>

record tokens =
  tokens_length :: nat
  tokens_vec :: nat
  buffers_length :: nat
  buffers_vec :: nat

datatype hblock = Chars "u8 list" | Pointers "nat list" | Tokens tokens

text \<open>\<open>token\<close> is the static buffer of \<open>tokenize\<close>; \<open>refuse\<close> says which requests for memory fail.\<close>

record host =
  blocks :: "nat \<rightharpoonup> hblock"
  fresh :: nat
  refuse :: "nat \<Rightarrow> bool"
  token :: "u8 list"

definition host_malloc :: "host \<Rightarrow> hblock \<Rightarrow> nat \<times> host" where
  "host_malloc h b =
     (if refuse h (fresh h) then (0, h\<lparr>fresh := Suc (fresh h)\<rparr>)
      else (fresh h, h\<lparr>fresh := Suc (fresh h), blocks := (blocks h)(fresh h \<mapsto> b)\<rparr>))"

definition host_free :: "host \<Rightarrow> nat \<Rightarrow> host option" where
  "host_free h p =
     (if p = 0 then Some h
      else case blocks h p of None \<Rightarrow> None | Some _ \<Rightarrow> Some (h\<lparr>blocks := (blocks h)(p := None)\<rparr>))"

definition get_pointers :: "host \<Rightarrow> nat \<Rightarrow> nat list option" where
  "get_pointers h p = (case blocks h p of Some (Pointers ps) \<Rightarrow> Some ps | _ \<Rightarrow> None)"

definition get_tokens :: "host \<Rightarrow> nat \<Rightarrow> tokens option" where
  "get_tokens h p = (case blocks h p of Some (Tokens T) \<Rightarrow> Some T | _ \<Rightarrow> None)"

text \<open>\<open>realloc\<close> of an array to \<open>n\<close> pointers; a null pointer stands for an empty array.\<close>

definition host_realloc :: "host \<Rightarrow> nat \<Rightarrow> nat \<Rightarrow> (nat \<times> host) option" where
  "host_realloc h p n = do {
     ps \<leftarrow> (if p = 0 then Some [] else get_pointers h p);
     let (q, h) = host_malloc h (Pointers (take n ps @ replicate (n - length ps) 0));
     if q = 0 then Some (0, h) else do { h \<leftarrow> host_free h p; Some (q, h) }
   }"

definition strncpy_bytes :: "u8 list \<Rightarrow> nat \<Rightarrow> u8 list" where
  "strncpy_bytes src n = (let w = takeWhile (\<lambda>c. c \<noteq> 0) (take n src) in w @ replicate (n - length w) 0)"

subsection \<open>The C functions\<close>

definition vector_push :: "host \<Rightarrow> nat \<Rightarrow> nat \<Rightarrow> nat \<Rightarrow> (nat \<times> nat \<times> host) option" where
  "vector_push h pointer sz elem = do {
     (pointer, h) \<leftarrow> host_realloc h pointer (sz + 1);
     ps \<leftarrow> get_pointers h pointer;
     ASSERT (sz < length ps);
     Some (pointer, sz + 1, h\<lparr>blocks := (blocks h)(pointer \<mapsto> Pointers (ps[sz := elem]))\<rparr>)
   }"

definition put_char :: "host \<Rightarrow> nat \<Rightarrow> u8 \<Rightarrow> host option" where
  "put_char h n c = do { ASSERT (n < length (token h)); Some (h\<lparr>token := (token h)[n := c]\<rparr>) }"

definition copy_word :: "host \<Rightarrow> nat \<Rightarrow> (nat \<times> host) option" where
  "copy_word h n = do {
     h \<leftarrow> put_char h n 0;
     let (word, h) = host_malloc h (Chars (strncpy_bytes (token h) (n + 1)));
     ASSERT (word \<noteq> 0);
     Some (word, h)
   }"

definition add_word :: "host \<Rightarrow> nat \<Rightarrow> nat \<Rightarrow> host option" where
  "add_word h t n = do {
     (word, h) \<leftarrow> copy_word h n;
     T \<leftarrow> get_tokens h t;
     (v, len, h) \<leftarrow> vector_push h (tokens_vec T) (tokens_length T) word;
     Some (h\<lparr>blocks := (blocks h)(t \<mapsto> Tokens (T\<lparr>tokens_vec := v, tokens_length := len\<rparr>))\<rparr>)
   }"

datatype mode = MODE_NORMAL | MODE_SQUOTE | MODE_DQUOTE

type_synonym scan = "u32 \<times> nat \<times> mode \<times> host"

definition scan_escape :: "u8 list \<Rightarrow> scan \<Rightarrow> scan option" where
  "scan_escape line s = (case s of (i, n, mode, h) \<Rightarrow>
     if unat (i + 1) < length line then do {
       h \<leftarrow> put_char h n (line ! unat (i + 1));
       Some (i + 1, n + 1, mode, h)
     } else Some s)"

definition scan_normal :: "nat \<Rightarrow> u8 list \<Rightarrow> scan \<Rightarrow> scan option" where
  "scan_normal t line s = (case s of (i, n, mode, h) \<Rightarrow>
     let c = line ! unat i in
     if c = 39 then Some (i, n, MODE_SQUOTE, h)
     else if c = 34 then Some (i, n, MODE_DQUOTE, h)
     else if c = 92 then scan_escape line s
     else if isspace (sint c) then
       if n > 0 then do { h \<leftarrow> add_word h t n; Some (i, 0, mode, h) } else Some s
     else do { h \<leftarrow> put_char h n c; Some (i, n + 1, mode, h) })"

definition scan_quoted :: "u8 \<Rightarrow> u8 list \<Rightarrow> scan \<Rightarrow> scan option" where
  "scan_quoted quote line s = (case s of (i, n, mode, h) \<Rightarrow>
     let c = line ! unat i in
     if c = quote then Some (i, n, MODE_NORMAL, h)
     else if c = 92 then scan_escape line s
     else do { h \<leftarrow> put_char h n c; Some (i, n + 1, mode, h) })"

definition scan_char :: "nat \<Rightarrow> u8 list \<Rightarrow> scan \<Rightarrow> scan option" where
  "scan_char t line s = (case s of (i, n, mode, h) \<Rightarrow>
     case mode of MODE_NORMAL \<Rightarrow> scan_normal t line s | MODE_SQUOTE \<Rightarrow> scan_quoted 39 line s | MODE_DQUOTE \<Rightarrow> scan_quoted 34 line s)"

partial_function (option) tokenize_loop :: "nat \<Rightarrow> u8 list \<Rightarrow> scan \<Rightarrow> scan option" where
  [code]: "tokenize_loop t line s =
     (if unat (fst s) < length line then do {
        (i, n, mode, h) \<leftarrow> scan_char t line s;
        if n + 1 \<ge> 4096 then None
        else tokenize_loop t line (i + 1, n, mode, h)
      } else Some s)"

definition tokenize :: "host \<Rightarrow> u8 list option \<Rightarrow> (nat \<times> host) option" where
  "tokenize h line = (case line of None \<Rightarrow> Some (0, h) | Some line \<Rightarrow> do {
     let (t, h) = host_malloc h (Tokens \<lparr>tokens_length = 0, tokens_vec = 0, buffers_length = 0, buffers_vec = 0\<rparr>);
     ASSERT (t \<noteq> 0);
     (i, n, mode, h) \<leftarrow> tokenize_loop t line (0, 0, MODE_NORMAL, h);
     h \<leftarrow> (if n > 0 then add_word h t n else Some h);
     Some (t, h)
   })"

definition tokens_get_length :: "host \<Rightarrow> nat \<Rightarrow> nat option" where
  "tokens_get_length h t = (if t = 0 then Some 0 else do { T \<leftarrow> get_tokens h t; Some (tokens_length T) })"

definition tokens_get_token :: "host \<Rightarrow> nat \<Rightarrow> nat \<Rightarrow> nat option" where
  "tokens_get_token h t n =
     (if t = 0 then Some 0
      else do {
        T \<leftarrow> get_tokens h t;
        if n \<ge> tokens_length T then Some 0
        else do { ps \<leftarrow> get_pointers h (tokens_vec T); ASSERT (n < length ps); Some (ps ! n) }
      })"

text \<open>The first \<open>n\<close> pointers of the array \<open>v\<close> are freed, the first one first.\<close>

fun free_vector :: "host \<Rightarrow> nat \<Rightarrow> nat \<Rightarrow> nat \<Rightarrow> host option" where
  "free_vector h v i 0 = Some h"
| "free_vector h v i (Suc n) = do {
     ps \<leftarrow> get_pointers h v;
     ASSERT (i < length ps);
     h \<leftarrow> host_free h (ps ! i);
     free_vector h v (Suc i) n
   }"

definition tokens_destroy :: "host \<Rightarrow> nat \<Rightarrow> host option" where
  "tokens_destroy h t =
     (if t = 0 then Some h
      else do {
        T \<leftarrow> get_tokens h t;
        h \<leftarrow> free_vector h (tokens_vec T) 0 (tokens_length T);
        h \<leftarrow> free_vector h (buffers_vec T) 0 (buffers_length T);
        h \<leftarrow> (if tokens_vec T \<noteq> 0 then host_free h (tokens_vec T) else Some h);
        host_free h t
      })"

subsection \<open>The words of a line\<close>

text \<open>What the tokenizer computes, on lists: \<open>w\<close> is the word read so far.\<close>

fun line_words :: "mode \<Rightarrow> u8 list \<Rightarrow> u8 list \<Rightarrow> u8 list list" where
  "line_words md w [] = (if w = [] then [] else [w])"
| "line_words md w (c # cs) =
     (if c = 92 then (case cs of [] \<Rightarrow> line_words md w [] | d # ds \<Rightarrow> line_words md (w @ [d]) ds)
      else case md of
        MODE_NORMAL \<Rightarrow>
          if c = 39 then line_words MODE_SQUOTE w cs
          else if c = 34 then line_words MODE_DQUOTE w cs
          else if isspace (sint c) then (if w = [] then [] else [w]) @ line_words MODE_NORMAL [] cs
          else line_words MODE_NORMAL (w @ [c]) cs
      | MODE_SQUOTE \<Rightarrow> if c = 39 then line_words MODE_NORMAL w cs else line_words MODE_SQUOTE (w @ [c]) cs
      | MODE_DQUOTE \<Rightarrow> if c = 34 then line_words MODE_NORMAL w cs else line_words MODE_DQUOTE (w @ [c]) cs)"

text \<open>The word read so far is a prefix of a word of the result.\<close>

lemma line_words_longer: "w \<noteq> [] \<Longrightarrow> \<exists>x \<in> set (line_words md w cs). length w \<le> length x"
proof (induction "length cs" arbitrary: md w cs rule: less_induct)
  case less
  have IH: "\<exists>x \<in> set (line_words md' w' cs'). length w \<le> length x"
    if "w' \<noteq> []" "length w \<le> length w'" "length cs' < length cs" for md' w' cs'
    using less(1) [OF that(3,1), of md'] that(2) by (meson le_trans)
  show ?case
  proof (cases cs)
    case (Cons c ds)
    have "\<exists>x \<in> set (line_words md (w @ [d]) es). length w \<le> length x" if "ds = d # es" for d es
      using that Cons by (intro IH) auto
    then show ?thesis using Cons less.prems by (auto intro!: IH split: list.splits mode.splits)
  qed (use less.prems in simp)
qed

subsection \<open>The heap while a line is read\<close>

definition host_ok :: "host \<Rightarrow> bool" where
  "host_ok h \<longleftrightarrow> 0 < fresh h \<and> length (token h) = 4096 \<and> (\<forall>q b. blocks h q = Some b \<longrightarrow> 0 < q \<and> q < fresh h) \<and> (\<forall>k. \<not> refuse h k)"

text \<open>The list \<open>t\<close> holds the words \<open>ws\<close> in memory that was free in \<open>h0\<close>, and nothing else is new.\<close>

definition holds_words :: "host \<Rightarrow> host \<Rightarrow> nat \<Rightarrow> u8 list list \<Rightarrow> bool" where
  "holds_words h0 h t ws \<longleftrightarrow> (\<exists>v ps.
     blocks h t = Some (Tokens \<lparr>tokens_length = length ws, tokens_vec = v, buffers_length = 0, buffers_vec = 0\<rparr>) \<and>
     (if ws = [] then v = 0 else blocks h v = Some (Pointers ps)) \<and>
     list_all2 (\<lambda>p w. blocks h p = Some (Chars (w @ [0]))) ps ws \<and> distinct ps \<and>
     (\<forall>p \<in> insert t (set ps). fresh h0 \<le> p) \<and> (v = 0 \<or> fresh h0 \<le> v) \<and>
     (\<forall>q. q \<noteq> t \<and> q \<noteq> v \<and> q \<notin> set ps \<longrightarrow> blocks h q = blocks h0 q))"

lemma host_malloc_ok: "host_ok h \<Longrightarrow> host_malloc h b = (fresh h, h\<lparr>fresh := Suc (fresh h), blocks := (blocks h)(fresh h \<mapsto> b)\<rparr>)"
  by (simp add: host_malloc_def host_ok_def)

lemma host_ok_fresh: "host_ok h \<Longrightarrow> blocks h (fresh h) = None" "host_ok h \<Longrightarrow> blocks h 0 = None" "host_ok h \<Longrightarrow> fresh h \<noteq> 0"
  by (auto simp: host_ok_def)

lemma host_ok_none: "host_ok h \<Longrightarrow> fresh h \<le> q \<Longrightarrow> blocks h q = None"
  unfolding host_ok_def by (meson leD option.exhaust)

lemma host_ok_live: "host_ok h \<Longrightarrow> blocks h q = Some b \<Longrightarrow> 0 < q \<and> q < fresh h"
  by (simp add: host_ok_def)

lemma strncpy_word:
  assumes "take n xs = w" "length w = n" "0 \<notin> set w" "n < length xs"
  shows "strncpy_bytes (xs[n := 0]) (n + 1) = w @ [0]"
proof -
  have "take (n + 1) (xs[n := 0]) = w @ [0]" using assms by (simp add: take_Suc_conv_app_nth)
  moreover have "takeWhile (\<lambda>c. c \<noteq> 0) (w @ [0]) = w" using assms(3) by (auto simp: takeWhile_append)
  ultimately show ?thesis using assms(2) by (simp add: strncpy_bytes_def)
qed

lemma copy_word_ok:
  assumes "host_ok h" "take n (token h) = w" "length w = n" "0 \<notin> set w" "n < 4096"
  shows "copy_word h n = Some (fresh h, h\<lparr>token := (token h)[n := 0], fresh := Suc (fresh h), blocks := (blocks h)(fresh h \<mapsto> Chars (w @ [0]))\<rparr>)"
proof -
  have l: "length (token h) = 4096" using assms(1) by (simp add: host_ok_def)
  have "host_ok (h\<lparr>token := (token h)[n := 0]\<rparr>)" using assms(1) by (simp add: host_ok_def)
  from host_malloc_ok [OF this] show ?thesis
    using strncpy_word [OF assms(2-4)] l assms(5) host_ok_fresh(3) [OF assms(1)] by (simp add: copy_word_def put_char_def)
qed

lemma vector_push_ok:
  assumes "host_ok h" "length ps = n" "if n = 0 then v = 0 else blocks h v = Some (Pointers ps)"
  shows "vector_push h v n e = Some (fresh h, Suc n,
    h\<lparr>fresh := Suc (fresh h), blocks := (blocks h)(v := None, fresh h \<mapsto> Pointers (ps @ [e]))\<rparr>)"
proof -
  note f = host_ok_fresh [OF assms(1)]
  have l: "(ps @ [0])[n := e] = ps @ [e]" using assms(2) by (simp add: list_update_append)
  show ?thesis
  proof (cases "n = 0")
    case True
    then show ?thesis using assms f
      by (auto simp: vector_push_def host_realloc_def host_malloc_ok host_free_def get_pointers_def fun_upd_idem)
  next
    case False
    then have "blocks h v \<noteq> None" using assms(3) by simp
    then have "v \<noteq> 0" "v \<noteq> fresh h" using f(1,2) by metis+
    with False show ?thesis using assms f l
      by (simp add: vector_push_def host_realloc_def host_malloc_ok host_free_def get_pointers_def fun_upd_twist)
  qed
qed

lemma add_word_ok:
  assumes h: "host_ok h" "holds_words h0 h t ws" and w: "take n (token h) = w" "length w = n" "0 \<notin> set w" "n < 4096"
    and f0: "host_ok h0" "fresh h0 \<le> fresh h"
  shows "\<exists>h'. add_word h t n = Some h' \<and> host_ok h' \<and> holds_words h0 h' t (ws @ [w]) \<and> fresh h0 \<le> fresh h'"
proof -
  let ?a = "fresh h" and ?b = "Suc (fresh h)"
  obtain v ps where r: "blocks h t = Some (Tokens \<lparr>tokens_length = length ws, tokens_vec = v, buffers_length = 0, buffers_vec = 0\<rparr>)"
      "if ws = [] then v = 0 else blocks h v = Some (Pointers ps)" "list_all2 (\<lambda>p w. blocks h p = Some (Chars (w @ [0]))) ps ws" "distinct ps"
      "\<forall>p \<in> insert t (set ps). fresh h0 \<le> p" "v = 0 \<or> fresh h0 \<le> v"
      "\<forall>q. q \<noteq> t \<and> q \<noteq> v \<and> q \<notin> set ps \<longrightarrow> blocks h q = blocks h0 q"
    using h(2) unfolding holds_words_def by blast
  note f = host_ok_fresh [OF h(1)]
  let ?h = "h\<lparr>token := (token h)[n := 0], fresh := ?b, blocks := (blocks h)(?a \<mapsto> Chars (w @ [0]))\<rparr>"
  let ?t = "Tokens \<lparr>tokens_length = Suc (length ws), tokens_vec = ?b, buffers_length = 0, buffers_vec = 0\<rparr>"
  let ?k = "?h\<lparr>fresh := Suc ?b, blocks := (blocks ?h)(v := None, ?b \<mapsto> Pointers (ps @ [?a]), t \<mapsto> ?t)\<rparr>"
  have len: "length ps = length ws" using r(3) by (rule list_all2_lengthD)
  have small: "q < ?a" if "blocks h q = Some x" for q x using h(1) that by (auto simp: host_ok_def)
  have ps: "blocks h p \<noteq> None \<and> (\<exists>w. blocks h p = Some (Chars w))" if "p \<in> set ps" for p
    using r(3) that by (auto simp: list_all2_conv_all_nth in_set_conv_nth)
  have t: "t \<noteq> ?a" "t \<noteq> ?b" "t \<notin> set ps" using small r(1) ps by fastforce+
  have v: "v \<noteq> ?a" "v \<noteq> ?b" "v \<noteq> t" "v \<notin> set ps"
    using small r(1,2) ps f by (fastforce split: if_splits)+
  have p: "p \<noteq> ?a \<and> p \<noteq> ?b \<and> p \<noteq> v \<and> p \<noteq> t" if "p \<in> set ps" for p using small ps [OF that] v(4) t(3) that
    by (metis less_irrefl lessI less_trans)
  have v0: "blocks h0 v = None" using r(6) host_ok_fresh(2) [OF f0(1)] host_ok_none [OF f0(1)] by auto
  have hk: "host_ok ?h" using h(1) by (auto simp: host_ok_def less_Suc_eq)
  have "if length ws = 0 then v = 0 else blocks ?h v = Some (Pointers ps)" using r(2) v(1) by simp
  from vector_push_ok [OF hk len this, of ?a] have "add_word h t n = Some ?k"
    using copy_word_ok [OF h(1) w] r(1) t by (simp add: add_word_def get_tokens_def)
  moreover have "host_ok ?k" using hk small [OF r(1)] r(1) by (auto simp: host_ok_def split: if_splits)
  moreover have "holds_words h0 ?k t (ws @ [w])"
    unfolding holds_words_def
  proof (intro exI [of _ ?b] exI [of _ "ps @ [?a]"] conjI)
    show "list_all2 (\<lambda>p w. blocks ?k p = Some (Chars (w @ [0]))) (ps @ [?a]) (ws @ [w])"
      using r(3) p v t len by (auto simp: list_all2_conv_all_nth nth_append less_Suc_eq)
    show "distinct (ps @ [?a])" using r(4) p by auto
    show "\<forall>q. q \<noteq> t \<and> q \<noteq> ?b \<and> q \<notin> set (ps @ [?a]) \<longrightarrow> blocks ?k q = blocks h0 q"
      using r(7) v0 by auto
  qed (use r(1,5) t v f0 in auto)
  ultimately show ?thesis using f0 by auto
qed

lemma holds_words_token [simp]: "holds_words h0 (h\<lparr>token := x\<rparr>) t ws = holds_words h0 h t ws"
  by (simp add: holds_words_def)

text \<open>A word \<open>w\<close> is being read: it is the beginning of the buffer.\<close>

definition reading :: "host \<Rightarrow> nat \<Rightarrow> host \<Rightarrow> u8 list list \<Rightarrow> u8 list \<Rightarrow> nat \<Rightarrow> bool" where
  "reading h0 t h ws w n \<longleftrightarrow> host_ok h0 \<and> host_ok h \<and> fresh h0 \<le> fresh h \<and> holds_words h0 h t ws \<and>
     take n (token h) = w \<and> length w = n \<and> 0 \<notin> set w \<and> (\<forall>x \<in> set ws. length x \<le> 4094)"

lemma put_char_ok:
  assumes "reading h0 t h ws w n" "c \<noteq> 0" "n < 4096"
  shows "\<exists>h'. put_char h n c = Some h' \<and> reading h0 t h' ws (w @ [c]) (n + 1)"
proof -
  have "length (token h) = 4096" using assms(1) by (simp add: reading_def host_ok_def)
  moreover then have "take (n + 1) ((token h)[n := c]) = w @ [c]" using assms by (simp add: reading_def take_Suc_conv_app_nth)
  moreover have "host_ok (h\<lparr>token := (token h)[n := c]\<rparr>)" using assms(1) by (simp add: reading_def host_ok_def)
  ultimately show ?thesis using assms by (auto simp: put_char_def reading_def)
qed

lemma end_word_ok:
  assumes "reading h0 t h ws w n" "n \<le> 4094"
  shows "\<exists>h'. add_word h t n = Some h' \<and> reading h0 t h' (ws @ [w]) [] 0"
  using assms add_word_ok [of h h0 t ws n w] by (auto simp: reading_def)

definition next_ok :: "host \<Rightarrow> nat \<Rightarrow> u8 list \<Rightarrow> nat \<Rightarrow> nat \<Rightarrow> u8 list list \<Rightarrow> scan option \<Rightarrow> bool" where
  "next_ok h0 t line i n res s \<longleftrightarrow> (\<exists>j n' md h ws w. s = Some (j, n', md, h) \<and> reading h0 t h ws w n' \<and> n' \<le> Suc n \<and>
     i \<le> unat j \<and> unat j < length line \<and> res = ws @ line_words md w (drop (Suc (unat j)) line))"

lemma next_okI:
  assumes "reading h0 t h ws w n'" "n' \<le> Suc n" "i \<le> unat j" "unat j < length line" "res = ws @ line_words md w (drop (Suc (unat j)) line)"
  shows "next_ok h0 t line i n res (Some (j, n', md, h))"
  using assms unfolding next_ok_def by blast

lemma scan_put_ok:
  assumes "reading h0 t h ws w n" "n \<le> 4094" "i \<le> unat j" "unat j < length line" "0 \<notin> set line"
    "res = ws @ line_words md (w @ [line ! unat j]) (drop (Suc (unat j)) line)"
  shows "next_ok h0 t line i n res (do { h \<leftarrow> put_char h n (line ! unat j); Some (j, n + 1, md, h) })"
proof -
  have "line ! unat j \<noteq> 0" using assms(4,5) by (metis nth_mem)
  then obtain h' where "put_char h n (line ! unat j) = Some h'" "reading h0 t h' ws (w @ [line ! unat j]) (n + 1)"
    using put_char_ok [OF assms(1)] assms(2) by auto
  then show ?thesis using assms by (auto intro!: next_okI)
qed

lemma scan_escape_ok:
  assumes "reading h0 t h ws w n" "n \<le> 4094" "unat i < length line" "length line < 2 ^ 32" "0 \<notin> set line" "line ! unat i = 92"
  shows "next_ok h0 t line (unat i) n (ws @ line_words md w (drop (unat i) line)) (scan_escape line (i, n, md, h))"
proof -
  have i: "unat (i + 1) = Suc (unat i)" using assms(3,4) by (simp add: unat_plus_if')
  have d: "drop (unat i) line = 92 # drop (Suc (unat i)) line" using assms(3,6) by (metis Cons_nth_drop_Suc)
  show ?thesis
  proof (cases "Suc (unat i) < length line")
    case True
    have "drop (Suc (unat i)) line = line ! Suc (unat i) # drop (Suc (Suc (unat i))) line" using True by (metis Cons_nth_drop_Suc)
    then have e: "line_words md w (drop (unat i) line) = line_words md (w @ [line ! unat (i + 1)]) (drop (Suc (unat (i + 1))) line)"
      using d i by simp
    show ?thesis using scan_put_ok [OF assms(1,2), of "unat i" "i + 1" line, OF _ _ assms(5)] True i e by (simp add: scan_escape_def)
  next
    case False
    then show ?thesis using assms(1,3) d i by (auto simp: scan_escape_def intro!: next_okI)
  qed
qed

lemma scan_char_ok:
  assumes r: "reading h0 t h ws w n" "n \<le> 4094" and l: "unat i < length line" "length line < 2 ^ 32" "0 \<notin> set line"
  shows "next_ok h0 t line (unat i) n (ws @ line_words md w (drop (unat i) line)) (scan_char t line (i, n, md, h))"
proof -
  let ?c = "line ! unat i" and ?ds = "drop (Suc (unat i)) line"
  have d: "drop (unat i) line = ?c # ?ds" using l(1) by (metis Cons_nth_drop_Suc)
  note esc = scan_escape_ok [OF r l]
  have put: "next_ok h0 t line (unat i) n (ws @ line_words md w (drop (unat i) line)) (do { h \<leftarrow> put_char h n ?c; Some (i, n + 1, md, h) })"
    if "line_words md w (drop (unat i) line) = line_words md (w @ [?c]) ?ds"
    using scan_put_ok [OF r, of "unat i" i line] l that by simp
  have quote: "next_ok h0 t line (unat i) n (ws @ line_words md w (drop (unat i) line)) (Some (i, n, md', h))"
    if "line_words md w (drop (unat i) line) = line_words md' w ?ds" for md'
    using r l that by (auto intro!: next_okI)
  show ?thesis
  proof (cases md)
    case MODE_NORMAL
    consider "?c = 39" | "?c = 34" | "?c = 92" | "?c \<notin> {39, 34, 92}" "\<not> isspace (sint ?c)"
      | "?c \<notin> {39, 34, 92}" "isspace (sint ?c)" by auto
    then show ?thesis
    proof cases
      case 5
      have w: "w = [] \<longleftrightarrow> n = 0" using r(1) by (auto simp: reading_def)
      obtain h' where "0 < n \<Longrightarrow> add_word h t n = Some h' \<and> reading h0 t h' (ws @ [w]) [] 0"
        using end_word_ok [OF r(1)] r(2) by fastforce
      then show ?thesis using 5 MODE_NORMAL r l w d by (auto simp: scan_char_def scan_normal_def intro!: next_okI)
    qed (use MODE_NORMAL d esc put quote in \<open>simp_all add: scan_char_def scan_normal_def\<close>)
  next
    case MODE_SQUOTE
    then show ?thesis using d esc put quote by (simp add: scan_char_def scan_quoted_def)
  next
    case MODE_DQUOTE
    then show ?thesis using d esc put quote by (simp add: scan_char_def scan_quoted_def)
  qed
qed

text \<open>The loop ends, and it aborts exactly if a word is too long for the buffer.\<close>

lemma tokenize_loop_ok:
  assumes "reading h0 t h ws w n" "n \<le> 4094" "unat i \<le> length line" "length line < 2 ^ 32" "0 \<notin> set line"
    "res = ws @ line_words md w (drop (unat i) line)"
  shows "if \<forall>x \<in> set res. length x \<le> 4094
    then \<exists>i' n' md' h' ws' w'. tokenize_loop t line (i, n, md, h) = Some (i', n', md', h') \<and> reading h0 t h' ws' w' n' \<and> n' \<le> 4094 \<and>
           res = ws' @ (if w' = [] then [] else [w'])
    else tokenize_loop t line (i, n, md, h) = None"
  using assms
proof (induction "length line - unat i" arbitrary: i n md h ws w rule: less_induct)
  case less
  note s = tokenize_loop.simps [of t line "(i, n, md, h)"]
  show ?case
  proof (cases "unat i < length line")
    case False
    have "length w \<le> 4094" using less.prems(1,2) by (simp add: reading_def)
    moreover have "\<forall>x \<in> set ws. length x \<le> 4094" using less.prems(1) by (simp add: reading_def)
    ultimately show ?thesis using False less.prems s by auto
  next
    case True
    obtain j n' md' h' ws' w' where k: "scan_char t line (i, n, md, h) = Some (j, n', md', h')" "reading h0 t h' ws' w' n'" "n' \<le> Suc n"
        "unat i \<le> unat j" "unat j < length line" "res = ws' @ line_words md' w' (drop (Suc (unat j)) line)"
      using scan_char_ok [OF less.prems(1,2) True less.prems(4,5), of md] less.prems(6) unfolding next_ok_def by blast
    have j: "unat (j + 1) = Suc (unat j)" using k(5) less.prems(4) by (simp add: unat_plus_if')
    have n: "length w' = n'" using k(2) by (simp add: reading_def)
    show ?thesis
    proof (cases "n' \<le> 4094")
      case False
      then have "w' \<noteq> []" using n by auto
      from line_words_longer [OF this] obtain x where "x \<in> set res" "length w' \<le> length x" using k(6) by (metis Un_iff set_append)
      moreover have "tokenize_loop t line (i, n, md, h) = None" using False True s k(1) by simp
      ultimately show ?thesis using False n by (auto simp: not_le intro!: bexI [of _ x])
    next
      case ok: True
      have e: "tokenize_loop t line (i, n, md, h) = tokenize_loop t line (j + 1, n', md', h')" using s k(1) True ok by simp
      have lt: "length line - unat (j + 1) < length line - unat i" using j k(4,5) by simp
      show ?thesis unfolding e by (rule less.hyps [OF lt k(2) ok _ less.prems(4,5)]) (use j k in simp_all)
    qed
  qed
qed

subsection \<open>What the callers see\<close>

lemma tokenize_words:
  assumes "host_ok h" "length line < 2 ^ 32" "0 \<notin> set line" "ws = line_words MODE_NORMAL [] line"
  shows "if \<forall>w \<in> set ws. length w \<le> 4094 then \<exists>t h'. tokenize h (Some line) = Some (t, h') \<and> host_ok h' \<and> holds_words h h' t ws
    else tokenize h (Some line) = None"
proof -
  let ?T = "\<lparr>tokens_length = 0, tokens_vec = 0, buffers_length = 0, buffers_vec = 0\<rparr>"
  let ?h = "h\<lparr>fresh := Suc (fresh h), blocks := (blocks h)(fresh h \<mapsto> Tokens ?T)\<rparr>"
  note f = host_ok_fresh [OF assms(1)]
  have "host_ok ?h" using assms(1) by (auto simp: host_ok_def less_Suc_eq)
  moreover have "holds_words h ?h (fresh h) []" by (auto simp: holds_words_def)
  ultimately have "reading h (fresh h) ?h [] [] 0" using assms(1) by (simp add: reading_def)
  from tokenize_loop_ok [OF this, of 0 line ws MODE_NORMAL] show ?thesis
  proof (cases "\<forall>w \<in> set ws. length w \<le> 4094")
    case True
    with tokenize_loop_ok [OF \<open>reading h (fresh h) ?h [] [] 0\<close>, of 0 line ws MODE_NORMAL] assms
    obtain i' n' md' h' ws' w' where l: "tokenize_loop (fresh h) line (0, 0, MODE_NORMAL, ?h) = Some (i', n', md', h')"
        "reading h (fresh h) h' ws' w' n'" "n' \<le> 4094" "ws = ws' @ (if w' = [] then [] else [w'])" by auto
    have w: "w' = [] \<longleftrightarrow> n' = 0" using l(2) by (auto simp: reading_def)
    obtain h'' where e: "(if n' > 0 then add_word h' (fresh h) n' else Some h') = Some h''" "host_ok h''" "holds_words h h'' (fresh h) ws"
    proof (cases "n' = 0")
      case True
      then show ?thesis using that [of h'] l(2,4) w by (simp add: reading_def)
    next
      case False
      then show ?thesis using that end_word_ok [OF l(2,3)] l(4) w by (auto simp: reading_def)
    qed
    then show ?thesis using True l(1) f(3) by (auto simp: tokenize_def host_malloc_ok [OF assms(1)])
  qed (use assms f in \<open>auto simp: tokenize_def host_malloc_ok\<close>)
qed

lemma free_vector_ok:
  assumes "blocks h v = Some (Pointers ps)" "distinct ps" "v \<notin> set ps" "\<forall>p \<in> set (drop i ps). p \<noteq> 0 \<and> blocks h p \<noteq> None" "i + n = length ps"
  shows "free_vector h v i n = Some (h\<lparr>blocks := (\<lambda>q. if q \<in> set (drop i ps) then None else blocks h q)\<rparr>)"
  using assms
proof (induction n arbitrary: h i)
  case (Suc n)
  let ?p = "ps ! i" and ?h = "h\<lparr>blocks := (blocks h)(ps ! i := None)\<rparr>"
  have i: "i < length ps" "drop i ps = ?p # drop (Suc i) ps" using Suc.prems(5) by (auto simp: Cons_nth_drop_Suc)
  have p: "?p \<noteq> v" using i(1) Suc.prems(3) nth_mem by metis
  have d: "?p \<notin> set (drop (Suc i) ps)" using distinct_drop [OF Suc.prems(2), of i] i(2) by simp
  have "host_free h ?p = Some ?h" using Suc.prems(4) i(2) by (auto simp: host_free_def)
  then have "free_vector h v i (Suc n) = free_vector ?h v (Suc i) n" using Suc.prems(1) i(1) by (simp add: get_pointers_def)
  also have "\<dots> = Some (?h\<lparr>blocks := (\<lambda>q. if q \<in> set (drop (Suc i) ps) then None else blocks ?h q)\<rparr>)"
    using Suc.prems i p d by (intro Suc.IH) auto
  finally show ?case using i(2) by (auto intro!: host.equality)
qed simp

lemma destroy_words:
  assumes "host_ok h" "host_ok h'" "holds_words h h' t ws"
  shows "\<exists>h''. tokens_destroy h' t = Some h'' \<and> blocks h'' = blocks h"
proof -
  obtain v ps where r: "blocks h' t = Some (Tokens \<lparr>tokens_length = length ws, tokens_vec = v, buffers_length = 0, buffers_vec = 0\<rparr>)"
      "if ws = [] then v = 0 else blocks h' v = Some (Pointers ps)" "list_all2 (\<lambda>p w. blocks h' p = Some (Chars (w @ [0]))) ps ws" "distinct ps"
      "\<forall>p \<in> insert t (set ps). fresh h \<le> p" "v = 0 \<or> fresh h \<le> v"
      "\<forall>q. q \<noteq> t \<and> q \<noteq> v \<and> q \<notin> set ps \<longrightarrow> blocks h' q = blocks h q"
    using assms(3) unfolding holds_words_def by blast
  have new: "blocks h q = None" if "q = t \<or> q = v \<or> q \<in> set ps" for q
    using that r(5,6) host_ok_none [OF assms(1)] host_ok_fresh(2) [OF assms(1)] by auto
  have t: "t \<noteq> 0" "t \<noteq> v" using r(1,2) host_ok_live [OF assms(2) r(1)] by (auto split: if_splits)
  show ?thesis
  proof (cases "ws = []")
    case True
    then have "tokens_destroy h' t = Some (h'\<lparr>blocks := (blocks h')(t := None)\<rparr>)"
      using r t by (simp add: tokens_destroy_def get_tokens_def host_free_def)
    moreover have "(blocks h')(t := None) = blocks h" 
    proof
      show "((blocks h')(t := None)) q = blocks h q" for q
        using True r(2,3,7) new [of q] host_ok_fresh(2) [OF assms(2)] by (cases "q = 0") auto
    qed
    ultimately show ?thesis by simp
  next
    case False
    have v: "blocks h' v = Some (Pointers ps)" using False r(2) by simp
    have ps: "\<exists>c. blocks h' p = Some (Chars c)" if "p \<in> set ps" for p
      using r(3) that by (auto simp: list_all2_conv_all_nth in_set_conv_nth)
    have vn: "v \<noteq> 0" "v \<notin> set ps" "t \<notin> set ps" using v ps r(1) host_ok_live [OF assms(2) v] by fastforce+
    have "\<forall>p \<in> set (drop 0 ps). p \<noteq> 0 \<and> blocks h' p \<noteq> None"
    proof
      fix p assume "p \<in> set (drop 0 ps)"
      with ps obtain c where c: "blocks h' p = Some (Chars c)" by auto
      with host_ok_live [OF assms(2) c] show "p \<noteq> 0 \<and> blocks h' p \<noteq> None" by simp
    qed
    from free_vector_ok [OF v r(4) vn(2) this, of "length ws"]
    have "free_vector h' v 0 (length ws) = Some (h'\<lparr>blocks := (\<lambda>q. if q \<in> set ps then None else blocks h' q)\<rparr>)"
      using list_all2_lengthD [OF r(3)] by simp
    then have "\<exists>h''. tokens_destroy h' t = Some h'' \<and> blocks h'' = (\<lambda>q. if q \<in> set ps then None else blocks h' q)(v := None, t := None)"
      using r(1) t v vn by (simp add: tokens_destroy_def get_tokens_def host_free_def)
    moreover have "(\<lambda>q. if q \<in> set ps then None else blocks h' q)(v := None, t := None) = blocks h"
    proof
      show "((\<lambda>q. if q \<in> set ps then None else blocks h' q)(v := None, t := None)) q = blocks h q" for q using r(7) new [of q] by auto
    qed
    ultimately show ?thesis by simp
  qed
qed

text \<open>What a caller reads from the list: the number of words, each of them, and a null pointer behind them.\<close>

definition tokens_are :: "host \<Rightarrow> nat \<Rightarrow> u8 list list \<Rightarrow> bool" where
  "tokens_are h t ws \<longleftrightarrow> tokens_get_length h t = Some (length ws) \<and>
     (\<forall>n. if n < length ws then \<exists>p. tokens_get_token h t n = Some p \<and> blocks h p = Some (Chars (ws ! n @ [0]))
          else tokens_get_token h t n = Some 0)"

lemma get_words:
  assumes "host_ok h'" "holds_words h h' t ws"
  shows "tokens_are h' t ws"
proof -
  have "t \<noteq> 0" using assms(2) host_ok_live [OF assms(1)] unfolding holds_words_def by blast
  then show ?thesis using assms(2)
    by (cases "ws = []") (auto simp: tokens_are_def holds_words_def tokens_get_length_def tokens_get_token_def get_tokens_def get_pointers_def list_all2_conv_all_nth)
qed

lemma holds_words_keep: "host_ok h \<Longrightarrow> holds_words h h' t ws \<Longrightarrow> blocks h q = Some b \<Longrightarrow> blocks h' q = Some b"
  unfolding holds_words_def by (metis host_ok_live insertCI leD less_irrefl)

subsection \<open>Quoting\<close>

text \<open>
  Three ways to write a word so that it is read back: a backslash before each byte, or quotes around
  it with a backslash before each quote and backslash.
\<close>

fun escape_in :: "mode \<Rightarrow> u8 \<Rightarrow> u8 list" where
  "escape_in MODE_NORMAL c = [92, c]"
| "escape_in MODE_SQUOTE c = (if c = 39 \<or> c = 92 then [92, c] else [c])"
| "escape_in MODE_DQUOTE c = (if c = 34 \<or> c = 92 then [92, c] else [c])"

fun quote_mark :: "mode \<Rightarrow> u8 list" where
  "quote_mark MODE_NORMAL = []"
| "quote_mark MODE_SQUOTE = [39]"
| "quote_mark MODE_DQUOTE = [34]"

definition quoted :: "mode \<times> u8 list \<Rightarrow> u8 list" where
  "quoted q = quote_mark (fst q) @ concat (map (escape_in (fst q)) (snd q)) @ quote_mark (fst q) @ [32]"

lemma line_words_escaped: "line_words md w (concat (map (escape_in md) x) @ cs) = line_words md (w @ x) cs"
proof (induction x arbitrary: w)
  case (Cons c x)
  then show ?case by (cases md) simp_all
qed simp

lemma isspace_blank: "isspace (sint (32 :: u8))"
  by (simp add: isspace_def)

lemma line_words_quoted:
  assumes "x \<noteq> []"
  shows "line_words MODE_NORMAL [] (quoted (md, x) @ cs) = x # line_words MODE_NORMAL [] cs"
  using assms isspace_blank line_words_escaped [of md "[]" x] by (cases md) (simp_all add: quoted_def)

lemma quoted_words:
  "\<forall>q \<in> set qs. snd q \<noteq> [] \<Longrightarrow> line_words MODE_NORMAL [] (concat (map quoted qs)) = map snd qs"
  by (induction qs) (auto simp: line_words_quoted)

lemma quoted_bytes: "0 \<notin> set x \<Longrightarrow> 0 \<notin> set (quoted (md, x))"
  by (cases md) (auto simp: quoted_def split: if_splits)

subsection \<open>Properties\<close>

text \<open>
  C19. For every line of less than 2 ^ 32 bytes, if there is memory, \<open>tokenize\<close> returns and never writes
  outside its buffer: it aborts exactly if a word has 4095 bytes or more; otherwise the list it returns
  has exactly the words of the line, no block of the caller has changed, and \<open>tokens_destroy\<close> frees
  everything that was allocated, each block once.
\<close>

theorem tokenize_correct:
  assumes "host_ok h" "length line < 2 ^ 32" "0 \<notin> set line" "ws = line_words MODE_NORMAL [] line"
  shows "if \<forall>w \<in> set ws. length w \<le> 4094
    then \<exists>t h' h''. tokenize h (Some line) = Some (t, h') \<and> tokens_are h' t ws \<and> blocks h \<subseteq>\<^sub>m blocks h' \<and>
           tokens_destroy h' t = Some h'' \<and> blocks h'' = blocks h
    else tokenize h (Some line) = None"
proof (cases "\<forall>w \<in> set ws. length w \<le> 4094")
  case True
  then obtain t h' where "tokenize h (Some line) = Some (t, h')" "host_ok h'" "holds_words h h' t ws"
    using tokenize_words [OF assms] by auto
  moreover from this(2,3) have "tokens_are h' t ws" by (rule get_words)
  moreover have "blocks h \<subseteq>\<^sub>m blocks h'" using holds_words_keep [OF assms(1) calculation(3)] by (auto simp: map_le_def)
  moreover obtain h'' where "tokens_destroy h' t = Some h''" "blocks h'' = blocks h"
    using destroy_words [OF assms(1) calculation(2,3)] by blast
  ultimately show ?thesis using True by auto
qed (use tokenize_words [OF assms] in auto)

definition demo_host :: host where
  "demo_host = \<lparr>blocks = Map.empty, fresh = 1, refuse = (\<lambda>_. False), token = replicate 4096 0\<rparr>"

lemma demo_host_ok: "host_ok demo_host"
  by (simp add: demo_host_def host_ok_def)

text \<open>The line \<open>l "a b" \\c\<close>.\<close>

theorem tokenize_correct_witness:
  "\<exists>t h' h''. tokenize demo_host (Some [108, 32, 34, 97, 32, 98, 34, 32, 92, 99]) = Some (t, h') \<and> tokens_are h' t [[108], [97, 32, 98], [99]] \<and>
     tokens_destroy h' t = Some h'' \<and> blocks h'' = Map.empty"
proof -
  have "line_words MODE_NORMAL [] [108, 32, 34, 97, 32, 98, 34, 32, 92, 99] = [[108], [97, 32, 98], [99]]" by (simp add: isspace_def)
  from tokenize_correct [OF demo_host_ok _ _ this [symmetric]] show ?thesis by (auto simp: demo_host_def)
qed

text \<open>
  C22. Words survive quoting: any list of words, each quoted in one of the three ways, is split by
  \<open>tokenize\<close> into exactly these words.
\<close>

theorem tokenize_quoted:
  assumes "host_ok h" "\<forall>q \<in> set qs. snd q \<noteq> [] \<and> 0 \<notin> set (snd q) \<and> length (snd q) \<le> 4094" "length (concat (map quoted qs)) < 2 ^ 32"
  shows "\<exists>t h'. tokenize h (Some (concat (map quoted qs))) = Some (t, h') \<and> tokens_are h' t (map snd qs)"
proof -
  have w: "map snd qs = line_words MODE_NORMAL [] (concat (map quoted qs))" using quoted_words assms(2) by metis
  have z: "0 \<notin> set (concat (map quoted qs))" using assms(2) quoted_bytes by force
  have "\<forall>w \<in> set (map snd qs). length w \<le> 4094" using assms(2) by auto
  with tokenize_words [OF assms(1,3) z w] obtain t h' where
    "tokenize h (Some (concat (map quoted qs))) = Some (t, h')" "host_ok h'" "holds_words h h' t (map snd qs)" by metis
  then show ?thesis using get_words by blast
qed

theorem tokenize_quoted_witness:
  "\<exists>t h'. tokenize demo_host (Some (concat (map quoted [(MODE_SQUOTE, [32, 39]), (MODE_NORMAL, [34])]))) = Some (t, h') \<and>
     tokens_are h' t [[32, 39], [34]]"
  using tokenize_quoted [OF demo_host_ok, of "[(MODE_SQUOTE, [32, 39]), (MODE_NORMAL, [34])]"] by (simp add: quoted_def)

end
