(* ===== verification/Ustar.thy ===== *)
theory Ustar
  imports Stdio Bytes
begin

text \<open>
  Headers of archives in ustar format (src/proj-pregame/src/lib/ustar.c). A header is its 512 bytes;
  strings are their bytes before the terminator. Writing a string or formatted text into a field
  stores the part that fits and a null byte, which is what \<open>Cstring\<close> and \<open>Stdio\<close> prove of
  \<open>strlcpy\<close> and \<open>snprintf\<close>; the text of a format is that of \<open>Stdio\<close>.
\<close>

subsection \<open>The C functions\<close>

definition USTAR_HEADER_SIZE :: nat where "USTAR_HEADER_SIZE = 512"

datatype ustar_type = USTAR_REGULAR | USTAR_DIRECTORY | USTAR_EOF

fun type_byte :: "ustar_type \<Rightarrow> u8" where
  "type_byte USTAR_REGULAR = 48"
| "type_byte USTAR_DIRECTORY = 53"
| "type_byte USTAR_EOF = - 1"

text \<open>The fields of a header, each with its offset and its size.\<close>

datatype ustar_field = Name | Mode | Uid | Gid | Size | Mtime | Chksum | Typeflag | Linkname | Magic | Version
  | Uname | Gname | Devmajor | Devminor | Prefix | Padding

fun field_ofs :: "ustar_field \<Rightarrow> nat" where
  "field_ofs Name = 0"
| "field_ofs Mode = 100"
| "field_ofs Uid = 108"
| "field_ofs Gid = 116"
| "field_ofs Size = 124"
| "field_ofs Mtime = 136"
| "field_ofs Chksum = 148"
| "field_ofs Typeflag = 156"
| "field_ofs Linkname = 157"
| "field_ofs Magic = 257"
| "field_ofs Version = 263"
| "field_ofs Uname = 265"
| "field_ofs Gname = 297"
| "field_ofs Devmajor = 329"
| "field_ofs Devminor = 337"
| "field_ofs Prefix = 345"
| "field_ofs Padding = 500"

fun field_size :: "ustar_field \<Rightarrow> nat" where
  "field_size Name = 100"
| "field_size Size = 12"
| "field_size Mtime = 12"
| "field_size Typeflag = 1"
| "field_size Linkname = 100"
| "field_size Magic = 6"
| "field_size Version = 2"
| "field_size Uname = 32"
| "field_size Gname = 32"
| "field_size Prefix = 155"
| "field_size Padding = 12"
| "field_size _ = 8"

definition field :: "u8 list \<Rightarrow> ustar_field \<Rightarrow> u8 list" where
  "field h f = take (field_size f) (drop (field_ofs f) h)"

definition store_field :: "u8 list \<Rightarrow> ustar_field \<Rightarrow> u8 list \<Rightarrow> u8 list" where
  "store_field h f bs = splice_at h (field_ofs f) bs"

definition store_text :: "u8 list \<Rightarrow> ustar_field \<Rightarrow> u8 list \<Rightarrow> u8 list" where
  "store_text h f bs = store_field h f (take (field_size f - 1) bs @ [0])"

definition store_format :: "u8 list \<Rightarrow> ustar_field \<Rightarrow> string \<Rightarrow> u32 \<Rightarrow> u8 list option" where
  "store_format h f format v = do { cs \<leftarrow> printf_text (\<lambda>_. 0) (bytes_of format) [v]; Some (store_text h f cs) }"

definition calculate_chksum :: "u8 list \<Rightarrow> u32" where
  "calculate_chksum h =
     foldl (\<lambda>chksum i. chksum + (if field_ofs Chksum \<le> i \<and> i < field_ofs Chksum + field_size Chksum then 32 else ucast (h ! i)))
       0 [0 ..< USTAR_HEADER_SIZE]"

text \<open>The name behind the first slash; the loop runs while the name has a prefix that ends in a slash.\<close>

definition after_slash :: "u8 list \<Rightarrow> u8 list" where
  "after_slash s = tl (dropWhile (\<lambda>c. c \<noteq> 47) s)"

function strip_loop :: "u8 list \<Rightarrow> u8 list" where
  "strip_loop s = (if take 1 s = [47] \<or> take 2 s = [46, 47] \<or> take 3 s = [46, 46, 47] then strip_loop (after_slash s) else s)"
  by pat_completeness auto
termination
proof (relation "measure length")
  fix s :: "u8 list" assume "take 1 s = [47] \<or> take 2 s = [46, 47] \<or> take 3 s = [46, 46, 47]"
  then have "0 < length s" by auto
  moreover have "length (dropWhile (\<lambda>c. c \<noteq> 47) s) \<le> length s" by (rule length_dropWhile_le)
  ultimately show "(after_slash s, s) \<in> measure length" unfolding after_slash_def in_measure length_tl by linarith
qed simp

definition strip_antisocial_prefixes :: "u8 list \<Rightarrow> u8 list" where
  "strip_antisocial_prefixes file_name = (let s = strip_loop file_name in if s = [] \<or> s = [46, 46] then [46] else s)"

definition ustar_make_header :: "u8 list \<Rightarrow> ustar_type \<Rightarrow> u32 \<Rightarrow> u8 list \<Rightarrow> (bool \<times> u8 list) option" where
  "ustar_make_header file_name type sz header = do {
     ASSERT (type = USTAR_REGULAR \<or> type = USTAR_DIRECTORY);
     let file_name = strip_antisocial_prefixes file_name;
     if length file_name > 99 then Some (False, header)
     else do {
       let h = replicate USTAR_HEADER_SIZE 0;
       let h = store_text h Name file_name;
       h \<leftarrow> store_format h Mode ''%07o'' (if type = USTAR_REGULAR then 420 else 493);
       let h = store_text h Uid (bytes_of ''0000000'');
       let h = store_text h Gid (bytes_of ''0000000'');
       h \<leftarrow> store_format h Size ''%011o'' sz;
       h \<leftarrow> store_format h Mtime ''%011o'' 1136102400;
       let h = store_field h Typeflag [type_byte type];
       let h = store_text h Magic (bytes_of ''ustar'');
       let h = store_field h Version [48, 48];
       let h = store_text h Gname (bytes_of ''root'');
       let h = store_text h Uname (bytes_of ''root'');
       h \<leftarrow> store_format h Chksum ''%07o'' (calculate_chksum h);
       Some (True, h)
     }
   }"

definition ULONG_MAX :: u32 where "ULONG_MAX = - 1"
definition INT_MAX :: u32 where "INT_MAX = 2147483647"

text \<open>The value of the field; \<open>None\<close> is the result false.\<close>

fun parse_octal_field :: "u8 list \<Rightarrow> nat \<Rightarrow> u32 \<Rightarrow> u32 option" where
  "parse_octal_field [] ofs v = None"
| "parse_octal_field (c # cs) ofs v =
     (if 48 \<le> c \<and> c \<le> 55 then
        if v > ULONG_MAX div 8 then None else parse_octal_field cs (Suc ofs) (ucast (c - 48) + v * 8)
      else if c = 32 \<or> c = 0 then if ofs > 0 then Some v else None
      else None)"

definition is_all_zeros :: "u8 list \<Rightarrow> bool" where
  "is_all_zeros block = list_all (\<lambda>c. c = 0) block"

definition ustar_parse_header :: "u8 list \<Rightarrow> string + (u8 list option \<times> ustar_type \<times> u32)" where
  "ustar_parse_header h =
     (if is_all_zeros (take USTAR_HEADER_SIZE h) then Inr (None, USTAR_EOF, 0)
      else if field h Magic \<noteq> bytes_of ''ustar'' @ [0] then Inl ''not a ustar archive''
      else if field h Version ! 0 \<noteq> 48 \<or> field h Version ! 1 \<noteq> 48 then Inl ''invalid ustar version''
      else case parse_octal_field (field h Chksum) 0 0 of
        None \<Rightarrow> Inl ''corrupt chksum field''
      | Some chksum \<Rightarrow>
          if chksum \<noteq> calculate_chksum h then Inl ''checksum mismatch''
          else if field h Name ! 99 \<noteq> 0 \<or> field h Prefix ! 0 \<noteq> 0 then Inl ''file name too long''
          else
            let file_name = strip_antisocial_prefixes (takeWhile (\<lambda>c. c \<noteq> 0) (field h Name)); flag = field h Typeflag ! 0 in
            if flag = type_byte USTAR_REGULAR then
              (case parse_octal_field (field h Size) 0 0 of
                 None \<Rightarrow> Inl ''corrupt file size field''
               | Some size_ul \<Rightarrow>
                   if size_ul > INT_MAX then Inl ''file too large'' else Inr (Some file_name, USTAR_REGULAR, size_ul))
            else if flag = type_byte USTAR_DIRECTORY then Inr (Some file_name, USTAR_DIRECTORY, 0)
            else Inl ''unimplemented file type'')"

declare strip_loop.simps [simp del]

subsection \<open>Octal numbers\<close>

definition octal_digits :: "nat \<Rightarrow> nat \<Rightarrow> nat list" where
  "octal_digits w v = (let ds = (if v = 0 then [0] else rev (num_digits 8 v)) in replicate (w - length ds) 0 @ ds)"

abbreviation digit_bytes :: "nat list \<Rightarrow> u8 list" where
  "digit_bytes \<equiv> map (\<lambda>d. of_nat (48 + d))"

definition octal_value :: "nat \<Rightarrow> nat list \<Rightarrow> nat" where
  "octal_value = foldl (\<lambda>v d. 8 * v + d)"

lemma octal_value_digits: "octal_value 0 (octal_digits w v) = v"
proof -
  have z: "octal_value 0 (replicate k 0 @ ds) = octal_value 0 ds" for k ds by (induction k) (simp_all add: octal_value_def)
  have "octal_value 0 (rev (num_digits 8 v)) = v"
  proof (induction v rule: less_induct)
    case (less v)
    then show ?case by (subst num_digits.simps) (simp add: octal_value_def)
  qed
  then show ?thesis by (auto simp: octal_digits_def Let_def z) (simp add: octal_value_def)
qed

lemma octal_digits_less: "d \<in> set (octal_digits w v) \<Longrightarrow> d < 8"
  using num_digits_less [of d 8 v] by (auto simp: octal_digits_def Let_def split: if_splits)

lemma octal_digits_length:
  assumes "v < 8 ^ w" "0 < w"
  shows "length (octal_digits w v) = w"
  using assms num_digits_length [of 8 v w] by (auto simp: octal_digits_def Let_def)

lemma octal_value_mono: "v \<le> octal_value v ds"
proof (induction ds arbitrary: v)
  case (Cons d ds)
  from Cons [of "8 * v + d"] show ?case by (simp add: octal_value_def)
qed (simp add: octal_value_def)

lemma digit_byte: "d < 8 \<Longrightarrow> unat (of_nat (48 + d) :: u8) = 48 + d"
  by (rule unat_of_nat_id) simp

lemma parse_octal_ok:
  assumes "\<forall>d \<in> set ds. d < 8" "octal_value v ds < 2 ^ 32" "0 < ofs + length ds"
  shows "parse_octal_field (digit_bytes ds @ 0 # cs) ofs (of_nat v) = Some (of_nat (octal_value v ds))"
  using assms
proof (induction ds arbitrary: ofs v)
  case Nil
  then show ?case by (simp add: octal_value_def)
next
  case (Cons d ds)
  let ?c = "of_nat (48 + d) :: u8"
  have d: "d < 8" using Cons.prems(1) by simp
  note c = digit_byte [OF d]
  have e: "octal_value v (d # ds) = octal_value (8 * v + d) ds" by (simp add: octal_value_def)
  have lt: "8 * v + d < 2 ^ 32" using octal_value_mono [of "8 * v + d" ds] Cons.prems(2) e by linarith
  have "unat (of_nat v :: u32) = v" using lt by (intro unat_of_nat_id) simp
  moreover have "unat (ULONG_MAX div 8) = 536870911" by (simp add: ULONG_MAX_def unat_div)
  ultimately have le: "\<not> of_nat v > ULONG_MAX div 8" using lt by (simp add: word_less_nat_alt)
  have "unat (?c - 48) = d" using c d by (simp add: unat_sub_if' del: of_nat_add)
  then have "(ucast (?c - 48) :: u32) = of_nat d" by (metis of_nat_unat)
  then have "ucast (?c - 48) + of_nat v * 8 = (of_nat (8 * v + d) :: u32)" by simp
  moreover have "48 \<le> ?c" "?c \<le> 55" using c d by (simp_all add: word_le_nat_alt del: of_nat_add)
  ultimately have "parse_octal_field (digit_bytes (d # ds) @ 0 # cs) ofs (of_nat v) =
      parse_octal_field (digit_bytes ds @ 0 # cs) (Suc ofs) (of_nat (8 * v + d))"
    using le by (simp del: of_nat_add)
  also have "\<dots> = Some (of_nat (octal_value (8 * v + d) ds))" using Cons.prems e by (intro Cons.IH) auto
  finally show ?case using e by simp
qed

lemma base_o_digit: "d < 8 \<Longrightarrow> digits base_o ! d = of_nat (48 + d)"
  by (auto simp: base_o_def bytes_of_def less_Suc_eq numeral_eq_Suc)

abbreviation zero_padded :: "nat \<Rightarrow> printf_conversion" where
  "zero_padded w \<equiv> \<lparr>flags = {ZERO}, width = int w, precision = -1, type_of = INT_T\<rparr>"

lemma int_text_octal:
  assumes "int_buf v base_o (zero_padded w) = Some buf"
  shows "int_text v False False base_o (zero_padded w) buf = digit_bytes (octal_digits w (unat v))"
proof -
  have dl: "digit_loop base_o False v 0 [] = Some (map ((!) (digits base_o)) (num_digits 8 (unat v)))"
    using digit_loop_ok [of base_o v 0 "[]"] by (simp add: base_o_def)
  have len: "length (num_digits 8 (unat v)) \<le> 22"
    using num_digits_length [of 8 "unat v" 22] unsigned_less [of v, where 'a = nat] by simp
  have "map ((!) (digits base_o)) (num_digits 8 (unat v)) = digit_bytes (num_digits 8 (unat v))"
    using base_o_digit num_digits_less by (intro map_cong) auto
  then have "rev buf = digit_bytes (if unat v = 0 then [0] else rev (num_digits 8 (unat v)))"
    using assms dl len by (auto simp: int_buf_def zero_loop_eq rev_map num_digits.simps [of 8 "unat v"] Let_def)
  moreover then have "length buf = length (if unat v = 0 then [0] else rev (num_digits 8 (unat v)))"
    by (metis length_map length_rev)
  ultimately show ?thesis
    by (simp add: int_text_def int_sign_def Let_def octal_digits_def base_o_def map_replicate)
qed

lemma printf_text_octal:
  assumes "parse_conversion (fs @ [111]) [n] = Some ([111], zero_padded w, [n])" "cur (fs @ [111]) \<noteq> 37"
  shows "printf_text m (37 # fs @ [111]) [n] = Some (digit_bytes (octal_digits w (unat n)))"
proof -
  let ?v = "ucast n :: u64"
  obtain buf where b: "int_buf ?v base_o (zero_padded w) = Some buf"
    using format_integer_ok [of base_o ?v "zero_padded w" True True "\<lambda>ch cs. cs @ [ch]" "[]"] by auto
  have cv: "conversion m (\<lambda>ch cs. cs @ [ch]) 111 (zero_padded w) [n] [] = Some ([], int_text ?v False False base_o (zero_padded w) buf)"
    by (simp add: conversion_def format_integer_fold b)
  have nil: "do_vprintf m (\<lambda>ch cs. cs @ [ch]) [] [] cs = Some cs" for cs by (subst do_vprintf.simps) simp
  have "printf_text m (37 # fs @ [111]) [n] = Some (int_text ?v False False base_o (zero_padded w) buf)"
    unfolding printf_text_def using assms by (subst do_vprintf.simps) (simp add: cv nil bytes_of_def)
  then show ?thesis using int_text_octal [OF b] by (simp add: unat_ucast_up)
qed

lemma printf_octal:
  "printf_text m (bytes_of ''%07o'') [n] = Some (digit_bytes (octal_digits 7 (unat n)))"
  "printf_text m (bytes_of ''%011o'') [n] = Some (digit_bytes (octal_digits 11 (unat n)))"
  using printf_text_octal [of "[48, 55]" n 7 m] printf_text_octal [of "[48, 49, 49]" n 11 m]
  by (simp_all add: parse_conversion_def isdigit_def sint_byte bytes_of_def)

subsection \<open>Fields of a header\<close>

lemma fields_apart: "f \<noteq> g \<Longrightarrow> field_ofs f + field_size f \<le> field_ofs g \<or> field_ofs g + field_size g \<le> field_ofs f"
  by (cases f; cases g) simp_all

lemma field_end: "field_ofs f + field_size f \<le> 512" "0 < field_size f"
  by (cases f; simp)+

lemma length_store_field [simp]: "length h = 512 \<Longrightarrow> length bs \<le> field_size f \<Longrightarrow> length (store_field h f bs) = 512"
  using field_end [of f] by (simp add: store_field_def)

lemma field_store_same:
  assumes "length h = 512" "length bs \<le> field_size f"
  shows "field (store_field h f bs) f = bs @ drop (length bs) (field h f)"
proof -
  have "field_ofs f + length bs \<le> 512" using assms(2) field_end [of f] by simp
  then show ?thesis using assms
    by (simp add: field_def store_field_def splice_at_def drop_take min_absorb2 add.commute)
qed

lemma field_store_other:
  assumes "length h = 512" "length bs \<le> field_size g" "f \<noteq> g"
  shows "field (store_field h g bs) f = field h f"
  using fields_apart [OF assms(3)] assms field_end [of f] field_end [of g] unfolding field_def store_field_def
  by (intro splice_at_outside) auto

lemma text_fits: "length (take (field_size f - 1) bs @ [0]) \<le> field_size f"
  using field_end(2) [of f] by simp

lemma length_store_text [simp]: "length h = 512 \<Longrightarrow> length (store_text h f bs) = 512"
  unfolding store_text_def by (intro length_store_field text_fits)

lemma store_text_other: "length h = 512 \<Longrightarrow> f \<noteq> g \<Longrightarrow> field (store_text h g bs) f = field h f"
  unfolding store_text_def by (intro field_store_other text_fits)

lemma store_text_same:
  "length h = 512 \<Longrightarrow> length bs < field_size f \<Longrightarrow> field (store_text h f bs) f = bs @ 0 # drop (Suc (length bs)) (field h f)"
  unfolding store_text_def using field_store_same [of h "take (field_size f - 1) bs @ [0]" f] by simp

lemma length_field: "length h = 512 \<Longrightarrow> length (field h f) = field_size f"
  using field_end [of f] by (simp add: field_def)

lemma field_empty: "field (replicate USTAR_HEADER_SIZE 0) f = replicate (field_size f) 0"
  using field_end [of f] by (simp add: field_def USTAR_HEADER_SIZE_def drop_replicate take_replicate min_absorb1)

lemma length_empty [simp]: "length (replicate USTAR_HEADER_SIZE 0) = 512"
  by (simp add: USTAR_HEADER_SIZE_def)

lemma chksum_store:
  assumes "length h = 512"
  shows "calculate_chksum (store_text h Chksum bs) = calculate_chksum h"
  unfolding calculate_chksum_def
proof (rule foldl_cong [OF refl refl])
  fix c :: u32 and i assume i: "i \<in> set [0 ..< USTAR_HEADER_SIZE]"
  have "store_text h Chksum bs ! i = h ! i" if "\<not> (field_ofs Chksum \<le> i \<and> i < field_ofs Chksum + field_size Chksum)"
    using that i assms text_fits [of Chksum bs]
    by (auto simp: store_text_def store_field_def nth_splice_at USTAR_HEADER_SIZE_def)
  then show "c + (if field_ofs Chksum \<le> i \<and> i < field_ofs Chksum + field_size Chksum then 32 else ucast (store_text h Chksum bs ! i)) =
      c + (if field_ofs Chksum \<le> i \<and> i < field_ofs Chksum + field_size Chksum then 32 else ucast (h ! i))"
    by simp
qed

lemma sum_bytes_bound:
  fixes g :: "nat \<Rightarrow> u32"
  assumes "\<And>i. unat (g i) \<le> 255"
  shows "unat (foldl (\<lambda>c i. c + g i) a is) \<le> unat a + 255 * length is"
proof (induction "is" arbitrary: a)
  case (Cons i "is")
  have "unat (a + g i) \<le> unat a + 255" using assms [of i] unat_plus_if' [of a "g i"] by (auto split: if_splits)
  with Cons [of "a + g i"] show ?case by simp
qed simp

lemma chksum_bound: "unat (calculate_chksum h) < 8 ^ 7"
proof -
  let ?g = "\<lambda>i. if field_ofs Chksum \<le> i \<and> i < field_ofs Chksum + field_size Chksum then 32 else ucast (h ! i) :: u32"
  have "unat (ucast (b :: u8) :: u32) \<le> 255" for b using unsigned_less [of b, where 'a = nat] by (simp add: unat_ucast_up)
  then have "unat (?g i) \<le> 255" for i by simp
  from sum_bytes_bound [of ?g, OF this, of 0 "[0 ..< 512]"] show ?thesis by (simp add: calculate_chksum_def USTAR_HEADER_SIZE_def)
qed

subsection \<open>File names\<close>

definition antisocial :: "u8 list \<Rightarrow> bool" where
  "antisocial s \<longleftrightarrow> take 1 s = [47] \<or> take 2 s = [46, 47] \<or> take 3 s = [46, 46, 47] \<or> s = [] \<or> s = [46, 46]"

lemma strip_social: "\<not> antisocial (strip_antisocial_prefixes s)"
proof -
  have "take 1 (strip_loop s) \<noteq> [47] \<and> take 2 (strip_loop s) \<noteq> [46, 47] \<and> take 3 (strip_loop s) \<noteq> [46, 46, 47]"
  proof (induction s rule: strip_loop.induct)
    case (1 s)
    show ?case
    proof (cases "take 1 s = [47] \<or> take 2 s = [46, 47] \<or> take 3 s = [46, 46, 47]")
      case True
      then have "strip_loop s = strip_loop (after_slash s)" by (subst strip_loop.simps) metis
      then show ?thesis using 1 [OF True] by metis
    next
      case False
      then have "strip_loop s = s" by (subst strip_loop.simps) metis
      then show ?thesis using False by metis
    qed
  qed
  then show ?thesis by (simp add: antisocial_def strip_antisocial_prefixes_def Let_def)
qed

lemma strip_id: "\<not> antisocial s \<Longrightarrow> strip_antisocial_prefixes s = s"
  by (subst strip_antisocial_prefixes_def, subst strip_loop.simps) (auto simp: antisocial_def Let_def)

lemma strip_bytes: "0 \<notin> set s \<Longrightarrow> 0 \<notin> set (strip_antisocial_prefixes s)"
proof -
  have "set (after_slash s) \<subseteq> set s" for s
  proof
    fix c assume "c \<in> set (after_slash s)"
    then have "c \<in> set (dropWhile (\<lambda>c. c \<noteq> 47) s)" unfolding after_slash_def by (cases "dropWhile (\<lambda>c. c \<noteq> 47) s") simp_all
    then show "c \<in> set s" by (rule set_dropWhileD)
  qed
  then have "set (strip_loop s) \<subseteq> set s"
  proof (induction s rule: strip_loop.induct)
    case (1 s)
    then show ?case by (subst strip_loop.simps) (auto dest: subsetD)
  qed
  then show "0 \<notin> set s \<Longrightarrow> 0 \<notin> set (strip_antisocial_prefixes s)" by (auto simp: strip_antisocial_prefixes_def Let_def)
qed

subsection \<open>Properties\<close>

lemma field_stores [simp]:
  "length h = 512 \<Longrightarrow> f \<noteq> Typeflag \<Longrightarrow> field (store_field h Typeflag [b]) f = field h f"
  "length h = 512 \<Longrightarrow> f \<noteq> Version \<Longrightarrow> field (store_field h Version [b, c]) f = field h f"
  "length h = 512 \<Longrightarrow> field (store_field h Typeflag [b]) Typeflag = [b]"
  "length h = 512 \<Longrightarrow> field (store_field h Version [b, c]) Version = [b, c]"
  by (auto simp: field_store_other field_store_same length_field)

lemma field_octal:
  assumes "length h = 512" "field_size f = Suc w" "v < 8 ^ w" "0 < w" "v < 2 ^ 32"
  shows "parse_octal_field (field (store_text h f (digit_bytes (octal_digits w v))) f) 0 0 = Some (of_nat v)"
proof -
  have "length (digit_bytes (octal_digits w v)) < field_size f" using octal_digits_length [OF assms(3,4)] assms(2) by simp
  from store_text_same [OF assms(1) this] show ?thesis
    using parse_octal_ok [of "octal_digits w v" 0 0] octal_digits_less octal_value_digits [of w v] octal_digits_length [OF assms(3,4)] assms(4,5)
    by simp
qed

text \<open>What \<open>ustar_make_header\<close> writes, field by field.\<close>

lemma make_header_fields:
  assumes "type = USTAR_REGULAR \<or> type = USTAR_DIRECTORY" "length (strip_antisocial_prefixes file_name) \<le> 99"
  shows "\<exists>h. ustar_make_header file_name type sz header = Some (True, h) \<and> length h = 512 \<and>
    field h Magic = bytes_of ''ustar'' @ [0] \<and> field h Version = [48, 48] \<and> field h Typeflag = [type_byte type] \<and>
    (\<exists>k. field h Name = strip_antisocial_prefixes file_name @ replicate (Suc k) 0) \<and> field h Prefix = replicate 155 0 \<and>
    parse_octal_field (field h Size) 0 0 = Some sz \<and> parse_octal_field (field h Chksum) 0 0 = Some (calculate_chksum h)"
proof -
  define s0 where "s0 = store_text (replicate USTAR_HEADER_SIZE 0) Name (strip_antisocial_prefixes file_name)"
  define s1 where "s1 = store_text (store_text (store_text s0 Mode (digit_bytes (octal_digits 7 (if type = USTAR_REGULAR then 420 else 493))))
    Uid (bytes_of ''0000000'')) Gid (bytes_of ''0000000'')"
  define s2 where "s2 = store_text s1 Size (digit_bytes (octal_digits 11 (unat sz)))"
  define s3 where "s3 = store_field (store_text s2 Mtime (digit_bytes (octal_digits 11 1136102400))) Typeflag [type_byte type]"
  define s4 where "s4 = store_field (store_text s3 Magic (bytes_of ''ustar'')) Version [48, 48]"
  define s5 where "s5 = store_text (store_text s4 Gname (bytes_of ''root'')) Uname (bytes_of ''root'')"
  define h where "h = store_text s5 Chksum (digit_bytes (octal_digits 7 (unat (calculate_chksum s5))))"
  have l: "length s0 = 512" "length s1 = 512" "length s2 = 512" "length s3 = 512" "length s4 = 512" "length s5 = 512" "length h = 512"
    by (simp_all add: s0_def s1_def s2_def s3_def s4_def s5_def h_def USTAR_HEADER_SIZE_def)
  have "ustar_make_header file_name type sz header = Some (True, h)"
    using assms by (auto simp: ustar_make_header_def store_format_def printf_octal s0_def s1_def s2_def s3_def s4_def s5_def h_def Let_def)
  moreover have "field h Version = [48, 48]"
    using l by (simp add: h_def s5_def s4_def store_text_other)
  moreover have "field h Typeflag = [type_byte type]"
    using l by (simp add: h_def s5_def s4_def s3_def store_text_other)
  moreover have "field h Magic = bytes_of ''ustar'' @ [0]"
    using l by (simp add: h_def s5_def s4_def store_text_other store_text_same bytes_of_def length_field)
  moreover have keep: "field h f = field s0 f" if "f \<in> {Name, Prefix}" for f
    using l that by (auto simp: h_def s5_def s4_def s3_def s2_def s1_def store_text_other)
  have "field h Name = strip_antisocial_prefixes file_name @ replicate (Suc (99 - length (strip_antisocial_prefixes file_name))) 0"
    using assms(2) unfolding keep [of Name, simplified] s0_def
    by (subst store_text_same) (simp_all add: field_empty drop_replicate del: length_replicate)
  moreover have "field h Prefix = replicate 155 0"
    unfolding keep [of Prefix, simplified] s0_def by (subst store_text_other) (simp_all add: field_empty del: length_replicate)
  moreover have "field h Size = field s2 Size"
    using l by (simp add: h_def s5_def s4_def s3_def store_text_other)
  moreover have "parse_octal_field (field s2 Size) 0 0 = Some sz"
    using field_octal [OF l(2), of Size 11 "unat sz"] unsigned_less [of sz, where 'a = nat] by (simp add: s2_def)
  moreover have "parse_octal_field (field h Chksum) 0 0 = Some (calculate_chksum h)"
    using field_octal [OF l(6), of Chksum 7 "unat (calculate_chksum s5)"] chksum_bound [of s5] chksum_store [OF l(6)] by (simp add: h_def)
  ultimately show ?thesis using l(7)
    by (intro exI [of _ h] conjI exI [of _ "99 - length (strip_antisocial_prefixes file_name)"]) simp_all
qed

text \<open>
  C20. A header that \<open>ustar_make_header\<close> writes is read back by \<open>ustar_parse_header\<close>: the checksum is
  right, the name is the one given without prefixes that lead out of the directory, type and size are
  the ones given (a directory has size 0, a size beyond the range of \<open>int\<close> is refused); it fails exactly
  on names of more than 99 bytes.
\<close>

theorem ustar_roundtrip:
  assumes "type = USTAR_REGULAR \<or> type = USTAR_DIRECTORY" "0 \<notin> set file_name" "name = strip_antisocial_prefixes file_name"
  shows "\<not> antisocial name \<and>
    (if length name > 99 then ustar_make_header file_name type sz header = Some (False, header)
     else \<exists>h. ustar_make_header file_name type sz header = Some (True, h) \<and> length h = 512 \<and>
       ustar_parse_header h = (if type = USTAR_DIRECTORY then Inr (Some name, USTAR_DIRECTORY, 0)
         else if sz > INT_MAX then Inl ''file too large'' else Inr (Some name, USTAR_REGULAR, sz)))"
proof (cases "length name > 99")
  case True
  then show ?thesis using assms strip_social by (auto simp: ustar_make_header_def)
next
  case False
  then obtain h k where h: "ustar_make_header file_name type sz header = Some (True, h)" "length h = 512"
      "field h Magic = bytes_of ''ustar'' @ [0]" "field h Version = [48, 48]" "field h Typeflag = [type_byte type]"
      "field h Name = name @ replicate (Suc k) 0" "field h Prefix = replicate 155 0"
      "parse_octal_field (field h Size) 0 0 = Some sz" "parse_octal_field (field h Chksum) 0 0 = Some (calculate_chksum h)"
    using make_header_fields [OF assms(1), of file_name sz header] assms(3) by auto
  have n: "takeWhile (\<lambda>c. c \<noteq> 0) (field h Name) = name"
    using strip_bytes [OF assms(2)] assms(3) h(6) by (auto simp: takeWhile_append)
  have "length (field h Name) = 100" using length_field [OF h(2), of Name] by simp
  then have n99: "field h Name ! 99 = 0" using h(6) False by (auto simp: nth_append nth_Cons')
  have p: "field h Prefix ! 0 = 0" using h(7) by simp
  have "48 \<in> set (field h Version)" using h(4) by simp
  then have "48 \<in> set (take USTAR_HEADER_SIZE h)" using h(2) by (auto simp: field_def USTAR_HEADER_SIZE_def dest!: in_set_takeD in_set_dropD)
  then have "\<not> is_all_zeros (take USTAR_HEADER_SIZE h)" by (force simp: is_all_zeros_def list_all_iff)
  then have "ustar_parse_header h = (if type = USTAR_DIRECTORY then Inr (Some name, USTAR_DIRECTORY, 0)
         else if sz > INT_MAX then Inl ''file too large'' else Inr (Some name, USTAR_REGULAR, sz))"
    using assms(1) h(3-5,8,9) n n99 p strip_id [OF strip_social [of file_name]] assms(3)
    by (auto simp: ustar_parse_header_def Let_def)
  then show ?thesis using False h(1,2) strip_social assms(3) by auto
qed

text \<open>The name \<open>../a\<close> becomes \<open>a\<close>.\<close>

theorem ustar_roundtrip_witness:
  "\<exists>h. ustar_make_header [46, 46, 47, 97] USTAR_REGULAR 1000 [] = Some (True, h) \<and>
     ustar_parse_header h = Inr (Some [97], USTAR_REGULAR, 1000)"
proof -
  have "strip_antisocial_prefixes [46, 46, 47, 97] = [97]"
    by (simp add: strip_antisocial_prefixes_def strip_loop.simps after_slash_def)
  from ustar_roundtrip [OF _ _ this [symmetric], of USTAR_REGULAR 1000 "[]"] show ?thesis by (auto simp: INT_MAX_def)
qed

end
