(* ===== verification/Intq.thy ===== *)
theory Intq
  imports Threads
begin

text \<open>
  Interrupt queues (src/proj-pregame/src/devices/intq.c): circular buffers of bytes between interrupt
  handlers and threads, with at most one thread waiting for each condition. A call that has to wait
  puts the running thread to sleep and has no result yet: when the thread runs again it is at the head
  of the loop, which is the call again. The lock that keeps a second thread from waiting at the same
  time is left out.
\<close>

subsection \<open>The C functions\<close>

definition INTQ_BUFSIZE :: nat where "INTQ_BUFSIZE = 64"

record intq =
  not_full :: addr
  not_empty :: addr
  buf :: "u8 list"
  head :: nat
  tail :: nat

definition intq_init :: "intq \<Rightarrow> intq" where
  "intq_init q = q\<lparr>not_full := 0, not_empty := 0, head := 0, tail := 0\<rparr>"

definition next_pos :: "nat \<Rightarrow> nat" where
  "next_pos pos = (pos + 1) mod INTQ_BUFSIZE"

definition intq_empty :: "intq \<Rightarrow> sched \<Rightarrow> bool option" where
  "intq_empty q k = do { ASSERT (\<not> intr_on k); Some (head q = tail q) }"

definition intq_full :: "intq \<Rightarrow> sched \<Rightarrow> bool option" where
  "intq_full q k = do { ASSERT (\<not> intr_on k); Some (next_pos (head q) = tail q) }"

text \<open>\<open>wait\<close> and \<open>signal\<close> take the address of a member of the queue: one of the two conditions.\<close>

datatype waiter = Not_Full | Not_Empty

fun waiting :: "waiter \<Rightarrow> intq \<Rightarrow> addr" where
  "waiting Not_Full q = not_full q"
| "waiting Not_Empty q = not_empty q"

fun set_waiting :: "waiter \<Rightarrow> addr \<Rightarrow> intq \<Rightarrow> intq" where
  "set_waiting Not_Full t q = q\<lparr>not_full := t\<rparr>"
| "set_waiting Not_Empty t q = q\<lparr>not_empty := t\<rparr>"

definition intq_wait :: "waiter \<Rightarrow> intq \<Rightarrow> sched \<Rightarrow> (intq \<times> sched) option" where
  "intq_wait w q k = do {
     ASSERT (\<not> in_external_intr k);
     ASSERT (\<not> intr_on k);
     e \<leftarrow> intq_empty q k;
     f \<leftarrow> intq_full q k;
     ASSERT (w = Not_Empty \<and> e \<or> w = Not_Full \<and> f);
     t \<leftarrow> thread_current k;
     k \<leftarrow> thread_block k;
     Some (set_waiting w t q, k)
   }"

definition intq_signal :: "waiter \<Rightarrow> intq \<Rightarrow> sched \<Rightarrow> (intq \<times> sched) option" where
  "intq_signal w q k = do {
     ASSERT (\<not> intr_on k);
     e \<leftarrow> intq_empty q k;
     f \<leftarrow> intq_full q k;
     ASSERT (w = Not_Empty \<and> \<not> e \<or> w = Not_Full \<and> \<not> f);
     if waiting w q \<noteq> 0 then do {
       k \<leftarrow> thread_unblock (waiting w q) k;
       Some (set_waiting w 0 q, k)
     } else Some (q, k)
   }"

text \<open>The result is \<open>None\<close> when the caller sleeps.\<close>

definition intq_getc :: "intq \<Rightarrow> sched \<Rightarrow> (u8 option \<times> intq \<times> sched) option" where
  "intq_getc q k = do {
     ASSERT (\<not> intr_on k);
     e \<leftarrow> intq_empty q k;
     if e then do {
       ASSERT (\<not> in_external_intr k);
       (q, k) \<leftarrow> intq_wait Not_Empty q k;
       Some (None, q, k)
     } else do {
       let byte = buf q ! tail q;
       let q = q\<lparr>tail := next_pos (tail q)\<rparr>;
       (q, k) \<leftarrow> intq_signal Not_Full q k;
       Some (Some byte, q, k)
     }
   }"

definition intq_putc :: "intq \<Rightarrow> u8 \<Rightarrow> sched \<Rightarrow> (bool \<times> intq \<times> sched) option" where
  "intq_putc q byte k = do {
     ASSERT (\<not> intr_on k);
     f \<leftarrow> intq_full q k;
     if f then do {
       ASSERT (\<not> in_external_intr k);
       (q, k) \<leftarrow> intq_wait Not_Full q k;
       Some (False, q, k)
     } else do {
       let q = q\<lparr>buf := (buf q)[head q := byte]\<rparr>;
       let q = q\<lparr>head := next_pos (head q)\<rparr>;
       (q, k) \<leftarrow> intq_signal Not_Empty q k;
       Some (True, q, k)
     }
   }"

subsection \<open>A bounded queue\<close>

definition intq_len :: "intq \<Rightarrow> nat" where
  "intq_len q = (head q + INTQ_BUFSIZE - tail q) mod INTQ_BUFSIZE"

definition intq_bytes :: "intq \<Rightarrow> u8 list" where
  "intq_bytes q = map (\<lambda>i. buf q ! ((tail q + i) mod INTQ_BUFSIZE)) [0 ..< intq_len q]"

definition intq_ok :: "intq \<Rightarrow> bool" where
  "intq_ok q \<longleftrightarrow> length (buf q) = INTQ_BUFSIZE \<and> head q < INTQ_BUFSIZE \<and> tail q < INTQ_BUFSIZE"

lemma mod_step: "(a :: nat) < 64 \<Longrightarrow> Suc a mod 64 = (if a = 63 then 0 else Suc a)"
  by (auto simp: mod_Suc)

lemma len_cases: "intq_ok q \<Longrightarrow> intq_len q = (if tail q \<le> head q then head q - tail q else head q + 64 - tail q)"
  by (auto simp: intq_ok_def intq_len_def INTQ_BUFSIZE_def le_mod_geq)

lemma empty_len: "intq_ok q \<Longrightarrow> head q = tail q \<longleftrightarrow> intq_bytes q = []"
  by (auto simp: len_cases intq_bytes_def intq_ok_def INTQ_BUFSIZE_def split: if_splits)

lemma full_len: "intq_ok q \<Longrightarrow> next_pos (head q) = tail q \<longleftrightarrow> length (intq_bytes q) = 63"
  by (auto simp: len_cases intq_bytes_def intq_ok_def INTQ_BUFSIZE_def next_pos_def mod_step split: if_splits)

lemma take_byte:
  assumes "intq_ok q" "head q \<noteq> tail q"
  shows "intq_ok (q\<lparr>tail := next_pos (tail q)\<rparr>)" "intq_bytes q = buf q ! tail q # intq_bytes (q\<lparr>tail := next_pos (tail q)\<rparr>)"
    "next_pos (head q) \<noteq> next_pos (tail q)"
proof -
  let ?q = "q\<lparr>tail := next_pos (tail q)\<rparr>"
  show ok: "intq_ok ?q" using assms(1) by (simp add: intq_ok_def next_pos_def INTQ_BUFSIZE_def)
  have b: "head q < 64" "tail q < 64" using assms(1) by (simp_all add: intq_ok_def INTQ_BUFSIZE_def)
  then show "next_pos (head q) \<noteq> next_pos (tail q)" using assms(2) by (auto simp: next_pos_def INTQ_BUFSIZE_def mod_step split: if_splits)
  have l: "intq_len q = Suc (intq_len ?q)"
    unfolding len_cases [OF assms(1)] len_cases [OF ok] using assms(2) b by (auto simp: next_pos_def INTQ_BUFSIZE_def mod_step)
  have "[0 ..< Suc n] = 0 # map Suc [0 ..< n]" for n by (simp add: map_Suc_upt upt_conv_Cons del: upt_Suc)
  moreover have "(next_pos (tail q) + i) mod INTQ_BUFSIZE = (tail q + Suc i) mod INTQ_BUFSIZE" for i
    by (simp add: next_pos_def mod_add_left_eq)
  ultimately show "intq_bytes q = buf q ! tail q # intq_bytes ?q"
    unfolding intq_bytes_def l using b by (simp add: INTQ_BUFSIZE_def)
qed

lemma add_byte:
  fixes c :: u8
  assumes "intq_ok q" "next_pos (head q) \<noteq> tail q"
  defines "q' \<equiv> q\<lparr>buf := (buf q)[head q := c], head := next_pos (head q)\<rparr>"
  shows "intq_ok q'" "intq_bytes q' = intq_bytes q @ [c]"
proof -
  show ok: "intq_ok q'" using assms(1) by (simp add: intq_ok_def q'_def next_pos_def INTQ_BUFSIZE_def)
  have b: "head q < 64" "tail q < 64" "length (buf q) = 64" using assms(1) by (simp_all add: intq_ok_def INTQ_BUFSIZE_def)
  have l: "intq_len q' = Suc (intq_len q)"
    unfolding len_cases [OF assms(1)] len_cases [OF ok] using assms(2) b by (auto simp: q'_def next_pos_def INTQ_BUFSIZE_def mod_step)
  have h: "(tail q + intq_len q) mod INTQ_BUFSIZE = head q"
    unfolding len_cases [OF assms(1)] INTQ_BUFSIZE_def using b by auto
  have "head q \<noteq> (tail q + i) mod INTQ_BUFSIZE" if "i < intq_len q" for i
  proof -
    have "i < 64" using that b unfolding len_cases [OF assms(1)] by (auto split: if_splits)
    then have "(tail q + i) mod 64 = (if tail q + i < 64 then tail q + i else tail q + i - 64)" using b by (simp add: le_mod_geq)
    then show ?thesis using that b unfolding len_cases [OF assms(1)] INTQ_BUFSIZE_def by (auto split: if_splits)
  qed
  then show "intq_bytes q' = intq_bytes q @ [c]"
    unfolding intq_bytes_def l using h b by (auto simp: q'_def)
qed

subsection \<open>The queue in an interrupt handler\<close>

text \<open>
  A thread that waits for a condition is blocked, so that it can be woken, and no thread waits for
  both conditions.
\<close>

definition handler_ok :: "intq \<Rightarrow> sched \<Rightarrow> bool" where
  "handler_ok q k \<longleftrightarrow> \<not> intr_on k \<and> in_external_intr k \<and> active_sched_policy k = SCHED_FIFO \<and>
     (not_full q \<noteq> 0 \<longrightarrow> not_full q \<noteq> not_empty q) \<and>
     (\<forall>t \<in> {not_full q, not_empty q}. t \<noteq> 0 \<longrightarrow> is_thread k t \<and> has_status k t THREAD_BLOCKED)"

lemma unblock_waiter:
  assumes "is_thread k t" "has_status k t THREAD_BLOCKED" "\<not> intr_on k" "active_sched_policy k = SCHED_FIFO"
  shows "\<exists>k'. thread_unblock t k = Some k' \<and> \<not> intr_on k' \<and> in_external_intr k' = in_external_intr k \<and>
    active_sched_policy k' = SCHED_FIFO \<and> fifo_ready_list k' = fifo_ready_list k @ [t] \<and>
    (\<forall>u. is_thread k' u = is_thread k u) \<and> (\<forall>u s. u \<noteq> t \<longrightarrow> has_status k' u s = has_status k u s)"
  using assms
  by (auto simp: thread_unblock_def thread_enqueue_def intr_disable_def intr_set_level_def set_status_def upd_thread_def
      is_thread_def has_status_def split: option.splits)

lemma signal_ok:
  assumes h: "handler_ok q k" and c: "w = Not_Empty \<and> head q \<noteq> tail q \<or> w = Not_Full \<and> next_pos (head q) \<noteq> tail q"
  shows "\<exists>k'. intq_signal w q k = Some (set_waiting w 0 q, k') \<and> handler_ok (set_waiting w 0 q) k' \<and>
    fifo_ready_list k' = fifo_ready_list k @ (if waiting w q = 0 then [] else [waiting w q])"
proof -
  have off: "\<not> intr_on k" using h by (simp add: handler_ok_def)
  have s: "intq_signal w q k = (if waiting w q \<noteq> 0 then do { k \<leftarrow> thread_unblock (waiting w q) k; Some (set_waiting w 0 q, k) } else Some (q, k))"
    using off c by (auto simp: intq_signal_def intq_empty_def intq_full_def)
  show ?thesis
  proof (cases "waiting w q = 0")
    case True
    then have "set_waiting w 0 q = q" by (cases w) simp_all
    then show ?thesis using s True h by simp
  next
    case False
    then have "is_thread k (waiting w q)" "has_status k (waiting w q) THREAD_BLOCKED" using h by (cases w; simp add: handler_ok_def)+
    from unblock_waiter [OF this off] h False s show ?thesis
      by (cases w) (auto simp: handler_ok_def)
  qed
qed

text \<open>
  Operations of a handler, on the queue and on what it stands for: a list of at most 63 bytes, the
  threads that wait, and the ready list, to which a thread goes as soon as what it waits for holds.
\<close>

datatype intq_op = Put u8 | Get

fun exec_intq :: "intq \<times> sched \<Rightarrow> intq_op \<Rightarrow> (u8 option \<times> intq \<times> sched) option" where
  "exec_intq (q, k) (Put c) = do { (_, q, k) \<leftarrow> intq_putc q c k; Some (None, q, k) }"
| "exec_intq (q, k) Get = intq_getc q k"

type_synonym abs_queue = "u8 list \<times> addr \<times> addr \<times> addr list"

abbreviation wake :: "addr \<Rightarrow> addr list" where
  "wake t \<equiv> if t = 0 then [] else [t]"

fun spec_intq :: "abs_queue \<Rightarrow> intq_op \<Rightarrow> (u8 option \<times> abs_queue) option" where
  "spec_intq (xs, nf, ne, ready) (Put c) = (if length xs < 63 then Some (None, xs @ [c], nf, 0, ready @ wake ne) else None)"
| "spec_intq ([], nf, ne, ready) Get = None"
| "spec_intq (x # xs, nf, ne, ready) Get = Some (Some x, xs, 0, ne, ready @ wake nf)"

definition intq_rep :: "intq \<times> sched \<Rightarrow> abs_queue \<Rightarrow> bool" where
  "intq_rep s a \<longleftrightarrow> intq_ok (fst s) \<and> handler_ok (fst s) (snd s) \<and>
     a = (intq_bytes (fst s), not_full (fst s), not_empty (fst s), fifo_ready_list (snd s))"

lemma waiting_rep: "intq_ok (set_waiting w t q) = intq_ok q" "intq_bytes (set_waiting w t q) = intq_bytes q"
  by (cases w; simp add: intq_ok_def intq_bytes_def intq_len_def)+

lemma bytes_bound: "intq_ok q \<Longrightarrow> length (intq_bytes q) \<le> 63"
  by (auto simp: intq_bytes_def intq_len_def INTQ_BUFSIZE_def less_Suc_eq_le [symmetric])

interpretation intq_handler: op_refinement intq_rep exec_intq spec_intq "\<lambda>_ _. True"
proof
  fix s :: "intq \<times> sched" and a op
  obtain q k where s: "s = (q, k)" by force
  assume "intq_rep s a"
  then have r: "intq_ok q" "handler_ok q k" "a = (intq_bytes q, not_full q, not_empty q, fifo_ready_list k)" by (simp_all add: intq_rep_def s)
  have off: "\<not> intr_on k" "in_external_intr k" using r(2) by (simp_all add: handler_ok_def)
  note e = empty_len [OF r(1)] and f = full_len [OF r(1)]
  show "case spec_intq a op of None \<Rightarrow> exec_intq s op = None | Some (x, a') \<Rightarrow> \<exists>s'. exec_intq s op = Some (x, s') \<and> intq_rep s' a'"
  proof (cases op)
    case (Put c)
    let ?q = "q\<lparr>buf := (buf q)[head q := c], head := next_pos (head q)\<rparr>"
    show ?thesis
    proof (cases "length (intq_bytes q) = 63")
      case True
      then show ?thesis using Put off f r(3) by (simp add: s intq_putc_def intq_full_def)
    next
      case False
      then have n: "next_pos (head q) \<noteq> tail q" using f by simp
      note b = add_byte [OF r(1) n, of c]
      have "handler_ok ?q k" "head ?q \<noteq> tail ?q" using r(2) n by (simp_all add: handler_ok_def)
      from signal_ok [OF this(1), of Not_Empty] this(2) obtain k' where
        k: "intq_signal Not_Empty ?q k = Some (set_waiting Not_Empty 0 ?q, k')" "handler_ok (set_waiting Not_Empty 0 ?q) k'"
          "fifo_ready_list k' = fifo_ready_list k @ wake (not_empty q)" by auto
      have "exec_intq s op = Some (None, set_waiting Not_Empty 0 ?q, k')"
        using Put off n k(1) by (simp add: s intq_putc_def intq_full_def)
      moreover have "intq_rep (set_waiting Not_Empty 0 ?q, k') (intq_bytes q @ [c], not_full q, 0, fifo_ready_list k @ wake (not_empty q))"
        unfolding intq_rep_def fst_conv snd_conv waiting_rep using b k by simp
      ultimately show ?thesis using Put False r(3) bytes_bound [OF r(1)] by simp
    qed
  next
    case Get
    let ?q = "q\<lparr>tail := next_pos (tail q)\<rparr>"
    show ?thesis
    proof (cases "intq_bytes q")
      case Nil
      then show ?thesis using Get off e r(3) by (simp add: s intq_getc_def intq_empty_def)
    next
      case (Cons x ys)
      then have n: "head q \<noteq> tail q" using e by simp
      note t = take_byte [OF r(1) n]
      have "handler_ok ?q k" "next_pos (head ?q) \<noteq> tail ?q" using r(2) t(3) by (simp_all add: handler_ok_def)
      from signal_ok [OF this(1), of Not_Full] this(2) obtain k' where
        k: "intq_signal Not_Full ?q k = Some (set_waiting Not_Full 0 ?q, k')" "handler_ok (set_waiting Not_Full 0 ?q) k'"
          "fifo_ready_list k' = fifo_ready_list k @ wake (not_full q)" by auto
      have "exec_intq s op = Some (Some x, set_waiting Not_Full 0 ?q, k')"
        using Get off n k(1) t(2) Cons by (simp add: s intq_getc_def intq_empty_def)
      moreover have "intq_rep (set_waiting Not_Full 0 ?q, k') (ys, 0, not_empty q, fifo_ready_list k @ wake (not_full q))"
        unfolding intq_rep_def fst_conv snd_conv waiting_rep using t Cons k by simp
      ultimately show ?thesis using Get Cons r(3) by simp
    qed
  qed
qed

subsection \<open>Property\<close>

lemma no_pre: "ops_pre st (\<lambda>_ _. True) s ops"
  by (induction ops arbitrary: s) (auto split: option.splits)

text \<open>
  C21. In an interrupt handler the queue is a first-in first-out buffer of 63 bytes, over any sequence
  of \<open>intq_putc\<close> and \<open>intq_getc\<close> and across the end of the array: a call panics exactly if the buffer is
  full or empty, and a thread that waits for the buffer to have a byte, or room for one, is on the ready
  list right after the call that makes it so.
\<close>

theorem intq_handler_queue:
  assumes "intq_rep s a"
  shows "case run_ops spec_intq a ops of
      None \<Rightarrow> run_ops exec_intq s ops = None
    | Some (rs, a') \<Rightarrow> \<exists>s'. run_ops exec_intq s ops = Some (rs, s') \<and> intq_rep s' a'"
  using assms no_pre by (rule intq_handler.run_refines)

text \<open>A thread waits for a byte; the interrupt puts two, at the end of the array and at its beginning.\<close>

definition demo_queue :: intq where
  "demo_queue = \<lparr>not_full = 0, not_empty = 4096, buf = replicate 64 0, head = 63, tail = 63\<rparr>"

definition demo_sched :: sched where
  "demo_sched = \<lparr>threads = [4096 \<mapsto> \<lparr>tid = 1, status = THREAD_BLOCKED, tname = [], stack = 8192, priority = 31, pcb = 0,
       magic = THREAD_MAGIC, frames = []\<rparr>], fifo_ready_list = [], all_list = [4096], idle_thread = 0, initial_thread = 0,
     running_thread = 0, intr_on = False, in_external_intr = True, yield_on_return = False, thread_ticks = 0, idle_ticks = 0,
     kernel_ticks = 0, user_ticks = 0, next_tid = 2, active_sched_policy = SCHED_FIFO, ticks = 0, loops_per_tick = 1\<rparr>"

theorem intq_handler_queue_witness:
  "\<exists>s'. run_ops exec_intq (demo_queue, demo_sched) [Put 65, Put 66, Get] = Some ([None, None, Some 65], s') \<and>
     intq_rep s' ([66], 0, 0, [4096])"
proof -
  have "intq_rep (demo_queue, demo_sched) ([], 0, 4096, [])"
    by (simp add: intq_rep_def demo_queue_def demo_sched_def handler_ok_def is_thread_def has_status_def intq_ok_def INTQ_BUFSIZE_def
        intq_bytes_def intq_len_def)
  from intq_handler_queue [OF this, of "[Put 65, Put 66, Get]"] show ?thesis by simp
qed

end
