(* ===== verification/Spec2Isabelle.thy ===== *)
theory Spec2Isabelle
  imports Kernel_List_Interface Bitmap Hash Arith64 Random_Gen Fixed_Point Malloc_Proofs Stdio Synch_Properties Process_Properties Tokenizer Ustar Intq
begin

text \<open>
  Verification of the Pintos kernel (src/proj-pregame/src; src/hw-memory/pintos/src holds a second
  copy of most files), and of the tokenizer of the shell (src/hw-shell/tokenizer.c).

  The parts of the program and how they interact. Threads (threads/thread.c) are scheduled first-in
  first-out and are preempted by the timer interrupt (threads/interrupt.c, devices/timer.c);
  semaphores, locks, condition variables and readers-writers locks (threads/synch.c) put them to
  sleep and wake them. Pages of memory come from the page allocator (threads/palloc.c), which keeps
  a bitmap (lib/kernel/bitmap.c) per pool; the block allocator (threads/malloc.c) cuts them into
  blocks, and page directories (userprog/pagedir.c) map them into the memory of user programs, which
  the loader (userprog/process.c) fills from an ELF file. The file system (filesys/) keeps inodes, directories and a free map on a block device
  (devices/block.c); the free map is a bitmap again, stored in a file. Interrupt handlers hand bytes
  to threads through interrupt queues (devices/intq.c). All of it rests on the
  libraries: lists and hash tables (lib/kernel), strings, sorting and conversions (lib/string.c,
  lib/stdlib.c), formatted output (lib/stdio.c, lib/kernel/console.c), 64-bit division
  (lib/arithmetic.c), random numbers (lib/random.c), fixed-point numbers (threads/fixed-point.h).

  How the code is modelled. A C function is a HOL function on an explicit state, with \<open>None\<close> for a
  failed \<open>ASSERT\<close>, a \<open>PANIC\<close> or undefined behaviour such as a null pointer that is followed; so a
  theorem that the result is \<open>Some\<close> says that the function returns. Unsigned integers and addresses
  are words, \<open>u8\<close> to \<open>u64\<close>, so that overflow is that of the machine; structures are records. Loops
  are recursive functions with a termination proof; loops over linked memory that may not end are
  \<open>partial_function (option)\<close>, and the theorems prove that they do end. No fuel is used. Requests for
  memory and free pages that may fail are parameters or part of the state, so that every theorem
  covers failure.

  The theories:
  \<^item> \<open>Prelude\<close>: types, the assertion \<open>ASSERT\<close>, shared lemmas, and the locale \<open>op_refinement\<close> for
    sequences of operations. \<open>Region_Alloc\<close>, \<open>Dictionary\<close>, \<open>Lock_Interface\<close>: the contracts
    (locales) that allocators of runs, finite maps and locks promise their clients, each proved once
    and interpreted for bitmaps, the page allocator and the free map, for hash tables, and for the
    locks of the kernel.
  \<^item> \<open>Kernel_List\<close>, \<open>Kernel_List_Sort\<close>, \<open>Kernel_List_Interface\<close>: list.c on next and prev pointers
    in a heap. Operations refine HOL lists; \<open>list_sort\<close>, a natural merge sort in place, terminates
    and sorts stably; ordered insertion, unique, minimum and maximum.
  \<^item> \<open>Bitmap\<close>, \<open>Hash\<close>, \<open>Arith64\<close>, \<open>Random_Gen\<close>, \<open>Fixed_Point\<close>: these libraries, with equivalence
    to sets of bits, finite maps, and division of integers.
  \<^item> \<open>Vaddr\<close>, \<open>Palloc\<close>, \<open>Malloc\<close>, \<open>Malloc_Proofs\<close>: addresses and the two allocators. Runs of pages
    in use are disjoint and nothing leaks; blocks in use are disjoint and keep their contents;
    \<open>free\<close> of a block in use does not fail.
  \<^item> \<open>Pagedir\<close>: page directories and page tables in the memory of the page allocator; they implement
    a partial map from user pages to frames.
  \<^item> \<open>Bytes\<close>, \<open>Block_Device\<close>, \<open>Inode_Data\<close>, \<open>Free_Map\<close>, \<open>Inode\<close>, \<open>File_Ops\<close>, \<open>Directory\<close>,
    \<open>Filesys\<close>: the file system down to the bytes on disk. Reading returns what was written, writing
    touches no other file, directories implement a finite map from names to sectors, and a bitmap
    survives being stored in a file.
  \<^item> \<open>Process\<close>: user processes and the ELF loader, over the page directories and the file system.
    \<open>Address_Space\<close>, \<open>Loader\<close>, \<open>Elf_Loader\<close>, \<open>Process_Properties\<close>: user memory as a function of
    addresses, one page, one segment, all program headers, and a whole executable. \<open>load\<close> returns on
    every file; when it succeeds each segment is in memory, the rest of its pages is zero and the
    stack is mapped; it does succeed on a well-formed executable that fits in the free pages; and
    \<open>start_process\<close> does not give back the pages of an executable that it could not load.
  \<^item> \<open>Cstring\<close>, \<open>Stdlib\<close>, \<open>Stdio\<close>: the C library. Copying, tokens, heap sort, binary search,
    \<open>atoi\<close>, \<open>printf\<close> conversions; \<open>vsnprintf\<close> stays within its buffer.
  \<^item> \<open>Threads\<close>, \<open>Timer\<close>, \<open>Synch\<close>: threads, timer and synchronisation. A thread that sleeps or is
    preempted has the rest of its work on its stack as a list of return points; \<open>resume\<close> runs the
    first of them. \<open>Synch_Proofs\<close>, \<open>Synch_Steps\<close>, \<open>Synch_Invariant\<close>, \<open>Synch_Reach\<close>,
    \<open>Synch_Frames\<close>, \<open>Synch_Properties\<close>: the kernel as a step relation (a return point, an operation,
    a timer interrupt), its invariant by induction over the reachable states, and what follows: queues
    of threads, mutual exclusion, first-in first-out scheduling, \<open>timer_sleep\<close>, and when the
    functions on locks fail an assertion.

  \<^item> \<open>Intq\<close>: interrupt queues are bounded first-in first-out buffers for a handler, and wake the
    thread that waits.
  \<^item> \<open>Ustar\<close>: headers of archives (lib/ustar.c), whose writer and reader are inverse.
  \<^item> \<open>Tokenizer\<close>: the words of a command line, with the heap of the host; quoting and splitting are
    inverse, nothing leaks and the buffer is never overrun.

  Bounds. Theorems on memory assume machines with 258 to 262143 pages, as \<open>palloc_init\<close> needs for its
  bitmaps and the kernel's 1 GB of address space allows; file offsets and sizes are below \<open>2 ^ 31\<close>,
  the range of \<open>off_t\<close>; command lines have less than \<open>2 ^ 32\<close> bytes, the range of the tokenizer's
  index. Thread identifiers and the counters of readers-writers locks are integers:
  they count threads.

  Not modelled. The locks that the allocators, the free map and the console take around their work:
  one operation there is one critical section (the locks themselves are in \<open>Synch\<close>), and the lock of
  an interrupt queue. The assembly of
  the context switch (switch.S) and of interrupt entry, descriptor tables, and device drivers, which
  are input and output on ports; \<open>timer_calibrate\<close>, which measures real time; start-up (init.c) and
  output for debugging; of userprog/, \<open>process_execute\<close> and \<open>process_wait\<close>, which only create a thread
  and wait for it, the task state segment, the system call handler, and page faults; the
  floating-point conversion of \<open>printf\<close>. The other exercises of the repository (the rest of the shell,
  HTTP server, word count, map-reduce, user-level allocator) work on the host operating system or on third-party
  libraries.
\<close>

end
